(* ===== verification/Prelude.thy ===== *)
theory Prelude
  imports Main "HOL-Library.Word"
begin

text \<open>
  The shared layer of the development: the types that stand for Rust's machine data, the two
  result shapes of the code, the little- and big-endian byte encodings of the standard library, and
  the collections of rewrite rules that the component theories extend.

  \<^item> A byte is an \<open>8 word\<close>; a byte slice, vector or array is a list of bytes.
  \<^item> \<open>Result\<close> is the sum type, \<open>Inl\<close> for the error.
  \<^item> A method on \<open>&mut self\<close> that may fail is an \<open>op\<close>: it returns the result together
    with the state it leaves behind, also when it fails, because Rust keeps what was written
    before an early return.
  \<^item> \<open>usize\<close> is a natural number below \<open>2 ^ 64\<close> (the crates are built for 64-bit targets), with
    the checked and saturating operations written out.
\<close>

section \<open>Collections of rewrite rules\<close>

named_theorems op_simps \<open>evaluation rules of the state and error operations\<close>
named_theorems parse_intros \<open>byte strings that a cursor operation reads back\<close>
named_theorems byte_eval \<open>evaluation of encodings on numerals\<close>
named_theorems byte_len \<open>lengths of encodings\<close>

section \<open>Types\<close>

type_synonym byte = "8 word"
type_synonym bytes = "byte list"
type_synonym ('s, 'e, 'a) op = "'s \<Rightarrow> ('e + 'a) \<times> 's"

section \<open>The state and error operations\<close>

definition op_return :: "'a \<Rightarrow> ('s, 'e, 'a) op" where
  "op_return x s = (Inr x, s)"

definition op_fail :: "'e \<Rightarrow> ('s, 'e, 'a) op" where
  "op_fail e s = (Inl e, s)"

definition op_bind :: "('s, 'e, 'a) op \<Rightarrow> ('a \<Rightarrow> ('s, 'e, 'b) op) \<Rightarrow> ('s, 'e, 'b) op" where
  "op_bind m f s = (case m s of (Inl e, t) \<Rightarrow> (Inl e, t) | (Inr x, t) \<Rightarrow> f x t)"

definition op_lift :: "'e + 'a \<Rightarrow> ('s, 'e, 'a) op" where
  "op_lift r s = (r, s)"

definition op_guard :: "bool \<Rightarrow> 'e \<Rightarrow> ('s, 'e, unit) op" where
  "op_guard b e s = (if b then (Inr (), s) else (Inl e, s))"

text \<open>The \<open>?\<close> operator on a plain result, \<open>map_err\<close> and \<open>ok_or\<close>.\<close>

definition rbind :: "'e + 'a \<Rightarrow> ('a \<Rightarrow> 'e + 'b) \<Rightarrow> 'e + 'b" where
  "rbind r f = (case r of Inl e \<Rightarrow> Inl e | Inr x \<Rightarrow> f x)"

definition map_err :: "('e \<Rightarrow> 'f) \<Rightarrow> 'e + 'a \<Rightarrow> 'f + 'a" where
  "map_err g r = (case r of Inl e \<Rightarrow> Inl (g e) | Inr x \<Rightarrow> Inr x)"

definition ok_or :: "'a option \<Rightarrow> 'e \<Rightarrow> 'e + 'a" where
  "ok_or v e = (case v of None \<Rightarrow> Inl e | Some x \<Rightarrow> Inr x)"

definition is_ok :: "'e + 'a \<Rightarrow> bool" where
  "is_ok r = (case r of Inl _ \<Rightarrow> False | Inr _ \<Rightarrow> True)"

section \<open>Bounded integers\<close>

definition usize_bound :: nat where
  "usize_bound = 2 ^ 64"

definition checked_add :: "nat \<Rightarrow> nat \<Rightarrow> nat option" where
  "checked_add a b = (if a + b < usize_bound then Some (a + b) else None)"

definition checked_sub :: "nat \<Rightarrow> nat \<Rightarrow> nat option" where
  "checked_sub a b = (if b \<le> a then Some (a - b) else None)"

definition checked_mul :: "nat \<Rightarrow> nat \<Rightarrow> nat option" where
  "checked_mul a b = (if a * b < usize_bound then Some (a * b) else None)"

definition saturating_add :: "nat \<Rightarrow> nat \<Rightarrow> nat \<Rightarrow> nat" where
  "saturating_add bound a b = min (a + b) (bound - 1)"

definition saturating_mul :: "nat \<Rightarrow> nat \<Rightarrow> nat \<Rightarrow> nat" where
  "saturating_mul bound a b = min (a * b) (bound - 1)"

text \<open>\<open>u8::try_from\<close>, \<open>u16::try_from\<close> and \<open>u32::try_from\<close> on a \<open>usize\<close> or \<open>u64\<close> value, and
  \<open>u64::checked_shl\<close>.\<close>

definition try_u8 :: "nat \<Rightarrow> 8 word option" where
  "try_u8 n = (if n < 2 ^ 8 then Some (word_of_nat n) else None)"

definition try_u16 :: "nat \<Rightarrow> 16 word option" where
  "try_u16 n = (if n < 2 ^ 16 then Some (word_of_nat n) else None)"

definition try_u32 :: "nat \<Rightarrow> 32 word option" where
  "try_u32 n = (if n < 2 ^ 32 then Some (word_of_nat n) else None)"

definition try_u64 :: "nat \<Rightarrow> 64 word option" where
  "try_u64 n = (if n < 2 ^ 64 then Some (word_of_nat n) else None)"

definition checked_shl :: "64 word \<Rightarrow> nat \<Rightarrow> 64 word option" where
  "checked_shl w s = (if s < 64 then Some (push_bit s w) else None)"

definition unwrap_or :: "'a option \<Rightarrow> 'a \<Rightarrow> 'a" where
  "unwrap_or v d = (case v of None \<Rightarrow> d | Some x \<Rightarrow> x)"

section \<open>Slices\<close>

text \<open>\<open>slice.get(a..b)\<close>: \<open>None\<close> unless the whole range lies inside the slice.\<close>

definition get_range :: "'a list \<Rightarrow> nat \<Rightarrow> nat \<Rightarrow> 'a list option" where
  "get_range xs a b = (if a \<le> b \<and> b \<le> length xs then Some (take (b - a) (drop a xs)) else None)"

definition get_at :: "'a list \<Rightarrow> nat \<Rightarrow> 'a option" where
  "get_at xs i = (if i < length xs then Some (xs ! i) else None)"

text \<open>A loop over \<open>slice.windows(2)\<close> that carries a value and stops at the first error.\<close>

fun fold_windows :: "('a \<Rightarrow> 'a \<Rightarrow> 'b \<Rightarrow> 'e + 'b) \<Rightarrow> 'a list \<Rightarrow> 'b \<Rightarrow> 'e + 'b" where
  "fold_windows f (x # y # rest) v = rbind (f x y v) (fold_windows f (y # rest))"
| "fold_windows f _ v = Inr v"

section \<open>Byte encodings of integers\<close>

text \<open>\<open>to_le_bytes\<close>, \<open>from_le_bytes\<close> and their big-endian counterparts.\<close>

fun nat_to_le :: "nat \<Rightarrow> nat \<Rightarrow> bytes" where
  "nat_to_le 0 x = []"
| "nat_to_le (Suc n) x = word_of_nat (x mod 256) # nat_to_le n (x div 256)"

fun le_to_nat :: "bytes \<Rightarrow> nat" where
  "le_to_nat [] = 0"
| "le_to_nat (b # bs) = unat b + 256 * le_to_nat bs"

definition nat_to_be :: "nat \<Rightarrow> nat \<Rightarrow> bytes" where
  "nat_to_be n x = rev (nat_to_le n x)"

definition be_to_nat :: "bytes \<Rightarrow> nat" where
  "be_to_nat bs = le_to_nat (rev bs)"

definition u16_to_le :: "16 word \<Rightarrow> bytes" where
  "u16_to_le w = nat_to_le 2 (unat w)"

definition u32_to_le :: "32 word \<Rightarrow> bytes" where
  "u32_to_le w = nat_to_le 4 (unat w)"

definition u64_to_le :: "64 word \<Rightarrow> bytes" where
  "u64_to_le w = nat_to_le 8 (unat w)"

definition u32_from_le :: "bytes \<Rightarrow> 32 word" where
  "u32_from_le bs = word_of_nat (le_to_nat bs)"

definition u64_from_le :: "bytes \<Rightarrow> 64 word" where
  "u64_from_le bs = word_of_nat (le_to_nat bs)"

definition u32_to_be :: "32 word \<Rightarrow> bytes" where
  "u32_to_be w = nat_to_be 4 (unat w)"

definition u64_to_be :: "64 word \<Rightarrow> bytes" where
  "u64_to_be w = nat_to_be 8 (unat w)"

section \<open>Generic lemmas\<close>

lemma op_return_run [op_simps]: "op_return x s = (Inr x, s)"
  by (simp add: op_return_def)

lemma op_fail_run [op_simps]: "op_fail e s = (Inl e, s)"
  by (simp add: op_fail_def)

lemma op_lift_run [op_simps]: "op_lift r s = (r, s)"
  by (simp add: op_lift_def)

lemma op_guard_run [op_simps]: "op_guard b e s = (if b then (Inr (), s) else (Inl e, s))"
  by (simp add: op_guard_def)

lemma op_bind_ok [op_simps]: "m s = (Inr x, t) \<Longrightarrow> op_bind m f s = f x t"
  by (simp add: op_bind_def)

lemma op_bind_err [op_simps]: "m s = (Inl e, t) \<Longrightarrow> op_bind m f s = (Inl e, t)"
  by (simp add: op_bind_def)

lemma op_bind_okE:
  assumes "op_bind m f s = (Inr y, u)"
  obtains x t where "m s = (Inr x, t)" and "f x t = (Inr y, u)"
  using assms by (auto simp: op_bind_def split: prod.splits sum.splits)

lemma rbind_simps [simp]:
  "rbind (Inl e) f = Inl e"
  "rbind (Inr x) f = f x"
  by (simp_all add: rbind_def)

lemma rbind_eq_Inr: "rbind r f = Inr y \<longleftrightarrow> (\<exists>x. r = Inr x \<and> f x = Inr y)"
  by (cases r) auto

lemma map_err_simps [simp]:
  "map_err g (Inl e) = Inl (g e)"
  "map_err g (Inr x) = Inr x"
  by (simp_all add: map_err_def)

lemma map_err_eq_Inr [simp]: "map_err g r = Inr x \<longleftrightarrow> r = Inr x"
  by (cases r) auto

lemma ok_or_simps [simp]:
  "ok_or None e = Inl e"
  "ok_or (Some x) e = Inr x"
  by (simp_all add: ok_or_def)

lemma ok_or_eq_Inr [simp]: "ok_or v e = Inr x \<longleftrightarrow> v = Some x"
  by (cases v) simp_all

lemma is_ok_simps [simp]:
  "\<not> is_ok (Inl e)"
  "is_ok (Inr x)"
  by (simp_all add: is_ok_def)

lemma unwrap_or_simps [simp]:
  "unwrap_or None d = d"
  "unwrap_or (Some x) d = x"
  by (simp_all add: unwrap_or_def)

lemma checked_add_Some [simp]: "a + b < usize_bound \<Longrightarrow> checked_add a b = Some (a + b)"
  by (simp add: checked_add_def)

lemma checked_add_eq_Some: "checked_add a b = Some c \<longleftrightarrow> c = a + b \<and> a + b < usize_bound"
  by (auto simp: checked_add_def)

lemma get_range_split [simp]: "get_range (xs @ ys @ zs) (length xs) (length xs + length ys) = Some ys"
  by (simp add: get_range_def)

lemma get_range_eq_Some:
  "get_range xs a b = Some ys \<longleftrightarrow> a \<le> b \<and> b \<le> length xs \<and> ys = take (b - a) (drop a xs)"
  by (auto simp: get_range_def)

lemma length_nat_to_le [simp]: "length (nat_to_le n x) = n"
  by (induction n arbitrary: x) auto

lemma length_nat_to_be [simp]: "length (nat_to_be n x) = n"
  by (simp add: nat_to_be_def)

lemma nat_to_le_numeral [byte_eval]:
  "nat_to_le (numeral k) x = word_of_nat (x mod 256) # nat_to_le (pred_numeral k) (x div 256)"
  by (simp add: numeral_eq_Suc [of k])

lemma unat_bound: "unat (w :: 'a::len word) < 2 ^ LENGTH('a)"
  by (rule unsigned_less)

lemma byte_unat_of_nat: "unat (word_of_nat x :: byte) = x mod 256"
  by (simp add: unat_of_nat)

lemma byte_unat_less [simp]: "unat (b :: byte) < 256"
  using unat_bound [of b] by simp

lemma le_to_nat_nat_to_le: "le_to_nat (nat_to_le n x) = x mod 256 ^ n"
proof (induction n arbitrary: x)
  case (Suc n)
  have "le_to_nat (nat_to_le (Suc n) x) = x mod 256 + 256 * (x div 256 mod 256 ^ n)"
    by (simp add: Suc byte_unat_of_nat)
  also have "\<dots> = x mod (256 * 256 ^ n)"
    by (simp add: mod_mult2_eq)
  finally show ?case by simp
qed simp

lemma le_to_nat_bound: "le_to_nat bs < 256 ^ length bs"
proof (induction bs)
  case (Cons b bs)
  have "unat b + 256 * le_to_nat bs < 256 + 256 * le_to_nat bs"
    by simp
  also have "\<dots> = 256 * Suc (le_to_nat bs)" by simp
  also have "\<dots> \<le> 256 * 256 ^ length bs"
    using Cons by (intro mult_le_mono2) simp
  finally show ?case by simp
qed simp

lemma nat_to_le_le_to_nat: "nat_to_le (length bs) (le_to_nat bs) = bs"
proof (induction bs)
  case (Cons b bs)
  have "(unat b + 256 * le_to_nat bs) mod 256 = unat b"
    by simp
  moreover have "(unat b + 256 * le_to_nat bs) div 256 = le_to_nat bs"
    by simp
  ultimately show ?case using Cons by simp
qed simp

lemma nat_to_le_inj: "nat_to_le n x = nat_to_le n y \<Longrightarrow> x < 256 ^ n \<Longrightarrow> y < 256 ^ n \<Longrightarrow> x = y"
  by (metis le_to_nat_nat_to_le mod_less)

lemma le_to_nat_append: "le_to_nat (xs @ ys) = le_to_nat xs + 256 ^ length xs * le_to_nat ys"
  by (induction xs) (auto simp: algebra_simps)

lemma nat_to_be_inj: "nat_to_be n x = nat_to_be n y \<Longrightarrow> x < 256 ^ n \<Longrightarrow> y < 256 ^ n \<Longrightarrow> x = y"
  by (auto simp: nat_to_be_def intro: nat_to_le_inj)

lemma byte_encoding_lengths [simp, byte_len]:
  "length (u16_to_le a) = 2" "length (u32_to_le b) = 4" "length (u64_to_le c) = 8"
  "length (u32_to_be b) = 4" "length (u64_to_be c) = 8"
  by (simp_all add: u16_to_le_def u32_to_le_def u64_to_le_def u32_to_be_def u64_to_be_def)

lemma u32_from_to_le [simp]: "u32_from_le (u32_to_le w) = w"
  using unat_bound [of w] by (simp add: u32_from_le_def u32_to_le_def le_to_nat_nat_to_le)

lemma u64_from_to_le [simp]: "u64_from_le (u64_to_le w) = w"
  using unat_bound [of w] by (simp add: u64_from_le_def u64_to_le_def le_to_nat_nat_to_le)

lemma u32_to_from_le: "length bs = 4 \<Longrightarrow> u32_to_le (u32_from_le bs) = bs"
  using le_to_nat_bound [of bs] nat_to_le_le_to_nat [of bs]
  by (simp add: u32_from_le_def u32_to_le_def unat_of_nat)

lemma u64_to_from_le: "length bs = 8 \<Longrightarrow> u64_to_le (u64_from_le bs) = bs"
  using le_to_nat_bound [of bs] nat_to_le_le_to_nat [of bs]
  by (simp add: u64_from_le_def u64_to_le_def unat_of_nat)

lemma u16_to_le_nat: "n < 2 ^ 16 \<Longrightarrow> u16_to_le (word_of_nat n) = nat_to_le 2 n"
  by (simp add: u16_to_le_def unat_of_nat)

lemma u32_to_le_nat: "n < 2 ^ 32 \<Longrightarrow> u32_to_le (word_of_nat n) = nat_to_le 4 n"
  by (simp add: u32_to_le_def unat_of_nat)

lemma u64_to_be_inj: "u64_to_be a = u64_to_be b \<longleftrightarrow> a = b"
proof
  assume eq: "u64_to_be a = u64_to_be b"
  have "unat a = unat b"
    by (rule nat_to_be_inj [of 8])
      (use eq unat_bound [of a] unat_bound [of b] in \<open>simp_all add: u64_to_be_def\<close>)
  then show "a = b" by (simp add: word_unat_eq_iff)
qed simp

end
