(* ===== verification/Machines.thy ===== *)
theory Machines
  imports Prelude
begin

text \<open>
  Runs of a machine whose steps take an event and return an output, the saturating operations on
  words, and the locale \<open>machine_refinement\<close>: a concrete machine that simulates an abstract one step
  by step, through an abstraction function that is right on the states of an invariant, gives the
  same outputs on every run.
\<close>

section \<open>Saturating arithmetic at a fixed width\<close>

text \<open>\<open>u64::saturating_mul\<close> and \<open>u32::saturating_add\<close>, at the width of the argument.\<close>

definition word_saturating_mul :: "'a::len word \<Rightarrow> 'a word \<Rightarrow> 'a word" where
  "word_saturating_mul a b = (if unat a * unat b < 2 ^ LENGTH('a) then a * b else - 1)"

definition word_saturating_add :: "'a::len word \<Rightarrow> 'a word \<Rightarrow> 'a word" where
  "word_saturating_add a b = (if unat a + unat b < 2 ^ LENGTH('a) then a + b else - 1)"

lemma unat_max_word: "unat (- 1 :: 'a::len word) = 2 ^ LENGTH('a) - 1"
  by (metis unsigned_minus_1_eq_mask mask_eq_exp_minus_1)

lemma unat_word_saturating_mul:
  "unat (word_saturating_mul a b :: 'a::len word) = min (unat a * unat b) (2 ^ LENGTH('a) - 1)"
  by (auto simp: word_saturating_mul_def unat_word_ariths unat_max_word)

lemma unat_word_saturating_add:
  "unat (word_saturating_add a b :: 'a::len word) = min (unat a + unat b) (2 ^ LENGTH('a) - 1)"
  by (auto simp: word_saturating_add_def unat_word_ariths unat_max_word)

section \<open>Runs of a machine and their refinement\<close>

primrec run_machine :: "('e \<Rightarrow> 's \<Rightarrow> 'o \<times> 's) \<Rightarrow> 'e list \<Rightarrow> 's \<Rightarrow> 'o list \<times> 's" where
  "run_machine step [] s = ([], s)"
| "run_machine step (e # es) s =
     (let (x, t) = step e s; (xs, u) = run_machine step es t in (x # xs, u))"

lemma run_machine_append:
  "run_machine step (es @ fs) s =
     (let (xs, t) = run_machine step es s; (ys, u) = run_machine step fs t in (xs @ ys, u))"
  by (induction es arbitrary: s) (auto split: prod.splits)

lemma run_machine_Cons:
  "fst (run_machine step (e # es) s) = fst (step e s) # fst (run_machine step es (snd (step e s)))"
  "snd (run_machine step (e # es) s) = snd (run_machine step es (snd (step e s)))"
  by (simp_all add: case_prod_unfold Let_def)

lemma run_machine_invariant:
  assumes "\<And>e s. I s \<Longrightarrow> I (snd (step e s))" "I s"
  shows "I (snd (run_machine step es s))"
  using assms(2)
  by (induction es arbitrary: s) (simp_all add: run_machine_Cons assms(1) del: run_machine.simps(2))

lemma length_run_machine [simp]: "length (fst (run_machine step es s)) = length es"
  by (induction es arbitrary: s) (simp_all add: run_machine_Cons del: run_machine.simps(2))

lemma run_machine_nth:
  assumes "i < length es"
  shows "fst (run_machine step es s) ! i = fst (step (es ! i) (snd (run_machine step (take i es) s)))"
  using assms
proof (induction es arbitrary: s i)
  case (Cons e es)
  then show ?case by (cases i) (simp_all add: run_machine_Cons del: run_machine.simps(2))
qed simp

lemma run_machine_take_Suc:
  assumes "i < length es"
  shows "snd (run_machine step (take (Suc i) es) s) = snd (step (es ! i) (snd (run_machine step (take i es) s)))"
  using assms by (simp add: take_Suc_conv_app_nth run_machine_append split: prod.splits)

text \<open>What one step establishes and every step keeps still holds at a later step.\<close>

lemma run_machine_later:
  assumes "i < j" "j \<le> length es" "P (snd (step (es ! i) (snd (run_machine step (take i es) s))))"
    and "\<And>e t. P t \<Longrightarrow> P (snd (step e t))"
  shows "P (snd (run_machine step (take j es) s))"
proof -
  have "take j es = take (Suc i) es @ drop (Suc i) (take j es)"
    using assms(1) by (metis Suc_leI append_take_drop_id min.absorb2 take_take min.commute)
  moreover have "P (snd (run_machine step (take (Suc i) es) s))"
    using assms by (simp add: run_machine_take_Suc)
  ultimately show ?thesis
    using run_machine_invariant [of P step, OF assms(4)]
    by (metis (no_types, lifting) run_machine_append case_prod_unfold snd_conv)
qed

locale machine_refinement =
  fixes inv :: "'s \<Rightarrow> bool"
    and abs :: "'s \<Rightarrow> 'a"
    and cstep :: "'e \<Rightarrow> 's \<Rightarrow> 'o \<times> 's"
    and astep :: "'e \<Rightarrow> 'a \<Rightarrow> 'o \<times> 'a"
  assumes step_inv: "inv s \<Longrightarrow> inv (snd (cstep e s))"
    and step_out: "inv s \<Longrightarrow> fst (astep e (abs s)) = fst (cstep e s)"
    and step_abs: "inv s \<Longrightarrow> snd (astep e (abs s)) = abs (snd (cstep e s))"
begin

lemma run_inv: "inv s \<Longrightarrow> inv (snd (run_machine cstep es s))"
proof (induction es arbitrary: s)
  case (Cons e es)
  show ?case
    using Cons.IH [OF step_inv [OF Cons.prems], of e] by (auto split: prod.splits)
qed simp

lemma run_refines:
  "inv s \<Longrightarrow> run_machine astep es (abs s) = map_prod id abs (run_machine cstep es s)"
proof (induction es arbitrary: s)
  case (Cons e es)
  have "astep e (abs s) = (fst (cstep e s), abs (snd (cstep e s)))"
    using Cons.prems step_out step_abs by (simp add: prod_eq_iff)
  then show ?case
    using Cons.IH [OF step_inv [OF Cons.prems]] by (auto split: prod.splits)
qed simp

end

end
