(* ===== verification/Bytes.thy ===== *)
theory Bytes
  imports Prelude
begin

unbundle bit_operations_syntax

text \<open>
  The read cursor and the CompactSize integers of \<^verbatim>\<open>crates/bsv/src/bytes.rs\<close>, with the error
  type of the crate (\<^verbatim>\<open>error.rs\<close>). A \<open>Cursor\<close> is a record of the data and the offset; every
  reading method is an \<open>op\<close> on it, because the offset stays advanced when a later read of the
  same method fails.

  The predicate \<open>parses p bs v\<close> says that the reader \<open>p\<close>, started in front of the bytes \<open>bs\<close> inside
  any larger input, consumes exactly \<open>bs\<close> and returns \<open>v\<close>. The locale \<open>codec\<close> is the contract
  between a writer and its reader that the transaction, script and header theories build on.
\<close>

section \<open>Errors\<close>

datatype bsv_error =
    Hex
  | Length nat nat
  | Truncated
  | ChainNotLinked
  | ChainBadPow
  | ChainNonMonotonic
  | MerkleMismatch
  | OutOfRange
  | MalformedTx
  | MalformedScript
  | SighashSingleIndex

section \<open>The cursor\<close>

record cursor =
  cur_data :: bytes
  cur_off :: nat

type_synonym 'a reader = "(cursor, bsv_error, 'a) op"

definition cur_new :: "bytes \<Rightarrow> cursor" where
  "cur_new raw = \<lparr>cur_data = raw, cur_off = 0\<rparr>"

definition cur_remaining :: "cursor \<Rightarrow> nat" where
  "cur_remaining c = length (cur_data c) - cur_off c"

definition cur_is_empty :: "cursor \<Rightarrow> bool" where
  "cur_is_empty c = (cur_remaining c = 0)"

definition cur_take :: "nat \<Rightarrow> bytes reader" where
  "cur_take n c =
     (case checked_add (cur_off c) n of
        None \<Rightarrow> (Inl OutOfRange, c)
      | Some e \<Rightarrow>
          (case get_range (cur_data c) (cur_off c) e of
             None \<Rightarrow> (Inl Truncated, c)
           | Some part \<Rightarrow> (Inr part, c\<lparr>cur_off := e\<rparr>)))"

definition cur_u8 :: "byte reader" where
  "cur_u8 = op_bind (cur_take 1) (\<lambda>s. op_lift (ok_or (get_at s 0) Truncated))"

text \<open>\<open>take(n)?.try_into().map_err(..)\<close>: the conversion to an array checks the length once more.\<close>

definition cur_array :: "nat \<Rightarrow> bytes reader" where
  "cur_array n = op_bind (cur_take n) (\<lambda>s. op_lift (if length s = n then Inr s else Inl Truncated))"

definition cur_u32_le :: "32 word reader" where
  "cur_u32_le = op_bind (cur_array 4) (\<lambda>b. op_return (u32_from_le b))"

definition cur_i32_le :: "32 word reader" where
  "cur_i32_le = op_bind (cur_array 4) (\<lambda>b. op_return (u32_from_le b))"

definition cur_u64_le :: "64 word reader" where
  "cur_u64_le = op_bind (cur_array 8) (\<lambda>b. op_return (u64_from_le b))"

text \<open>The accumulation loop shared by \<open>Cursor::uint\<close> and \<open>push_n\<close>: the shift is computed in \<open>u32\<close>.\<close>

definition shift_amount :: "nat \<Rightarrow> bsv_error + nat" where
  "shift_amount i = (if i < 2 ^ 32 \<and> i * 8 < 2 ^ 32 then Inr (i * 8) else Inl OutOfRange)"

fun uint_loop :: "nat \<Rightarrow> bytes \<Rightarrow> 64 word \<Rightarrow> bsv_error + 64 word" where
  "uint_loop i [] acc = Inr acc"
| "uint_loop i (b # bs) acc =
     rbind (shift_amount i) (\<lambda>shift.
     rbind (ok_or (checked_shl (ucast b) shift) OutOfRange) (\<lambda>shifted.
     uint_loop (Suc i) bs (acc OR shifted)))"

definition cur_uint :: "nat \<Rightarrow> 64 word reader" where
  "cur_uint n = op_bind (cur_take n) (\<lambda>s. op_lift (uint_loop 0 s 0))"

definition cur_varint :: "64 word reader" where
  "cur_varint = op_bind cur_u8 (\<lambda>tag.
     if tag = 0xFF then cur_uint 8
     else if tag = 0xFE then cur_uint 4
     else if tag = 0xFD then cur_uint 2
     else op_return (ucast tag))"

definition cur_varint_bytes :: "bytes reader" where
  "cur_varint_bytes = op_bind cur_varint (\<lambda>len. cur_take (unat len))"

definition write_varint :: "bytes \<Rightarrow> 64 word \<Rightarrow> bytes" where
  "write_varint out v =
     (if v < 0xFD then out @ [unwrap_or (try_u8 (unat v)) 0]
      else if v \<le> 0xFFFF then out @ [0xFD] @ u16_to_le (unwrap_or (try_u16 (unat v)) 0)
      else if v \<le> 0xFFFFFFFF then out @ [0xFE] @ u32_to_le (unwrap_or (try_u32 (unat v)) 0)
      else out @ [0xFF] @ u64_to_le v)"

section \<open>Specification predicates\<close>

definition parses :: "'a reader \<Rightarrow> bytes \<Rightarrow> 'a \<Rightarrow> bool" where
  "parses p bs v \<longleftrightarrow> (\<forall>pre post. length (pre @ bs @ post) < usize_bound \<longrightarrow>
     p \<lparr>cur_data = pre @ bs @ post, cur_off = length pre\<rparr> =
       (Inr v, \<lparr>cur_data = pre @ bs @ post, cur_off = length pre + length bs\<rparr>))"

text \<open>A reader is safe when it keeps the data, never moves back and never leaves the input.\<close>

definition safe_step :: "cursor \<Rightarrow> cursor \<Rightarrow> bool" where
  "safe_step c t \<longleftrightarrow> cur_data t = cur_data c \<and> cur_off c \<le> cur_off t \<and>
     (cur_off c \<le> length (cur_data c) \<longrightarrow> cur_off t \<le> length (cur_data c))"

definition safe_reader :: "'a reader \<Rightarrow> bool" where
  "safe_reader p \<longleftrightarrow> (\<forall>c. safe_step c (snd (p c)))"

text \<open>What a successful run of a reader guarantees of its value and of the bytes it consumed.\<close>

definition yields :: "'a reader \<Rightarrow> ('a \<Rightarrow> nat \<Rightarrow> bool) \<Rightarrow> bool" where
  "yields p Q \<longleftrightarrow> (\<forall>c v t. length (cur_data c) < usize_bound \<longrightarrow> cur_off c \<le> length (cur_data c) \<longrightarrow>
     p c = (Inr v, t) \<longrightarrow> safe_step c t \<and> Q v (cur_off t - cur_off c))"

section \<open>Readers compose\<close>

lemma parsesD:
  "parses p bs v \<Longrightarrow> length (pre @ bs @ post) < usize_bound \<Longrightarrow>
   p \<lparr>cur_data = pre @ bs @ post, cur_off = length pre\<rparr> =
     (Inr v, \<lparr>cur_data = pre @ bs @ post, cur_off = length pre + length bs\<rparr>)"
  by (simp add: parses_def)

lemma parses_start:
  "parses p bs v \<Longrightarrow> length (bs @ post) < usize_bound \<Longrightarrow>
   p \<lparr>cur_data = bs @ post, cur_off = 0\<rparr> =
     (Inr v, \<lparr>cur_data = bs @ post, cur_off = length bs\<rparr>)"
  using parsesD [of p bs v "[]" post] by simp

lemma parses_return [parse_intros]: "parses (op_return v) [] v"
  by (simp add: parses_def op_simps)

lemma parses_lift [parse_intros]: "r = Inr v \<Longrightarrow> parses (op_lift r) [] v"
  by (simp add: parses_def op_simps)

lemma parses_bind:
  assumes "parses p bs v" and "parses (f v) cs w"
  shows "parses (op_bind p f) (bs @ cs) w"
  unfolding parses_def
proof (intro allI impI)
  fix pre post
  assume len: "length (pre @ (bs @ cs) @ post) < usize_bound"
  have "p \<lparr>cur_data = pre @ bs @ (cs @ post), cur_off = length pre\<rparr> =
      (Inr v, \<lparr>cur_data = pre @ bs @ (cs @ post), cur_off = length pre + length bs\<rparr>)"
    by (rule parsesD [OF assms(1)]) (use len in simp)
  moreover have "f v \<lparr>cur_data = (pre @ bs) @ cs @ post, cur_off = length (pre @ bs)\<rparr> =
      (Inr w, \<lparr>cur_data = (pre @ bs) @ cs @ post, cur_off = length (pre @ bs) + length cs\<rparr>)"
    by (rule parsesD [OF assms(2)]) (use len in simp)
  ultimately show "op_bind p f \<lparr>cur_data = pre @ (bs @ cs) @ post, cur_off = length pre\<rparr> =
      (Inr w, \<lparr>cur_data = pre @ (bs @ cs) @ post, cur_off = length pre + length (bs @ cs)\<rparr>)"
    by (simp add: op_bind_def add.assoc)
qed

lemma parses_bind_pure: "parses p bs v \<Longrightarrow> parses (f v) [] w \<Longrightarrow> parses (op_bind p f) bs w"
  using parses_bind [of p bs v f "[]" w] by simp

lemma parses_take [parse_intros]: "n = length bs \<Longrightarrow> parses (cur_take n) bs bs"
  by (simp add: parses_def cur_take_def)

lemma parses_array [parse_intros]: "n = length bs \<Longrightarrow> parses (cur_array n) bs bs"
  unfolding cur_array_def by (rule parses_bind_pure [OF parses_take]) (auto intro: parse_intros)

lemma parses_u8 [parse_intros]: "parses cur_u8 [b] b"
  unfolding cur_u8_def
  by (rule parses_bind_pure [OF parses_take]) (auto intro!: parse_intros simp: get_at_def)

lemma parses_u32_le [parse_intros]: "parses cur_u32_le (u32_to_le w) w"
  unfolding cur_u32_le_def
  by (rule parses_bind_pure [OF parses_array]) (simp_all add: parses_def op_simps)

lemma parses_i32_le [parse_intros]: "parses cur_i32_le (u32_to_le w) w"
  unfolding cur_i32_le_def
  by (rule parses_bind_pure [OF parses_array]) (simp_all add: parses_def op_simps)

lemma parses_u64_le [parse_intros]: "parses cur_u64_le (u64_to_le w) w"
  unfolding cur_u64_le_def
  by (rule parses_bind_pure [OF parses_array]) (simp_all add: parses_def op_simps)

section \<open>The accumulation loop reads little-endian integers\<close>

lemma or_shifted_byte:
  "(ucast (b :: byte) :: 64 word) OR push_bit 8 w = ucast b + 256 * w"
proof -
  have "bit (ucast b :: 64 word) n \<Longrightarrow> n < 8" for n
    by (auto simp: bit_simps dest: bit_imp_le_length)
  then have "(ucast b :: 64 word) AND push_bit 8 w = 0"
    by (intro bit_eqI) (force simp: bit_simps)
  then have "(ucast b :: 64 word) OR push_bit 8 w = ucast b + push_bit 8 w"
    by (simp add: disjunctive_add_eq_or)
  then show ?thesis
    by (simp add: push_bit_eq_mult mult.commute)
qed

lemma u64_from_le_Cons: "u64_from_le (b # bs) = ucast b OR push_bit 8 (u64_from_le bs)"
  by (simp only: or_shifted_byte) (simp add: u64_from_le_def)

lemma uint_loop_spec:
  "i + length bs \<le> 8 \<Longrightarrow> uint_loop i bs acc = Inr (acc OR push_bit (8 * i) (u64_from_le bs))"
proof (induction bs arbitrary: i acc)
  case Nil
  then show ?case by (simp add: u64_from_le_def)
next
  case (Cons b bs)
  have "shift_amount i = Inr (i * 8)" and "i * 8 < 64"
    using Cons.prems by (simp_all add: shift_amount_def)
  then have "uint_loop i (b # bs) acc =
      Inr ((acc OR push_bit (i * 8) (ucast b)) OR push_bit (8 * Suc i) (u64_from_le bs))"
    using Cons by (simp add: checked_shl_def)
  also have "\<dots> = Inr (acc OR push_bit (8 * i) (u64_from_le (b # bs)))"
    by (simp add: u64_from_le_Cons push_bit_or or.assoc mult.commute add.commute)
  finally show ?case .
qed

lemma uint_loop_le: "length bs \<le> 8 \<Longrightarrow> uint_loop 0 bs 0 = Inr (u64_from_le bs)"
  by (simp add: uint_loop_spec)

lemma parses_uint [parse_intros]: "n = length bs \<Longrightarrow> n \<le> 8 \<Longrightarrow> parses (cur_uint n) bs (u64_from_le bs)"
  unfolding cur_uint_def
  by (rule parses_bind_pure [OF parses_take]) (auto intro!: parse_intros simp: uint_loop_le)

section \<open>CompactSize integers\<close>

lemma u64_from_le_nat: "x < 256 ^ n \<Longrightarrow> n \<le> 8 \<Longrightarrow> u64_from_le (nat_to_le n x) = word_of_nat x"
  by (simp add: u64_from_le_def le_to_nat_nat_to_le)

lemma parses_tagged:
  assumes "tag = 0xFD \<and> n = 2 \<or> tag = 0xFE \<and> n = 4 \<or> tag = 0xFF \<and> n = (8::nat)" and "length bs = n"
  shows "parses cur_varint (tag # bs) (u64_from_le bs)"
proof -
  have "parses (cur_uint n) bs (u64_from_le bs)"
    using assms by (auto intro: parse_intros)
  then have "parses cur_varint ([tag] @ bs) (u64_from_le bs)"
    unfolding cur_varint_def using assms(1) by (intro parses_bind [OF parses_u8]) auto
  then show ?thesis by simp
qed

text \<open>The encoding alone, without the buffer it is appended to.\<close>

definition varint_enc :: "64 word \<Rightarrow> bytes" where
  "varint_enc v = write_varint [] v"

lemma write_varint_append: "write_varint out v = out @ varint_enc v"
  by (simp add: write_varint_def varint_enc_def)

lemma varint_enc_cases:
  fixes v :: "64 word"
  shows "unat v < 0xFD \<Longrightarrow> varint_enc v = [word_of_nat (unat v)]"
    and "0xFD \<le> unat v \<Longrightarrow> unat v < 2 ^ 16 \<Longrightarrow> varint_enc v = 0xFD # nat_to_le 2 (unat v)"
    and "2 ^ 16 \<le> unat v \<Longrightarrow> unat v < 2 ^ 32 \<Longrightarrow> varint_enc v = 0xFE # nat_to_le 4 (unat v)"
    and "2 ^ 32 \<le> unat v \<Longrightarrow> varint_enc v = 0xFF # nat_to_le 8 (unat v)"
  by (auto simp: varint_enc_def write_varint_def word_less_nat_alt word_le_nat_alt try_u8_def
      try_u16_def try_u32_def u16_to_le_nat u32_to_le_nat u64_to_le_def simp del: of_nat_unat)

lemma varint_size_cases:
  fixes v :: "64 word"
  obtains "unat v < 0xFD" | "0xFD \<le> unat v" "unat v < 2 ^ 16" | "2 ^ 16 \<le> unat v" "unat v < 2 ^ 32"
    | "2 ^ 32 \<le> unat v"
  by linarith

lemma parses_varint [parse_intros]: "parses cur_varint (varint_enc v) v"
proof (cases v rule: varint_size_cases)
  case 1
  have "parses cur_varint [word_of_nat (unat v)] (ucast (word_of_nat (unat v) :: byte))"
    unfolding cur_varint_def
    by (rule parses_bind_pure [OF parses_u8])
      (use 1 in \<open>auto simp: word_unat_eq_iff unat_of_nat intro: parse_intros simp del: of_nat_unat\<close>)
  moreover have "ucast (word_of_nat (unat v) :: byte) = v"
    using 1 by (simp add: word_unat_eq_iff unsigned_ucast_eq take_bit_eq_mod unat_mod_distrib)
  ultimately show ?thesis using 1 by (simp add: varint_enc_cases del: of_nat_unat)
qed (use unat_bound [of v] in \<open>auto simp: varint_enc_cases u64_from_le_nat
       intro!: parses_tagged [THEN subst [where P = "parses _ _", rotated]]\<close>)

lemma parses_varint_bytes [parse_intros]:
  assumes "length bs < 2 ^ 64"
  shows "parses cur_varint_bytes (varint_enc (word_of_nat (length bs)) @ bs) bs"
  unfolding cur_varint_bytes_def
  by (rule parses_bind [OF parses_varint]) (use assms in \<open>auto simp: unat_of_nat intro: parse_intros\<close>)

section \<open>The contract of an encoder and its reader\<close>

locale codec =
  fixes enc :: "'a \<Rightarrow> bytes" and dec :: "'a reader" and wf :: "'a \<Rightarrow> bool"
  assumes reads_back: "wf x \<Longrightarrow> parses dec (enc x) x"
begin

lemma prefix_free:
  assumes "wf x" "wf y" "enc x @ r = enc y @ s" "length (enc x @ r) < usize_bound"
  shows "x = y \<and> r = s"
proof -
  have "dec \<lparr>cur_data = enc x @ r, cur_off = 0\<rparr> =
      (Inr x, \<lparr>cur_data = enc x @ r, cur_off = length (enc x)\<rparr>)"
    by (rule parses_start [OF reads_back [OF assms(1)] assms(4)])
  moreover have "dec \<lparr>cur_data = enc y @ s, cur_off = 0\<rparr> =
      (Inr y, \<lparr>cur_data = enc y @ s, cur_off = length (enc y)\<rparr>)"
    by (rule parses_start [OF reads_back [OF assms(2)]]) (use assms(3,4) in simp)
  ultimately show ?thesis using assms(3) by simp
qed

lemma injective:
  assumes "wf x" "wf y" "enc x = enc y" "length (enc x) < usize_bound"
  shows "x = y"
  using prefix_free [of x y "[]" "[]"] assms by simp

text \<open>A concatenation of non-empty encodings determines its elements.\<close>

lemma concat_injective:
  assumes "\<forall>x \<in> set xs. wf x" "\<forall>y \<in> set ys. wf y" "\<And>x. enc x \<noteq> []"
    "concat (map enc xs) = concat (map enc ys)" "length (concat (map enc xs)) < usize_bound"
  shows "xs = ys"
  using assms(1,2,4,5)
proof (induction xs arbitrary: ys)
  case Nil
  then show ?case using assms(3) by (cases ys) auto
next
  case (Cons x xs)
  then obtain y ys' where ys: "ys = y # ys'"
    using assms(3) [of x] by (cases ys) auto
  have "x = y \<and> concat (map enc xs) = concat (map enc ys')"
    by (rule prefix_free) (use Cons.prems ys in simp_all)
  moreover from this have "xs = ys'"
    by (intro Cons.IH) (use Cons.prems ys in simp_all)
  ultimately show ?case by (simp add: ys)
qed

end

interpretation u32: codec u32_to_le cur_u32_le "\<lambda>_. True"
  by unfold_locales (rule parses_u32_le)

interpretation u64: codec u64_to_le cur_u64_le "\<lambda>_. True"
  by unfold_locales (rule parses_u64_le)

interpretation varint: codec varint_enc cur_varint "\<lambda>_. True"
  by unfold_locales (rule parses_varint)

interpretation var_bytes: codec "\<lambda>bs. varint_enc (word_of_nat (length bs)) @ bs" cur_varint_bytes
  "\<lambda>bs. length bs < 2 ^ 64"
  by unfold_locales (rule parses_varint_bytes)

section \<open>Readers stay inside the input\<close>

lemma safe_step_refl [simp]: "safe_step c c"
  by (simp add: safe_step_def)

lemma safe_step_trans: "safe_step c t \<Longrightarrow> safe_step t u \<Longrightarrow> safe_step c u"
  by (auto simp: safe_step_def)

lemma safe_readerD: "safe_reader p \<Longrightarrow> p c = (r, t) \<Longrightarrow> safe_step c t"
  by (auto simp: safe_reader_def dest: spec [of _ c])

lemma safe_lift [simp, intro]: "safe_reader (op_lift r)"
  by (simp add: safe_reader_def op_simps)

lemma safe_return [simp, intro]: "safe_reader (op_return v)"
  by (simp add: safe_reader_def op_simps)

lemma safe_fail [simp, intro]: "safe_reader (op_fail e)"
  by (simp add: safe_reader_def op_simps)

lemma safe_bind [intro]:
  assumes "safe_reader p" and "\<And>v. safe_reader (f v)"
  shows "safe_reader (op_bind p f)"
  unfolding safe_reader_def
proof
  fix c
  obtain r t where pt: "p c = (r, t)" by (cases "p c")
  with assms(1) have ct: "safe_step c t" by (rule safe_readerD)
  show "safe_step c (snd (op_bind p f c))"
  proof (cases r)
    case (Inl e)
    then show ?thesis using pt ct by (simp add: op_simps)
  next
    case (Inr v)
    then have "op_bind p f c = f v t" using pt by (simp add: op_simps)
    moreover have "safe_step t (snd (f v t))"
      using assms(2) by (simp add: safe_reader_def)
    ultimately show ?thesis using ct by (auto intro: safe_step_trans)
  qed
qed

lemma safe_take [intro]: "safe_reader (cur_take n)"
  by (auto simp: safe_reader_def safe_step_def cur_take_def checked_add_def get_range_def
      split: option.splits)

lemma safe_if [intro]: "safe_reader p \<Longrightarrow> safe_reader q \<Longrightarrow> safe_reader (if b then p else q)"
  by simp

lemmas reader_defs = cur_u8_def cur_array_def cur_u32_le_def cur_i32_le_def cur_u64_le_def
  cur_uint_def cur_varint_def cur_varint_bytes_def

lemma safe_readers [intro]:
  "safe_reader cur_u8" "safe_reader (cur_array n)" "safe_reader cur_u32_le" "safe_reader cur_i32_le"
  "safe_reader cur_u64_le" "safe_reader (cur_uint n)" "safe_reader cur_varint"
  "safe_reader cur_varint_bytes"
  unfolding reader_defs by (intro safe_bind safe_if safe_take safe_lift safe_return)+

section \<open>What the readers return\<close>

lemma yieldsD:
  "yields p Q \<Longrightarrow> p c = (Inr v, t) \<Longrightarrow> length (cur_data c) < usize_bound \<Longrightarrow>
   cur_off c \<le> length (cur_data c) \<Longrightarrow> safe_step c t \<and> Q v (cur_off t - cur_off c)"
  by (simp add: yields_def)

lemma yields_weaken: "yields p P \<Longrightarrow> (\<And>v n. P v n \<Longrightarrow> Q v n) \<Longrightarrow> yields p Q"
  by (auto simp: yields_def)

lemma yields_return: "Q v 0 \<Longrightarrow> yields (op_return v) Q"
  by (auto simp: yields_def op_simps)

lemma yields_fail [simp, intro]: "yields (op_fail e) Q"
  by (auto simp: yields_def op_simps)

lemma yields_lift: "(\<And>v. r = Inr v \<Longrightarrow> Q v 0) \<Longrightarrow> yields (op_lift r) Q"
  by (auto simp: yields_def op_simps)

lemma yields_bind:
  assumes p: "yields p P" and f: "\<And>v n. P v n \<Longrightarrow> yields (f v) (\<lambda>w m. Q w (n + m))"
  shows "yields (op_bind p f) Q"
  unfolding yields_def
proof (intro allI impI)
  fix c w u
  assume len: "length (cur_data c) < usize_bound" and off: "cur_off c \<le> length (cur_data c)"
    and "op_bind p f c = (Inr w, u)"
  then obtain v t where pt: "p c = (Inr v, t)" and fu: "f v t = (Inr w, u)"
    by (auto elim: op_bind_okE)
  from yieldsD [OF p pt len off] have ct: "safe_step c t" and "P v (cur_off t - cur_off c)" by auto
  then have "safe_step t u \<and> Q w (cur_off t - cur_off c + (cur_off u - cur_off t))"
    by (intro yieldsD [OF f fu]) (use ct len off in \<open>auto simp: safe_step_def\<close>)
  with ct show "safe_step c u \<and> Q w (cur_off u - cur_off c)"
    by (auto simp: safe_step_def)
qed

lemma yields_take: "yields (cur_take n) (\<lambda>v m. length v = n \<and> m = n)"
  using safe_take [of n]
  by (auto simp: yields_def safe_reader_def cur_take_def checked_add_def get_range_def
      dest: spec split: option.splits if_splits)

lemma yields_array: "yields (cur_array n) (\<lambda>v m. length v = n \<and> m = n)"
  unfolding cur_array_def
  by (rule yields_bind [OF yields_take]) (auto intro!: yields_lift split: if_splits)

lemma yields_u8: "yields cur_u8 (\<lambda>v m. m = 1)"
  unfolding cur_u8_def by (rule yields_bind [OF yields_take]) (auto intro!: yields_lift)

lemma yields_u32: "yields cur_u32_le (\<lambda>v m. m = 4)" "yields cur_i32_le (\<lambda>v m. m = 4)"
  unfolding cur_u32_le_def cur_i32_le_def
  by (rule yields_bind [OF yields_array], auto intro!: yields_return)+

lemma yields_u64: "yields cur_u64_le (\<lambda>v m. m = 8)"
  unfolding cur_u64_le_def by (rule yields_bind [OF yields_array]) (auto intro!: yields_return)

lemma yields_uint: "n \<le> 8 \<Longrightarrow> yields (cur_uint n) (\<lambda>v m. m = n \<and> unat v < 256 ^ n)"
  unfolding cur_uint_def
proof (rule yields_bind [OF yields_take], rule yields_lift, goal_cases)
  case (1 bs m v)
  then have "v = u64_from_le bs" by (simp add: uint_loop_le)
  moreover have "unat (u64_from_le bs) \<le> le_to_nat bs"
    by (simp add: u64_from_le_def unat_of_nat)
  ultimately show ?case using 1 le_to_nat_bound [of bs] by simp
qed

lemma length_varint_enc:
  "length (varint_enc v) = (if unat v < 0xFD then 1 else if unat v < 2 ^ 16 then 3
     else if unat v < 2 ^ 32 then 5 else 9)"
  by (cases v rule: varint_size_cases) (simp_all add: varint_enc_cases)

lemma yields_varint: "yields cur_varint (\<lambda>v m. length (varint_enc v) \<le> m)"
proof -
  have u: "yields (cur_uint n) (\<lambda>v m. length (varint_enc v) \<le> 1 + m)" if "n = 2 \<or> n = 4 \<or> n = 8" for n
    by (rule yields_weaken [OF yields_uint]) (use that in \<open>auto simp: length_varint_enc\<close>)
  have "unat (ucast b :: 64 word) < 0xFD" if "b \<noteq> 0xFD" "b \<noteq> 0xFE" "b \<noteq> 0xFF" for b :: byte
  proof -
    have "unat b \<noteq> 0xFD" "unat b \<noteq> 0xFE" "unat b \<noteq> 0xFF"
      using that by (auto simp: word_unat_eq_iff)
    with byte_unat_less [of b] have "unat b < 0xFD" by linarith
    then show ?thesis by (simp add: unsigned_ucast_eq take_bit_nat_eq_self)
  qed
  then show ?thesis
    unfolding cur_varint_def
    by (intro yields_bind [OF yields_u8])
      (auto intro!: u [THEN yields_weaken] yields_return simp: length_varint_enc)
qed

lemma yields_varint_bytes:
  "yields cur_varint_bytes (\<lambda>v m. length v < 2 ^ 64 \<and>
     length (varint_enc (word_of_nat (length v)) @ v) \<le> m)"
  unfolding cur_varint_bytes_def
proof (rule yields_bind [OF yields_varint], rule yields_weaken [OF yields_take], goal_cases)
  case (1 n m v k)
  then show ?case using unat_bound [of n] by simp
qed

section \<open>Properties\<close>

text \<open>
  \<open>write_varint\<close> and \<open>Cursor::varint\<close> are inverse: whatever is already in the
  buffer and whatever follows, the reader positioned behind the buffer returns the value that was
  written and stops right behind its encoding, which takes 1, 3, 5 or 9 bytes.
\<close>

lemma varint_roundtrip:
  assumes "length (write_varint out v @ post) < usize_bound"
  shows "cur_varint \<lparr>cur_data = write_varint out v @ post, cur_off = length out\<rparr> =
    (Inr v, \<lparr>cur_data = write_varint out v @ post, cur_off = length (write_varint out v)\<rparr>)
    \<and> length (write_varint out v) - length out =
        (if unat v < 0xFD then 1 else if unat v < 2 ^ 16 then 3 else if unat v < 2 ^ 32 then 5 else 9)"
proof
  show "cur_varint \<lparr>cur_data = write_varint out v @ post, cur_off = length out\<rparr> =
    (Inr v, \<lparr>cur_data = write_varint out v @ post, cur_off = length (write_varint out v)\<rparr>)"
    using parsesD [OF parses_varint, of out v post] assms by (simp add: write_varint_append)
  show "length (write_varint out v) - length out =
      (if unat v < 0xFD then 1 else if unat v < 2 ^ 16 then 3 else if unat v < 2 ^ 32 then 5 else 9)"
    by (simp add: write_varint_append length_varint_enc)
qed

end
