(* ===== verification/Hashing.thy ===== *)
theory Hashing
  imports Bytes
begin

unbundle bit_operations_syntax

text \<open>
  Hashes, hexadecimal text and transaction ids: \<^verbatim>\<open>crates/bsv/src/hash.rs\<close> and
  \<^verbatim>\<open>crates/bsv/src/txid.rs\<close>. SHA-256 and RIPEMD-160 come from third-party crates and are
  arguments (\<open>sha\<close>, \<open>rip\<close>) of the definitions that call them. A \<open>&str\<close> is a \<open>string\<close> of its UTF-8
  bytes, so \<open>length\<close> is \<open>str::len\<close>.
\<close>

section \<open>Hashes\<close>

datatype hash256 = Hash256 (internal: bytes)

definition from_internal :: "bytes \<Rightarrow> hash256" where
  "from_internal bs = Hash256 bs"

definition zero_hash :: hash256 where
  "zero_hash = from_internal (replicate 32 0)"

definition double_sha256 :: "(bytes \<Rightarrow> bytes) \<Rightarrow> bytes \<Rightarrow> hash256" where
  "double_sha256 sha m = (let first = sha m; second = sha first in Hash256 second)"

definition sha256 :: "(bytes \<Rightarrow> bytes) \<Rightarrow> bytes \<Rightarrow> bytes" where
  "sha256 sha m = sha m"

definition hash160 :: "(bytes \<Rightarrow> bytes) \<Rightarrow> (bytes \<Rightarrow> bytes) \<Rightarrow> bytes \<Rightarrow> bytes" where
  "hash160 sha rip m = rip (sha m)"

section \<open>Hexadecimal text\<close>

definition char_byte :: "char \<Rightarrow> byte" where
  "char_byte c = word_of_nat (of_char c)"

definition as_bytes :: "string \<Rightarrow> bytes" where
  "as_bytes s = map char_byte s"

definition hex_val :: "byte \<Rightarrow> bsv_error + byte" where
  "hex_val c =
     (if 0x30 \<le> c \<and> c \<le> 0x39 then Inr (c - 0x30)
      else if 0x61 \<le> c \<and> c \<le> 0x66 then Inr (c - 0x61 + 10)
      else if 0x41 \<le> c \<and> c \<le> 0x46 then Inr (c - 0x41 + 10)
      else Inl Hex)"

definition nibble :: "byte \<Rightarrow> char" where
  "nibble n = (if n \<le> 9 then char_of (unat (0x30 + n)) else char_of (unat (0x61 + (n - 10))))"

fun hex_pairs :: "bytes \<Rightarrow> bsv_error + bytes" where
  "hex_pairs (hi # lo # rest) =
     rbind (hex_val hi) (\<lambda>h. rbind (hex_val lo) (\<lambda>l.
     rbind (hex_pairs rest) (\<lambda>out. Inr ((push_bit 4 h OR l) # out))))"
| "hex_pairs _ = Inr []"

definition hex_to_bytes :: "string \<Rightarrow> bsv_error + bytes" where
  "hex_to_bytes s = (if \<not> even (length s) then Inl Hex else hex_pairs (as_bytes s))"

definition bytes_to_hex :: "bytes \<Rightarrow> string" where
  "bytes_to_hex bs = concat (map (\<lambda>b. [nibble (drop_bit 4 b), nibble (b AND 0x0f)]) bs)"

definition hex_to_array32 :: "string \<Rightarrow> bsv_error + bytes" where
  "hex_to_array32 s = rbind (hex_to_bytes s) (\<lambda>v.
     if length v = 32 then Inr v else Inl (Length 32 (length v)))"

definition hash_from_display_hex :: "string \<Rightarrow> bsv_error + hash256" where
  "hash_from_display_hex s = rbind (hex_to_array32 s) (\<lambda>bs. Inr (Hash256 (rev bs)))"

definition hash_to_display_hex :: "hash256 \<Rightarrow> string" where
  "hash_to_display_hex h = bytes_to_hex (rev (internal h))"

section \<open>Transaction ids\<close>

datatype txid = Txid (as_hash: hash256)

definition txid_from_hash :: "hash256 \<Rightarrow> txid" where
  "txid_from_hash h = Txid h"

definition txid_from_display_hex :: "string \<Rightarrow> bsv_error + txid" where
  "txid_from_display_hex s = rbind (hash_from_display_hex s) (\<lambda>h. Inr (Txid h))"

definition txid_to_display_hex :: "txid \<Rightarrow> string" where
  "txid_to_display_hex t = hash_to_display_hex (as_hash t)"

definition txid_of_tx_bytes :: "(bytes \<Rightarrow> bytes) \<Rightarrow> bytes \<Rightarrow> txid" where
  "txid_of_tx_bytes sha raw = Txid (double_sha256 sha raw)"

definition cur_hash256 :: "hash256 reader" where
  "cur_hash256 = op_bind (cur_array 32) (\<lambda>b. op_return (from_internal b))"

section \<open>Well-formedness and the parameters\<close>

text \<open>A \<open>[u8; 32]\<close> has 32 elements by its type; a modelled hash has it by this predicate.\<close>

definition wf_hash :: "hash256 \<Rightarrow> bool" where
  "wf_hash h \<longleftrightarrow> length (internal h) = 32"

text \<open>What the code relies on of the digest crate: outputs have the digest's length. Collision
  freedom is the idealisation under which tamper evidence is stated.\<close>

definition digest_len :: "nat \<Rightarrow> (bytes \<Rightarrow> bytes) \<Rightarrow> bool" where
  "digest_len n f \<longleftrightarrow> (\<forall>m. length (f m) = n)"

definition collision_free :: "(bytes \<Rightarrow> bytes) \<Rightarrow> bytes set \<Rightarrow> bool" where
  "collision_free sha S \<longleftrightarrow> inj_on (double_sha256 sha) S"

text \<open>A concrete digest for evaluation: it keeps 32-byte inputs and otherwise encodes the length.\<close>

definition len_digest :: "bytes \<Rightarrow> bytes" where
  "len_digest m = (if length m = 32 then m else replicate 31 0 @ [word_of_nat (length m)])"

section \<open>Lemmas\<close>

lemma collision_freeD:
  "double_sha256 sha m = double_sha256 sha m' \<Longrightarrow> collision_free sha S \<Longrightarrow> m \<in> S \<Longrightarrow> m' \<in> S \<Longrightarrow> m = m'"
  by (auto simp: collision_free_def dest: inj_onD)

lemma collision_free_subset: "collision_free sha S \<Longrightarrow> T \<subseteq> S \<Longrightarrow> collision_free sha T"
  unfolding collision_free_def by (rule inj_on_subset)

lemma digest_len_digest [simp]: "digest_len 32 len_digest"
  by (simp add: digest_len_def len_digest_def)

lemma collision_free_len_digest:
  assumes "\<forall>m \<in> S. length m \<noteq> 32 \<and> length m < 256" "inj_on length S"
  shows "collision_free len_digest S"
  unfolding collision_free_def
proof (rule inj_onI)
  fix a b
  assume ab: "a \<in> S" "b \<in> S" and eq: "double_sha256 len_digest a = double_sha256 len_digest b"
  have l: "length a < 256" "length b < 256" "length a \<noteq> 32" "length b \<noteq> 32" using assms(1) ab by auto
  with eq have "(word_of_nat (length a) :: byte) = word_of_nat (length b)"
    by (simp add: double_sha256_def len_digest_def)
  then have "unat (word_of_nat (length a) :: byte) = unat (word_of_nat (length b) :: byte)" by simp
  with l have "length a = length b" by (simp add: byte_unat_of_nat)
  with assms(2) ab show "a = b" by (auto dest: inj_onD)
qed

lemma inj_as_bytes: "as_bytes s = as_bytes t \<longleftrightarrow> s = t"
proof -
  have "inj char_byte"
  proof (rule injI)
    fix c d
    assume "char_byte c = char_byte d"
    then have "unat (word_of_nat (of_char c) :: byte) = unat (word_of_nat (of_char d) :: byte)"
      by (simp add: char_byte_def)
    then have "(of_char c :: nat) = of_char d"
      by (simp add: byte_unat_of_nat)
    then show "c = d" by (simp add: of_char_eq_iff)
  qed
  then show ?thesis
    unfolding as_bytes_def by (metis inj_map_eq_map)
qed

lemma separated_append_eq:
  assumes "x \<notin> set a" "x \<notin> set c"
  shows "a @ x # b = c @ x # d \<longleftrightarrow> a = c \<and> b = d"
  using assms by (auto simp: append_eq_append_conv2 Cons_eq_append_conv append_eq_Cons_conv)

lemma wf_zero_hash [simp]: "wf_hash zero_hash"
  by (simp add: wf_hash_def zero_hash_def from_internal_def)

lemma wf_double_sha256 [simp]: "digest_len 32 sha \<Longrightarrow> wf_hash (double_sha256 sha m)"
  by (simp add: wf_hash_def double_sha256_def digest_len_def)

lemma parses_hash256 [parse_intros]: "wf_hash h \<Longrightarrow> parses cur_hash256 (internal h) h"
  unfolding cur_hash256_def
  by (rule parses_bind_pure [OF parses_array])
    (auto simp: wf_hash_def from_internal_def parses_return)

lemma safe_hash256 [intro]: "safe_reader cur_hash256"
  unfolding cur_hash256_def by (intro safe_bind safe_readers safe_return)

lemma length_as_bytes [simp]: "length (as_bytes s) = length s"
  by (simp add: as_bytes_def)

lemma char_byte_char_of [simp]: "char_byte (char_of (unat b)) = b"
  by (simp add: char_byte_def of_char_of take_bit_nat_eq_self)

lemma unat_byte_add: "unat a + unat b < 256 \<Longrightarrow> unat (a + b :: byte) = unat a + unat b"
  by (simp add: unat_word_ariths)

lemma hex_val_nibble: "n < 16 \<Longrightarrow> hex_val (char_byte (nibble n)) = Inr n"
proof (cases "n \<le> 9")
  case True
  then have "unat n \<le> 9" by (simp add: word_le_nat_alt)
  moreover from this have "unat (0x30 + n) = 48 + unat n" by (simp add: unat_byte_add)
  ultimately have "hex_val (0x30 + n) = Inr n" by (simp add: hex_val_def word_le_nat_alt)
  with True show ?thesis by (simp add: nibble_def)
next
  assume "n < 16"
  case False
  then have n: "9 < unat n" "unat n < 16"
    using \<open>n < 16\<close> by (simp_all add: word_le_nat_alt word_less_nat_alt)
  then have "unat (n - 10) = unat n - 10" by (simp add: unat_sub word_le_nat_alt)
  with n have "unat (0x61 + (n - 10)) = 87 + unat n" by (simp add: unat_byte_add)
  then have "hex_val (0x61 + (n - 10)) = Inr n"
    using n by (simp add: hex_val_def word_le_nat_alt)
  with False show ?thesis by (simp add: nibble_def)
qed

lemma nibbles_join: "push_bit 4 (drop_bit 4 b) OR (b AND 0x0f) = (b :: byte)"
proof -
  have m: "(0x0f :: byte) = mask 4" by (simp add: mask_eq_exp_minus_1)
  show ?thesis
    unfolding m by (intro bit_eqI) (auto simp: bit_simps simp del: mask_numeral)
qed

lemma nibble_bounds: "drop_bit 4 (b :: byte) < 16" "(b AND 0x0f) < (16 :: byte)"
proof -
  have "unat (drop_bit 4 b) < 16"
    by (simp add: drop_bit_eq_div unat_div_distrib less_mult_imp_div_less)
  then show "drop_bit 4 b < 16" by (simp add: word_less_nat_alt)
  have "(b AND 0x0f) \<le> 0x0f" by (rule word_and_le1)
  then show "(b AND 0x0f) < 16" by (rule order_le_less_trans) simp
qed

lemma hex_pairs_bytes_to_hex: "hex_pairs (as_bytes (bytes_to_hex bs)) = Inr bs"
  by (induction bs)
    (simp_all add: bytes_to_hex_def as_bytes_def hex_val_nibble nibble_bounds nibbles_join)

lemma length_bytes_to_hex [simp]: "length (bytes_to_hex bs) = 2 * length bs"
  by (induction bs) (simp_all add: bytes_to_hex_def)

lemma hex_roundtrip: "hex_to_bytes (bytes_to_hex bs) = Inr bs"
  by (simp add: hex_to_bytes_def hex_pairs_bytes_to_hex)

lemma hex_pairs_length: "hex_pairs bs = Inr out \<Longrightarrow> length out = length bs div 2"
  by (induction bs arbitrary: out rule: hex_pairs.induct) (auto simp: rbind_eq_Inr)

section \<open>Properties\<close>

text \<open>
  The single conversion point between internal and display byte order is a
  bijection: formatting a hash and parsing it back returns the hash, every accepted text has exactly
  64 characters and denotes a well-formed hash, and a text of any other even length of hexadecimal
  digits is refused with the length error that names 32 and the actual byte count.
\<close>

lemma display_hex_roundtrip:
  "(wf_hash h \<longrightarrow> hash_from_display_hex (hash_to_display_hex h) = Inr h)
   \<and> (hash_from_display_hex s = Inr h \<longrightarrow> length s = 64 \<and> wf_hash h)
   \<and> (hex_to_bytes s = Inr bs \<and> length bs \<noteq> 32 \<longrightarrow>
        hash_from_display_hex s = Inl (Length 32 (length bs)))"
proof (intro conjI impI)
  assume "wf_hash h"
  then show "hash_from_display_hex (hash_to_display_hex h) = Inr h"
    by (cases h) (simp add: hash_from_display_hex_def hash_to_display_hex_def hex_to_array32_def
        hex_roundtrip wf_hash_def)
next
  assume "hash_from_display_hex s = Inr h"
  then show "length s = 64" "wf_hash h"
    by (auto simp: hash_from_display_hex_def hex_to_array32_def hex_to_bytes_def wf_hash_def
        rbind_eq_Inr dest!: hex_pairs_length split: if_splits)
next
  assume "hex_to_bytes s = Inr bs \<and> length bs \<noteq> 32"
  then show "hash_from_display_hex s = Inl (Length 32 (length bs))"
    by (simp add: hash_from_display_hex_def hex_to_array32_def)
qed

end
