(* ===== verification/Header.thy ===== *)
theory Header
  imports Hashing
begin

unbundle bit_operations_syntax

text \<open>
  Block headers, \<^verbatim>\<open>crates/bsv/src/header.rs\<close>: the fixed 80-byte layout, the block hash and the
  proof-of-work target. The target decoder is compared with the arithmetic meaning of the compact
  form, and the comparison of byte arrays with the comparison of the numbers they denote.
\<close>

section \<open>Headers\<close>

definition HEADER_LEN :: nat where
  "HEADER_LEN = 80"

record block_header =
  bh_version :: "32 word"
  bh_prev_block_hash :: hash256
  bh_merkle_root :: hash256
  bh_time :: "32 word"
  bh_bits :: "32 word"
  bh_nonce :: "32 word"

definition read4 :: "bytes \<Rightarrow> nat \<Rightarrow> bsv_error + bytes" where
  "read4 raw off =
     rbind (ok_or (checked_add off 4) OutOfRange) (\<lambda>e.
     rbind (ok_or (get_range raw off e) Truncated) (\<lambda>s.
     if length s = 4 then Inr s else Inl Truncated))"

definition read32 :: "bytes \<Rightarrow> nat \<Rightarrow> bsv_error + bytes" where
  "read32 raw off =
     rbind (ok_or (checked_add off 32) OutOfRange) (\<lambda>e.
     rbind (ok_or (get_range raw off e) Truncated) (\<lambda>s.
     if length s = 32 then Inr s else Inl Truncated))"

definition write_at :: "bytes \<Rightarrow> nat \<Rightarrow> bytes \<Rightarrow> bytes" where
  "write_at out off src =
     (case checked_add off (length src) of
        None \<Rightarrow> out
      | Some e \<Rightarrow> if e \<le> length out then take off out @ src @ drop e out else out)"

definition header_parse :: "bytes \<Rightarrow> bsv_error + block_header" where
  "header_parse raw =
     (if length raw \<noteq> HEADER_LEN then Inl (Length HEADER_LEN (length raw))
      else
        rbind (read4 raw 0) (\<lambda>version.
        rbind (read32 raw 4) (\<lambda>prev.
        rbind (read32 raw 36) (\<lambda>root.
        rbind (read4 raw 68) (\<lambda>time.
        rbind (read4 raw 72) (\<lambda>bits.
        rbind (read4 raw 76) (\<lambda>nonce.
        Inr \<lparr>bh_version = u32_from_le version, bh_prev_block_hash = from_internal prev,
          bh_merkle_root = from_internal root, bh_time = u32_from_le time, bh_bits = u32_from_le bits,
          bh_nonce = u32_from_le nonce\<rparr>)))))))"

definition header_serialize :: "block_header \<Rightarrow> bytes" where
  "header_serialize h =
     (let out = replicate HEADER_LEN 0;
          out = write_at out 0 (u32_to_le (bh_version h));
          out = write_at out 4 (internal (bh_prev_block_hash h));
          out = write_at out 36 (internal (bh_merkle_root h));
          out = write_at out 68 (u32_to_le (bh_time h));
          out = write_at out 72 (u32_to_le (bh_bits h))
      in write_at out 76 (u32_to_le (bh_nonce h)))"

definition block_hash :: "(bytes \<Rightarrow> bytes) \<Rightarrow> block_header \<Rightarrow> hash256" where
  "block_hash sha h = double_sha256 sha (header_serialize h)"

section \<open>Proof of work\<close>

definition target_byte :: "nat \<Rightarrow> nat \<times> byte \<Rightarrow> bytes \<Rightarrow> bytes" where
  "target_byte expo = (\<lambda>(k, mb) be.
     let idx = 32 - int expo + int k in
     if 0 \<le> idx \<and> idx < 32 then be[nat idx := mb] else be)"

definition target_from_bits :: "32 word \<Rightarrow> bytes" where
  "target_from_bits bits =
     (let expo = unat (drop_bit 24 bits AND 0xff);
          mantissa = bits AND 0x007fffff;
          m = u32_to_le mantissa
      in fold (target_byte expo) [(0, m ! 2), (1, m ! 1), (2, m ! 0)] (replicate 32 0))"

text \<open>The derived order of Rust arrays is lexicographic.\<close>

fun array_le :: "bytes \<Rightarrow> bytes \<Rightarrow> bool" where
  "array_le [] ys = True"
| "array_le (x # xs) [] = False"
| "array_le (x # xs) (y # ys) = (x < y \<or> x = y \<and> array_le xs ys)"

definition meets_target :: "(bytes \<Rightarrow> bytes) \<Rightarrow> block_header \<Rightarrow> bool" where
  "meets_target sha h =
     (let target = target_from_bits (bh_bits h);
          hash_be = rev (internal (block_hash sha h))
      in array_le hash_be target)"

section \<open>Specification\<close>

definition wf_header :: "block_header \<Rightarrow> bool" where
  "wf_header h \<longleftrightarrow> wf_hash (bh_prev_block_hash h) \<and> wf_hash (bh_merkle_root h)"

definition enc_header :: "block_header \<Rightarrow> bytes" where
  "enc_header h = u32_to_le (bh_version h) @ internal (bh_prev_block_hash h) @ internal (bh_merkle_root h)
     @ u32_to_le (bh_time h) @ u32_to_le (bh_bits h) @ u32_to_le (bh_nonce h)"

text \<open>The compact form denotes \<open>mantissa * 256 ^ (exponent - 3)\<close>, cut to 256 bits.\<close>

definition compact_target :: "32 word \<Rightarrow> nat" where
  "compact_target bits =
     (unat bits mod 2 ^ 23 * 256 ^ (unat bits div 2 ^ 24) div 256 ^ 3) mod 256 ^ 32"

section \<open>The layout\<close>

lemma write_at_block:
  "off = length pre \<Longrightarrow> length src = length gap \<Longrightarrow> length (pre @ gap @ post) < usize_bound \<Longrightarrow>
   write_at (pre @ gap @ post) off src = pre @ src @ post"
  by (simp add: write_at_def)

lemma length_write_at [simp]: "length (write_at out off src) = length out"
  by (auto simp: write_at_def checked_add_def)

lemma header_serialize_enc:
  assumes "wf_header h"
  shows "header_serialize h = enc_header h"
proof -
  let ?z = "\<lambda>n. replicate n (0 :: byte)"
  let ?a = "u32_to_le (bh_version h)" and ?b = "internal (bh_prev_block_hash h)"
    and ?c = "internal (bh_merkle_root h)" and ?d = "u32_to_le (bh_time h)"
    and ?e = "u32_to_le (bh_bits h)" and ?f = "u32_to_le (bh_nonce h)"
  have len: "length ?b = 32" "length ?c = 32" using assms by (simp_all add: wf_header_def wf_hash_def)
  have r: "?z 80 = [] @ ?z 4 @ ?z 76" "?z 76 = ?z 32 @ ?z 44" "?z 44 = ?z 32 @ ?z 12"
    "?z 12 = ?z 4 @ ?z 8" "?z 8 = ?z 4 @ ?z 4"
    by (simp_all flip: replicate_add)
  have "write_at (?z 80) 0 ?a = ?a @ ?z 76"
    unfolding r(1) by (subst write_at_block) (simp_all add: usize_bound_def)
  moreover have "write_at (?a @ ?z 76) 4 ?b = ?a @ ?b @ ?z 44"
    unfolding r(2) by (subst write_at_block) (simp_all add: len usize_bound_def)
  moreover have "write_at (?a @ ?b @ ?z 44) 36 ?c = ?a @ ?b @ ?c @ ?z 12"
    using write_at_block [of 36 "?a @ ?b" ?c "?z 32" "?z 12"] by (simp add: r(3) len usize_bound_def)
  moreover have "write_at (?a @ ?b @ ?c @ ?z 12) 68 ?d = ?a @ ?b @ ?c @ ?d @ ?z 8"
    using write_at_block [of 68 "?a @ ?b @ ?c" ?d "?z 4" "?z 8"] by (simp add: r(4) len usize_bound_def)
  moreover have "write_at (?a @ ?b @ ?c @ ?d @ ?z 8) 72 ?e = ?a @ ?b @ ?c @ ?d @ ?e @ ?z 4"
    using write_at_block [of 72 "?a @ ?b @ ?c @ ?d" ?e "?z 4" "?z 4"] by (simp add: r(5) len usize_bound_def)
  moreover have "write_at (?a @ ?b @ ?c @ ?d @ ?e @ ?z 4) 76 ?f = ?a @ ?b @ ?c @ ?d @ ?e @ ?f"
    using write_at_block [of 76 "?a @ ?b @ ?c @ ?d @ ?e" ?f "?z 4" "[]"] by (simp add: len usize_bound_def)
  ultimately show ?thesis
    by (simp add: header_serialize_def HEADER_LEN_def enc_header_def)
qed

lemma read_block:
  "read4 raw off = Inr (take 4 (drop off raw))" if "off + 4 \<le> length raw" "length raw = HEADER_LEN"
  using that by (simp add: read4_def get_range_def HEADER_LEN_def usize_bound_def)

lemma read_block32:
  "read32 raw off = Inr (take 32 (drop off raw))" if "off + 32 \<le> length raw" "length raw = HEADER_LEN"
  using that by (simp add: read32_def get_range_def HEADER_LEN_def usize_bound_def)

lemma header_parse_ok:
  assumes "length raw = HEADER_LEN"
  shows "header_parse raw = Inr
    \<lparr>bh_version = u32_from_le (take 4 raw), bh_prev_block_hash = Hash256 (take 32 (drop 4 raw)),
     bh_merkle_root = Hash256 (take 32 (drop 36 raw)), bh_time = u32_from_le (take 4 (drop 68 raw)),
     bh_bits = u32_from_le (take 4 (drop 72 raw)), bh_nonce = u32_from_le (take 4 (drop 76 raw))\<rparr>"
  using read_block [OF _ assms] read_block32 [OF _ assms] assms
  by (simp add: header_parse_def HEADER_LEN_def from_internal_def)

lemma length_enc_header: "wf_header h \<Longrightarrow> length (enc_header h) = HEADER_LEN"
  by (simp add: enc_header_def wf_header_def wf_hash_def HEADER_LEN_def)

lemma header_parse_enc: "wf_header h \<Longrightarrow> header_parse (enc_header h) = Inr h"
  by (simp add: header_parse_ok length_enc_header)
    (simp add: enc_header_def wf_header_def wf_hash_def)

lemma blocks_join:
  "length raw = 80 \<Longrightarrow> take 4 raw @ take 32 (drop 4 raw) @ take 32 (drop 36 raw) @ take 4 (drop 68 raw)
     @ take 4 (drop 72 raw) @ take 4 (drop 76 raw) = raw"
  by (simp flip: take_add add: append_assoc [symmetric] del: append_assoc)

lemma header_parse_inv:
  assumes "header_parse raw = Inr h"
  shows "length raw = HEADER_LEN \<and> wf_header h \<and> enc_header h = raw"
proof -
  have len: "length raw = HEADER_LEN" using assms by (simp add: header_parse_def split: if_splits)
  with assms have "enc_header h = raw"
    using blocks_join [of raw] by (auto simp: header_parse_ok enc_header_def u32_to_from_le HEADER_LEN_def)
  moreover have "wf_header h"
    using assms len by (auto simp: header_parse_ok wf_header_def wf_hash_def HEADER_LEN_def)
  ultimately show ?thesis using len by simp
qed

section \<open>The order of arrays is the order of numbers\<close>

lemma be_to_nat_Cons: "be_to_nat (x # xs) = unat x * 256 ^ length xs + be_to_nat xs"
  by (simp add: be_to_nat_def le_to_nat_append)

lemma be_to_nat_append: "be_to_nat (xs @ ys) = be_to_nat xs * 256 ^ length ys + be_to_nat ys"
  by (simp add: be_to_nat_def le_to_nat_append)

lemma be_to_nat_bound: "be_to_nat bs < 256 ^ length bs"
  using le_to_nat_bound [of "rev bs"] by (simp add: be_to_nat_def)

lemma le_to_nat_zeros [simp]: "le_to_nat (replicate n 0) = 0"
  by (induction n) simp_all

lemma be_to_nat_zeros [simp]: "be_to_nat (replicate n 0) = 0"
  by (simp add: be_to_nat_def)

lemma array_le_iff: "length xs = length ys \<Longrightarrow> array_le xs ys \<longleftrightarrow> be_to_nat xs \<le> be_to_nat ys"
proof (induction xs ys rule: array_le.induct)
  case (3 x xs y ys)
  have b: "be_to_nat xs < 256 ^ length ys" "be_to_nat ys < 256 ^ length ys"
    using be_to_nat_bound [of xs] be_to_nat_bound [of ys] 3 by simp_all
  have strict: "a * N + r < b * N + t" if "a < b" "r < N" for a b r t N :: nat
  proof -
    have "Suc a * N \<le> b * N" using that(1) by (intro mult_le_mono1) simp
    with that(2) show ?thesis by simp
  qed
  consider "unat x < unat y" | "x = y" | "unat y < unat x"
    by (metis linorder_neqE_nat word_unat_eq_iff)
  then show ?case
  proof cases
    case 1
    with strict [OF 1 b(1), of "be_to_nat ys"] 3 show ?thesis
      by (simp add: be_to_nat_Cons word_less_nat_alt)
  next
    case 2
    with 3 show ?thesis by (simp add: be_to_nat_Cons)
  next
    case 3
    with strict [OF 3 b(2), of "be_to_nat xs"] "3.prems" show ?thesis
      by (auto simp: be_to_nat_Cons word_less_nat_alt)
  qed
qed simp_all

section \<open>The target decoder\<close>

lemma length_target_byte [simp]: "length (target_byte expo p be) = length be"
  by (cases p) (simp add: target_byte_def Let_def)

lemma length_target [simp]: "length (target_from_bits bits) = 32"
  by (simp add: target_from_bits_def Let_def)

definition place_bytes :: "nat \<Rightarrow> byte \<Rightarrow> byte \<Rightarrow> byte \<Rightarrow> bytes" where
  "place_bytes expo a b c = fold (target_byte expo) [(0, a), (1, b), (2, c)] (replicate 32 0)"

lemma place_bytes_middle:
  assumes "3 \<le> e" "e \<le> 32"
  shows "place_bytes e a b c = replicate (32 - e) 0 @ [a, b, c] @ replicate (e - 3) 0"
proof -
  have "replicate 32 (0 :: byte) = replicate (32 - e) 0 @ [0, 0, 0] @ replicate (e - 3) 0"
    using assms by (intro nth_equalityI) (auto simp: nth_append nth_Cons')
  moreover have "nat (32 - int e) = 32 - e" "nat (32 - int e + 1) = Suc (32 - e)"
    "nat (32 - int e + 2) = Suc (Suc (32 - e))" using assms by auto
  ultimately show ?thesis
    using assms by (simp add: place_bytes_def target_byte_def list_update_append)
qed

lemma place_bytes_edge:
  "place_bytes 0 a b c = replicate 32 0"
  "place_bytes 1 a b c = replicate 31 0 @ [a]"
  "place_bytes 2 a b c = replicate 30 0 @ [a, b]"
  "place_bytes 33 a b c = [b, c] @ replicate 30 0"
  "place_bytes 34 a b c = [c] @ replicate 31 0"
proof -
  have r: "replicate 32 (0::byte) = replicate 31 0 @ [0]" "replicate 32 (0::byte) = replicate 30 0 @ [0, 0]"
    "replicate 32 (0::byte) = [0, 0] @ replicate 30 0" "replicate 32 (0::byte) = [0] @ replicate 31 0"
    using replicate_add [of 31 1 "0::byte"] replicate_add [of 30 2 "0::byte"]
      replicate_add [of 2 30 "0::byte"] replicate_add [of 1 31 "0::byte"]
    by (simp_all add: numeral_2_eq_2)
  show "place_bytes 0 a b c = replicate 32 0"
    by (simp add: place_bytes_def target_byte_def)
  show "place_bytes 1 a b c = replicate 31 0 @ [a]"
    unfolding place_bytes_def r(1) by (simp add: target_byte_def list_update_append)
  show "place_bytes 2 a b c = replicate 30 0 @ [a, b]"
    unfolding place_bytes_def r(2) by (simp add: target_byte_def list_update_append)
  show "place_bytes 33 a b c = [b, c] @ replicate 30 0"
    unfolding place_bytes_def r(3) by (simp add: target_byte_def)
  show "place_bytes 34 a b c = [c] @ replicate 31 0"
    unfolding place_bytes_def r(4) by (simp add: target_byte_def)
qed

lemma shifted_div:
  fixes m :: nat
  assumes "m < 256 ^ 3"
  shows "m * 256 ^ 0 div 256 ^ 3 mod 256 ^ 32 = 0"
    and "m * 256 ^ 1 div 256 ^ 3 mod 256 ^ 32 = m div 65536"
    and "m * 256 ^ 2 div 256 ^ 3 mod 256 ^ 32 = m div 256"
    and "m * 256 ^ 33 div 256 ^ 3 mod 256 ^ 32 = m mod 65536 * 256 ^ 30"
    and "m * 256 ^ 34 div 256 ^ 3 mod 256 ^ 32 = m mod 256 * 256 ^ 31"
proof -
  have d: "m * 256 div (65536 * 256) = m div 65536" "m * 65536 div (256 * 65536) = m div 256"
    by (rule div_mult_mult2, simp)+
  have "m div 65536 \<le> m" "m div 256 \<le> m" by simp_all
  with assms have lt: "m div 65536 < 256 ^ 32" "m div 256 < 256 ^ 32" by simp_all
  show "m * 256 ^ 0 div 256 ^ 3 mod 256 ^ 32 = 0" using assms by simp
  show "m * 256 ^ 1 div 256 ^ 3 mod 256 ^ 32 = m div 65536" using d(1) lt(1) by simp
  show "m * 256 ^ 2 div 256 ^ 3 mod 256 ^ 32 = m div 256" using d(2) lt(2) by simp
  have "m * 256 ^ 33 div 256 ^ 3 = m * 256 ^ 30" "(256::nat) ^ 32 = 65536 * 256 ^ 30" by simp_all
  then show "m * 256 ^ 33 div 256 ^ 3 mod 256 ^ 32 = m mod 65536 * 256 ^ 30"
    by (simp only: mod_mult_mult2)
  have "m * 256 ^ 34 div 256 ^ 3 = m * 256 ^ 31" "(256::nat) ^ 32 = 256 * 256 ^ 31" by simp_all
  then show "m * 256 ^ 34 div 256 ^ 3 mod 256 ^ 32 = m mod 256 * 256 ^ 31"
    by (simp only: mod_mult_mult2)
qed

lemma three_byte_parts:
  fixes a b c :: byte
  shows "(unat a * 65536 + unat b * 256 + unat c) div 65536 = unat a"
    and "(unat a * 65536 + unat b * 256 + unat c) div 256 = unat a * 256 + unat b"
    and "(unat a * 65536 + unat b * 256 + unat c) mod 65536 = unat b * 256 + unat c"
    and "(unat a * 65536 + unat b * 256 + unat c) mod 256 = unat c"
proof -
  have dm: "(q * k + r) div k = q \<and> (q * k + r) mod k = r" if "r < k" for q r k :: nat using that by simp
  have "unat b * 256 + unat c < 65536" using byte_unat_less [of b] byte_unat_less [of c] by linarith
  from dm [OF this, of "unat a"]
  show "(unat a * 65536 + unat b * 256 + unat c) div 65536 = unat a"
    "(unat a * 65536 + unat b * 256 + unat c) mod 65536 = unat b * 256 + unat c"
    by (simp_all only: add.assoc)
  have "unat a * 65536 + unat b * 256 + unat c = (unat a * 256 + unat b) * 256 + unat c" by simp
  with dm [OF byte_unat_less [of c], of "unat a * 256 + unat b"]
  show "(unat a * 65536 + unat b * 256 + unat c) div 256 = unat a * 256 + unat b"
    "(unat a * 65536 + unat b * 256 + unat c) mod 256 = unat c"
    by (simp_all only:)
qed

lemma place_bytes_value:
  "be_to_nat (place_bytes e a b c) =
     ((unat a * 65536 + unat b * 256 + unat c) * 256 ^ e div 256 ^ 3) mod 256 ^ 32"
proof -
  let ?m = "unat a * 65536 + unat b * 256 + unat c"
  note bd = byte_unat_less [of a] byte_unat_less [of b] byte_unat_less [of c]
  have "?m < 16777216" using bd by linarith
  then have m: "?m < 256 ^ 3" by simp
  consider "e = 0" | "e = 1" | "e = 2" | "3 \<le> e" "e \<le> 32" | "e = 33" | "e = 34" | "35 \<le> e" by linarith
  then show ?thesis
  proof cases
    case 4
    have "?m * 256 ^ (e - 3) < 256 ^ 3 * 256 ^ (e - 3)" using m by (intro mult_strict_right_mono) simp_all
    also have "\<dots> = 256 ^ e" using 4 by (simp only: power_add [symmetric] le_add_diff_inverse)
    also have "\<dots> \<le> 256 ^ 32" using 4 by (intro power_increasing) simp_all
    finally have "?m * 256 ^ (e - 3) < 256 ^ 32" .
    moreover have "?m * 256 ^ e div 256 ^ 3 = ?m * 256 ^ (e - 3)"
    proof -
      have "(256::nat) ^ e = 256 ^ (e - 3) * 256 ^ 3"
        using 4 by (simp only: power_add [symmetric] le_add_diff_inverse2)
      then show ?thesis by simp
    qed
    ultimately show ?thesis
      by (simp add: place_bytes_middle [OF 4] be_to_nat_append be_to_nat_Cons) (simp add: algebra_simps)
  next
    case 7
    then have "(256::nat) ^ e = 256 ^ (e - 35) * 256 ^ 35"
      by (simp only: power_add [symmetric] le_add_diff_inverse2)
    moreover have "(256::nat) ^ 35 = 256 ^ 32 * 256 ^ 3" by simp
    ultimately have "(256::nat) ^ e = 256 ^ (e - 35) * 256 ^ 32 * 256 ^ 3" by (simp only: mult.assoc)
    then have "?m * 256 ^ e div 256 ^ 3 = ?m * 256 ^ (e - 35) * 256 ^ 32" by simp
    moreover have "place_bytes e a b c = replicate 32 0"
      using 7 by (simp add: place_bytes_def target_byte_def)
    ultimately show ?thesis by simp
  qed (simp_all only: place_bytes_edge shifted_div [OF m] three_byte_parts be_to_nat_append be_to_nat_zeros,
      simp_all add: be_to_nat_Cons be_to_nat_def [of "[]"])
qed

lemma mantissa_bytes:
  "u32_to_le w = [word_of_nat (unat w), word_of_nat (unat w div 256), word_of_nat (unat w div 65536),
     word_of_nat (unat w div 16777216)]"
  by (simp add: u32_to_le_def byte_eval word_unat_eq_iff byte_unat_of_nat del: of_nat_unat
      flip: div_mult2_eq)

lemma three_bytes:
  assumes "x < 2 ^ 23"
  shows "unat (word_of_nat (x div 65536) :: byte) * 65536 + unat (word_of_nat (x div 256) :: byte) * 256
    + unat (word_of_nat x :: byte) = x"
proof -
  have "x div 65536 mod 256 = x div 65536" using assms by simp
  moreover have "x = x div 65536 * 65536 + x div 256 mod 256 * 256 + x mod 256"
  proof -
    have "x = x div 256 * 256 + x mod 256" "x div 256 = x div 256 div 256 * 256 + x div 256 mod 256"
      by simp_all
    moreover have "x div 256 div 256 = x div 65536" by (simp flip: div_mult2_eq)
    ultimately show ?thesis by linarith
  qed
  ultimately show ?thesis by (simp add: byte_unat_of_nat)
qed

lemma target_value: "be_to_nat (target_from_bits bits) = compact_target bits"
proof -
  have "(0x007fffff :: 32 word) = mask 23" by (simp add: mask_eq_exp_minus_1)
  then have m: "unat (bits AND 0x007fffff) = unat bits mod 2 ^ 23"
    by (simp only: take_bit_eq_mask [symmetric]) (simp add: take_bit_eq_mod unat_mod_distrib)
  have "drop_bit 24 bits AND 0xff = drop_bit 24 bits"
  proof (intro bit_eqI)
    fix n
    have "bit (0xff :: 32 word) n \<longleftrightarrow> n < 8"
      using bit_mask_iff [of 8 n, where 'a = "32 word"] by (auto simp: mask_eq_exp_minus_1)
    then show "bit (drop_bit 24 bits AND 0xff) n = bit (drop_bit 24 bits) n"
      by (auto simp: bit_simps dest: bit_imp_le_length)
  qed
  then have e: "unat (drop_bit 24 bits AND 0xff) = unat bits div 2 ^ 24"
    by (simp add: drop_bit_eq_div unat_div_distrib)
  let ?x = "unat (bits AND 0x007fffff)"
  have "target_from_bits bits = place_bytes (unat bits div 2 ^ 24)
      (word_of_nat (?x div 65536)) (word_of_nat (?x div 256)) (word_of_nat ?x)"
    by (simp add: target_from_bits_def Let_def place_bytes_def mantissa_bytes e del: of_nat_unat)
  moreover have "?x < 2 ^ 23" by (simp add: m)
  ultimately show ?thesis
    by (simp only: place_bytes_value three_bytes) (simp only: compact_target_def m)
qed

section \<open>Properties\<close>

text \<open>
  The 80-byte header layout is a bijection: a header with 32-byte hashes
  serialises to 80 bytes that parse back to it, parsing succeeds on exactly the inputs of 80 bytes
  (any other length is refused with the length error), and serialising what was parsed gives back
  the very bytes.
\<close>

lemma header_roundtrip:
  "(wf_header h \<longrightarrow> length (header_serialize h) = 80 \<and> header_parse (header_serialize h) = Inr h)
   \<and> (length raw \<noteq> 80 \<longrightarrow> header_parse raw = Inl (Length 80 (length raw)))
   \<and> (length raw = 80 \<longrightarrow> (\<exists>g. header_parse raw = Inr g \<and> wf_header g \<and> header_serialize g = raw))"
proof (intro conjI impI)
  assume "length raw = 80"
  then obtain g where "header_parse raw = Inr g"
    by (auto simp: HEADER_LEN_def dest: header_parse_ok [unfolded HEADER_LEN_def])
  with header_parse_inv [OF this] show "\<exists>g. header_parse raw = Inr g \<and> wf_header g \<and> header_serialize g = raw"
    by (simp add: header_serialize_enc)
qed (simp_all add: header_serialize_enc length_enc_header header_parse_enc HEADER_LEN_def
  header_parse_def [of raw])

text \<open>
  The proof-of-work test is the comparison of numbers: a header meets its
  target exactly when its block hash, read as a 256-bit little-endian integer, is at most
  \<open>mantissa * 256 ^ (exponent - 3)\<close> cut to 256 bits, for every value of the compact field.
\<close>

lemma proof_of_work_iff:
  assumes "digest_len 32 sha"
  shows "meets_target sha h \<longleftrightarrow> le_to_nat (internal (block_hash sha h)) \<le> compact_target (bh_bits h)"
proof -
  have "length (internal (block_hash sha h)) = 32"
    using wf_double_sha256 [OF assms] by (simp add: block_hash_def wf_hash_def)
  then have "meets_target sha h \<longleftrightarrow>
      be_to_nat (rev (internal (block_hash sha h))) \<le> be_to_nat (target_from_bits (bh_bits h))"
    by (simp add: meets_target_def array_le_iff)
  then show ?thesis by (simp add: be_to_nat_def [of "rev _"] target_value)
qed

end
