(* ===== verification/HeaderChain.thy ===== *)
theory HeaderChain
  imports Header
begin

text \<open>
  The header chain, \<^verbatim>\<open>crates/bsv/src/headerchain.rs\<close>. A \<open>HeaderChain\<close> is a record of the headers, the
  start height and the index from merkle roots to heights; heights are \<open>u64\<close> values, natural
  numbers with the checked operations of the prelude. The two mutating operations are steps of a
  transition system whose reachable states satisfy \<open>chain_inv\<close>. The locale \<open>trust_root\<close> is what the
  inclusion proofs rely on: a root, once anchored at a height, stays anchored there.
\<close>

section \<open>The chain\<close>

record header_chain =
  hc_headers :: "block_header list"
  hc_start_height :: nat
  hc_by_root :: "hash256 \<Rightarrow> nat option"

definition chain_new :: "nat \<Rightarrow> header_chain" where
  "chain_new start_height =
     \<lparr>hc_headers = [], hc_start_height = start_height, hc_by_root = (\<lambda>_. None)\<rparr>"

definition next_height :: "header_chain \<Rightarrow> bsv_error + nat" where
  "next_height s =
     rbind (ok_or (map_option unat (try_u64 (length (hc_headers s)))) OutOfRange) (\<lambda>len.
     ok_or (checked_add (hc_start_height s) len) OutOfRange)"

definition chain_add :: "(bytes \<Rightarrow> bytes) \<Rightarrow> block_header \<Rightarrow> (header_chain, bsv_error, unit) op" where
  "chain_add sha header s =
     (if hc_headers s \<noteq> [] \<and> bh_prev_block_hash header \<noteq> block_hash sha (last (hc_headers s))
        then (Inl ChainNotLinked, s)
      else if \<not> meets_target sha header then (Inl ChainBadPow, s)
      else (case next_height s of
              Inl e \<Rightarrow> (Inl e, s)
            | Inr height \<Rightarrow>
                (Inr (), s\<lparr>hc_by_root := (hc_by_root s)(bh_merkle_root header \<mapsto> height),
                           hc_headers := hc_headers s @ [header]\<rparr>)))"

definition chain_add_at_height ::
  "(bytes \<Rightarrow> bytes) \<Rightarrow> block_header \<Rightarrow> nat \<Rightarrow> (header_chain, bsv_error, unit) op" where
  "chain_add_at_height sha header expected s =
     (case next_height s of
        Inl e \<Rightarrow> (Inl e, s)
      | Inr height \<Rightarrow> if height \<noteq> expected then (Inl ChainNonMonotonic, s) else chain_add sha header s)"

definition tip_height :: "header_chain \<Rightarrow> nat option" where
  "tip_height s =
     (case map_option unat (try_u64 (length (hc_headers s))) of
        None \<Rightarrow> None
      | Some len \<Rightarrow> (case checked_sub len 1 of None \<Rightarrow> None | Some d \<Rightarrow> checked_add (hc_start_height s) d))"

definition merkle_root_at_height :: "header_chain \<Rightarrow> nat \<Rightarrow> hash256 option" where
  "merkle_root_at_height s height =
     (case checked_sub height (hc_start_height s) of
        None \<Rightarrow> None
      | Some i \<Rightarrow> map_option bh_merkle_root (get_at (hc_headers s) i))"

definition contains_merkle_root :: "header_chain \<Rightarrow> hash256 \<Rightarrow> nat option" where
  "contains_merkle_root s root = hc_by_root s root"

section \<open>Steps and the invariant\<close>

inductive chain_step :: "(bytes \<Rightarrow> bytes) \<Rightarrow> header_chain \<Rightarrow> header_chain \<Rightarrow> bool" for sha where
  add: "chain_add sha header s = (r, t) \<Longrightarrow> chain_step sha s t"
| add_at: "chain_add_at_height sha header expected s = (r, t) \<Longrightarrow> chain_step sha s t"

fun linked :: "(bytes \<Rightarrow> bytes) \<Rightarrow> block_header list \<Rightarrow> bool" where
  "linked sha [] = True"
| "linked sha [h] = True"
| "linked sha (a # b # hs) = (bh_prev_block_hash b = block_hash sha a \<and> linked sha (b # hs))"

text \<open>The index holds, for every root of the chain, the greatest height that commits to it.\<close>

fun root_index :: "nat \<Rightarrow> block_header list \<Rightarrow> hash256 \<Rightarrow> nat option" where
  "root_index n [] = (\<lambda>_. None)"
| "root_index n (h # hs) = (\<lambda>r. case root_index (Suc n) hs r of
     Some i \<Rightarrow> Some i | None \<Rightarrow> if r = bh_merkle_root h then Some n else None)"

definition chain_inv :: "(bytes \<Rightarrow> bytes) \<Rightarrow> header_chain \<Rightarrow> bool" where
  "chain_inv sha s \<longleftrightarrow> linked sha (hc_headers s) \<and> list_all (meets_target sha) (hc_headers s)
     \<and> hc_by_root s = root_index (hc_start_height s) (hc_headers s)
     \<and> (hc_headers s \<noteq> [] \<longrightarrow> hc_start_height s + length (hc_headers s) \<le> usize_bound)"

section \<open>The interface of the inclusion proofs\<close>

locale trust_root =
  fixes root_at :: "'s \<Rightarrow> nat \<Rightarrow> hash256 option" and step :: "'s \<Rightarrow> 's \<Rightarrow> bool"
  assumes stable: "step s t \<Longrightarrow> root_at s height = Some r \<Longrightarrow> root_at t height = Some r"
begin

lemma stable_steps: "step\<^sup>*\<^sup>* s t \<Longrightarrow> root_at s height = Some r \<Longrightarrow> root_at t height = Some r"
  by (induction rule: rtranclp_induct) (auto intro: stable)

end

section \<open>Every step keeps the invariant and only appends\<close>

lemma next_height_cases:
  "next_height s = (if length (hc_headers s) < 2 ^ 64 \<and> hc_start_height s + length (hc_headers s) < usize_bound
     then Inr (hc_start_height s + length (hc_headers s)) else Inl OutOfRange)"
  by (auto simp: next_height_def try_u64_def unat_of_nat checked_add_def)

lemma tip_height_eq:
  "length (hc_headers s) < 2 ^ 64 \<Longrightarrow> tip_height s =
     (if hc_headers s = [] then None else checked_add (hc_start_height s) (length (hc_headers s) - 1))"
  by (cases "hc_headers s") (auto simp: tip_height_def try_u64_def unat_of_nat checked_sub_def
      simp del: of_nat_Suc)

lemma chain_add_Inl: "chain_add sha header s = (Inl e, t) \<Longrightarrow> t = s"
  by (auto simp: chain_add_def split: if_splits sum.splits)

definition pushed :: "block_header \<Rightarrow> header_chain \<Rightarrow> header_chain" where
  "pushed header s =
     s\<lparr>hc_by_root := (hc_by_root s)(bh_merkle_root header \<mapsto> hc_start_height s + length (hc_headers s)),
       hc_headers := hc_headers s @ [header]\<rparr>"

lemma pushed_simps [simp]:
  "hc_headers (pushed h s) = hc_headers s @ [h]" "hc_start_height (pushed h s) = hc_start_height s"
  "hc_by_root (pushed h s) = (hc_by_root s)(bh_merkle_root h \<mapsto> hc_start_height s + length (hc_headers s))"
  by (simp_all add: pushed_def)

lemma chain_add_Inr:
  "chain_add sha header s = (Inr u, t) \<longleftrightarrow>
     (hc_headers s = [] \<or> bh_prev_block_hash header = block_hash sha (last (hc_headers s)))
     \<and> meets_target sha header
     \<and> length (hc_headers s) < 2 ^ 64 \<and> hc_start_height s + length (hc_headers s) < usize_bound
     \<and> t = pushed header s"
  by (auto simp: chain_add_def next_height_cases pushed_def)

lemma chain_stepE:
  assumes "chain_step sha s t"
  obtains "t = s" | header where "chain_add sha header s = (Inr (), t)"
proof -
  have "\<exists>header r. chain_add sha header s = (r, t) \<or> t = s"
    using assms
    by (cases rule: chain_step.cases) (auto simp: chain_add_at_height_def split: sum.splits if_splits)
  then obtain header r where "chain_add sha header s = (r, t) \<or> t = s" by blast
  with that show thesis by (cases r) (auto dest: chain_add_Inl)
qed

lemma linked_snoc:
  "linked sha (hs @ [h]) \<longleftrightarrow> linked sha hs \<and> (hs \<noteq> [] \<longrightarrow> bh_prev_block_hash h = block_hash sha (last hs))"
  by (induction sha hs rule: linked.induct) auto

lemma root_index_snoc:
  "root_index n (hs @ [h]) = (root_index n hs)(bh_merkle_root h \<mapsto> n + length hs)"
  by (induction n hs rule: root_index.induct) (auto simp: fun_eq_iff split: option.splits)

lemma root_index_None:
  "root_index n hs r = None \<Longrightarrow> n \<le> j \<Longrightarrow> j < n + length hs \<Longrightarrow> bh_merkle_root (hs ! (j - n)) \<noteq> r"
  by (induction hs arbitrary: n) (auto simp: nth_Cons' split: option.splits if_splits)

lemma root_index_Some:
  "root_index n hs r = Some i \<Longrightarrow> n \<le> i \<and> i < n + length hs \<and> bh_merkle_root (hs ! (i - n)) = r
     \<and> (\<forall>j. i < j \<and> j < n + length hs \<longrightarrow> bh_merkle_root (hs ! (j - n)) \<noteq> r)"
proof (induction hs arbitrary: n)
  case (Cons h hs)
  show ?case
  proof (cases "root_index (Suc n) hs r")
    case (Some j)
    with Cons show ?thesis by (auto simp: nth_Cons' dest!: Cons.IH)
  next
    case None
    with Cons.prems root_index_None [OF None] show ?thesis
      by (auto simp: nth_Cons' split: if_splits)
  qed
qed simp

lemma root_index_iff:
  "root_index n hs r = Some i \<longleftrightarrow> n \<le> i \<and> i < n + length hs \<and> bh_merkle_root (hs ! (i - n)) = r
     \<and> (\<forall>j. i < j \<and> j < n + length hs \<longrightarrow> bh_merkle_root (hs ! (j - n)) \<noteq> r)" (is "?L \<longleftrightarrow> ?R")
proof
  assume R: ?R
  then obtain k where k: "root_index n hs r = Some k"
    using root_index_None [of n hs r i] by (cases "root_index n hs r") auto
  have "k = i" using R root_index_Some [OF k] by (metis linorder_neqE_nat)
  with k show ?L by simp
qed (rule root_index_Some)

lemma chain_step_inv:
  assumes "chain_step sha s t" "chain_inv sha s"
  shows "chain_inv sha t"
  using assms(1)
proof (cases rule: chain_stepE)
  case (2 header)
  with assms(2) show ?thesis
    by (auto simp: chain_inv_def chain_add_Inr linked_snoc root_index_snoc)
qed (use assms(2) in simp)

lemma chain_new_inv: "chain_inv sha (chain_new n)"
  by (simp add: chain_inv_def chain_new_def)

lemma chain_reach_inv: "(chain_step sha)\<^sup>*\<^sup>* (chain_new n) s \<Longrightarrow> chain_inv sha s"
  by (induction rule: rtranclp_induct) (auto intro: chain_new_inv chain_step_inv)

lemma merkle_root_at_height_eq:
  "merkle_root_at_height s h =
     (if hc_start_height s \<le> h \<and> h - hc_start_height s < length (hc_headers s)
      then Some (bh_merkle_root (hc_headers s ! (h - hc_start_height s))) else None)"
  by (auto simp: merkle_root_at_height_def checked_sub_def get_at_def)

interpretation chain: trust_root merkle_root_at_height "chain_step sha"
proof
  fix s t height r
  assume "chain_step sha s t" "merkle_root_at_height s height = Some r"
  then show "merkle_root_at_height t height = Some r"
    by (cases rule: chain_stepE) (auto simp: chain_add_Inr merkle_root_at_height_eq nth_append split: if_splits)
qed

section \<open>A tip commits to the chain below it\<close>

lemma linked_commits:
  assumes "linked sha hs" "linked sha ks" "length hs = length ks" "hs \<noteq> []"
    "block_hash sha (last hs) = block_hash sha (last ks)"
    "\<forall>h \<in> set hs \<union> set ks. wf_header h"
    "collision_free sha (enc_header ` (set hs \<union> set ks))"
  shows "hs = ks"
  using assms
proof (induction hs arbitrary: ks rule: rev_induct)
  case (snoc h hs)
  then obtain k ks' where ks: "ks = ks' @ [k]" by (cases ks rule: rev_cases) auto
  have wf: "wf_header h" "wf_header k" using snoc.prems(6) ks by auto
  have "double_sha256 sha (enc_header h) = double_sha256 sha (enc_header k)"
    using snoc.prems(5) ks wf by (simp add: block_hash_def header_serialize_enc)
  then have "enc_header h = enc_header k"
    by (rule collision_freeD [OF _ snoc.prems(7)]) (simp_all add: ks)
  then have hk: "h = k"
    using wf by (metis header_parse_enc sum.inject(2))
  moreover have "hs = ks'"
  proof (cases "hs = []")
    case False
    then have "ks' \<noteq> []" using snoc.prems(3) ks by auto
    with False have "block_hash sha (last hs) = block_hash sha (last ks')"
      using snoc.prems(1,2) hk by (metis ks linked_snoc)
    moreover have "collision_free sha (enc_header ` (set hs \<union> set ks'))"
      using snoc.prems(7) by (rule collision_free_subset) (auto simp: ks)
    ultimately show ?thesis
      by (intro snoc.IH) (use False snoc.prems(1-3,6) ks in \<open>simp_all add: linked_snoc\<close>)
  qed (use snoc.prems(3) ks in simp)
  ultimately show ?case using ks by simp
qed simp

section \<open>A header with an easy target\<close>

definition ex_header :: "hash256 \<Rightarrow> hash256 \<Rightarrow> block_header" where
  "ex_header prev root = \<lparr>bh_version = 1, bh_prev_block_hash = prev, bh_merkle_root = root, bh_time = 0,
     bh_bits = 0x207fffff, bh_nonce = 0\<rparr>"

lemma length_header_serialize [simp]: "length (header_serialize h) = 80"
  by (simp add: header_serialize_def HEADER_LEN_def)

lemma ex_header_target: "meets_target len_digest (ex_header prev root)"
proof -
  have "be_to_nat (rev (internal (block_hash len_digest (ex_header prev root)))) = 80 * 256 ^ 31"
    by (simp add: block_hash_def double_sha256_def len_digest_def be_to_nat_def le_to_nat_append)
  moreover have "compact_target 0x207fffff = 0x7fffff * 256 ^ 29" by (simp add: compact_target_def)
  ultimately show ?thesis
    by (simp add: meets_target_def array_le_iff target_value ex_header_def block_hash_def double_sha256_def
        len_digest_def)
qed

section \<open>Properties\<close>




text \<open>
  The chain is append-only: a refused call changes nothing, an accepted one
  adds exactly the header at the next height, which was linked to the tip and met its target, and a
  merkle root once returned for a height is returned for it in every later state.
\<close>

lemma chain_append_only:
  assumes "(chain_step sha)\<^sup>*\<^sup>* s t" and "length (hc_headers t) < 2 ^ 63"
  shows "(\<exists>added. hc_headers t = hc_headers s @ added)
    \<and> (merkle_root_at_height s h = Some r \<longrightarrow> merkle_root_at_height t h = Some r)
    \<and> (case chain_add sha header t of
          (Inl e, u) \<Rightarrow> u = t
        | (Inr _, u) \<Rightarrow> hc_headers u = hc_headers t @ [header] \<and> meets_target sha header
            \<and> (hc_headers t \<noteq> [] \<longrightarrow> bh_prev_block_hash header = block_hash sha (last (hc_headers t)))
            \<and> tip_height u = Some (hc_start_height t + length (hc_headers t)))"
proof (intro conjI impI)
  show "\<exists>added. hc_headers t = hc_headers s @ added"
    using assms(1)
    by (induction rule: rtranclp_induct) (auto elim!: chain_stepE simp: chain_add_Inr)
  show "merkle_root_at_height t h = Some r" if "merkle_root_at_height s h = Some r"
    using assms(1) that by (rule chain.stable_steps)
  obtain x u where xu: "chain_add sha header t = (x, u)" by (cases "chain_add sha header t")
  show "case chain_add sha header t of
          (Inl e, u) \<Rightarrow> u = t
        | (Inr _, u) \<Rightarrow> hc_headers u = hc_headers t @ [header] \<and> meets_target sha header
            \<and> (hc_headers t \<noteq> [] \<longrightarrow> bh_prev_block_hash header = block_hash sha (last (hc_headers t)))
            \<and> tip_height u = Some (hc_start_height t + length (hc_headers t))"
  proof (cases x)
    case (Inl e)
    with xu show ?thesis by (auto dest: chain_add_Inl)
  next
    case (Inr y)
    with xu chain_add_Inr [of sha header t y u] assms(2) show ?thesis
      by (auto simp: tip_height_eq)
  qed
qed

text \<open>
  The tip commits to everything below it: if two valid chains of the same
  length have tips with the same block hash, then, without a collision of the digest among their
  headers, they are the same chain, so they anchor the same root at every height.
\<close>

lemma tip_commits_to_chain:
  assumes "(chain_step sha)\<^sup>*\<^sup>* (chain_new n) s" and "(chain_step sha)\<^sup>*\<^sup>* (chain_new n) t"
    and "length (hc_headers s) = length (hc_headers t)" and "hc_headers s \<noteq> []"
    and "block_hash sha (last (hc_headers s)) = block_hash sha (last (hc_headers t))"
    and "\<forall>h \<in> set (hc_headers s) \<union> set (hc_headers t). wf_header h"
    and "collision_free sha (enc_header ` (set (hc_headers s) \<union> set (hc_headers t)))"
  shows "hc_headers s = hc_headers t \<and> merkle_root_at_height s = merkle_root_at_height t"
proof -
  have "linked sha (hc_headers s)" "linked sha (hc_headers t)"
    using chain_reach_inv [OF assms(1)] chain_reach_inv [OF assms(2)] by (simp_all add: chain_inv_def)
  then have eq: "hc_headers s = hc_headers t" by (rule linked_commits) (use assms in auto)
  moreover have "hc_start_height u = n" if "(chain_step sha)\<^sup>*\<^sup>* (chain_new n) u" for u
    using that
    by (induction rule: rtranclp_induct) (auto simp: chain_new_def chain_add_Inr elim!: chain_stepE)
  ultimately show ?thesis
    using assms(1,2) by (simp add: fun_eq_iff merkle_root_at_height_eq)
qed

end
