(* ===== verification/Cipher.thy ===== *)
theory Cipher
  imports Hashing
begin

text \<open>
  The cipher crate: managed AEAD nonces (\<^verbatim>\<open>crates/cipher/src/aead.rs\<close>), key wrapping (\<^verbatim>\<open>keywrap.rs\<close>),
  ECIES and the symmetric/asymmetric selector (\<^verbatim>\<open>ecies.rs\<close>). AES-256-GCM, HKDF and the curve come
  from third-party crates: they are the records \<open>gcm\<close> and \<open>curve\<close> and the function \<open>hkdf\<close> of the
  definitions. The operating system's generator is a function \<open>rand\<close> from the number of the draw
  and the length to the bytes drawn, or \<open>None\<close> when it fails; the number of draws made so far is the
  state that the drawing functions pass on.
\<close>

section \<open>Parameters\<close>

record gcm_ops =
  gcm_encrypt :: "bytes \<Rightarrow> bytes \<Rightarrow> bytes \<Rightarrow> bytes \<Rightarrow> bytes option"
  gcm_decrypt :: "bytes \<Rightarrow> bytes \<Rightarrow> bytes \<Rightarrow> bytes \<Rightarrow> bytes option"

record 'p curve_ops =
  ec_identity :: 'p
  ec_base :: 'p
  ec_add :: "'p \<Rightarrow> 'p \<Rightarrow> 'p"
  ec_mul :: "nat \<Rightarrow> 'p \<Rightarrow> 'p"
  ec_encode :: "'p \<Rightarrow> bytes"
  ec_decode :: "bytes \<Rightarrow> 'p option"
  ec_secret :: "bytes \<Rightarrow> nat option"

type_synonym rng = "nat \<Rightarrow> nat \<Rightarrow> bytes option"
type_synonym hkdf = "bytes \<Rightarrow> bytes \<Rightarrow> nat \<Rightarrow> bytes option"

text \<open>Authenticated encryption: what opens is what was sealed, under the same key, nonce and data.\<close>

definition gcm_law :: "gcm_ops \<Rightarrow> bool" where
  "gcm_law gcm \<longleftrightarrow> (\<forall>k n a m c. gcm_encrypt gcm k n a m = Some c \<longleftrightarrow> gcm_decrypt gcm k n a c = Some m)"

text \<open>
  Scalar multiplication commutes; a point other than the identity has a compressed encoding of 33
  bytes, which is decoded to it; a secret key times such a point is such a point.
\<close>

definition curve_law :: "'p curve_ops \<Rightarrow> bool" where
  "curve_law cv \<longleftrightarrow> (\<forall>a b p. ec_mul cv a (ec_mul cv b p) = ec_mul cv b (ec_mul cv a p))
     \<and> (\<forall>p. p \<noteq> ec_identity cv \<longrightarrow> ec_decode cv (ec_encode cv p) = Some p \<and> length (ec_encode cv p) = 33)
     \<and> (\<forall>bs a p. ec_secret cv bs = Some a \<longrightarrow> p \<noteq> ec_identity cv \<longrightarrow> ec_mul cv a p \<noteq> ec_identity cv)
     \<and> ec_base cv \<noteq> ec_identity cv"

section \<open>Errors and draws\<close>

datatype cipher_error = BadKeyLength | Aead | NonceExhausted | Signing | RandomFailure | Ecies

type_synonym 'a draw = "(nat, cipher_error, 'a) op"

definition random_fill :: "rng \<Rightarrow> nat \<Rightarrow> bytes draw" where
  "random_fill rand n i = (case rand i n of None \<Rightarrow> (Inl RandomFailure, Suc i) | Some bs \<Rightarrow> (Inr bs, Suc i))"

section \<open>Authenticated encryption\<close>

definition KEY_LEN :: nat where "KEY_LEN = 32"
definition NONCE_LEN :: nat where "NONCE_LEN = 12"

definition cipher_for :: "bytes \<Rightarrow> cipher_error + bytes" where
  "cipher_for key = (if length key \<noteq> KEY_LEN then Inl BadKeyLength else Inr key)"

definition seal :: "gcm_ops \<Rightarrow> bytes \<Rightarrow> bytes \<Rightarrow> bytes \<Rightarrow> bytes \<Rightarrow> cipher_error + bytes" where
  "seal gcm key nonce plaintext aad =
     rbind (cipher_for key) (\<lambda>k. ok_or (gcm_encrypt gcm k nonce aad plaintext) Aead)"

definition open_ct :: "gcm_ops \<Rightarrow> bytes \<Rightarrow> bytes \<Rightarrow> bytes \<Rightarrow> bytes \<Rightarrow> cipher_error + bytes" where
  "open_ct gcm key nonce ciphertext aad =
     rbind (cipher_for key) (\<lambda>k. ok_or (gcm_decrypt gcm k nonce aad ciphertext) Aead)"

record ciphertext =
  ct_nonce :: bytes
  ct_bytes :: bytes

record aead_cipher =
  ac_key :: bytes
  ac_epoch :: "32 word"
  ac_counter :: nat

definition aead_new :: "bytes \<Rightarrow> 32 word \<Rightarrow> cipher_error + aead_cipher" where
  "aead_new key epoch =
     (if length key \<noteq> KEY_LEN then Inl BadKeyLength
      else Inr \<lparr>ac_key = key, ac_epoch = epoch, ac_counter = 0\<rparr>)"

definition next_nonce :: "(aead_cipher, cipher_error, bytes) op" where
  "next_nonce s =
     (case checked_add (ac_counter s) 1 of
        None \<Rightarrow> (Inl NonceExhausted, s)
      | Some c \<Rightarrow>
          (Inr (u32_to_be (ac_epoch s) @ nat_to_be 8 (ac_counter s)), s\<lparr>ac_counter := c\<rparr>))"

definition aead_encrypt :: "gcm_ops \<Rightarrow> bytes \<Rightarrow> bytes \<Rightarrow> (aead_cipher, cipher_error, ciphertext) op" where
  "aead_encrypt gcm plaintext aad =
     op_bind next_nonce (\<lambda>nonce s.
       (rbind (seal gcm (ac_key s) nonce plaintext aad) (\<lambda>bs. Inr \<lparr>ct_nonce = nonce, ct_bytes = bs\<rparr>), s))"

definition aead_decrypt :: "gcm_ops \<Rightarrow> aead_cipher \<Rightarrow> ciphertext \<Rightarrow> bytes \<Rightarrow> cipher_error + bytes" where
  "aead_decrypt gcm s c aad = open_ct gcm (ac_key s) (ct_nonce c) (ct_bytes c) aad"

section \<open>Key wrapping\<close>

definition KEYWRAP_AAD :: bytes where
  "KEYWRAP_AAD = as_bytes ''overlay-broadcast/keywrap/v1''"

record wrapped_key =
  wk_nonce :: bytes
  wk_bytes :: bytes

definition wrap :: "rng \<Rightarrow> gcm_ops \<Rightarrow> bytes \<Rightarrow> bytes \<Rightarrow> wrapped_key draw" where
  "wrap rand gcm wrapping_key key_to_wrap =
     op_bind (random_fill rand NONCE_LEN) (\<lambda>nonce.
     op_bind (op_lift (seal gcm wrapping_key nonce key_to_wrap KEYWRAP_AAD)) (\<lambda>bs.
     op_return \<lparr>wk_nonce = nonce, wk_bytes = bs\<rparr>))"

definition unwrap :: "gcm_ops \<Rightarrow> bytes \<Rightarrow> wrapped_key \<Rightarrow> cipher_error + bytes" where
  "unwrap gcm wrapping_key w = open_ct gcm wrapping_key (wk_nonce w) (wk_bytes w) KEYWRAP_AAD"

section \<open>ECIES\<close>

definition ECIES_INFO :: bytes where
  "ECIES_INFO = as_bytes ''overlay-broadcast/ecies/v1''"

record ecies_ciphertext =
  ec_ephemeral_public_key :: bytes
  ec_bytes :: bytes

definition encode_compressed :: "'p curve_ops \<Rightarrow> 'p \<Rightarrow> cipher_error + bytes" where
  "encode_compressed cv p = (let bs = ec_encode cv p in if length bs = 33 then Inr bs else Inl Ecies)"

definition shared_secret_x :: "'p curve_ops \<Rightarrow> 'p \<Rightarrow> cipher_error + bytes" where
  "shared_secret_x cv p =
     rbind (ok_or (get_range (ec_encode cv p) 1 33) Ecies) (\<lambda>x.
     if length x = 32 then Inr x else Inl Ecies)"

fun ephemeral_loop :: "rng \<Rightarrow> 'p curve_ops \<Rightarrow> nat \<Rightarrow> (nat \<times> bytes) draw" where
  "ephemeral_loop rand cv 0 = op_fail Ecies"
| "ephemeral_loop rand cv (Suc tries) =
     op_bind (random_fill rand 32) (\<lambda>bs.
     case ec_secret cv bs of
       Some secret \<Rightarrow>
         op_bind (op_lift (encode_compressed cv (ec_mul cv secret (ec_base cv)))) (\<lambda>public.
         op_return (secret, public))
     | None \<Rightarrow> ephemeral_loop rand cv tries)"

definition ephemeral_keypair :: "rng \<Rightarrow> 'p curve_ops \<Rightarrow> (nat \<times> bytes) draw" where
  "ephemeral_keypair rand cv = ephemeral_loop rand cv 8"

definition derive_key_nonce :: "hkdf \<Rightarrow> bytes \<Rightarrow> cipher_error + bytes \<times> bytes" where
  "derive_key_nonce hk shared_x =
     rbind (ok_or (hk shared_x ECIES_INFO 44) Ecies) (\<lambda>okm.
     rbind (ok_or (get_range okm 0 32) Ecies) (\<lambda>key.
     rbind (ok_or (get_range okm 32 44) Ecies) (\<lambda>nonce. Inr (key, nonce))))"

definition ecies_encrypt ::
  "rng \<Rightarrow> 'p curve_ops \<Rightarrow> hkdf \<Rightarrow> gcm_ops \<Rightarrow> bytes \<Rightarrow> bytes \<Rightarrow> bytes \<Rightarrow> ecies_ciphertext draw" where
  "ecies_encrypt rand cv hk gcm recipient_public_key plaintext aad =
     op_bind (ephemeral_keypair rand cv) (\<lambda>(secret, public).
     op_lift (
       rbind (ok_or (ec_decode cv recipient_public_key) Ecies) (\<lambda>recipient.
       rbind (shared_secret_x cv (ec_mul cv secret recipient)) (\<lambda>shared_x.
       rbind (derive_key_nonce hk shared_x) (\<lambda>(key, nonce).
       rbind (seal gcm key nonce plaintext aad) (\<lambda>bs.
       Inr \<lparr>ec_ephemeral_public_key = public, ec_bytes = bs\<rparr>))))))"

definition ecies_decrypt ::
  "'p curve_ops \<Rightarrow> hkdf \<Rightarrow> gcm_ops \<Rightarrow> bytes \<Rightarrow> ecies_ciphertext \<Rightarrow> bytes \<Rightarrow> cipher_error + bytes" where
  "ecies_decrypt cv hk gcm recipient_private_key c aad =
     rbind (ok_or (ec_secret cv recipient_private_key) BadKeyLength) (\<lambda>recipient.
     rbind (ok_or (ec_decode cv (ec_ephemeral_public_key c)) Ecies) (\<lambda>ephemeral.
     rbind (shared_secret_x cv (ec_mul cv recipient ephemeral)) (\<lambda>shared_x.
     rbind (derive_key_nonce hk shared_x) (\<lambda>(key, nonce).
     open_ct gcm key nonce (ec_bytes c) aad))))"

datatype recipient = SymmetricKey bytes | AsymmetricKey bytes

datatype sealed_message = SymmetricCt ciphertext | AsymmetricCt ecies_ciphertext

definition seal_for ::
  "rng \<Rightarrow> 'p curve_ops \<Rightarrow> hkdf \<Rightarrow> gcm_ops \<Rightarrow> recipient \<Rightarrow> bytes \<Rightarrow> bytes \<Rightarrow> sealed_message draw" where
  "seal_for rand cv hk gcm recipient plaintext aad =
     (case recipient of
        SymmetricKey key \<Rightarrow>
          op_bind (random_fill rand NONCE_LEN) (\<lambda>nonce.
          op_bind (op_lift (seal gcm key nonce plaintext aad)) (\<lambda>bs.
          op_return (SymmetricCt \<lparr>ct_nonce = nonce, ct_bytes = bs\<rparr>)))
      | AsymmetricKey public_key \<Rightarrow>
          op_bind (ecies_encrypt rand cv hk gcm public_key plaintext aad) (\<lambda>c.
          op_return (AsymmetricCt c)))"

definition open_for ::
  "'p curve_ops \<Rightarrow> hkdf \<Rightarrow> gcm_ops \<Rightarrow> bytes option \<Rightarrow> bytes option \<Rightarrow> sealed_message \<Rightarrow> bytes \<Rightarrow>
   cipher_error + bytes" where
  "open_for cv hk gcm symmetric_key private_key sealed aad =
     (case sealed of
        SymmetricCt c \<Rightarrow>
          rbind (ok_or symmetric_key Aead) (\<lambda>key. open_ct gcm key (ct_nonce c) (ct_bytes c) aad)
      | AsymmetricCt c \<Rightarrow>
          rbind (ok_or private_key Aead) (\<lambda>key. ecies_decrypt cv hk gcm key c aad))"

section \<open>What was sealed opens\<close>

lemma seal_open: "gcm_law gcm \<Longrightarrow> seal gcm k n m a = Inr c \<longleftrightarrow> open_ct gcm k n c a = Inr m"
  by (auto simp: gcm_law_def seal_def open_ct_def rbind_eq_Inr cipher_for_def)

lemma wrap_unwrap:
  assumes "gcm_law gcm" "wrap rand gcm k m i = (Inr w, j)"
  shows "unwrap gcm k w = Inr m"
  using assms seal_open [OF assms(1), of k _ m KEYWRAP_AAD]
  by (auto simp: wrap_def unwrap_def op_lift_def op_return_def elim!: op_bind_okE)

lemma unwrap_iff:
  "gcm_law gcm \<Longrightarrow> unwrap gcm k w = Inr m \<longleftrightarrow> seal gcm k (wk_nonce w) m KEYWRAP_AAD = Inr (wk_bytes w)"
  by (simp add: unwrap_def seal_open)

lemma random_fill_ok: "random_fill rand n i = (Inr bs, j) \<longleftrightarrow> rand i n = Some bs \<and> j = Suc i"
  by (auto simp: random_fill_def split: option.splits)

lemma ephemeral_loop_ok:
  "ephemeral_loop rand cv n i = (Inr (secret, public), j) \<Longrightarrow>
     public = ec_encode cv (ec_mul cv secret (ec_base cv)) \<and> (\<exists>bs. ec_secret cv bs = Some secret)"
proof (induction n arbitrary: i)
  case (Suc n)
  from Suc.prems obtain bs k where "random_fill rand 32 i = (Inr bs, k)" by (auto elim!: op_bind_okE)
  with Suc show ?case
  proof (cases "ec_secret cv bs")
    case (Some a)
    with \<open>random_fill rand 32 i = (Inr bs, k)\<close> Suc.prems have "a = secret"
        "public = ec_encode cv (ec_mul cv secret (ec_base cv))"
      by (auto simp: op_bind_def op_return_def op_lift_def encode_compressed_def Let_def split: if_splits)
    with Some show ?thesis by blast
  qed (simp add: op_bind_def)
qed (simp add: op_fail_def)

lemma secret_point:
  assumes "curve_law cv" "ec_secret cv bs = Some a"
  shows "ec_decode cv (ec_encode cv (ec_mul cv a (ec_base cv))) = Some (ec_mul cv a (ec_base cv))"
  using assms by (auto simp: curve_law_def)

lemma ecies_inverse:
  assumes "gcm_law gcm" "curve_law cv" "ec_secret cv priv = Some sk"
    and "ecies_encrypt rand cv hk gcm (ec_encode cv (ec_mul cv sk (ec_base cv))) m aad i = (Inr c, j)"
  shows "ecies_decrypt cv hk gcm priv c aad = Inr m"
proof -
  let ?pk = "ec_mul cv sk (ec_base cv)"
  from assms(4) obtain secret public k where e: "ephemeral_keypair rand cv i = (Inr (secret, public), k)"
    and rest: "rbind (ok_or (ec_decode cv (ec_encode cv ?pk)) Ecies) (\<lambda>recipient.
       rbind (shared_secret_x cv (ec_mul cv secret recipient)) (\<lambda>shared_x.
       rbind (derive_key_nonce hk shared_x) (\<lambda>(key, nonce).
       rbind (seal gcm key nonce m aad) (\<lambda>bs.
       Inr \<lparr>ec_ephemeral_public_key = public, ec_bytes = bs\<rparr>)))) = Inr c"
    by (auto simp: ecies_encrypt_def op_lift_def elim!: op_bind_okE)
  obtain bs where pub: "public = ec_encode cv (ec_mul cv secret (ec_base cv))" "ec_secret cv bs = Some secret"
    using e ephemeral_loop_ok unfolding ephemeral_keypair_def by blast
  have comm: "ec_mul cv secret ?pk = ec_mul cv sk (ec_mul cv secret (ec_base cv))"
    using assms(2) by (simp add: curve_law_def)
  note dec = secret_point [OF assms(2) assms(3)] secret_point [OF assms(2) pub(2)]
  show ?thesis
    using rest assms(3) seal_open [OF assms(1)]
    by (auto simp: ecies_decrypt_def pub dec comm rbind_eq_Inr split: prod.splits)
qed

section \<open>Sequences of encryptions\<close>

fun aead_run :: "gcm_ops \<Rightarrow> (bytes \<times> bytes) list \<Rightarrow> aead_cipher \<Rightarrow> (cipher_error + ciphertext) list \<times> aead_cipher" where
  "aead_run gcm [] s = ([], s)"
| "aead_run gcm ((m, a) # rest) s =
     (let (r, t) = aead_encrypt gcm m a s; (rs, u) = aead_run gcm rest t in (r # rs, u))"

definition nonces :: "(cipher_error + ciphertext) list \<Rightarrow> bytes list" where
  "nonces rs = concat (map (\<lambda>r. case r of Inl _ \<Rightarrow> [] | Inr c \<Rightarrow> [ct_nonce c]) rs)"

lemma aead_encrypt_cases:
  "aead_encrypt gcm m a s =
     (if Suc (ac_counter s) < usize_bound
      then (rbind (seal gcm (ac_key s) (u32_to_be (ac_epoch s) @ nat_to_be 8 (ac_counter s)) m a)
              (\<lambda>bs. Inr \<lparr>ct_nonce = u32_to_be (ac_epoch s) @ nat_to_be 8 (ac_counter s), ct_bytes = bs\<rparr>),
            s\<lparr>ac_counter := Suc (ac_counter s)\<rparr>)
      else (Inl NonceExhausted, s))"
  by (simp add: aead_encrypt_def next_nonce_def op_bind_def checked_add_def)

lemma aead_run_nonces:
  assumes "aead_run gcm ms s = (rs, t)"
  shows "ac_epoch t = ac_epoch s \<and> ac_key t = ac_key s \<and> ac_counter s \<le> ac_counter t
    \<and> distinct (nonces rs)
    \<and> (\<forall>n \<in> set (nonces rs). \<exists>k. ac_counter s \<le> k \<and> Suc k < usize_bound \<and> n = u32_to_be (ac_epoch s) @ nat_to_be 8 k)"
  using assms
proof (induction gcm ms s arbitrary: rs rule: aead_run.induct)
  case (2 gcm m a rest s)
  obtain r u where ru: "aead_encrypt gcm m a s = (r, u)" by (cases "aead_encrypt gcm m a s")
  obtain rs' where rs': "aead_run gcm rest u = (rs', t)" "rs = r # rs'"
    using "2.prems" ru by (auto split: prod.splits)
  from "2.IH" [OF ru [symmetric] refl rs'(1)] have IH: "ac_epoch t = ac_epoch u" "ac_key t = ac_key u"
    "ac_counter u \<le> ac_counter t" "distinct (nonces rs')"
    "\<forall>n \<in> set (nonces rs'). \<exists>k. ac_counter u \<le> k \<and> Suc k < usize_bound \<and> n = u32_to_be (ac_epoch u) @ nat_to_be 8 k"
    by auto
  show ?case
  proof (cases "Suc (ac_counter s) < usize_bound")
    case False
    then have "r = Inl NonceExhausted" "u = s" using ru by (auto simp: aead_encrypt_cases)
    with IH rs' show ?thesis by (simp add: nonces_def)
  next
    case True
    then have u: "u = s\<lparr>ac_counter := Suc (ac_counter s)\<rparr>"
      and r: "r = (case seal gcm (ac_key s) (u32_to_be (ac_epoch s) @ nat_to_be 8 (ac_counter s)) m a of Inl e \<Rightarrow> Inl e
        | Inr bs \<Rightarrow> Inr \<lparr>ct_nonce = u32_to_be (ac_epoch s) @ nat_to_be 8 (ac_counter s), ct_bytes = bs\<rparr>)"
      using ru by (auto simp: aead_encrypt_cases rbind_def)
    have fresh: "u32_to_be (ac_epoch s) @ nat_to_be 8 (ac_counter s) \<notin> set (nonces rs')"
    proof
      assume "u32_to_be (ac_epoch s) @ nat_to_be 8 (ac_counter s) \<in> set (nonces rs')"
      with IH(5) u obtain k where k: "Suc (ac_counter s) \<le> k" "Suc k < usize_bound"
        "nat_to_be 8 (ac_counter s) = nat_to_be 8 k" by auto
      have "ac_counter s = k"
        by (rule nat_to_be_inj [OF k(3)]) (use True k(2) in \<open>simp_all add: usize_bound_def\<close>)
      with k(1) show False by simp
    qed
    have rest: "\<forall>n \<in> set (nonces rs'). \<exists>k. ac_counter s \<le> k \<and> Suc k < usize_bound
        \<and> n = u32_to_be (ac_epoch s) @ nat_to_be 8 k"
      using IH(5) u by (auto dest: Suc_leD)
    have nr: "nonces rs = (case r of Inl e \<Rightarrow> [] | Inr c \<Rightarrow> [ct_nonce c]) @ nonces rs'"
      by (simp add: nonces_def rs')
    show ?thesis
      using IH(1-4) rest fresh True u unfolding nr r by (auto split: sum.splits)
  qed
qed (auto simp: nonces_def)

section \<open>Evaluation instances of the parameters\<close>

definition toy_gcm :: gcm_ops where
  "toy_gcm = \<lparr>gcm_encrypt = (\<lambda>k n a m. Some (k @ n @ a @ m)),
     gcm_decrypt = (\<lambda>k n a c. if take (length (k @ n @ a)) c = k @ n @ a then Some (drop (length (k @ n @ a)) c) else None)\<rparr>"

lemma toy_gcm_law: "gcm_law toy_gcm"
proof -
  have "k @ n @ a @ m = c \<longleftrightarrow> take (length (k @ n @ a)) c = k @ n @ a \<and> drop (length (k @ n @ a)) c = m"
    for k n a m c :: bytes
  proof
    assume "take (length (k @ n @ a)) c = k @ n @ a \<and> drop (length (k @ n @ a)) c = m"
    then show "k @ n @ a @ m = c"
      by (metis append.assoc append_take_drop_id)
  qed auto
  then show ?thesis by (auto simp: gcm_law_def toy_gcm_def)
qed

definition toy_point :: bytes where
  "toy_point = replicate 33 1"

definition toy_curve :: "bool curve_ops" where
  "toy_curve = \<lparr>ec_identity = False, ec_base = True, ec_add = (\<lambda>p q. p \<noteq> q), ec_mul = (\<lambda>a p. odd a \<and> p),
     ec_encode = (\<lambda>p. if p then toy_point else [0]),
     ec_decode = (\<lambda>bs. if bs = toy_point then Some True else None),
     ec_secret = (\<lambda>bs. if length bs = 32 then Some (2 * unat (last bs) + 1) else None)\<rparr>"

lemma toy_curve_law: "curve_law toy_curve"
  by (auto simp: curve_law_def toy_curve_def toy_point_def)

definition toy_rand :: rng where
  "toy_rand i n = Some (replicate n (word_of_nat i))"

definition toy_hkdf :: hkdf where
  "toy_hkdf x info n = Some (take n (x @ info @ replicate n 0))"

lemma toy_seal: "length k = 32 \<Longrightarrow> seal toy_gcm k n m a = Inr (k @ n @ a @ m)"
  by (simp add: seal_def cipher_for_def KEY_LEN_def toy_gcm_def)

lemma toy_ephemeral: "ephemeral_keypair toy_rand toy_curve i = (Inr (2 * unat (word_of_nat i :: byte) + 1, toy_point), Suc i)"
proof -
  have "ephemeral_keypair toy_rand toy_curve i = ephemeral_loop toy_rand toy_curve (Suc 7) i"
    by (simp add: ephemeral_keypair_def)
  also have "\<dots> = (Inr (2 * unat (word_of_nat i :: byte) + 1, toy_point), Suc i)"
    by (simp only: ephemeral_loop.simps(2))
      (simp add: op_bind_def random_fill_def toy_rand_def toy_curve_def encode_compressed_def op_lift_def
        op_return_def toy_point_def)
  finally show ?thesis .
qed

lemma toy_shared: "shared_secret_x toy_curve True = Inr (replicate 32 1)"
  by (simp add: shared_secret_x_def toy_curve_def toy_point_def get_range_def)

lemma toy_derive: "length x = 32 \<Longrightarrow> \<exists>n. derive_key_nonce toy_hkdf x = Inr (x, n)"
  by (simp add: derive_key_nonce_def toy_hkdf_def get_range_def)

lemma toy_ecies: "\<exists>c. ecies_encrypt toy_rand toy_curve toy_hkdf toy_gcm toy_point m a i = (Inr c, Suc i)"
proof -
  obtain n where "derive_key_nonce toy_hkdf (replicate 32 1) = Inr (replicate 32 1, n)"
    using toy_derive [of "replicate 32 1"] by auto
  moreover have "ec_decode toy_curve toy_point = Some True" "odd a \<Longrightarrow> ec_mul toy_curve a True" for a
    by (simp_all add: toy_curve_def)
  ultimately show ?thesis
    by (simp add: ecies_encrypt_def op_bind_def toy_ephemeral op_lift_def toy_shared toy_seal)
qed

section \<open>Properties\<close>

text \<open>
  C27 [aead_nonces_unique] Nonces never repeat under a managed cipher: in any sequence of encryptions
  started from any counter, whether or not single calls fail, the nonces of the ciphertexts returned
  are pairwise distinct and carry the key epoch; the counter never wraps, and once it is exhausted
  every call fails with \<open>NonceExhausted\<close> and leaves the cipher as it was.
\<close>

theorem aead_nonces_unique:
  assumes "aead_run gcm ms s = (rs, t)"
  shows "distinct (nonces rs) \<and> (\<forall>n \<in> set (nonces rs). length n = NONCE_LEN \<and> take 4 n = u32_to_be (ac_epoch s))
    \<and> ac_counter s \<le> ac_counter t
    \<and> (usize_bound \<le> Suc (ac_counter t) \<longrightarrow> aead_encrypt gcm m a t = (Inl NonceExhausted, t))"
  using aead_run_nonces [OF assms] by (auto simp: NONCE_LEN_def aead_encrypt_cases)

theorem aead_nonces_unique_witness:
  "let s = \<lparr>ac_key = replicate 32 1, ac_epoch = 7, ac_counter = 0\<rparr>
   in distinct (nonces (fst (aead_run toy_gcm [([1], []), ([1], [])] s)))"
proof -
  let ?s = "\<lparr>ac_key = replicate 32 1, ac_epoch = 7, ac_counter = 0\<rparr>"
  obtain rs t where "aead_run toy_gcm [([1], []), ([1], [])] ?s = (rs, t)"
    by (cases "aead_run toy_gcm [([1], []), ([1], [])] ?s")
  with aead_nonces_unique [OF this] show ?thesis by simp
qed

text \<open>
  A message sealed for a recipient is opened by that recipient and, in the
  other mode, by nobody: with the symmetric key it was sealed under, or with the private key whose
  public key it was sealed to (by commutativity of the Diffie-Hellman exchange), opening returns the
  plaintext; without the matching kind of key it fails with \<open>Aead\<close>.
\<close>

lemma sealed_message_opens:
  assumes "gcm_law gcm" and "curve_law cv" and "ec_secret cv priv = Some sk"
    and "seal_for rand cv hk gcm (SymmetricKey key) m aad i = (Inr c, j)"
    and "seal_for rand cv hk gcm (AsymmetricKey (ec_encode cv (ec_mul cv sk (ec_base cv)))) m aad i' = (Inr d, j')"
  shows "open_for cv hk gcm (Some key) p c aad = Inr m \<and> open_for cv hk gcm q (Some priv) d aad = Inr m
    \<and> open_for cv hk gcm None p c aad = Inl Aead \<and> open_for cv hk gcm q None d aad = Inl Aead"
proof -
  obtain n bs where c: "c = SymmetricCt \<lparr>ct_nonce = n, ct_bytes = bs\<rparr>" "seal gcm key n m aad = Inr bs"
    using assms(4) by (auto simp: seal_for_def op_lift_def op_return_def elim!: op_bind_okE)
  obtain e k where d: "d = AsymmetricCt e"
    "ecies_encrypt rand cv hk gcm (ec_encode cv (ec_mul cv sk (ec_base cv))) m aad i' = (Inr e, k)"
    using assms(5) by (auto simp: seal_for_def op_return_def elim!: op_bind_okE)
  show ?thesis
    using c d seal_open [OF assms(1)] ecies_inverse [OF assms(1-3) d(2)] by (simp add: open_for_def)
qed

end
