(* ===== verification/Ckd.thy ===== *)
theory Ckd
  imports Cipher
begin

text \<open>
  Child key derivation, \<^verbatim>\<open>crates/ckd/src/\<close>: extended keys (\<^verbatim>\<open>ckd.rs\<close>), seeds and positions
  (\<^verbatim>\<open>seeds.rs\<close>) and the pinned signature functions (\<^verbatim>\<open>pin.rs\<close>). The curve is the record of
  \<^theory_text>\<open>Cipher\<close>; the scalar field and ECDSA of the \<open>k256\<close> crate are the records \<open>scalar_ops\<close> and
  \<open>ecdsa_ops\<close>, HMAC-SHA512 is a function that may fail. Secret byte strings are plain byte lists.
\<close>

section \<open>Parameters\<close>

record scalar_ops =
  sc_order :: nat
  sc_from_repr :: "bytes \<Rightarrow> nat option"
  sc_to_repr :: "nat \<Rightarrow> bytes"
  sc_add :: "nat \<Rightarrow> nat \<Rightarrow> nat"

type_synonym hmac = "bytes \<Rightarrow> bytes \<Rightarrow> bytes option"

text \<open>
  Scalars are the numbers below the group order, in 32 big-endian bytes, added modulo the order.
  Multiplying the generator turns their sum into the sum of points and gives the identity only for
  zero; secret keys are the nonzero scalars; points are encoded as in \<open>curve_law\<close>, and the identity in
  fewer than 33 bytes.
\<close>

definition scalar_law :: "scalar_ops \<Rightarrow> 'p curve_ops \<Rightarrow> bool" where
  "scalar_law sc cv \<longleftrightarrow> 0 < sc_order sc \<and> sc_order sc \<le> 256 ^ 32
     \<and> (\<forall>bs. sc_from_repr sc bs = (if length bs = 32 \<and> be_to_nat bs < sc_order sc then Some (be_to_nat bs) else None))
     \<and> (\<forall>a. sc_to_repr sc a = nat_to_be 32 a)
     \<and> (\<forall>a b. sc_add sc a b = (a + b) mod sc_order sc)
     \<and> (\<forall>a < sc_order sc. \<forall>b < sc_order sc.
          ec_mul cv ((a + b) mod sc_order sc) (ec_base cv) = ec_add cv (ec_mul cv a (ec_base cv)) (ec_mul cv b (ec_base cv)))
     \<and> (\<forall>a < sc_order sc. ec_mul cv a (ec_base cv) = ec_identity cv \<longleftrightarrow> a = 0)
     \<and> (\<forall>bs. length bs = 32 \<longrightarrow>
          ec_secret cv bs = (if 0 < be_to_nat bs \<and> be_to_nat bs < sc_order sc then Some (be_to_nat bs) else None))
     \<and> (\<forall>p. p \<noteq> ec_identity cv \<longrightarrow> ec_decode cv (ec_encode cv p) = Some p \<and> length (ec_encode cv p) = 33)
     \<and> length (ec_encode cv (ec_identity cv)) \<noteq> 33"

record ('k, 'v, 's) ecdsa_ops =
  sk_from_slice :: "bytes \<Rightarrow> 'k option"
  sk_sign :: "'k \<Rightarrow> bytes \<Rightarrow> 's"
  sk_sign_prehash :: "'k \<Rightarrow> bytes \<Rightarrow> 's option"
  vk_of :: "'k \<Rightarrow> 'v"
  vk_from_sec1 :: "bytes \<Rightarrow> 'v option"
  vk_verify :: "'v \<Rightarrow> bytes \<Rightarrow> 's \<Rightarrow> bool"
  vk_verify_prehash :: "'v \<Rightarrow> bytes \<Rightarrow> 's \<Rightarrow> bool"
  sig_normalize_s :: "'s \<Rightarrow> 's option"
  sig_to_der :: "'s \<Rightarrow> bytes"
  sig_from_der :: "bytes \<Rightarrow> 's option"

text \<open>
  Signing a 32-byte prehash succeeds; a signature verifies under the key it was made with, in its
  low-S form; normalising gives a
  signature that is already normal; the DER encoding is nonempty, decodes to the signature and is
  shorter than 256 bytes.
\<close>

definition ecdsa_law :: "('k, 'v, 's) ecdsa_ops \<Rightarrow> bool" where
  "ecdsa_law ds \<longleftrightarrow> (\<forall>k h. length h = 32 \<longrightarrow> sk_sign_prehash ds k h \<noteq> None)
     \<and> (\<forall>k h s. sk_sign_prehash ds k h = Some s \<longrightarrow>
        vk_verify_prehash ds (vk_of ds k) h (unwrap_or (sig_normalize_s ds s) s))
     \<and> (\<forall>k m. vk_verify ds (vk_of ds k) m (unwrap_or (sig_normalize_s ds (sk_sign ds k m)) (sk_sign ds k m)))
     \<and> (\<forall>s t. sig_normalize_s ds s = Some t \<longrightarrow> sig_normalize_s ds t = None)
     \<and> (\<forall>s. sig_from_der ds (sig_to_der ds s) = Some s \<and> sig_to_der ds s \<noteq> [] \<and> length (sig_to_der ds s) < 255)"

section \<open>Extended keys\<close>

datatype ckd_error = BadKey | BadPublicKey | InvalidIndex | DerivationFailed | HardenedNeedsPrivate

definition HARDENED :: "32 word" where
  "HARDENED = 0x80000000"

record xpriv =
  xp_private_key :: bytes
  xp_chain_code :: bytes
  xp_depth :: "8 word"
  xp_child_number :: "32 word"

record xpub =
  xu_public_key :: bytes
  xu_chain_code :: bytes
  xu_depth :: "8 word"
  xu_child_number :: "32 word"

definition hmac_sha512 :: "hmac \<Rightarrow> bytes \<Rightarrow> bytes \<Rightarrow> ckd_error + bytes" where
  "hmac_sha512 hm key msg = ok_or (hm key msg) DerivationFailed"

definition scalar_from_canonical :: "scalar_ops \<Rightarrow> bytes \<Rightarrow> nat option" where
  "scalar_from_canonical sc bs = (if length bs \<noteq> 32 then None else sc_from_repr sc bs)"

definition is_zero :: "scalar_ops \<Rightarrow> nat \<Rightarrow> bool" where
  "is_zero sc scalar = list_all (\<lambda>b. b = 0) (sc_to_repr sc scalar)"

definition encode_point :: "'p curve_ops \<Rightarrow> 'p \<Rightarrow> ckd_error + bytes" where
  "encode_point cv p = (let bs = ec_encode cv p in if length bs = 33 then Inr bs else Inl DerivationFailed)"

definition u8_checked_succ :: "8 word \<Rightarrow> 8 word option" where
  "u8_checked_succ w = (if w = 255 then None else Some (w + 1))"

definition xpriv_from_seed :: "hmac \<Rightarrow> scalar_ops \<Rightarrow> bytes \<Rightarrow> ckd_error + xpriv" where
  "xpriv_from_seed hm sc seed =
     (if length seed < 16 \<or> 64 < length seed then Inl BadKey
      else rbind (hmac_sha512 hm (as_bytes ''Bitcoin seed'') seed) (\<lambda>i.
        let il = take 32 i; ir = drop 32 i in
        rbind (ok_or (scalar_from_canonical sc il) BadKey) (\<lambda>scalar.
        if is_zero sc scalar then Inl BadKey
        else Inr \<lparr>xp_private_key = il, xp_chain_code = ir, xp_depth = 0, xp_child_number = 0\<rparr>)))"

definition xpriv_public_key_compressed :: "'p curve_ops \<Rightarrow> xpriv \<Rightarrow> ckd_error + bytes" where
  "xpriv_public_key_compressed cv x =
     rbind (ok_or (ec_secret cv (xp_private_key x)) BadKey) (\<lambda>secret.
     encode_point cv (ec_mul cv secret (ec_base cv)))"

definition xpriv_derive_child :: "hmac \<Rightarrow> scalar_ops \<Rightarrow> 'p curve_ops \<Rightarrow> xpriv \<Rightarrow> 32 word \<Rightarrow> ckd_error + xpriv" where
  "xpriv_derive_child hm sc cv x index =
     rbind (if HARDENED \<le> index then Inr (0 # xp_private_key x) else xpriv_public_key_compressed cv x) (\<lambda>pre.
     rbind (hmac_sha512 hm (xp_chain_code x) (pre @ u32_to_be index)) (\<lambda>i.
     let il = take 32 i; ir = drop 32 i in
     rbind (ok_or (scalar_from_canonical sc il) DerivationFailed) (\<lambda>left.
     rbind (ok_or (scalar_from_canonical sc (xp_private_key x)) BadKey) (\<lambda>parent.
     let child = sc_add sc left parent in
     if is_zero sc child then Inl DerivationFailed
     else rbind (ok_or (u8_checked_succ (xp_depth x)) InvalidIndex) (\<lambda>depth.
       Inr \<lparr>xp_private_key = sc_to_repr sc child, xp_chain_code = ir, xp_depth = depth, xp_child_number = index\<rparr>)))))"

fun xpriv_derive_path :: "hmac \<Rightarrow> scalar_ops \<Rightarrow> 'p curve_ops \<Rightarrow> xpriv \<Rightarrow> 32 word list \<Rightarrow> ckd_error + xpriv" where
  "xpriv_derive_path hm sc cv current [] = Inr current"
| "xpriv_derive_path hm sc cv current (index # path) =
     rbind (xpriv_derive_child hm sc cv current index) (\<lambda>next. xpriv_derive_path hm sc cv next path)"

definition to_xpub :: "'p curve_ops \<Rightarrow> xpriv \<Rightarrow> ckd_error + xpub" where
  "to_xpub cv x =
     rbind (xpriv_public_key_compressed cv x) (\<lambda>pk.
     Inr \<lparr>xu_public_key = pk, xu_chain_code = xp_chain_code x, xu_depth = xp_depth x, xu_child_number = xp_child_number x\<rparr>)"

definition xpub_derive_child :: "hmac \<Rightarrow> scalar_ops \<Rightarrow> 'p curve_ops \<Rightarrow> xpub \<Rightarrow> 32 word \<Rightarrow> ckd_error + xpub" where
  "xpub_derive_child hm sc cv x index =
     (if HARDENED \<le> index then Inl HardenedNeedsPrivate
      else rbind (hmac_sha512 hm (xu_chain_code x) (xu_public_key x @ u32_to_be index)) (\<lambda>i.
        let il = take 32 i; ir = drop 32 i in
        rbind (ok_or (scalar_from_canonical sc il) DerivationFailed) (\<lambda>left.
        rbind (ok_or (ec_decode cv (xu_public_key x)) BadPublicKey) (\<lambda>parent.
        let child = ec_add cv (ec_mul cv left (ec_base cv)) parent in
        rbind (ok_or (u8_checked_succ (xu_depth x)) InvalidIndex) (\<lambda>depth.
        rbind (encode_point cv child) (\<lambda>pk.
        Inr \<lparr>xu_public_key = pk, xu_chain_code = ir, xu_depth = depth, xu_child_number = index\<rparr>))))))"

section \<open>Positions and seeds\<close>

datatype pos = Position (coords: "32 word list")

definition hardened_path :: "pos \<Rightarrow> 32 word list" where
  "hardened_path p = map (\<lambda>c. or c HARDENED) (coords p)"

definition pos_path :: "pos \<Rightarrow> 32 word list" where
  "pos_path p = map (\<lambda>c. and c (not HARDENED)) (coords p)"

definition FIRST_DOMAIN :: bytes where
  "FIRST_DOMAIN = as_bytes ''overlay-broadcast/seed/first/v1''"

definition SECOND_DOMAIN :: bytes where
  "SECOND_DOMAIN = as_bytes ''overlay-broadcast/seed/second/v1''"

definition THIRD_DOMAIN :: bytes where
  "THIRD_DOMAIN = as_bytes ''overlay-broadcast/seed/third/v1''"

record seeds =
  sd_first :: bytes
  sd_second :: bytes
  sd_third :: bytes

definition derive_seed :: "hmac \<Rightarrow> bytes \<Rightarrow> bytes \<Rightarrow> ckd_error + bytes" where
  "derive_seed hm master domain =
     rbind (ok_or (hm master domain) DerivationFailed) (\<lambda>out. ok_or (get_range out 0 32) DerivationFailed)"

definition seeds_from_master :: "hmac \<Rightarrow> bytes \<Rightarrow> ckd_error + seeds" where
  "seeds_from_master hm master =
     rbind (derive_seed hm master FIRST_DOMAIN) (\<lambda>a.
     rbind (derive_seed hm master SECOND_DOMAIN) (\<lambda>b.
     rbind (derive_seed hm master THIRD_DOMAIN) (\<lambda>c. Inr \<lparr>sd_first = a, sd_second = b, sd_third = c\<rparr>)))"

definition seeds_from_parts :: "bytes \<Rightarrow> bytes \<Rightarrow> bytes \<Rightarrow> seeds" where
  "seeds_from_parts a b c = \<lparr>sd_first = a, sd_second = b, sd_third = c\<rparr>"

definition writing_key :: "hmac \<Rightarrow> scalar_ops \<Rightarrow> 'p curve_ops \<Rightarrow> seeds \<Rightarrow> pos \<Rightarrow> ckd_error + xpriv" where
  "writing_key hm sc cv s p =
     rbind (xpriv_from_seed hm sc (sd_first s)) (\<lambda>x. xpriv_derive_path hm sc cv x (hardened_path p))"

definition second_function_key :: "hmac \<Rightarrow> scalar_ops \<Rightarrow> 'p curve_ops \<Rightarrow> seeds \<Rightarrow> pos \<Rightarrow> ckd_error + xpriv" where
  "second_function_key hm sc cv s p =
     rbind (xpriv_from_seed hm sc (sd_second s)) (\<lambda>x. xpriv_derive_path hm sc cv x (hardened_path p))"

definition third_function_key :: "hmac \<Rightarrow> scalar_ops \<Rightarrow> 'p curve_ops \<Rightarrow> seeds \<Rightarrow> pos \<Rightarrow> ckd_error + xpriv" where
  "third_function_key hm sc cv s p =
     rbind (xpriv_from_seed hm sc (sd_third s)) (\<lambda>x. xpriv_derive_path hm sc cv x (hardened_path p))"

section \<open>Signatures\<close>

definition pin_sign :: "('k, 'v, 's) ecdsa_ops \<Rightarrow> bytes \<Rightarrow> bytes \<Rightarrow> ckd_error + 's" where
  "pin_sign ds private_key msg =
     rbind (ok_or (sk_from_slice ds private_key) BadKey) (\<lambda>key.
     let signature = sk_sign ds key msg in
     Inr (unwrap_or (sig_normalize_s ds signature) signature))"

definition verifying_key :: "('k, 'v, 's) ecdsa_ops \<Rightarrow> bytes \<Rightarrow> ckd_error + 'v" where
  "verifying_key ds private_key =
     rbind (ok_or (sk_from_slice ds private_key) BadKey) (\<lambda>key. Inr (vk_of ds key))"

definition is_low_s :: "('k, 'v, 's) ecdsa_ops \<Rightarrow> 's \<Rightarrow> bool" where
  "is_low_s ds signature = (sig_normalize_s ds signature = None)"

definition pin_verify :: "('k, 'v, 's) ecdsa_ops \<Rightarrow> 'v \<Rightarrow> bytes \<Rightarrow> 's \<Rightarrow> bool" where
  "pin_verify ds key msg signature = vk_verify ds key msg signature"

definition verify_strict :: "('k, 'v, 's) ecdsa_ops \<Rightarrow> 'v \<Rightarrow> bytes \<Rightarrow> 's \<Rightarrow> bool" where
  "verify_strict ds key msg signature \<longleftrightarrow> is_low_s ds signature \<and> pin_verify ds key msg signature"

definition sign_prehash_der :: "('k, 'v, 's) ecdsa_ops \<Rightarrow> bytes \<Rightarrow> bytes \<Rightarrow> ckd_error + bytes" where
  "sign_prehash_der ds private_key prehash =
     rbind (ok_or (sk_from_slice ds private_key) BadKey) (\<lambda>key.
     rbind (ok_or (sk_sign_prehash ds key prehash) BadKey) (\<lambda>signature.
     Inr (sig_to_der ds (unwrap_or (sig_normalize_s ds signature) signature))))"

definition verify_der_prehash :: "('k, 'v, 's) ecdsa_ops \<Rightarrow> bytes \<Rightarrow> bytes \<Rightarrow> bytes \<Rightarrow> bool" where
  "verify_der_prehash ds public_key_sec1 prehash signature_der =
     (case vk_from_sec1 ds public_key_sec1 of
        None \<Rightarrow> False
      | Some key \<Rightarrow>
          (case sig_from_der ds signature_der of
             None \<Rightarrow> False
           | Some signature \<Rightarrow> is_low_s ds signature \<and> vk_verify_prehash ds key prehash signature))"

section \<open>Private and public derivation\<close>

definition xpriv_ok :: "scalar_ops \<Rightarrow> xpriv \<Rightarrow> bool" where
  "xpriv_ok sc x \<longleftrightarrow> length (xp_private_key x) = 32 \<and> 0 < be_to_nat (xp_private_key x)
     \<and> be_to_nat (xp_private_key x) < sc_order sc"

lemma be_to_nat_to_be: "be_to_nat (nat_to_be n a) = a mod 256 ^ n"
  by (simp add: be_to_nat_def nat_to_be_def le_to_nat_nat_to_le)

lemma le_to_nat_zero: "le_to_nat bs = 0 \<longleftrightarrow> list_all (\<lambda>b. b = 0) bs"
  by (induction bs) (auto simp: unat_eq_0)

lemma be_to_nat_zero: "be_to_nat bs = 0 \<longleftrightarrow> list_all (\<lambda>b. b = 0) bs"
  by (simp add: be_to_nat_def le_to_nat_zero list_all_iff)

lemma is_zero_iff:
  assumes "scalar_law sc cv" "a < sc_order sc"
  shows "is_zero sc a \<longleftrightarrow> a = 0"
proof -
  have "is_zero sc a \<longleftrightarrow> be_to_nat (nat_to_be 32 a) = 0"
    using assms(1) by (simp add: scalar_law_def is_zero_def be_to_nat_zero)
  moreover have "a < 256 ^ 32" using assms by (auto simp: scalar_law_def)
  ultimately show ?thesis by (simp add: be_to_nat_to_be)
qed

lemma scalar_from_canonical_eq:
  "scalar_law sc cv \<Longrightarrow> scalar_from_canonical sc bs = Some a \<longleftrightarrow> length bs = 32 \<and> a = be_to_nat bs \<and> a < sc_order sc"
  by (auto simp: scalar_law_def scalar_from_canonical_def split: if_splits)

lemma scalar_repr:
  "scalar_law sc cv \<Longrightarrow> a < sc_order sc \<Longrightarrow> be_to_nat (sc_to_repr sc a) = a"
  "scalar_law sc cv \<Longrightarrow> length (sc_to_repr sc a) = 32"
  by (auto simp: scalar_law_def be_to_nat_to_be)

lemma from_seed_ok:
  assumes "scalar_law sc cv" "xpriv_from_seed hm sc seed = Inr x"
  shows "xpriv_ok sc x \<and> xp_depth x = 0"
proof -
  from assms(2) obtain i a where "scalar_from_canonical sc (take 32 i) = Some a" "\<not> is_zero sc a"
    "x = \<lparr>xp_private_key = take 32 i, xp_chain_code = drop 32 i, xp_depth = 0, xp_child_number = 0\<rparr>"
    by (auto simp: xpriv_from_seed_def Let_def rbind_eq_Inr split: if_splits)
  with is_zero_iff [OF assms(1)] show ?thesis
    by (auto simp: xpriv_ok_def scalar_from_canonical_eq [OF assms(1)])
qed

lemma u8_succ: "u8_checked_succ w = Some v \<Longrightarrow> unat v = Suc (unat w)"
proof -
  assume "u8_checked_succ w = Some v"
  then have "w \<noteq> 255" "v = 1 + w" by (auto simp: u8_checked_succ_def split: if_splits)
  moreover from this have "1 + w \<noteq> 0" by (auto simp: add_eq_0_iff)
  ultimately show ?thesis using unatSuc by blast
qed

lemma derive_child_ok:
  assumes "scalar_law sc cv" "xpriv_derive_child hm sc cv x index = Inr y"
  shows "xpriv_ok sc y \<and> unat (xp_depth y) = Suc (unat (xp_depth x))"
proof -
  from assms(2) obtain left par d ir where y: "\<not> is_zero sc (sc_add sc left par)" "u8_checked_succ (xp_depth x) = Some d"
    "y = \<lparr>xp_private_key = sc_to_repr sc (sc_add sc left par), xp_chain_code = ir, xp_depth = d, xp_child_number = index\<rparr>"
    by (auto simp: xpriv_derive_child_def Let_def rbind_eq_Inr split: if_splits)
  have "sc_add sc left par < sc_order sc" using assms(1) by (auto simp: scalar_law_def)
  with y is_zero_iff [OF assms(1)] scalar_repr [OF assms(1)] u8_succ [OF y(2)] show ?thesis
    by (auto simp: xpriv_ok_def)
qed

lemma derive_path_ok:
  assumes "scalar_law sc cv"
  shows "xpriv_derive_path hm sc cv x path = Inr y \<Longrightarrow> (xpriv_ok sc x \<longrightarrow> xpriv_ok sc y)
    \<and> unat (xp_depth y) = unat (xp_depth x) + length path"
  by (induction path arbitrary: x) (auto simp: rbind_eq_Inr dest!: derive_child_ok [OF assms])

lemma derive_path_append:
  "xpriv_derive_path hm sc cv x (p @ q) = rbind (xpriv_derive_path hm sc cv x p) (\<lambda>y. xpriv_derive_path hm sc cv y q)"
proof (induction p arbitrary: x)
  case (Cons i p)
  then show ?case by (cases "xpriv_derive_child hm sc cv x i") auto
qed simp

text \<open>The public point of a well-formed private key.\<close>

lemma public_key_point:
  assumes "scalar_law sc cv" "xpriv_ok sc x"
  defines "P \<equiv> ec_mul cv (be_to_nat (xp_private_key x)) (ec_base cv)"
  shows "xpriv_public_key_compressed cv x = Inr (ec_encode cv P)" "ec_decode cv (ec_encode cv P) = Some P"
proof -
  have "P \<noteq> ec_identity cv" using assms by (auto simp: scalar_law_def xpriv_ok_def)
  then have enc: "ec_decode cv (ec_encode cv P) = Some P \<and> length (ec_encode cv P) = 33"
    using assms(1) by (auto simp: scalar_law_def)
  moreover have "ec_secret cv (xp_private_key x) = Some (be_to_nat (xp_private_key x))"
    using assms(1,2) by (auto simp: scalar_law_def xpriv_ok_def)
  ultimately show "xpriv_public_key_compressed cv x = Inr (ec_encode cv P)" "ec_decode cv (ec_encode cv P) = Some P"
    by (auto simp: xpriv_public_key_compressed_def encode_point_def P_def)
qed

lemma child_point:
  assumes "scalar_law sc cv" "a < sc_order sc" "b < sc_order sc"
  shows "ec_add cv (ec_mul cv a (ec_base cv)) (ec_mul cv b (ec_base cv)) = ec_mul cv (sc_add sc a b) (ec_base cv)"
    "encode_point cv (ec_mul cv (sc_add sc a b) (ec_base cv)) =
       (if is_zero sc (sc_add sc a b) then Inl DerivationFailed else Inr (ec_encode cv (ec_mul cv (sc_add sc a b) (ec_base cv))))"
proof -
  show "ec_add cv (ec_mul cv a (ec_base cv)) (ec_mul cv b (ec_base cv)) = ec_mul cv (sc_add sc a b) (ec_base cv)"
    using assms by (auto simp: scalar_law_def)
  have lt: "sc_add sc a b < sc_order sc" using assms(1) by (auto simp: scalar_law_def)
  have id: "ec_mul cv c (ec_base cv) = ec_identity cv \<longleftrightarrow> c = 0" if "c < sc_order sc" for c
    using assms(1) that by (auto simp: scalar_law_def)
  have "length (ec_encode cv (ec_mul cv (sc_add sc a b) (ec_base cv))) = 33 \<longleftrightarrow> sc_add sc a b \<noteq> 0"
    using assms(1) id [OF lt] unfolding scalar_law_def by metis
  then show "encode_point cv (ec_mul cv (sc_add sc a b) (ec_base cv)) =
       (if is_zero sc (sc_add sc a b) then Inl DerivationFailed else Inr (ec_encode cv (ec_mul cv (sc_add sc a b) (ec_base cv))))"
    by (simp add: encode_point_def is_zero_iff [OF assms(1) lt])
qed

lemma derivation_agrees:
  assumes law: "scalar_law sc cv" and ok: "xpriv_ok sc x" and i: "\<not> HARDENED \<le> i" and P: "to_xpub cv x = Inr P"
  shows "xpub_derive_child hm sc cv P i = Inr Q \<longleftrightarrow>
    (\<exists>c. xpriv_derive_child hm sc cv x i = Inr c \<and> to_xpub cv c = Inr Q)"
proof -
  let ?k = "be_to_nat (xp_private_key x)"
  note pk = public_key_point [OF law ok]
  have P': "P = \<lparr>xu_public_key = ec_encode cv (ec_mul cv ?k (ec_base cv)), xu_chain_code = xp_chain_code x,
      xu_depth = xp_depth x, xu_child_number = xp_child_number x\<rparr>"
    using P pk(1) by (simp add: to_xpub_def)
  have par: "scalar_from_canonical sc (xp_private_key x) = Some ?k" "?k < sc_order sc"
    using ok by (auto simp: scalar_from_canonical_eq [OF law] xpriv_ok_def)
  have step: "rbind (encode_point cv (ec_add cv (ec_mul cv left (ec_base cv)) (ec_mul cv ?k (ec_base cv))))
       (\<lambda>pk. Inr \<lparr>xu_public_key = pk, xu_chain_code = ir, xu_depth = d, xu_child_number = i\<rparr>) = Inr Q
     \<longleftrightarrow> \<not> is_zero sc (sc_add sc left ?k) \<and> to_xpub cv \<lparr>xp_private_key = sc_to_repr sc (sc_add sc left ?k),
       xp_chain_code = ir, xp_depth = d, xp_child_number = i\<rparr> = Inr Q" if l: "left < sc_order sc" for left ir d
  proof -
    have lt: "sc_add sc left ?k < sc_order sc" using law by (auto simp: scalar_law_def)
    have ok': "\<not> is_zero sc (sc_add sc left ?k) \<Longrightarrow> xpriv_ok sc \<lparr>xp_private_key = sc_to_repr sc (sc_add sc left ?k),
       xp_chain_code = ir, xp_depth = d, xp_child_number = i\<rparr>"
      using lt scalar_repr [OF law] is_zero_iff [OF law lt] by (auto simp: xpriv_ok_def)
    show ?thesis
      using child_point [OF law l par(2)] public_key_point(1) [OF law ok'] scalar_repr(1) [OF law lt]
      by (auto simp: to_xpub_def)
  qed
  show ?thesis
  proof (cases "hmac_sha512 hm (xp_chain_code x) (ec_encode cv (ec_mul cv ?k (ec_base cv)) @ u32_to_be i)")
    case (Inr h)
    note eval = i pk par(1) Inr xpub_derive_child_def xpriv_derive_child_def P'
    show ?thesis
    proof (cases "scalar_from_canonical sc (take 32 h)")
      case (Some left)
      then have l: "left < sc_order sc" by (simp add: scalar_from_canonical_eq [OF law])
      show ?thesis
        by (cases "u8_checked_succ (xp_depth x)") (simp_all add: eval Some step [OF l] Let_def)
    qed (simp add: eval Let_def)
  qed (simp add: i pk P' xpub_derive_child_def xpriv_derive_child_def)
qed

section \<open>Positions\<close>

lemma HARDENED_pow: "HARDENED = 2 ^ 31"
  by (simp add: HARDENED_def)

lemma HARDENED_bit: "bit HARDENED n \<longleftrightarrow> n = 31"
  unfolding HARDENED_pow by (subst bit_exp_iff) auto

lemma below_hardened: "c < HARDENED \<Longrightarrow> take_bit 31 c = c"
  unfolding HARDENED_pow by (simp add: less_mask_eq take_bit_eq_mask word_less_nat_alt)

lemma hardened_index: "HARDENED \<le> or c HARDENED"
  by (rule le_word_or1)

lemma unharden: "c < HARDENED \<Longrightarrow> and (or c HARDENED) (not HARDENED) = c"
proof -
  have "and (or (take_bit 31 c) HARDENED) (not HARDENED) = take_bit 31 c"
    by (rule bit_eqI) (auto simp: bit_simps HARDENED_bit)
  then show "c < HARDENED \<Longrightarrow> ?thesis" by (simp add: below_hardened)
qed

lemma hardened_path_inj:
  assumes "\<forall>c \<in> set (coords p). c < HARDENED" "\<forall>c \<in> set (coords q). c < HARDENED" "hardened_path p = hardened_path q"
  shows "p = q"
proof -
  have "map (\<lambda>i. and i (not HARDENED)) (hardened_path r) = coords r" if "\<forall>c \<in> set (coords r). c < HARDENED" for r
    using that by (simp add: hardened_path_def map_idI unharden comp_def)
  with assms show ?thesis by (metis pos.expand)
qed

section \<open>Signatures\<close>

lemma low_normalized: "ecdsa_law ds \<Longrightarrow> is_low_s ds (unwrap_or (sig_normalize_s ds s) s)"
  by (cases "sig_normalize_s ds s") (auto simp: ecdsa_law_def is_low_s_def)

lemma sign_prehash_verifies:
  assumes "ecdsa_law ds" "sign_prehash_der ds priv h = Inr der" "verifying_key ds priv = Inr v"
    and "vk_from_sec1 ds pub = Some v"
  shows "verify_der_prehash ds pub h der \<and> der \<noteq> [] \<and> length der < 255"
proof -
  from assms(2,3) obtain k s where k: "vk_of ds k = v" "sk_sign_prehash ds k h = Some s"
    "der = sig_to_der ds (unwrap_or (sig_normalize_s ds s) s)"
    by (auto simp: sign_prehash_der_def verifying_key_def rbind_eq_Inr)
  then show ?thesis
    using assms(1,4) low_normalized [OF assms(1)] by (auto simp: verify_der_prehash_def ecdsa_law_def)
qed

section \<open>Evaluation instances of the parameters\<close>

definition toy_scalars :: scalar_ops where
  "toy_scalars = \<lparr>sc_order = 256,
     sc_from_repr = (\<lambda>bs. if length bs = 32 \<and> be_to_nat bs < 256 then Some (be_to_nat bs) else None),
     sc_to_repr = nat_to_be 32, sc_add = (\<lambda>a b. (a + b) mod 256)\<rparr>"

definition toy_group :: "byte curve_ops" where
  "toy_group = \<lparr>ec_identity = 0, ec_base = 1, ec_add = (+), ec_mul = (\<lambda>a p. word_of_nat a * p),
     ec_encode = (\<lambda>p. if p = 0 then [0] else replicate 32 0 @ [p]),
     ec_decode = (\<lambda>bs. if length bs = 33 then Some (last bs) else None),
     ec_secret = (\<lambda>bs. if 0 < be_to_nat bs \<and> be_to_nat bs < 256 then Some (be_to_nat bs) else None)\<rparr>"

definition toy_hmac :: hmac where
  "toy_hmac k m = Some (replicate 31 0 @ [1] @ replicate 32 0)"

definition toy_dsa :: "(byte, byte, byte \<times> bool) ecdsa_ops" where
  "toy_dsa = \<lparr>sk_from_slice = (\<lambda>bs. if length bs = 32 then Some (last bs) else None),
     sk_sign = (\<lambda>k m. (k, True)), sk_sign_prehash = (\<lambda>k h. Some (k, True)), vk_of = (\<lambda>k. k),
     vk_from_sec1 = (\<lambda>bs. if length bs = 33 then Some (last bs) else None),
     vk_verify = (\<lambda>v m s. s = (v, False)), vk_verify_prehash = (\<lambda>v h s. s = (v, False)),
     sig_normalize_s = (\<lambda>s. if snd s then Some (fst s, False) else None),
     sig_to_der = (\<lambda>s. [fst s, if snd s then 1 else 0]),
     sig_from_der = (\<lambda>bs. if length bs = 2 then Some (bs ! 0, bs ! 1 = 1) else None)\<rparr>"

lemma toy_dsa_law: "ecdsa_law toy_dsa"
  by (auto simp: ecdsa_law_def toy_dsa_def)

lemma toy_scalar_law: "scalar_law toy_scalars toy_group"
proof -
  have z: "word_of_nat a = (0 :: byte) \<longleftrightarrow> a = 0" if "a < 256" for a
    using that by (auto simp: word_of_nat_eq_0_iff dest: nat_dvd_not_less)
  have m: "word_of_nat ((a + b) mod 256) = (word_of_nat a + word_of_nat b :: byte)" for a b
    by (simp add: word_unat_eq_iff byte_unat_of_nat unat_word_ariths mod_simps)
  have "(256::nat) \<le> 256 ^ 32" by simp
  with z m show ?thesis by (simp add: scalar_law_def toy_scalars_def toy_group_def)
qed

lemma toy_master: "xpriv_from_seed toy_hmac toy_scalars (replicate 16 9)
   = Inr \<lparr>xp_private_key = replicate 31 0 @ [1], xp_chain_code = replicate 32 0, xp_depth = 0, xp_child_number = 0\<rparr>"
proof -
  have 1: "be_to_nat (replicate 31 0 @ [1]) = 1" by (simp add: be_to_nat_def le_to_nat_zero list_all_iff)
  have "scalar_from_canonical toy_scalars (replicate 31 0 @ [1]) = Some 1"
    by (simp add: scalar_from_canonical_def toy_scalars_def 1)
  moreover have "\<not> is_zero toy_scalars 1"
    using is_zero_iff [OF toy_scalar_law, of 1] by (simp add: toy_scalars_def)
  ultimately show ?thesis
    by (simp add: xpriv_from_seed_def hmac_sha512_def toy_hmac_def)
qed

section \<open>Properties\<close>

text \<open>
  C30 [public_derivation_agrees] For every key reached from a seed along any path, deriving a
  non-hardened child from the extended public key succeeds exactly when the private derivation does
  and gives the public key of the private child; a hardened index is refused without the private key.
\<close>

theorem public_derivation_agrees:
  assumes "scalar_law sc cv" and "xpriv_from_seed hm sc seed = Inr m" and "xpriv_derive_path hm sc cv m path = Inr x"
  shows "\<exists>P. to_xpub cv x = Inr P
    \<and> (\<forall>i Q. i < HARDENED \<longrightarrow> (xpub_derive_child hm sc cv P i = Inr Q \<longleftrightarrow>
          (\<exists>c. xpriv_derive_child hm sc cv x i = Inr c \<and> to_xpub cv c = Inr Q)))
    \<and> (\<forall>i. HARDENED \<le> i \<longrightarrow> xpub_derive_child hm sc cv P i = Inl HardenedNeedsPrivate)"
proof -
  have ok: "xpriv_ok sc x" using derive_path_ok [OF assms(1,3)] from_seed_ok [OF assms(1,2)] by blast
  then obtain P where P: "to_xpub cv x = Inr P" using public_key_point(1) [OF assms(1)] by (auto simp: to_xpub_def)
  with derivation_agrees [OF assms(1) ok _ P] show ?thesis
    by (auto simp: xpub_derive_child_def not_le)
qed

theorem public_derivation_agrees_witness:
  "\<exists>m P. xpriv_from_seed toy_hmac toy_scalars (replicate 16 9) = Inr m \<and> to_xpub toy_group m = Inr P
     \<and> (\<forall>Q. xpub_derive_child toy_hmac toy_scalars toy_group P 5 = Inr Q \<longleftrightarrow>
          (\<exists>c. xpriv_derive_child toy_hmac toy_scalars toy_group m 5 = Inr c \<and> to_xpub toy_group c = Inr Q))"
  using public_derivation_agrees [OF toy_scalar_law toy_master, where path = "[]", OF xpriv_derive_path.simps(1)]
    toy_master by (auto simp: HARDENED_def)

text \<open>
  Deriving along a path is deriving along its parts, and the depth of the
  result counts the indices of the path; so from a master key every path of more than 255 indices
  fails.
\<close>

lemma derive_path_composes:
  assumes "scalar_law sc cv" and "xpriv_from_seed hm sc seed = Inr m"
  shows "xpriv_derive_path hm sc cv m (p @ q) = rbind (xpriv_derive_path hm sc cv m p) (\<lambda>y. xpriv_derive_path hm sc cv y q)
    \<and> (\<forall>y. xpriv_derive_path hm sc cv m p = Inr y \<longrightarrow> unat (xp_depth y) = length p \<and> length p \<le> 255)"
proof -
  have "unat (xp_depth y) = length p \<and> length p \<le> 255" if "xpriv_derive_path hm sc cv m p = Inr y" for y
    using derive_path_ok [OF assms(1) that] from_seed_ok [OF assms] byte_unat_less [of "xp_depth y"] by simp
  then show ?thesis using derive_path_append by blast
qed

text \<open>
  The path of a position is fully hardened, so no public key derives any of
  its steps, and distinct positions with coordinates below \<open>2 ^ 31\<close> have distinct paths; the writing
  key is determined by the position and the first seed alone, whatever the other seeds are.
\<close>

lemma positions_isolated:
  assumes "\<forall>c \<in> set (coords p). c < HARDENED" and "\<forall>c \<in> set (coords q). c < HARDENED"
  shows "(hardened_path p = hardened_path q \<longleftrightarrow> p = q)
    \<and> (\<forall>i \<in> set (hardened_path p). xpub_derive_child hm sc cv x i = Inl HardenedNeedsPrivate)
    \<and> (sd_first s = sd_first t \<longrightarrow> writing_key hm sc cv s p = writing_key hm sc cv t p)"
  using hardened_path_inj [OF assms] hardened_index
  by (auto simp: hardened_path_def xpub_derive_child_def writing_key_def)

lemma message_signature_strict:
  assumes "ecdsa_law ds" and "verifying_key ds priv = Inr v"
  shows "\<exists>s. pin_sign ds priv msg = Inr s \<and> verify_strict ds v msg s"
proof -
  from assms(2) obtain k where k: "sk_from_slice ds priv = Some k" "v = vk_of ds k"
    by (auto simp: verifying_key_def rbind_eq_Inr)
  then show ?thesis
    using assms(1) low_normalized [OF assms(1)]
    by (auto simp: pin_sign_def Let_def verify_strict_def pin_verify_def ecdsa_law_def)
qed

text \<open>
  A signature made over a prehash verifies under the public key of the signing
  key, and one made over a message passes the strict verification; strict verification and prehash
  verification accept no signature that is not in low-S form.
\<close>

lemma signatures_strict:
  assumes "ecdsa_law ds" and "sign_prehash_der ds priv h = Inr der" and "verifying_key ds priv = Inr v"
    and "vk_from_sec1 ds pub = Some v"
  shows "verify_der_prehash ds pub h der
    \<and> (\<exists>s. pin_sign ds priv msg = Inr s \<and> verify_strict ds v msg s)
    \<and> (\<forall>d s. verify_der_prehash ds pub h d \<and> sig_from_der ds d = Some s \<longrightarrow> is_low_s ds s)"
  using sign_prehash_verifies [OF assms] message_signature_strict [OF assms(1,3)]
  by (auto simp: verify_der_prehash_def split: option.splits)

end
