(* ===== verification/Api.thy ===== *)
theory Api
  imports Machines HeaderChain Ckd
begin

text \<open>
  The service boundary, \<^verbatim>\<open>crates/api/src\<close>: typed errors and configuration (\<^verbatim>\<open>error.rs\<close>, \<^verbatim>\<open>config.rs\<close>),
  the request and its signed message (\<^verbatim>\<open>request.rs\<close>), caller registry and nonce store (\<^verbatim>\<open>auth.rs\<close>),
  the rate limiter (\<^verbatim>\<open>ratelimit.rs\<close>), the audit log (\<^verbatim>\<open>audit.rs\<close>) and the order in which \<open>handle\<close> puts
  them together (\<^verbatim>\<open>service.rs\<close>).

  The backend is whatever implements the trait of \<^verbatim>\<open>backend.rs\<close>: a function \<open>exec\<close> on a state of its
  own. The time an execution takes is read from the clock by the code and is an argument here.
  ECDSA is the record \<open>ecdsa_ops\<close>, the digest the argument \<open>sha\<close>.
\<close>

section \<open>Errors and configuration\<close>

datatype api_error = BadRequest string | Unauthorized | Replay | Expired | Oversize | RateLimited
  | Timeout | NotTerminated | Config string | Internal

definition api_status :: "api_error \<Rightarrow> 16 word" where
  "api_status e = (case e of
     BadRequest _ \<Rightarrow> 400
   | Unauthorized \<Rightarrow> 401 | Replay \<Rightarrow> 401 | Expired \<Rightarrow> 401
   | Oversize \<Rightarrow> 413
   | RateLimited \<Rightarrow> 429
   | Timeout \<Rightarrow> 504
   | NotTerminated \<Rightarrow> 409
   | Config _ \<Rightarrow> 500 | Internal \<Rightarrow> 500)"

record api_config =
  max_payload_bytes :: nat
  rate_limit_per_window :: "32 word"
  rate_window_secs :: "64 word"
  op_timeout_millis :: nat

definition config_validate :: "api_config \<Rightarrow> api_error + unit" where
  "config_validate c =
     (if max_payload_bytes c = 0 then Inl (Config ''max_payload_bytes must be > 0'')
      else if rate_limit_per_window c = 0 then Inl (Config ''rate_limit_per_window must be > 0'')
      else if rate_window_secs c = 0 then Inl (Config ''rate_window_secs must be > 0'')
      else if op_timeout_millis c = 0 then Inl (Config ''op_timeout_millis must be > 0'')
      else Inr ())"

section \<open>Requests\<close>

datatype operation = OverlayWrite | OverlaySignalPosition | OverlayResolvePosition | OverlayObfuscate
  | OverlayDeobfuscate | BroadcastSessionOpen | BroadcastRekeyUser | BroadcastRekeyKey
  | BroadcastRekeyGroup | BroadcastMessage | BroadcastDecrypt | SessionSubscribeOffChain
  | SessionSubscribeOnBlock | SessionRenew | SessionRevoke | CustodyKeygen | CustodyRotate
  | CustodyRevoke | Health | Readiness

primrec operation_name :: "operation \<Rightarrow> string" where
  "operation_name OverlayWrite = ''overlay.write''"
| "operation_name OverlaySignalPosition = ''overlay.signal_position''"
| "operation_name OverlayResolvePosition = ''overlay.resolve_position''"
| "operation_name OverlayObfuscate = ''overlay.obfuscate''"
| "operation_name OverlayDeobfuscate = ''overlay.deobfuscate''"
| "operation_name BroadcastSessionOpen = ''broadcast.session_open''"
| "operation_name BroadcastRekeyUser = ''broadcast.rekey.user''"
| "operation_name BroadcastRekeyKey = ''broadcast.rekey.key''"
| "operation_name BroadcastRekeyGroup = ''broadcast.rekey.group''"
| "operation_name BroadcastMessage = ''broadcast.message''"
| "operation_name BroadcastDecrypt = ''broadcast.decrypt''"
| "operation_name SessionSubscribeOffChain = ''session.subscribe.off_chain''"
| "operation_name SessionSubscribeOnBlock = ''session.subscribe.on_block''"
| "operation_name SessionRenew = ''session.renew''"
| "operation_name SessionRevoke = ''session.revoke''"
| "operation_name CustodyKeygen = ''custody.keygen''"
| "operation_name CustodyRotate = ''custody.rotate''"
| "operation_name CustodyRevoke = ''custody.revoke''"
| "operation_name Health = ''health''"
| "operation_name Readiness = ''readiness''"

definition requires_auth :: "operation \<Rightarrow> bool" where
  "requires_auth oper = (\<not> (case oper of Health \<Rightarrow> True | Readiness \<Rightarrow> True | _ \<Rightarrow> False))"

record request =
  rq_caller :: string
  rq_operation :: operation
  rq_payload :: bytes
  rq_position :: "string option"
  rq_nonce :: "64 word"
  rq_expiry_unix :: "64 word"
  rq_signature :: bytes

definition signing_message :: "request \<Rightarrow> bytes" where
  "signing_message r =
     as_bytes (operation_name (rq_operation r)) @ [0x1f] @ as_bytes (rq_caller r) @ [0x1f]
     @ u64_to_be (rq_nonce r) @ u64_to_be (rq_expiry_unix r) @ [0x1f]
     @ (case rq_position r of Some position \<Rightarrow> as_bytes position | None \<Rightarrow> [])
     @ [0x1f] @ rq_payload r"

definition signing_prehash :: "(bytes \<Rightarrow> bytes) \<Rightarrow> request \<Rightarrow> bytes" where
  "signing_prehash sha r = internal (double_sha256 sha (signing_message r))"

section \<open>Callers, nonces, rate limit and audit\<close>

type_synonym caller_registry = "string \<Rightarrow> bytes option"

definition registry_new :: caller_registry where
  "registry_new = (\<lambda>_. None)"

definition register :: "string \<Rightarrow> bytes \<Rightarrow> caller_registry \<Rightarrow> caller_registry" where
  "register caller public_key_sec1 keys = keys(caller \<mapsto> public_key_sec1)"

definition registered_key :: "caller_registry \<Rightarrow> string \<Rightarrow> bytes option" where
  "registered_key keys caller = keys caller"

type_synonym nonce_store = "(string \<times> 64 word) set"

definition check_and_record :: "string \<Rightarrow> 64 word \<Rightarrow> nonce_store \<Rightarrow> bool \<times> nonce_store" where
  "check_and_record caller nonce seen = ((caller, nonce) \<notin> seen, insert (caller, nonce) seen)"

record rate_limiter =
  rl_limit :: "32 word"
  rl_window_secs :: "64 word"
  rl_windows :: "string \<Rightarrow> (64 word \<times> 32 word) option"

definition limiter_new :: "32 word \<Rightarrow> 64 word \<Rightarrow> rate_limiter" where
  "limiter_new limit window_secs = \<lparr>rl_limit = limit, rl_window_secs = max window_secs 1, rl_windows = (\<lambda>_. None)\<rparr>"

definition limiter_allow :: "string \<Rightarrow> 64 word \<Rightarrow> rate_limiter \<Rightarrow> bool \<times> rate_limiter" where
  "limiter_allow caller now l =
     (let current = now div rl_window_secs l;
          entry = (case rl_windows l caller of None \<Rightarrow> (current, 0) | Some e \<Rightarrow> e);
          entry = (if fst entry \<noteq> current then (current, 0) else entry)
      in if rl_limit l \<le> snd entry then (False, l\<lparr>rl_windows := (rl_windows l)(caller \<mapsto> entry)\<rparr>)
         else (True, l\<lparr>rl_windows := (rl_windows l)(caller \<mapsto> (fst entry, word_saturating_add (snd entry) 1))\<rparr>))"

record audit_entry =
  ae_timestamp :: "64 word"
  ae_caller :: string
  ae_operation :: string
  ae_node_position :: "string option"
  ae_outcome :: string

definition audit_log_record :: "64 word \<Rightarrow> string \<Rightarrow> string \<Rightarrow> string option \<Rightarrow> string
    \<Rightarrow> audit_entry list \<Rightarrow> audit_entry list" where
  "audit_log_record timestamp caller oper node_position outcome entries =
     entries @ [\<lparr>ae_timestamp = timestamp, ae_caller = caller, ae_operation = oper,
                 ae_node_position = node_position, ae_outcome = outcome\<rparr>]"

section \<open>The service\<close>

record operation_response =
  or_data :: bytes
  or_chain_root :: "hash256 option"

definition response_plain :: "bytes \<Rightarrow> operation_response" where
  "response_plain data = \<lparr>or_data = data, or_chain_root = None\<rparr>"

definition response_chain_terminating :: "bytes \<Rightarrow> hash256 \<Rightarrow> operation_response" where
  "response_chain_terminating data root = \<lparr>or_data = data, or_chain_root = Some root\<rparr>"

type_synonym 'b backend = "operation \<Rightarrow> bytes \<Rightarrow> ('b, api_error, operation_response) op"

record 'b api_service =
  as_config :: api_config
  as_callers :: caller_registry
  as_nonces :: nonce_store
  as_limiter :: rate_limiter
  as_audit :: "audit_entry list"
  as_header_chain :: header_chain
  as_backend :: 'b

definition service_new :: "api_config \<Rightarrow> caller_registry \<Rightarrow> header_chain \<Rightarrow> 'b \<Rightarrow> api_error + 'b api_service" where
  "service_new config callers chain backend =
     rbind (config_validate config) (\<lambda>_.
     let limiter = limiter_new (rate_limit_per_window config) (rate_window_secs config) in
     Inr \<lparr>as_config = config, as_callers = callers, as_nonces = {}, as_limiter = limiter,
          as_audit = [], as_header_chain = chain, as_backend = backend\<rparr>)"

definition assert_terminates :: "'b api_service \<Rightarrow> hash256 \<Rightarrow> api_error + unit" where
  "assert_terminates s root =
     (if contains_merkle_root (as_header_chain s) root \<noteq> None then Inr () else Inl NotTerminated)"

definition authenticate :: "('k, 'v, 'g) ecdsa_ops \<Rightarrow> (bytes \<Rightarrow> bytes) \<Rightarrow> request \<Rightarrow> 64 word
    \<Rightarrow> ('b api_service, api_error, unit) op" where
  "authenticate ds sha r now_unix s =
     (case registered_key (as_callers s) (rq_caller r) of
        None \<Rightarrow> (Inl Unauthorized, s)
      | Some public_key \<Rightarrow>
          if rq_expiry_unix r < now_unix then (Inl Expired, s)
          else let prehash = signing_prehash sha r in
          if \<not> verify_der_prehash ds public_key prehash (rq_signature r) then (Inl Unauthorized, s)
          else let (fresh, nonces) = check_and_record (rq_caller r) (rq_nonce r) (as_nonces s);
                   s = s\<lparr>as_nonces := nonces\<rparr> in
          if \<not> fresh then (Inl Replay, s)
          else let (allowed, limiter) = limiter_allow (rq_caller r) now_unix (as_limiter s);
                   s = s\<lparr>as_limiter := limiter\<rparr> in
          if \<not> allowed then (Inl RateLimited, s)
          else (Inr (), s))"

definition execute_audited :: "'b backend \<Rightarrow> nat \<Rightarrow> request \<Rightarrow> 64 word \<Rightarrow> ('b api_service, api_error, bytes) op" where
  "execute_audited exec elapsed r now_unix s =
     (let (result, backend) = exec (rq_operation r) (rq_payload r) (as_backend s);
          outcome = (if is_ok result then ''ok'' else ''error'');
          s = s\<lparr>as_backend := backend,
                as_audit := audit_log_record now_unix (rq_caller r) (operation_name (rq_operation r))
                              (rq_position r) outcome (as_audit s)\<rparr>
      in if op_timeout_millis (as_config s) < elapsed then (Inl Timeout, s)
         else (case result of
                 Inl e \<Rightarrow> (Inl e, s)
               | Inr response \<Rightarrow>
                   (case or_chain_root response of
                      Some root \<Rightarrow> (case assert_terminates s root of
                                     Inl e \<Rightarrow> (Inl e, s)
                                   | Inr _ \<Rightarrow> (Inr (or_data response), s))
                    | None \<Rightarrow> (Inr (or_data response), s))))"

definition api_handle :: "('k, 'v, 'g) ecdsa_ops \<Rightarrow> (bytes \<Rightarrow> bytes) \<Rightarrow> 'b backend \<Rightarrow> nat \<Rightarrow> request \<Rightarrow> 64 word
    \<Rightarrow> ('b api_service, api_error, bytes) op" where
  "api_handle ds sha exec elapsed r now_unix s =
     (if max_payload_bytes (as_config s) < length (rq_payload r) then (Inl Oversize, s)
      else op_bind (if requires_auth (rq_operation r) then authenticate ds sha r now_unix else op_return ())
             (\<lambda>_. execute_audited exec elapsed r now_unix) s)"

section \<open>Specification\<close>

text \<open>A run of the service: requests with their time of arrival and the time their execution takes.\<close>

definition api_step :: "('k, 'v, 'g) ecdsa_ops \<Rightarrow> (bytes \<Rightarrow> bytes) \<Rightarrow> 'b backend \<Rightarrow> request \<times> 64 word \<times> nat
    \<Rightarrow> 'b api_service \<Rightarrow> (api_error + bytes) \<times> 'b api_service" where
  "api_step ds sha exec e s = api_handle ds sha exec (snd (snd e)) (fst e) (fst (snd e)) s"

text \<open>What the limiter has counted for a caller in the window of a time.\<close>

definition window_used :: "rate_limiter \<Rightarrow> string \<Rightarrow> 64 word \<Rightarrow> 32 word" where
  "window_used l caller now =
     (case rl_windows l caller of
        Some (w, n) \<Rightarrow> if w = now div rl_window_secs l then n else 0
      | None \<Rightarrow> 0)"

definition admitted :: "('k, 'v, 'g) ecdsa_ops \<Rightarrow> (bytes \<Rightarrow> bytes) \<Rightarrow> request \<Rightarrow> 64 word \<Rightarrow> 'b api_service \<Rightarrow> bool" where
  "admitted ds sha r now s \<longleftrightarrow>
     length (rq_payload r) \<le> max_payload_bytes (as_config s) \<and>
     (requires_auth (rq_operation r) \<longrightarrow>
        (\<exists>pk. as_callers s (rq_caller r) = Some pk \<and>
              verify_der_prehash ds pk (signing_prehash sha r) (rq_signature r)) \<and>
        now \<le> rq_expiry_unix r \<and>
        (rq_caller r, rq_nonce r) \<notin> as_nonces s \<and>
        window_used (as_limiter s) (rq_caller r) now < rl_limit (as_limiter s))"

definition signed_count :: "'b api_service \<Rightarrow> string \<Rightarrow> 64 word \<Rightarrow> nat" where
  "signed_count s caller w =
     length (filter (\<lambda>a. ae_caller a = caller \<and> ae_timestamp a div rl_window_secs (as_limiter s) = w \<and>
                         ae_operation a \<notin> {''health'', ''readiness''}) (as_audit s))"

section \<open>Lemmas\<close>

lemmas api_defs = api_handle_def authenticate_def execute_audited_def op_bind_def op_return_def
  check_and_record_def registered_key_def assert_terminates_def

lemma requires_auth_name: "requires_auth oper \<longleftrightarrow> operation_name oper \<notin> {''health'', ''readiness''}"
  by (cases oper) (simp_all add: requires_auth_def)

lemma limiter_allow_eq:
  "limiter_allow c now l =
     (let n = window_used l c now; w = now div rl_window_secs l in
      if n < rl_limit l
      then (True, l\<lparr>rl_windows := (rl_windows l)(c \<mapsto> (w, word_saturating_add n 1))\<rparr>)
      else (False, l\<lparr>rl_windows := (rl_windows l)(c \<mapsto> (w, n))\<rparr>))"
  by (auto simp: limiter_allow_def window_used_def Let_def not_le split: option.splits)

lemma authenticate_frame:
  assumes "authenticate ds sha r now s = (res, t)"
  shows "as_config t = as_config s" "as_callers t = as_callers s" "as_audit t = as_audit s"
    "as_backend t = as_backend s" "as_header_chain t = as_header_chain s"
    "rl_limit (as_limiter t) = rl_limit (as_limiter s)"
    "rl_window_secs (as_limiter t) = rl_window_secs (as_limiter s)"
  using assms
  by (auto simp: authenticate_def check_and_record_def limiter_allow_eq Let_def split: option.splits if_splits)

lemma authenticate_ok:
  assumes "authenticate ds sha r now s = (res, t)" "requires_auth (rq_operation r)"
    and "length (rq_payload r) \<le> max_payload_bytes (as_config s)"
  shows "res = Inr () \<longleftrightarrow> admitted ds sha r now s"
  using assms
  by (auto simp: authenticate_def check_and_record_def registered_key_def limiter_allow_eq admitted_def Let_def
      not_less split: option.splits if_splits)

lemma authenticate_error:
  assumes "authenticate ds sha r now s = (Inl e, t)"
  shows "e \<in> {Unauthorized, Expired, Replay, RateLimited}"
  using assms
  by (auto simp: authenticate_def check_and_record_def limiter_allow_eq Let_def split: option.splits if_splits)

lemma handle_cases:
  assumes "api_handle ds sha exec elapsed r now s = (res, t)"
  obtains (oversize) "max_payload_bytes (as_config s) < length (rq_payload r)" "res = Inl Oversize" "t = s"
  | (refused) e where "length (rq_payload r) \<le> max_payload_bytes (as_config s)" "requires_auth (rq_operation r)"
      "authenticate ds sha r now s = (Inl e, t)" "res = Inl e"
  | (open_op) "length (rq_payload r) \<le> max_payload_bytes (as_config s)" "\<not> requires_auth (rq_operation r)"
      "execute_audited exec elapsed r now s = (res, t)"
  | (signed_op) u where "length (rq_payload r) \<le> max_payload_bytes (as_config s)" "requires_auth (rq_operation r)"
      "authenticate ds sha r now s = (Inr (), u)" "execute_audited exec elapsed r now u = (res, t)"
  using assms
  by (auto simp: api_handle_def op_bind_def op_return_def not_less split: if_splits prod.splits sum.splits)

lemma authenticate_nonces:
  assumes "authenticate ds sha r now s = (res, t)"
  shows "as_nonces s \<subseteq> as_nonces t"
    "(rq_caller r, rq_nonce r) \<in> as_nonces s \<Longrightarrow> res \<in> {Inl Unauthorized, Inl Expired, Inl Replay}"
    "res \<notin> {Inl Unauthorized, Inl Expired} \<Longrightarrow> (rq_caller r, rq_nonce r) \<in> as_nonces t"
  using assms
  by (auto simp: authenticate_def check_and_record_def limiter_allow_eq Let_def split: option.splits if_splits)

lemma execute_audited_frame:
  assumes "execute_audited exec elapsed r now s = (res, t)"
  shows "as_nonces t = as_nonces s" "as_limiter t = as_limiter s" "as_config t = as_config s"
    "as_callers t = as_callers s" "as_header_chain t = as_header_chain s"
    "as_backend t = snd (exec (rq_operation r) (rq_payload r) (as_backend s))"
    "as_audit t = as_audit s @ [\<lparr>ae_timestamp = now, ae_caller = rq_caller r,
       ae_operation = operation_name (rq_operation r), ae_node_position = rq_position r,
       ae_outcome = (if is_ok (fst (exec (rq_operation r) (rq_payload r) (as_backend s))) then ''ok'' else ''error'')\<rparr>]"
  using assms
  by (auto simp: execute_audited_def audit_log_record_def assert_terminates_def Let_def
      split: prod.splits if_splits sum.splits option.splits)

lemma handle_nonces:
  assumes "api_handle ds sha exec elapsed r now s = (res, t)"
  shows "as_nonces s \<subseteq> as_nonces t"
    "requires_auth (rq_operation r) \<Longrightarrow> (rq_caller r, rq_nonce r) \<in> as_nonces s \<Longrightarrow>
       res \<in> {Inl Oversize, Inl Unauthorized, Inl Expired, Inl Replay} \<and> as_audit t = as_audit s"
    "requires_auth (rq_operation r) \<Longrightarrow> res \<notin> {Inl Oversize, Inl Unauthorized, Inl Expired} \<Longrightarrow>
       (rq_caller r, rq_nonce r) \<in> as_nonces t"
proof -
  show "as_nonces s \<subseteq> as_nonces t"
    using assms by (cases rule: handle_cases) (auto dest: authenticate_nonces execute_audited_frame)
  show "res \<in> {Inl Oversize, Inl Unauthorized, Inl Expired, Inl Replay} \<and> as_audit t = as_audit s"
    if "requires_auth (rq_operation r)" "(rq_caller r, rq_nonce r) \<in> as_nonces s"
    using assms
    by (cases rule: handle_cases) (use that in \<open>auto dest: authenticate_nonces(2) authenticate_frame\<close>)
  show "(rq_caller r, rq_nonce r) \<in> as_nonces t"
    if "requires_auth (rq_operation r)" "res \<notin> {Inl Oversize, Inl Unauthorized, Inl Expired}"
    using assms
    by (cases rule: handle_cases)
      (use that in \<open>auto dest: authenticate_nonces(3) simp: execute_audited_frame(1)\<close>)
qed

lemma execute_audited_result:
  assumes "execute_audited exec elapsed r now u = (res, t)"
    and "as_config u = as_config s" "as_header_chain u = as_header_chain s" "as_backend u = as_backend s"
  shows "res =
     (if op_timeout_millis (as_config s) < elapsed then Inl Timeout
      else case fst (exec (rq_operation r) (rq_payload r) (as_backend s)) of
             Inl e \<Rightarrow> Inl e
           | Inr response \<Rightarrow>
               if \<exists>root. or_chain_root response = Some root \<and> contains_merkle_root (as_header_chain s) root = None
               then Inl NotTerminated else Inr (or_data response))"
  using assms
  by (auto simp: execute_audited_def assert_terminates_def Let_def
      split: prod.splits sum.splits option.splits if_splits)

lemma operation_name_inj: "operation_name a = operation_name b \<longleftrightarrow> a = b"
  by (cases a; cases b; simp)

lemma operation_name_plain: "0x1f \<notin> set (as_bytes (operation_name a))"
  by (cases a) (simp_all add: as_bytes_def char_byte_def)

definition position_text :: "request \<Rightarrow> string" where
  "position_text r = (case rq_position r of Some position \<Rightarrow> position | None \<Rightarrow> [])"

lemma signing_message_inj:
  assumes "signing_message a = signing_message b"
    and "0x1f \<notin> set (as_bytes (rq_caller a))" "0x1f \<notin> set (as_bytes (rq_caller b))"
    and "0x1f \<notin> set (as_bytes (position_text a))" "0x1f \<notin> set (as_bytes (position_text b))"
  shows "rq_operation a = rq_operation b \<and> rq_caller a = rq_caller b \<and> rq_nonce a = rq_nonce b \<and>
    rq_expiry_unix a = rq_expiry_unix b \<and> position_text a = position_text b \<and> rq_payload a = rq_payload b"
proof -
  have split: "signing_message r = as_bytes (operation_name (rq_operation r)) @ 0x1f # as_bytes (rq_caller r) @ 0x1f #
      u64_to_be (rq_nonce r) @ u64_to_be (rq_expiry_unix r) @ 0x1f # as_bytes (position_text r) @ 0x1f # rq_payload r"
    for r by (simp add: signing_message_def position_text_def as_bytes_def split: option.splits)
  from assms(1) show ?thesis
    unfolding split
    by (simp add: separated_append_eq operation_name_plain assms(2-) operation_name_inj inj_as_bytes
        u64_to_be_inj byte_len)
qed

text \<open>The counter of the limiter bounds the signed operations of the caller in its window, and no
  later window has any, as long as time does not run backwards.\<close>

definition limiter_covers :: "rate_limiter \<Rightarrow> 64 word \<Rightarrow> string \<Rightarrow> (64 word \<Rightarrow> nat) \<Rightarrow> bool" where
  "limiter_covers l now c count \<longleftrightarrow>
     (case rl_windows l c of
        None \<Rightarrow> (\<forall>w. count w = 0)
      | Some (w0, n) \<Rightarrow> w0 \<le> now div rl_window_secs l \<and> n \<le> rl_limit l \<and>
          count w0 \<le> unat n \<and> (\<forall>w > w0. count w = 0) \<and> (\<forall>w. count w \<le> unat (rl_limit l)))"

lemma word_div_mono: "(a :: 'a::len word) \<le> b \<Longrightarrow> a div c \<le> b div c"
  by (simp add: word_le_nat_alt unat_div div_le_mono)

lemma limiter_covers_mono: "limiter_covers l now c count \<Longrightarrow> now \<le> now' \<Longrightarrow> limiter_covers l now' c count"
  unfolding limiter_covers_def
  using word_div_mono [of now now' "rl_window_secs l"] by (auto split: option.splits)

lemma limiter_covers_bound: "limiter_covers l now c count \<Longrightarrow> count w \<le> unat (rl_limit l)"
  by (auto simp: limiter_covers_def split: option.splits)

lemma window_used_covers:
  assumes "limiter_covers l now c count"
  shows "count (now div rl_window_secs l) \<le> unat (window_used l c now)"
    and "window_used l c now \<le> rl_limit l"
    and "now div rl_window_secs l < w \<Longrightarrow> count w = 0"
  using assms by (auto simp: limiter_covers_def window_used_def split: option.splits if_splits)

lemma word_saturating_Suc:
  fixes n m :: "'a::len word"
  assumes "n < m"
  shows "unat (word_saturating_add n 1) = Suc (unat n)" "word_saturating_add n 1 \<le> m"
proof -
  have "Suc (unat n) \<le> unat m" and le: "Suc (unat n) \<le> 2 ^ LENGTH('a) - 1"
    using assms unat_bound [of m] unfolding word_less_nat_alt by linarith+
  from le show "unat (word_saturating_add n 1) = Suc (unat n)"
    by (simp add: unat_word_saturating_add min_absorb1)
  with \<open>Suc (unat n) \<le> unat m\<close> show "word_saturating_add n 1 \<le> m"
    by (simp add: word_le_nat_alt)
qed

lemma allow_covers:
  assumes "limiter_allow c now l = (ok, l')" "limiter_covers l now c count"
  shows "limiter_covers l' now c (\<lambda>w. count w + (if ok \<and> w = now div rl_window_secs l then 1 else 0))"
proof (cases "window_used l c now < rl_limit l")
  case True
  then have "ok" and l': "rl_windows l' c = Some (now div rl_window_secs l, word_saturating_add (window_used l c now) 1)"
    "rl_limit l' = rl_limit l" "rl_window_secs l' = rl_window_secs l"
    using assms(1) by (auto simp: limiter_allow_eq Let_def)
  moreover have "unat (window_used l c now) < unat (rl_limit l)"
    using True by (simp add: word_less_nat_alt)
  ultimately show ?thesis
    using window_used_covers [OF assms(2)] limiter_covers_bound [OF assms(2)] word_saturating_Suc [OF True]
    by (auto simp: limiter_covers_def)
next
  case False
  then have "\<not> ok" and l': "rl_windows l' c = Some (now div rl_window_secs l, window_used l c now)"
    "rl_limit l' = rl_limit l" "rl_window_secs l' = rl_window_secs l"
    using assms(1) by (auto simp: limiter_allow_eq Let_def)
  then show ?thesis
    using window_used_covers [OF assms(2)] limiter_covers_bound [OF assms(2)]
    by (auto simp: limiter_covers_def)
qed

lemma allow_covers_other:
  assumes "limiter_allow d now l = (ok, l')" "limiter_covers l now c count" "c \<noteq> d"
  shows "limiter_covers l' now c count"
proof -
  have "rl_windows l' c = rl_windows l c" "rl_limit l' = rl_limit l" "rl_window_secs l' = rl_window_secs l"
    using assms(1,3) by (auto simp: limiter_allow_eq Let_def split: if_splits)
  then show ?thesis
    using assms(2) by (simp add: limiter_covers_def cong: option.case_cong)
qed

lemma execute_signed_count:
  assumes "execute_audited exec elapsed r now s = (res, t)"
  shows "signed_count t c w = signed_count s c w +
    (if rq_caller r = c \<and> now div rl_window_secs (as_limiter s) = w \<and> requires_auth (rq_operation r) then 1 else 0)"
  unfolding signed_count_def execute_audited_frame [OF assms] requires_auth_name by simp

lemma authenticate_limiter:
  assumes "authenticate ds sha r now s = (res, t)"
  shows "as_limiter t = as_limiter s \<and> res \<noteq> Inr () \<or>
    limiter_allow (rq_caller r) now (as_limiter s) = (res = Inr (), as_limiter t)"
  using assms by (auto simp: authenticate_def check_and_record_def Let_def split: option.splits if_splits prod.splits)

lemma authenticate_covers:
  assumes "authenticate ds sha r now s = (res, t)" "limiter_covers (as_limiter s) now c (signed_count s c)"
  shows "limiter_covers (as_limiter t) now c (\<lambda>w. signed_count s c w +
    (if res = Inr () \<and> c = rq_caller r \<and> w = now div rl_window_secs (as_limiter s) then 1 else 0))"
proof -
  consider "as_limiter t = as_limiter s" "res \<noteq> Inr ()"
    | "limiter_allow (rq_caller r) now (as_limiter s) = (res = Inr (), as_limiter t)"
    using authenticate_limiter [OF assms(1)] by blast
  then show ?thesis
  proof cases
    case 1
    then show ?thesis using assms(2) by simp
  next
    case 2
    show ?thesis
      using allow_covers [of c now "as_limiter s" "res = Inr ()" "as_limiter t"] allow_covers_other [OF 2 assms(2)] 2 assms(2)
      by (cases "c = rq_caller r") simp_all
  qed
qed

lemma handle_covers:
  assumes "api_handle ds sha exec elapsed r now s = (res, t)"
    and "limiter_covers (as_limiter s) now c (signed_count s c)"
  shows "limiter_covers (as_limiter t) now c (signed_count t c)"
  using assms(1)
proof (cases rule: handle_cases)
  case oversize
  then show ?thesis using assms(2) by simp
next
  case (refused e)
  then have "signed_count t c = signed_count s c"
    using authenticate_frame [OF refused(3)] by (simp add: signed_count_def fun_eq_iff)
  then show ?thesis
    using authenticate_covers [OF refused(3) assms(2)] by simp
next
  case open_op
  then have "signed_count t c = signed_count s c"
    using execute_signed_count [OF open_op(3), of c] by (simp add: fun_eq_iff)
  then show ?thesis
    using execute_audited_frame(2) [OF open_op(3)] assms(2) by simp
next
  case (signed_op u)
  have "signed_count t c = (\<lambda>w. signed_count s c w +
    (if c = rq_caller r \<and> w = now div rl_window_secs (as_limiter s) then 1 else 0))"
    using execute_signed_count [OF signed_op(4), of c] authenticate_frame [OF signed_op(3)] signed_op(2)
    by (auto simp: fun_eq_iff signed_count_def)
  then show ?thesis
    using authenticate_covers [OF signed_op(3) assms(2)] execute_audited_frame(2) [OF signed_op(4)] by simp
qed

lemma handle_refused:
  assumes "api_handle ds sha exec elapsed r now s = (res, t)" "\<not> admitted ds sha r now s"
  shows "as_backend t = as_backend s" "as_audit t = as_audit s"
    "\<exists>e. res = Inl e \<and> e \<in> {Oversize, Unauthorized, Expired, Replay, RateLimited} \<and> api_status e \<in> {413, 401, 429}"
proof -
  have refused: "as_backend t = as_backend s \<and> as_audit t = as_audit s \<and>
      (\<exists>e. res = Inl e \<and> e \<in> {Oversize, Unauthorized, Expired, Replay, RateLimited})"
    using assms(1)
  proof (cases rule: handle_cases)
    case oversize
    then show ?thesis by simp
  next
    case (refused e)
    then show ?thesis using authenticate_error [OF refused(3)] authenticate_frame [OF refused(3)] by auto
  next
    case open_op
    then show ?thesis using assms(2) by (simp add: admitted_def)
  next
    case (signed_op u)
    then show ?thesis using assms(2) authenticate_ok [OF signed_op(3,2,1)] by simp
  qed
  then show "as_backend t = as_backend s" "as_audit t = as_audit s"
    "\<exists>e. res = Inl e \<and> e \<in> {Oversize, Unauthorized, Expired, Replay, RateLimited} \<and> api_status e \<in> {413, 401, 429}"
    by (auto simp: api_status_def)
qed

lemma handle_admitted:
  assumes "api_handle ds sha exec elapsed r now s = (res, t)" "admitted ds sha r now s"
  shows "as_backend t = snd (exec (rq_operation r) (rq_payload r) (as_backend s)) \<and>
    as_audit t = as_audit s @ [\<lparr>ae_timestamp = now, ae_caller = rq_caller r,
      ae_operation = operation_name (rq_operation r), ae_node_position = rq_position r,
      ae_outcome = (if is_ok (fst (exec (rq_operation r) (rq_payload r) (as_backend s))) then ''ok'' else ''error'')\<rparr>] \<and>
    res = (if op_timeout_millis (as_config s) < elapsed then Inl Timeout
           else case fst (exec (rq_operation r) (rq_payload r) (as_backend s)) of
                  Inl e \<Rightarrow> Inl e
                | Inr response \<Rightarrow>
                    if \<exists>root. or_chain_root response = Some root \<and> contains_merkle_root (as_header_chain s) root = None
                    then Inl NotTerminated else Inr (or_data response))"
  using assms(1)
proof (cases rule: handle_cases)
  case oversize
  then show ?thesis using assms(2) by (simp add: admitted_def)
next
  case (refused e)
  then show ?thesis using assms(2) authenticate_ok [OF refused(3,2,1)] by simp
next
  case open_op
  then show ?thesis
    using execute_audited_frame [OF open_op(3)] execute_audited_result [OF open_op(3) refl refl refl] by simp
next
  case (signed_op u)
  then show ?thesis
    using execute_audited_frame [OF signed_op(4)] authenticate_frame [OF signed_op(3)]
      execute_audited_result [OF signed_op(4), of s] by simp
qed

lemma handle_limit:
  assumes "api_handle ds sha exec elapsed r now s = (res, t)"
  shows "rl_limit (as_limiter t) = rl_limit (as_limiter s)"
  using assms
  by (cases rule: handle_cases) (simp_all add: authenticate_frame execute_audited_frame)

lemma handle_answer:
  assumes "api_handle ds sha exec elapsed r now s = (Inr data, t)"
    and "fst (exec (rq_operation r) (rq_payload r) (as_backend s)) = Inr response"
  shows "data = or_data response \<and>
    (\<forall>root. or_chain_root response = Some root \<longrightarrow> contains_merkle_root (as_header_chain s) root \<noteq> None)"
proof -
  obtain u where "execute_audited exec elapsed r now u = (Inr data, t)" "as_config u = as_config s"
    "as_header_chain u = as_header_chain s" "as_backend u = as_backend s"
    using assms(1)
  proof (cases rule: handle_cases)
    case (signed_op u)
    then show thesis using that authenticate_frame [OF signed_op(3)] by blast
  qed (use that in auto)
  from execute_audited_result [OF this] assms(2) show ?thesis
    by (auto split: if_splits)
qed

lemma contained_root_header:
  assumes "(chain_step sha)\<^sup>*\<^sup>* (chain_new start) c" "contains_merkle_root c root \<noteq> None"
  obtains header where "header \<in> set (hc_headers c)" "bh_merkle_root header = root" "meets_target sha header"
proof -
  have inv: "chain_inv sha c" using assms(1) by (rule chain_reach_inv)
  obtain h where "contains_merkle_root c root = Some h" using assms(2) by blast
  then have "merkle_root_at_height c h = Some root"
    using inv root_index_iff [of "hc_start_height c" "hc_headers c" root h]
    by (auto simp: chain_inv_def contains_merkle_root_def merkle_root_at_height_eq)
  then have "hc_headers c ! (h - hc_start_height c) \<in> set (hc_headers c)"
    "bh_merkle_root (hc_headers c ! (h - hc_start_height c)) = root"
    by (auto simp: merkle_root_at_height_eq split: if_splits)
  with inv show thesis by (intro that) (auto simp: chain_inv_def list_all_iff)
qed

section \<open>An example service\<close>

definition ex_config :: api_config where
  "ex_config = \<lparr>max_payload_bytes = 10, rate_limit_per_window = 1, rate_window_secs = 60, op_timeout_millis = 5\<rparr>"

definition ex_service :: "unit api_service" where
  "ex_service = \<lparr>as_config = ex_config, as_callers = register ''bob'' (replicate 33 7) registry_new, as_nonces = {},
     as_limiter = limiter_new 1 60, as_audit = [], as_header_chain = chain_new 0, as_backend = ()\<rparr>"

definition ex_request :: request where
  "ex_request = \<lparr>rq_caller = ''bob'', rq_operation = SessionRenew, rq_payload = [1, 0x1f, 2], rq_position = None,
     rq_nonce = 4, rq_expiry_unix = 100, rq_signature = [7, 0]\<rparr>"

definition ex_exec :: "unit backend" where
  "ex_exec oper payload b = (Inr (response_plain payload), b)"

lemma ex_service_new:
  "service_new ex_config (register ''bob'' (replicate 33 7) registry_new) (chain_new 0) () = Inr ex_service"
  by (simp add: service_new_def config_validate_def ex_config_def ex_service_def rbind_def)

lemma ex_verifies: "verify_der_prehash toy_dsa (replicate 33 7) h [7, 0]"
  by (simp add: verify_der_prehash_def toy_dsa_def is_low_s_def)

lemma ex_admitted: "admitted toy_dsa sha ex_request 30 ex_service"
  by (simp add: admitted_def ex_request_def ex_service_def ex_config_def register_def registry_new_def
      ex_verifies window_used_def limiter_new_def)

definition ex_after :: "unit api_service" where
  "ex_after = ex_service\<lparr>as_nonces := {(''bob'', 4)},
     as_limiter := (limiter_new 1 60)\<lparr>rl_windows := [''bob'' \<mapsto> (0, 1)]\<rparr>,
     as_audit := [\<lparr>ae_timestamp = 30, ae_caller = ''bob'', ae_operation = ''session.renew'',
                    ae_node_position = None, ae_outcome = ''ok''\<rparr>]\<rparr>"

lemma ex_handle: "api_handle toy_dsa sha ex_exec 2 ex_request 30 ex_service = (Inr [1, 0x1f, 2], ex_after)"
  by (simp add: api_handle_def authenticate_def execute_audited_def op_bind_def check_and_record_def
      registered_key_def limiter_allow_def ex_request_def ex_service_def ex_config_def register_def
      registry_new_def ex_verifies limiter_new_def requires_auth_def ex_exec_def response_plain_def
      audit_log_record_def is_ok_def ex_after_def word_saturating_add_def)

section \<open>Properties\<close>

text \<open>
  C4 [boundary_complete] The boundary decides every request by what \<open>admitted\<close> says of the state
  before it: payload within the limit and, for all but the two probes, a signature by the
  registered key of the caller, an expiry not in the past, a nonce the caller has not used and a
  free place in the rate window. A request that is not admitted never reaches the backend and
  leaves no audit entry, and its error has status 413, 401 or 429. An admitted one is executed
  exactly once and audited exactly once, with the outcome of the backend; the caller gets the data
  only within the time budget and, for a chain-terminating answer, only if the header chain holds
  its root.
\<close>

theorem boundary_complete:
  assumes "api_handle ds sha exec elapsed r now s = (res, t)"
  shows "if admitted ds sha r now s then
      as_backend t = snd (exec (rq_operation r) (rq_payload r) (as_backend s)) \<and>
      as_audit t = as_audit s @ [\<lparr>ae_timestamp = now, ae_caller = rq_caller r,
        ae_operation = operation_name (rq_operation r), ae_node_position = rq_position r,
        ae_outcome = (if is_ok (fst (exec (rq_operation r) (rq_payload r) (as_backend s)))
                      then ''ok'' else ''error'')\<rparr>] \<and>
      res = (if op_timeout_millis (as_config s) < elapsed then Inl Timeout
             else case fst (exec (rq_operation r) (rq_payload r) (as_backend s)) of
                    Inl e \<Rightarrow> Inl e
                  | Inr response \<Rightarrow>
                      if \<exists>root. or_chain_root response = Some root
                           \<and> contains_merkle_root (as_header_chain s) root = None
                      then Inl NotTerminated else Inr (or_data response))
    else as_backend t = as_backend s \<and> as_audit t = as_audit s \<and>
      (\<exists>e. res = Inl e \<and> api_status e \<in> {413, 401, 429})"
  using handle_admitted [OF assms] handle_refused [OF assms] by (cases "admitted ds sha r now s") auto

theorem boundary_complete_witness:
  "as_audit (snd (api_handle toy_dsa len_digest ex_exec 2 ex_request 30 ex_service)) \<noteq> [] \<and>
   fst (api_handle toy_dsa len_digest ex_exec 2 ex_request 30 ex_service) = Inr [1, 0x1f, 2]"
  using boundary_complete [OF ex_handle [of len_digest]]
  by (simp add: ex_admitted ex_handle)



text \<open>
  C32 [rate_limit_holds] In every run of a service created from a valid configuration in which the
  clock does not go back, the audit log never holds more signed operations of one caller in one
  window than the configured limit.
\<close>

theorem rate_limit_holds:
  assumes "service_new config callers chain backend = Inr s"
    and "sorted (map (\<lambda>e. fst (snd e)) es)"
    and "t = snd (run_machine (api_step ds sha exec) es s)"
  shows "signed_count t caller w \<le> unat (rate_limit_per_window config)"
proof -
  have init: "limiter_covers (as_limiter s) now caller (signed_count s caller)"
    "rl_limit (as_limiter s) = rate_limit_per_window config" for now
    using assms(1)
    by (auto simp: service_new_def rbind_def limiter_new_def limiter_covers_def signed_count_def Let_def
        split: sum.splits)
  have "limiter_covers (as_limiter s) now c (signed_count s c) \<Longrightarrow> sorted (now # map (\<lambda>e. fst (snd e)) es) \<Longrightarrow>
      \<exists>now'. limiter_covers (as_limiter (snd (run_machine (api_step ds sha exec) es s))) now' c
               (signed_count (snd (run_machine (api_step ds sha exec) es s)) c) \<and>
             rl_limit (as_limiter (snd (run_machine (api_step ds sha exec) es s))) = rl_limit (as_limiter s)"
    for now c
  proof (induction es arbitrary: now s)
    case Nil
    then show ?case by auto
  next
    case (Cons e es)
    let ?t = "snd (api_step ds sha exec e s)"
    have h: "api_handle ds sha exec (snd (snd e)) (fst e) (fst (snd e)) s = (fst (api_step ds sha exec e s), ?t)"
      by (simp add: api_step_def)
    have "limiter_covers (as_limiter s) (fst (snd e)) c (signed_count s c)"
      using Cons.prems by (auto intro: limiter_covers_mono)
    then have "limiter_covers (as_limiter ?t) (fst (snd e)) c (signed_count ?t c)"
      by (rule handle_covers [OF h])
    moreover have "sorted (fst (snd e) # map (\<lambda>e. fst (snd e)) es)"
      using Cons.prems(2) by simp
    ultimately show ?case
      using Cons.IH [of ?t "fst (snd e)"] handle_limit [OF h]
      by (simp add: run_machine_Cons del: run_machine.simps(2))
  qed
  from this [of 0 caller] obtain now' where "limiter_covers (as_limiter t) now' caller (signed_count t caller)"
    "rl_limit (as_limiter t) = rate_limit_per_window config"
    using init assms(2,3) by auto
  then show ?thesis
    using limiter_covers_bound by metis
qed

theorem rate_limit_holds_witness:
  "signed_count (snd (run_machine (api_step toy_dsa len_digest ex_exec) [(ex_request, 30, 2)] ex_service)) ''bob'' 0 \<le> 1"
  using rate_limit_holds [OF ex_service_new, of "[(ex_request, 30, 2)]" _ toy_dsa len_digest ex_exec "''bob''" 0, OF _ refl]
  by (simp add: ex_config_def)

text \<open>
  Without a collision of the digest, a signed message determines the
  operation, the caller, the nonce, the expiry, the position (an absent position counting as the
  empty one) and the payload, when caller and position do not contain the separator byte.
\<close>

lemma signature_binds_request:
  assumes "signing_prehash sha a = signing_prehash sha b"
    and "collision_free sha {signing_message a, signing_message b}"
    and "\<forall>r \<in> {a, b}. 0x1f \<notin> set (as_bytes (rq_caller r)) \<and> 0x1f \<notin> set (as_bytes (position_text r))"
  shows "rq_operation a = rq_operation b \<and> rq_caller a = rq_caller b \<and> rq_nonce a = rq_nonce b \<and>
    rq_expiry_unix a = rq_expiry_unix b \<and> position_text a = position_text b \<and> rq_payload a = rq_payload b"
proof -
  have "double_sha256 sha (signing_message a) = double_sha256 sha (signing_message b)"
    using assms(1) by (simp add: signing_prehash_def hash256.expand)
  then have "signing_message a = signing_message b"
    using assms(2) by (auto dest: collision_freeD)
  then show ?thesis
    using assms(3) by (intro signing_message_inj) simp_all
qed

text \<open>
  Nothing keeps the separator out of the position, so the signature of a
  request also covers other requests: whenever the payload contains the separator after some text,
  the text can be moved out of the payload into the position, and the changed request, with another
  payload, is admitted under the same signature in the same state.
\<close>

lemma signed_payload_movable:
  assumes "admitted ds sha r now s" and "rq_payload r = as_bytes moved @ 0x1f # rest"
  shows "admitted ds sha (r\<lparr>rq_position := Some (position_text r @ CHR 0x1F # moved), rq_payload := rest\<rparr>) now s
    \<and> rest \<noteq> rq_payload r"
proof -
  let ?r = "r\<lparr>rq_position := Some (position_text r @ CHR 0x1F # moved), rq_payload := rest\<rparr>"
  have "signing_message ?r = signing_message r"
    using assms(2)
    by (simp add: signing_message_def position_text_def as_bytes_def char_byte_def split: option.splits)
  then have "signing_prehash sha ?r = signing_prehash sha r"
    by (simp add: signing_prehash_def)
  moreover have "length rest < length (rq_payload r)"
    using assms(2) by simp
  ultimately show ?thesis
    using assms(1) by (auto simp: admitted_def)
qed

end
