(* ===== verification/Script.thy ===== *)
theory Script
  imports Hashing
begin

unbundle bit_operations_syntax

text \<open>
  Script assembly and the script parser, \<^verbatim>\<open>crates/bsv/src/script.rs\<close>. The parser's loop runs over a
  cursor and ends because every turn consumes the opcode byte. \<open>enc_op\<close> is the encoding that the
  assembly functions produce for one script element; that the parser inverts it is what the data
  carrier, the session builder and the overlay writer rely on.
\<close>

section \<open>Opcodes\<close>

definition FALSE_op :: byte where "FALSE_op = 0x00"
definition PUSHDATA1 :: byte where "PUSHDATA1 = 0x4c"
definition PUSHDATA2 :: byte where "PUSHDATA2 = 0x4d"
definition PUSHDATA4 :: byte where "PUSHDATA4 = 0x4e"
definition RETURN_op :: byte where "RETURN_op = 0x6a"
definition DUP :: byte where "DUP = 0x76"
definition EQUALVERIFY :: byte where "EQUALVERIFY = 0x88"
definition HASH160_op :: byte where "HASH160_op = 0xa9"
definition CHECKSIG :: byte where "CHECKSIG = 0xac"
definition CHECKMULTISIG :: byte where "CHECKMULTISIG = 0xae"
definition N1 :: byte where "N1 = 0x51"
definition N2 :: byte where "N2 = 0x52"

lemmas op_defs = FALSE_op_def PUSHDATA1_def PUSHDATA2_def PUSHDATA4_def RETURN_op_def DUP_def
  EQUALVERIFY_def HASH160_op_def CHECKSIG_def CHECKMULTISIG_def N1_def N2_def

section \<open>Assembly\<close>

datatype script_op = Op byte | Push bytes

definition MAX_SCRIPT_OPS :: nat where
  "MAX_SCRIPT_OPS = 10000000"

definition push_data :: "bytes \<Rightarrow> bytes \<Rightarrow> bytes" where
  "push_data out d =
     (let len = length d in
      (if len \<le> 75 then out @ [unwrap_or (try_u8 len) 0]
       else if len \<le> 0xFF then out @ [PUSHDATA1, unwrap_or (try_u8 len) 0]
       else if len \<le> 0xFFFF then out @ [PUSHDATA2] @ u16_to_le (unwrap_or (try_u16 len) 0)
       else out @ [PUSHDATA4] @ u32_to_le (unwrap_or (try_u32 len) 0)) @ d)"

definition p2pkh :: "bytes \<Rightarrow> bytes" where
  "p2pkh h160 = push_data [DUP, HASH160_op] h160 @ [EQUALVERIFY] @ [CHECKSIG]"

definition bare_multisig_1_of_2 :: "bytes \<Rightarrow> bytes \<Rightarrow> bytes" where
  "bare_multisig_1_of_2 pk_a pk_b =
     push_data (push_data [N1] pk_a) pk_b @ [N2] @ [CHECKMULTISIG]"

section \<open>Parsing\<close>

definition push_n :: "nat \<Rightarrow> script_op reader" where
  "push_n len_bytes =
     op_bind (cur_take len_bytes) (\<lambda>bs.
     op_bind (op_lift (uint_loop 0 bs 0)) (\<lambda>len.
     op_bind (cur_take (unat len)) (\<lambda>d. op_return (Push d))))"

definition parse_opcode :: "byte \<Rightarrow> script_op reader" where
  "parse_opcode opcode =
     (if 0x01 \<le> opcode \<and> opcode \<le> 0x4b then
        op_bind (cur_take (unat opcode)) (\<lambda>d. op_return (Push d))
      else if opcode = PUSHDATA1 then push_n 1
      else if opcode = PUSHDATA2 then push_n 2
      else if opcode = PUSHDATA4 then push_n 4
      else op_return (Op opcode))"

definition parse_op :: "script_op reader" where
  "parse_op = op_bind cur_u8 parse_opcode"

lemma safe_parse_opcode: "safe_reader (parse_opcode b)"
  unfolding parse_opcode_def push_n_def
  by (intro safe_bind safe_if safe_take safe_lift safe_return)

lemma safe_parse_op: "safe_reader parse_op"
  unfolding parse_op_def by (intro safe_bind safe_readers safe_parse_opcode)

lemma parse_op_consumes:
  assumes "parse_op c = (Inr x, t)"
  shows "cur_off c < cur_off t"
proof -
  from assms obtain b u where u8: "cur_u8 c = (Inr b, u)" and rest: "parse_opcode b u = (Inr x, t)"
    unfolding parse_op_def by (rule op_bind_okE)
  have "cur_off u = Suc (cur_off c)"
    using u8 by (auto simp: cur_u8_def cur_take_def op_bind_def checked_add_def op_lift_def
        split: option.splits if_splits prod.splits sum.splits)
  moreover have "safe_step u t"
    by (rule safe_readerD [OF safe_parse_opcode rest])
  ultimately show ?thesis by (simp add: safe_step_def)
qed

function parse_script_loop :: "script_op list \<Rightarrow> cursor \<Rightarrow> bsv_error + script_op list" where
  "parse_script_loop ops cur =
     (if cur_is_empty cur then Inr ops
      else if MAX_SCRIPT_OPS \<le> length ops then Inl OutOfRange
      else (case parse_op cur of
              (Inl e, _) \<Rightarrow> Inl e
            | (Inr x, cur') \<Rightarrow> parse_script_loop (ops @ [x]) cur'))"
  by pat_completeness auto
termination
proof (relation "measure (\<lambda>(ops, cur). cur_remaining cur)", goal_cases)
  case 1
  show ?case by simp
next
  case (2 ops cur r cur' x)
  then have "parse_op cur = (Inr x, cur')" by simp
  then have "cur_off cur < cur_off cur'" "safe_step cur cur'"
    using safe_parse_op by (auto intro: parse_op_consumes safe_readerD)
  with 2 show ?case
    by (auto simp: cur_remaining_def cur_is_empty_def safe_step_def)
qed

declare parse_script_loop.simps [simp del]

definition parse_script :: "bytes \<Rightarrow> bsv_error + script_op list" where
  "parse_script script = parse_script_loop [] (cur_new script)"

section \<open>The encoding of one element\<close>

fun enc_op :: "script_op \<Rightarrow> bytes" where
  "enc_op (Op b) = [b]"
| "enc_op (Push d) = push_data [] d"

fun wf_op :: "script_op \<Rightarrow> bool" where
  "wf_op (Op b) \<longleftrightarrow> b = 0 \<or> 0x4f \<le> b"
| "wf_op (Push d) \<longleftrightarrow> d \<noteq> [] \<and> length d < 2 ^ 32"

lemma push_data_append: "push_data out d = out @ push_data [] d"
  by (simp add: push_data_def Let_def)

lemma u32_to_le_zero: "u32_to_le 0 = [0, 0, 0, 0]"
  by (simp add: u32_to_le_def byte_eval)

lemma push_data_cases:
  shows "length d \<le> 75 \<Longrightarrow> push_data [] d = word_of_nat (length d) # d"
    and "75 < length d \<Longrightarrow> length d < 2 ^ 8 \<Longrightarrow> push_data [] d = PUSHDATA1 # nat_to_le 1 (length d) @ d"
    and "2 ^ 8 \<le> length d \<Longrightarrow> length d < 2 ^ 16 \<Longrightarrow> push_data [] d = PUSHDATA2 # nat_to_le 2 (length d) @ d"
    and "2 ^ 16 \<le> length d \<Longrightarrow> length d < 2 ^ 32 \<Longrightarrow> push_data [] d = PUSHDATA4 # nat_to_le 4 (length d) @ d"
    and "2 ^ 32 \<le> length d \<Longrightarrow> push_data [] d = PUSHDATA4 # [0, 0, 0, 0] @ d"
  by (simp_all add: push_data_def Let_def try_u8_def try_u16_def try_u32_def u16_to_le_nat
      u32_to_le_nat u32_to_le_zero)

lemma parses_push_n:
  assumes "n \<le> 8" "length d < 256 ^ n"
  shows "parses (push_n n) (nat_to_le n (length d) @ d) (Push d)"
proof -
  have "length d < 2 ^ 64"
  proof -
    have "(256::nat) ^ n \<le> 256 ^ 8" using assms(1) by (intro power_increasing) simp_all
    with assms(2) show ?thesis by simp
  qed
  then have len: "unat (u64_from_le (nat_to_le n (length d))) = length d"
    using assms by (simp add: u64_from_le_nat unat_of_nat)
  have tail: "parses (op_bind (cur_take (length d)) (\<lambda>d. op_return (Push d))) d (Push d)"
    by (rule parses_bind_pure [OF parses_take [OF refl]]) (rule parses_return)
  have "parses (op_bind (op_lift (uint_loop 0 (nat_to_le n (length d)) 0)) (\<lambda>len.
      op_bind (cur_take (unat len)) (\<lambda>d. op_return (Push d)))) ([] @ d) (Push d)"
    by (rule parses_bind [OF parses_lift [OF uint_loop_le]]) (use assms(1) len tail in simp_all)
  then show ?thesis
    unfolding push_n_def by (intro parses_bind [OF parses_take]) simp_all
qed

lemma parses_opI: "parses (parse_opcode b) bs x \<Longrightarrow> parses parse_op (b # bs) x"
  unfolding parse_op_def using parses_bind [OF parses_u8, of parse_opcode b bs x] by simp

lemma parse_opcode_pushdata:
  "parse_opcode PUSHDATA1 = push_n 1" "parse_opcode PUSHDATA2 = push_n 2"
  "parse_opcode PUSHDATA4 = push_n 4"
  by (simp_all add: parse_opcode_def op_defs)

lemma parses_direct_push:
  assumes "d \<noteq> []" "length d \<le> 75"
  shows "parses (parse_opcode (word_of_nat (length d))) d (Push d)"
proof -
  have "parses (op_bind (cur_take (length d)) (\<lambda>d. op_return (Push d))) d (Push d)"
    by (rule parses_bind_pure [OF parses_take [OF refl]]) (rule parses_return)
  moreover have "length d mod 256 = length d" "0 < length d" using assms by simp_all
  ultimately show ?thesis
    using assms(2) by (simp add: parse_opcode_def word_le_nat_alt unat_of_nat Suc_le_eq)
qed

lemma parses_push:
  assumes "d \<noteq> []" "length d < 2 ^ 32"
  shows "parses parse_op (push_data [] d) (Push d)"
proof -
  consider "length d \<le> 75" | "75 < length d" "length d < 2 ^ 8" | "2 ^ 8 \<le> length d" "length d < 2 ^ 16"
    | "2 ^ 16 \<le> length d" using assms(2) by linarith
  then show ?thesis
  proof cases
    case 1
    then show ?thesis
      using parses_opI [OF parses_direct_push [OF assms(1) 1]] by (simp add: push_data_cases)
  next
    case 2
    then show ?thesis
      using parses_push_n [of 1 d] by (auto simp: push_data_cases parse_opcode_pushdata intro: parses_opI)
  next
    case 3
    then show ?thesis
      using parses_push_n [of 2 d] by (auto simp: push_data_cases parse_opcode_pushdata intro: parses_opI)
  next
    case 4
    then show ?thesis
      using parses_push_n [of 4 d] assms(2)
      by (auto simp: push_data_cases parse_opcode_pushdata intro: parses_opI)
  qed
qed

lemma parses_op: "wf_op x \<Longrightarrow> parses parse_op (enc_op x) x"
proof (cases x)
  case (Op b)
  assume "wf_op x"
  with Op have "b = 0 \<or> 79 \<le> unat b" by (simp add: word_le_nat_alt)
  then have "parse_opcode b = op_return (Op b)"
    by (auto simp: parse_opcode_def op_defs word_le_nat_alt word_unat_eq_iff)
  then have "parses (parse_opcode b) [] (Op b)" by (simp add: parses_return)
  then show ?thesis using Op by (auto intro: parses_opI)
qed (auto intro: parses_push)

interpretation script_op: codec enc_op parse_op wf_op
  by unfold_locales (rule parses_op)

section \<open>The parser inverts the assembly\<close>

lemma parse_script_loop_step:
  assumes "parses parse_op bs x" "bs \<noteq> []" "length ops < MAX_SCRIPT_OPS"
    "length (pre @ bs @ post) < usize_bound"
  shows "parse_script_loop ops \<lparr>cur_data = pre @ bs @ post, cur_off = length pre\<rparr> =
    parse_script_loop (ops @ [x]) \<lparr>cur_data = (pre @ bs) @ post, cur_off = length (pre @ bs)\<rparr>"
  using parsesD [OF assms(1,4)] assms(2,3)
  by (subst parse_script_loop.simps) (simp add: cur_is_empty_def cur_remaining_def)

lemma parse_script_loop_end:
  "parse_script_loop ops \<lparr>cur_data = pre, cur_off = length pre\<rparr> = Inr ops"
  by (subst parse_script_loop.simps) (simp add: cur_is_empty_def cur_remaining_def)

lemma push_data_nonempty [simp]: "push_data out d \<noteq> []"
  by (simp add: push_data_def Let_def)

lemma enc_op_nonempty [simp]: "enc_op x \<noteq> []"
  by (cases x) simp_all

lemma parse_script_loop_ops:
  assumes "\<forall>x \<in> set xs. wf_op x" "length ops + length xs \<le> MAX_SCRIPT_OPS"
    "length (pre @ concat (map enc_op xs)) < usize_bound"
  shows "parse_script_loop ops \<lparr>cur_data = pre @ concat (map enc_op xs), cur_off = length pre\<rparr> =
    Inr (ops @ xs)"
  using assms
proof (induction xs arbitrary: ops pre)
  case Nil
  then show ?case using parse_script_loop_end [of ops pre] by simp
next
  case (Cons x xs)
  have "parse_script_loop ops
      \<lparr>cur_data = pre @ enc_op x @ concat (map enc_op xs), cur_off = length pre\<rparr> =
    parse_script_loop (ops @ [x])
      \<lparr>cur_data = (pre @ enc_op x) @ concat (map enc_op xs), cur_off = length (pre @ enc_op x)\<rparr>"
    by (rule parse_script_loop_step) (use Cons.prems in \<open>auto intro: parses_op\<close>)
  also have "\<dots> = Inr ((ops @ [x]) @ xs)"
    by (rule Cons.IH) (use Cons.prems in simp_all)
  finally show ?case by simp
qed

lemma parse_script_ops:
  assumes "\<forall>x \<in> set xs. wf_op x" "length xs \<le> MAX_SCRIPT_OPS"
    "length (concat (map enc_op xs)) < usize_bound"
  shows "parse_script (concat (map enc_op xs)) = Inr xs"
  using parse_script_loop_ops [of xs "[]" "[]"] assms by (simp add: parse_script_def cur_new_def)

text \<open>Whatever the parser has read stays in front of its result.\<close>

lemma parse_script_loop_prefix:
  "parse_script_loop ops c = Inr out \<Longrightarrow>
   \<exists>ys. out = ops @ ys \<and> (\<not> cur_is_empty c \<longrightarrow> ys \<noteq> []) \<and> length out \<le> max (length ops) MAX_SCRIPT_OPS"
proof (induction ops c arbitrary: out rule: parse_script_loop.induct)
  case (1 ops c)
  show ?case
  proof (cases "cur_is_empty c")
    case True
    with 1 show ?thesis by (subst (asm) parse_script_loop.simps) auto
  next
    case False
    from "1.prems" False have max: "\<not> MAX_SCRIPT_OPS \<le> length ops"
      by (subst (asm) parse_script_loop.simps) (auto split: if_splits)
    with "1.prems" False obtain x c' where op: "parse_op c = (Inr x, c')"
      and rec: "parse_script_loop (ops @ [x]) c' = Inr out"
      by (subst (asm) parse_script_loop.simps) (auto split: prod.splits sum.splits)
    from "1.IH" [OF False max op [symmetric] refl rec] max show ?thesis by fastforce
  qed
qed

section \<open>Properties\<close>

text \<open>
  The parser inverts the assembler: any sequence of bare opcodes outside the
  push range and of non-empty pushes shorter than \<open>2 ^ 32\<close> bytes, in the encodings that
  \<open>push_data\<close> chooses (direct, PUSHDATA1, PUSHDATA2, PUSHDATA4), is parsed back to itself, as long as
  the script stays within the bound on the number of elements.
\<close>

lemma script_roundtrip:
  assumes "\<forall>x \<in> set xs. wf_op x" and "length xs \<le> MAX_SCRIPT_OPS"
    and "length (concat (map enc_op xs)) < usize_bound"
  shows "parse_script (concat (map enc_op xs)) = Inr xs"
  using assms by (rule parse_script_ops)

text \<open>
  The two locking-script templates parse to exactly the elements they are
  documented to hold: P2PKH to \<open>DUP HASH160 <h160> EQUALVERIFY CHECKSIG\<close> and the bare multisig to
  \<open>1 <P_a> <P_b> 2 CHECKMULTISIG\<close>.
\<close>

lemma script_templates:
  assumes "length h = 20" and "length pk_a = 33" and "length pk_b = 33"
  shows "parse_script (p2pkh h) = Inr [Op DUP, Op HASH160_op, Push h, Op EQUALVERIFY, Op CHECKSIG]
    \<and> parse_script (bare_multisig_1_of_2 pk_a pk_b) =
      Inr [Op N1, Push pk_a, Push pk_b, Op N2, Op CHECKMULTISIG]"
proof
  have ne: "h \<noteq> []" "pk_a \<noteq> []" "pk_b \<noteq> []" using assms by auto
  let ?p = "[Op DUP, Op HASH160_op, Push h, Op EQUALVERIFY, Op CHECKSIG]"
  have "p2pkh h = concat (map enc_op ?p)"
    by (simp add: p2pkh_def push_data_append [of "[DUP, HASH160_op]"])
  then show "parse_script (p2pkh h) = Inr ?p"
    using parse_script_ops [of ?p] assms ne
    by (simp add: MAX_SCRIPT_OPS_def usize_bound_def op_defs push_data_cases)
  let ?m = "[Op N1, Push pk_a, Push pk_b, Op N2, Op CHECKMULTISIG]"
  have "bare_multisig_1_of_2 pk_a pk_b = concat (map enc_op ?m)"
    by (simp add: bare_multisig_1_of_2_def push_data_append [of "[N1]"]
        push_data_append [of "[N1] @ push_data [] pk_a"] push_data_append [of "N1 # push_data [] pk_a"])
  then show "parse_script (bare_multisig_1_of_2 pk_a pk_b) = Inr ?m"
    using parse_script_ops [of ?m] assms ne
    by (simp add: MAX_SCRIPT_OPS_def usize_bound_def op_defs push_data_cases)
qed

end
