(* ===== verification/Transaction.thy ===== *)
theory Transaction
  imports Script
begin

unbundle bit_operations_syntax

text \<open>
  Transactions and data carriers: \<^verbatim>\<open>crates/bsv/src/transaction.rs\<close> and
  \<^verbatim>\<open>crates/bsv/src/datacarrier.rs\<close>. The version is an \<open>i32\<close> in the code; it is kept as its 32 bits.
  \<open>enc_tx\<close> is the encoding that \<open>serialize\<close> produces, \<open>wf_tx\<close> the transactions that the parser can
  return. Both directions are proved: what is written is read back, and what is read from untrusted
  bytes is well formed and never longer than its input.
\<close>

section \<open>Data\<close>

record out_point =
  op_txid :: txid
  op_vout :: "32 word"

record tx_in =
  ti_outpoint :: out_point
  ti_unlocking_script :: bytes
  ti_sequence :: "32 word"

record tx_out =
  to_value :: "64 word"
  to_locking_script :: bytes

record transaction =
  tx_version :: "32 word"
  tx_inputs :: "tx_in list"
  tx_outputs :: "tx_out list"
  tx_locktime :: "32 word"

definition MAX_IO :: "64 word" where
  "MAX_IO = 10000000"

section \<open>Parsing\<close>

function parse_vec_loop :: "'a reader \<Rightarrow> nat \<Rightarrow> nat \<Rightarrow> 'a list \<Rightarrow> 'a list reader" where
  "parse_vec_loop parse_one i n out =
     (if i < n then
        op_bind parse_one (\<lambda>x.
          case checked_add i 1 of
            None \<Rightarrow> op_fail OutOfRange
          | Some i' \<Rightarrow> parse_vec_loop parse_one i' n (out @ [x]))
      else op_return out)"
  by pat_completeness auto
termination
  by (relation "measure (\<lambda>(p, i, n, out). n - i)") (auto simp: checked_add_eq_Some)

declare parse_vec_loop.simps [simp del]

definition parse_vec :: "'a reader \<Rightarrow> 'a list reader" where
  "parse_vec parse_one = op_bind cur_varint (\<lambda>n.
     if MAX_IO < n then op_fail MalformedTx
     else parse_vec_loop parse_one 0 (unat n) [])"

definition parse_input :: "tx_in reader" where
  "parse_input =
     op_bind cur_hash256 (\<lambda>h.
     op_bind cur_u32_le (\<lambda>vout.
     op_bind cur_varint_bytes (\<lambda>unlocking.
     op_bind cur_u32_le (\<lambda>sequence.
     op_return \<lparr>ti_outpoint = \<lparr>op_txid = txid_from_hash h, op_vout = vout\<rparr>,
       ti_unlocking_script = unlocking, ti_sequence = sequence\<rparr>))))"

definition parse_output :: "tx_out reader" where
  "parse_output =
     op_bind cur_u64_le (\<lambda>v.
     op_bind cur_varint_bytes (\<lambda>locking.
     op_return \<lparr>to_value = v, to_locking_script = locking\<rparr>))"

definition parse_tx_body :: "transaction reader" where
  "parse_tx_body =
     op_bind cur_i32_le (\<lambda>version.
     op_bind (parse_vec parse_input) (\<lambda>inputs.
     op_bind (parse_vec parse_output) (\<lambda>outputs.
     op_bind cur_u32_le (\<lambda>locktime.
     op_return \<lparr>tx_version = version, tx_inputs = inputs, tx_outputs = outputs,
       tx_locktime = locktime\<rparr>))))"

definition tx_parse :: "bytes \<Rightarrow> bsv_error + transaction" where
  "tx_parse raw =
     (case parse_tx_body (cur_new raw) of
        (Inl e, _) \<Rightarrow> Inl e
      | (Inr tx, cur) \<Rightarrow> if \<not> cur_is_empty cur then Inl MalformedTx else Inr tx)"

section \<open>Serialising\<close>

definition count :: "nat \<Rightarrow> bsv_error + 64 word" where
  "count len = ok_or (try_u64 len) OutOfRange"

definition serialize_input :: "bytes \<Rightarrow> tx_in \<Rightarrow> bsv_error + bytes" where
  "serialize_input out i =
     rbind (count (length (ti_unlocking_script i))) (\<lambda>n.
     Inr (write_varint (out @ internal (as_hash (op_txid (ti_outpoint i)))
            @ u32_to_le (op_vout (ti_outpoint i))) n
          @ ti_unlocking_script i @ u32_to_le (ti_sequence i)))"

definition serialize_output :: "bytes \<Rightarrow> tx_out \<Rightarrow> bsv_error + bytes" where
  "serialize_output out t =
     rbind (count (length (to_locking_script t))) (\<lambda>n.
     Inr (write_varint (out @ u64_to_le (to_value t)) n @ to_locking_script t))"

fun serialize_all :: "(bytes \<Rightarrow> 'a \<Rightarrow> bsv_error + bytes) \<Rightarrow> bytes \<Rightarrow> 'a list \<Rightarrow> bsv_error + bytes" where
  "serialize_all f out [] = Inr out"
| "serialize_all f out (x # xs) = rbind (f out x) (\<lambda>out'. serialize_all f out' xs)"

definition tx_serialize :: "transaction \<Rightarrow> bsv_error + bytes" where
  "tx_serialize tx =
     rbind (count (length (tx_inputs tx))) (\<lambda>n_in.
     rbind (serialize_all serialize_input (write_varint (u32_to_le (tx_version tx)) n_in)
              (tx_inputs tx)) (\<lambda>out.
     rbind (count (length (tx_outputs tx))) (\<lambda>n_out.
     rbind (serialize_all serialize_output (write_varint out n_out) (tx_outputs tx)) (\<lambda>out'.
     Inr (out' @ u32_to_le (tx_locktime tx))))))"

definition tx_txid :: "(bytes \<Rightarrow> bytes) \<Rightarrow> transaction \<Rightarrow> bsv_error + txid" where
  "tx_txid sha tx = rbind (tx_serialize tx) (\<lambda>raw. Inr (txid_from_hash (double_sha256 sha raw)))"

section \<open>Data carriers\<close>

definition build_data_carrier :: "bytes \<Rightarrow> tx_out" where
  "build_data_carrier payload =
     \<lparr>to_value = 0, to_locking_script = push_data [FALSE_op, RETURN_op] payload\<rparr>"

definition parse_data_carrier :: "bytes \<Rightarrow> bsv_error + bytes" where
  "parse_data_carrier script = rbind (parse_script script) (\<lambda>ops.
     (case ops of
        [Op a, Op b, Push payload] \<Rightarrow>
          if a = FALSE_op \<and> b = RETURN_op then Inr payload else Inl MalformedScript
      | [Op a, Op b, Op c] \<Rightarrow>
          if a = FALSE_op \<and> b = RETURN_op \<and> c = FALSE_op then Inr [] else Inl MalformedScript
      | [Op a, Op b] \<Rightarrow> if a = FALSE_op \<and> b = RETURN_op then Inr [] else Inl MalformedScript
      | _ \<Rightarrow> Inl MalformedScript))"

section \<open>The encodings and their well-formed values\<close>

definition enc_in :: "tx_in \<Rightarrow> bytes" where
  "enc_in i = internal (as_hash (op_txid (ti_outpoint i))) @ u32_to_le (op_vout (ti_outpoint i))
     @ (varint_enc (word_of_nat (length (ti_unlocking_script i))) @ ti_unlocking_script i)
     @ u32_to_le (ti_sequence i)"

definition enc_out :: "tx_out \<Rightarrow> bytes" where
  "enc_out t = u64_to_le (to_value t)
     @ (varint_enc (word_of_nat (length (to_locking_script t))) @ to_locking_script t)"

definition enc_vec :: "('a \<Rightarrow> bytes) \<Rightarrow> 'a list \<Rightarrow> bytes" where
  "enc_vec enc xs = varint_enc (word_of_nat (length xs)) @ concat (map enc xs)"

definition enc_tx :: "transaction \<Rightarrow> bytes" where
  "enc_tx tx = u32_to_le (tx_version tx) @ enc_vec enc_in (tx_inputs tx)
     @ enc_vec enc_out (tx_outputs tx) @ u32_to_le (tx_locktime tx)"

definition wf_in :: "tx_in \<Rightarrow> bool" where
  "wf_in i \<longleftrightarrow> wf_hash (as_hash (op_txid (ti_outpoint i))) \<and> length (ti_unlocking_script i) < 2 ^ 64"

definition wf_out :: "tx_out \<Rightarrow> bool" where
  "wf_out t \<longleftrightarrow> length (to_locking_script t) < 2 ^ 64"

definition wf_tx :: "transaction \<Rightarrow> bool" where
  "wf_tx tx \<longleftrightarrow> length (tx_inputs tx) \<le> unat MAX_IO \<and> length (tx_outputs tx) \<le> unat MAX_IO
     \<and> (\<forall>i \<in> set (tx_inputs tx). wf_in i) \<and> (\<forall>t \<in> set (tx_outputs tx). wf_out t)"

section \<open>Reading back what was written\<close>

lemma parses_return_eq: "v = w \<Longrightarrow> parses (op_return v) [] w"
  by (simp add: parses_return)

lemma parses_input: "wf_in i \<Longrightarrow> parses parse_input (enc_in i) i"
  unfolding parse_input_def enc_in_def wf_in_def
  by (intro parses_bind [OF parses_hash256] parses_bind [OF parses_u32_le]
      parses_bind [OF parses_varint_bytes] parses_bind_pure [OF parses_u32_le])
    (auto simp: txid_from_hash_def intro!: parses_return_eq)

lemma parses_output: "wf_out t \<Longrightarrow> parses parse_output (enc_out t) t"
  unfolding parse_output_def enc_out_def wf_out_def
  by (intro parses_bind [OF parses_u64_le] parses_bind_pure [OF parses_varint_bytes])
    (auto intro!: parses_return_eq)

context codec
begin

lemma vec_loop_reads_back:
  "\<forall>x \<in> set xs. wf x \<Longrightarrow> i + length xs < usize_bound \<Longrightarrow>
   parses (parse_vec_loop dec i (i + length xs) out) (concat (map enc xs)) (out @ xs)"
proof (induction xs arbitrary: i out)
  case Nil
  then show ?case by (subst parse_vec_loop.simps) (simp add: parses_return)
next
  case (Cons x xs)
  have "parses (parse_vec_loop dec (Suc i) (Suc i + length xs) (out @ [x]))
      (concat (map enc xs)) ((out @ [x]) @ xs)"
    by (rule Cons.IH) (use Cons.prems in simp_all)
  then have "parses (op_bind dec (\<lambda>y. case checked_add i 1 of None \<Rightarrow> op_fail OutOfRange
        | Some i' \<Rightarrow> parse_vec_loop dec i' (i + length (x # xs)) (out @ [y])))
      (enc x @ concat (map enc xs)) (out @ x # xs)"
    using Cons.prems by (intro parses_bind [OF reads_back]) simp_all
  then show ?case by (subst parse_vec_loop.simps) simp
qed

lemma vec_reads_back:
  assumes "\<forall>x \<in> set xs. wf x" "length xs \<le> unat MAX_IO"
  shows "parses (parse_vec dec) (enc_vec enc xs) xs"
proof -
  have "length xs \<le> 10000000" using assms(2) by (simp add: MAX_IO_def)
  then have len: "unat (word_of_nat (length xs) :: 64 word) = length xs"
    and small: "length xs < usize_bound"
    by (simp_all add: unat_of_nat usize_bound_def)
  have "parses (parse_vec_loop dec 0 (0 + length xs) []) (concat (map enc xs)) ([] @ xs)"
    by (rule vec_loop_reads_back) (use assms(1) small in simp_all)
  then show ?thesis
    unfolding parse_vec_def enc_vec_def using len assms(2)
    by (intro parses_bind [OF parses_varint]) (simp add: word_less_nat_alt)
qed

end

interpretation tx_input: codec enc_in parse_input wf_in
  by unfold_locales (rule parses_input)

interpretation tx_output: codec enc_out parse_output wf_out
  by unfold_locales (rule parses_output)

lemma parses_tx: "wf_tx tx \<Longrightarrow> parses parse_tx_body (enc_tx tx) tx"
  unfolding parse_tx_body_def enc_tx_def wf_tx_def
  by (intro parses_bind [OF parses_i32_le] parses_bind [OF tx_input.vec_reads_back]
      parses_bind [OF tx_output.vec_reads_back] parses_bind_pure [OF parses_u32_le])
    (auto intro!: parses_return_eq)

interpretation tx_body: codec enc_tx parse_tx_body wf_tx
  by unfold_locales (rule parses_tx)

lemma tx_parse_enc: "wf_tx tx \<Longrightarrow> length (enc_tx tx) < usize_bound \<Longrightarrow> tx_parse (enc_tx tx) = Inr tx"
  using parses_start [OF parses_tx, of tx "[]"]
  by (simp add: tx_parse_def cur_new_def cur_is_empty_def cur_remaining_def)

lemma count_ok [simp]: "n < 2 ^ 64 \<Longrightarrow> count n = Inr (word_of_nat n)"
  by (simp add: count_def try_u64_def)

lemma serialize_input_enc: "wf_in i \<Longrightarrow> serialize_input out i = Inr (out @ enc_in i)"
  by (simp add: wf_in_def serialize_input_def enc_in_def write_varint_append)

lemma serialize_output_enc: "wf_out t \<Longrightarrow> serialize_output out t = Inr (out @ enc_out t)"
  by (simp add: wf_out_def serialize_output_def enc_out_def write_varint_append)

lemma serialize_all_enc:
  assumes "\<And>out x. x \<in> set xs \<Longrightarrow> f out x = Inr (out @ enc x)"
  shows "serialize_all f out xs = Inr (out @ concat (map enc xs))"
  using assms by (induction xs arbitrary: out) simp_all

lemma tx_serialize_enc: "wf_tx tx \<Longrightarrow> tx_serialize tx = Inr (enc_tx tx)"
  by (simp add: wf_tx_def tx_serialize_def enc_tx_def enc_vec_def MAX_IO_def write_varint_append
      serialize_all_enc [OF serialize_input_enc] serialize_all_enc [OF serialize_output_enc])



section \<open>What the parser returns\<close>

lemma yields_hash256: "yields cur_hash256 (\<lambda>h m. wf_hash h \<and> m = 32)"
  unfolding cur_hash256_def
  by (rule yields_bind [OF yields_array])
    (auto intro!: yields_return simp: wf_hash_def from_internal_def)

lemma yields_input: "yields parse_input (\<lambda>i m. wf_in i \<and> length (enc_in i) \<le> m)"
  unfolding parse_input_def
  by (rule yields_bind [OF yields_hash256] yields_bind [OF yields_u32(1)]
      yields_bind [OF yields_varint_bytes] yields_return)+
    (auto simp: wf_in_def enc_in_def txid_from_hash_def wf_hash_def)

lemma yields_output: "yields parse_output (\<lambda>t m. wf_out t \<and> length (enc_out t) \<le> m)"
  unfolding parse_output_def
  by (rule yields_bind [OF yields_u64] yields_bind [OF yields_varint_bytes] yields_return)+
    (auto simp: wf_out_def enc_out_def)

lemma yields_vec_loop:
  assumes "i \<le> n" and "yields p (\<lambda>x m. P x \<and> length (enc x) \<le> m)"
  shows "yields (parse_vec_loop p i n out) (\<lambda>ys m. \<exists>xs. ys = out @ xs
    \<and> length xs = n - i \<and> (\<forall>x \<in> set xs. P x) \<and> length (concat (map enc xs)) \<le> m)"
  using assms
proof (induction p i n out rule: parse_vec_loop.induct)
  case (1 p i n out)
  show ?case
  proof (cases "i < n")
    case False
    with "1.prems" show ?thesis
      by (subst parse_vec_loop.simps) (auto intro: yields_return)
  next
    case True
    have "yields (case checked_add i 1 of None \<Rightarrow> op_fail OutOfRange
        | Some i' \<Rightarrow> parse_vec_loop p i' n (out @ [x]))
      (\<lambda>ys m. \<exists>xs. ys = out @ xs \<and> length xs = n - i \<and> (\<forall>x \<in> set xs. P x)
        \<and> length (concat (map enc xs)) \<le> k + m)"
      if x: "P x \<and> length (enc x) \<le> k" for x k
    proof (cases "checked_add i 1")
      case (Some i')
      with True have "i' \<le> n" by (simp add: checked_add_eq_Some)
      from "1.IH" [OF True Some this "1.prems"(2), of x] have "yields (parse_vec_loop p i' n (out @ [x]))
        (\<lambda>ys m. \<exists>xs. ys = out @ xs \<and> length xs = n - i \<and> (\<forall>x \<in> set xs. P x)
          \<and> length (concat (map enc xs)) \<le> k + m)"
      proof (rule yields_weaken, goal_cases)
        case (1 ys m)
        then obtain xs where "ys = out @ (x # xs)" "length xs = n - i'" "\<forall>x \<in> set xs. P x"
          "length (concat (map enc xs)) \<le> m" by auto
        with Some x True show ?case by (intro exI [of _ "x # xs"]) (auto simp: checked_add_eq_Some)
      qed
      with Some show ?thesis by simp
    qed simp
    with True show ?thesis
      by (subst parse_vec_loop.simps) (auto intro: yields_bind [OF "1.prems"(2)])
  qed
qed

lemma yields_vec:
  assumes "yields p (\<lambda>x m. P x \<and> length (enc x) \<le> m)"
  shows "yields (parse_vec p) (\<lambda>xs m. length xs \<le> unat MAX_IO \<and> (\<forall>x \<in> set xs. P x)
    \<and> length (enc_vec enc xs) \<le> m)"
  unfolding parse_vec_def
proof (rule yields_bind [OF yields_varint], goal_cases)
  case (1 n k)
  show ?case
  proof (cases "MAX_IO < n")
    case False
    then have "unat n \<le> unat MAX_IO" by (simp add: word_less_nat_alt)
    then show ?thesis
      using False yields_vec_loop [OF _ assms, of 0 "unat n" "[]"] 1
      by (auto simp: enc_vec_def elim!: yields_weaken)
  qed simp
qed

lemma yields_tx: "yields parse_tx_body (\<lambda>tx m. wf_tx tx \<and> length (enc_tx tx) \<le> m)"
  unfolding parse_tx_body_def
  by (rule yields_bind [OF yields_u32(2)] yields_bind [OF yields_u32(1)]
      yields_bind [OF yields_vec [OF yields_input]] yields_bind [OF yields_vec [OF yields_output]]
      yields_return)+
    (auto simp: wf_tx_def enc_tx_def)

lemma tx_parse_wf:
  assumes "tx_parse raw = Inr tx" "length raw < usize_bound"
  shows "wf_tx tx \<and> length (enc_tx tx) \<le> length raw"
proof -
  from assms(1) obtain c where c: "parse_tx_body (cur_new raw) = (Inr tx, c)"
    by (auto simp: tx_parse_def split: prod.splits sum.splits if_splits)
  from yieldsD [OF yields_tx c] assms(2) show ?thesis
    by (auto simp: cur_new_def safe_step_def)
qed

section \<open>Counts in a longer encoding than necessary\<close>

definition empty_tx :: transaction where
  "empty_tx = \<lparr>tx_version = 1, tx_inputs = [], tx_outputs = [], tx_locktime = 0\<rparr>"

definition padded_tx_bytes :: bytes where
  "padded_tx_bytes = u32_to_le 1 @ [0xFD, 0, 0] @ varint_enc 0 @ u32_to_le 0"

lemma parses_empty_vec: "parses cur_varint bs 0 \<Longrightarrow> parses (parse_vec p) bs []"
  unfolding parse_vec_def
  by (rule parses_bind_pure [of _ _ 0], assumption)
    (simp add: MAX_IO_def parse_vec_loop.simps parses_return)

lemma padded_tx_parse: "tx_parse padded_tx_bytes = Inr empty_tx"
proof -
  have "parses cur_varint [0xFD, 0, 0] 0"
    using parses_tagged [of "0xFD" 2 "[0, 0]"] by (simp add: u64_from_le_def)
  then have "parses parse_tx_body padded_tx_bytes empty_tx"
    unfolding parse_tx_body_def padded_tx_bytes_def empty_tx_def
    by (intro parses_bind [OF parses_i32_le] parses_bind [OF parses_empty_vec [of "[0xFD, 0, 0]"]]
        parses_bind [OF parses_empty_vec [OF parses_varint]] parses_bind_pure [OF parses_u32_le]
        parses_return)
  then show ?thesis
    using parses_start [of parse_tx_body padded_tx_bytes empty_tx "[]"]
    by (simp add: tx_parse_def cur_new_def cur_is_empty_def cur_remaining_def padded_tx_bytes_def
        usize_bound_def length_varint_enc)
qed

lemma empty_tx_enc: "wf_tx empty_tx" "enc_tx empty_tx = [1, 0, 0, 0, 0, 0, 0, 0, 0, 0]"
  by (simp_all add: wf_tx_def empty_tx_def enc_tx_def enc_vec_def varint_enc_cases u32_to_le_def byte_eval)

lemma padded_tx_bytes_eval: "padded_tx_bytes = [1, 0, 0, 0, 0xFD, 0, 0, 0, 0, 0, 0, 0]"
  by (simp add: padded_tx_bytes_def varint_enc_cases u32_to_le_def byte_eval)

lemma data_carrier_script:
  "to_locking_script (build_data_carrier payload) =
     (if payload = [] then concat (map enc_op [Op FALSE_op, Op RETURN_op, Op FALSE_op])
      else concat (map enc_op [Op FALSE_op, Op RETURN_op, Push payload]))"
  by (simp add: build_data_carrier_def push_data_append [of "[FALSE_op, RETURN_op]"] push_data_cases(1))
    (simp add: op_defs)

lemma length_push_data: "length (push_data [] d) \<le> length d + 5"
  by (simp add: push_data_def Let_def)

lemma parse_script_Inr_loop:
  assumes "parses parse_op bs x" "bs \<noteq> []" "length ops < MAX_SCRIPT_OPS"
    "length (pre @ bs @ post) < usize_bound"
    "parse_script_loop ops \<lparr>cur_data = pre @ bs @ post, cur_off = length pre\<rparr> = Inr out"
  shows "\<exists>ys. out = ops @ [x] @ ys \<and> (post \<noteq> [] \<longrightarrow> ys \<noteq> [])"
  using parse_script_loop_prefix [of "ops @ [x]" _ out] assms(5)
    parse_script_loop_step [OF assms(1-4)]
  by (fastforce simp: cur_is_empty_def cur_remaining_def)

lemma data_carrier_inverse:
  assumes "length payload < 2 ^ 32"
  shows "parse_data_carrier (to_locking_script (build_data_carrier payload)) = Inr payload"
proof -
  have "parse_script (to_locking_script (build_data_carrier payload)) =
    Inr (if payload = [] then [Op FALSE_op, Op RETURN_op, Op FALSE_op]
      else [Op FALSE_op, Op RETURN_op, Push payload])"
    using assms length_push_data [of payload] parse_script_ops [of "[Op FALSE_op, Op RETURN_op, Op FALSE_op]"]
      parse_script_ops [of "[Op FALSE_op, Op RETURN_op, Push payload]"]
    by (cases "payload = []") (simp_all add: data_carrier_script MAX_SCRIPT_OPS_def usize_bound_def op_defs)
  then show ?thesis
    by (simp add: parse_data_carrier_def build_data_carrier_def op_defs)
qed

section \<open>Properties\<close>

text \<open>
  C18 [tx_roundtrip] Serialising a well-formed transaction succeeds and parsing the bytes returns the
  transaction; together with any following byte they are refused as malformed, so a serialised
  transaction is never a proper prefix of an accepted one.
\<close>

theorem tx_roundtrip:
  assumes "wf_tx tx" and "length (enc_tx tx @ extra) < usize_bound"
  shows "tx_serialize tx = Inr (enc_tx tx)
    \<and> tx_parse (enc_tx tx @ extra) = (if extra = [] then Inr tx else Inl MalformedTx)"
  using tx_serialize_enc [OF assms(1)] parses_start [OF parses_tx [OF assms(1)] assms(2)]
  by (simp add: tx_parse_def cur_new_def cur_is_empty_def cur_remaining_def)

theorem tx_roundtrip_witness:
  "let tx = \<lparr>tx_version = 1, tx_inputs = [\<lparr>ti_outpoint = \<lparr>op_txid = Txid zero_hash, op_vout = 5\<rparr>,
       ti_unlocking_script = [1, 2], ti_sequence = 7\<rparr>], tx_outputs = [build_data_carrier [9]],
       tx_locktime = 0\<rparr> in tx_parse (enc_tx tx) = Inr tx \<and> tx_parse (enc_tx tx @ [0]) = Inl MalformedTx"
proof -
  let ?tx = "\<lparr>tx_version = 1, tx_inputs = [\<lparr>ti_outpoint = \<lparr>op_txid = Txid zero_hash, op_vout = 5\<rparr>,
       ti_unlocking_script = [1, 2], ti_sequence = 7\<rparr>], tx_outputs = [build_data_carrier [9]],
       tx_locktime = 0\<rparr>"
  have wf: "wf_tx ?tx"
    by (simp add: wf_tx_def wf_in_def wf_out_def build_data_carrier_def MAX_IO_def
        push_data_append [of "[FALSE_op, RETURN_op]"] push_data_cases)
  have len: "length (enc_tx ?tx @ [0]) < usize_bound"
    by (simp add: enc_tx_def enc_vec_def enc_in_def enc_out_def length_varint_enc usize_bound_def
        zero_hash_def from_internal_def build_data_carrier_def unat_of_nat
        push_data_append [of "[FALSE_op, RETURN_op]"] push_data_cases)
  show ?thesis
    using tx_roundtrip [OF wf len] tx_roundtrip [OF wf, of "[]"] len by simp
qed

text \<open>
  C19 [tx_parse_sound] What the parser accepts from untrusted bytes is well formed, serialises without
  an error to at most as many bytes, and the serialisation is a fixed point: it parses to the same
  transaction.
\<close>

theorem tx_parse_sound:
  assumes "tx_parse raw = Inr tx" and "length raw < usize_bound"
  shows "wf_tx tx \<and> (\<exists>canon. tx_serialize tx = Inr canon \<and> length canon \<le> length raw
    \<and> tx_parse canon = Inr tx)"
  using tx_parse_wf [OF assms] tx_serialize_enc [of tx] tx_parse_enc [of tx] assms(2) by simp


theorem tx_parse_sound_witness:
  "wf_tx empty_tx \<and> (\<exists>canon. tx_serialize empty_tx = Inr canon \<and> length canon \<le> length padded_tx_bytes
    \<and> tx_parse canon = Inr empty_tx)"
  by (rule tx_parse_sound [OF padded_tx_parse]) (simp add: padded_tx_bytes_eval usize_bound_def)

text \<open>
  The round trip in the other direction is not byte-identical: the parser
  accepts a count in a longer CompactSize encoding than necessary, and serialising the transaction it
  returns gives different, shorter bytes, so the id of the parsed transaction is that of the received
  bytes only if the two byte strings collide.
\<close>

lemma tx_bytes_not_canonical:
  "\<exists>raw tx canon. tx_parse raw = Inr tx \<and> tx_serialize tx = Inr canon \<and> canon \<noteq> raw \<and>
     (tx_txid sha tx = Inr (txid_of_tx_bytes sha raw) \<longleftrightarrow> double_sha256 sha canon = double_sha256 sha raw)"
proof (intro exI conjI)
  show "tx_parse padded_tx_bytes = Inr empty_tx" by (rule padded_tx_parse)
  show ser: "tx_serialize empty_tx = Inr (enc_tx empty_tx)"
    by (rule tx_serialize_enc) (rule empty_tx_enc)
  show "enc_tx empty_tx \<noteq> padded_tx_bytes"
    by (simp add: empty_tx_enc padded_tx_bytes_eval)
  show "tx_txid sha empty_tx = Inr (txid_of_tx_bytes sha padded_tx_bytes) \<longleftrightarrow>
      double_sha256 sha (enc_tx empty_tx) = double_sha256 sha padded_tx_bytes"
    by (simp add: tx_txid_def ser txid_from_hash_def txid_of_tx_bytes_def)
qed

text \<open>
  A payload of fewer than \<open>2 ^ 32\<close> bytes, the empty one included, put
  into a data-carrier output is recovered from its locking script, and the output carries no value.
\<close>

lemma data_carrier_roundtrip:
  assumes "length payload < 2 ^ 32"
  shows "parse_data_carrier (to_locking_script (build_data_carrier payload)) = Inr payload
    \<and> to_value (build_data_carrier payload) = 0"
  using data_carrier_inverse [OF assms] by (simp add: build_data_carrier_def)

end
