(* ===== verification/Interpolation.thy ===== *)
theory Interpolation
  imports Main
begin

text \<open>
  Interpolation over a field, shared by the two secret-sharing schemes of the program (over the
  scalars of the curve and over \<open>GF(2^8)\<close>). A polynomial is its list of coefficients, lowest first.
  Two facts carry the schemes: the Lagrange sum at zero of a polynomial with fewer coefficients than
  there are points is its constant coefficient, and any values at distinct points are those of some
  polynomial with as many coefficients as there are points.
\<close>

section \<open>Polynomials as coefficient lists\<close>

primrec poly_eval :: "'f::field list \<Rightarrow> 'f \<Rightarrow> 'f" where
  "poly_eval [] x = 0"
| "poly_eval (c # cs) x = c + x * poly_eval cs x"

lemma horner_poly_eval: "foldl (\<lambda>acc c. acc * x + c) 0 (rev cs) = poly_eval cs x"
  by (simp add: foldl_conv_foldr) (induction cs; simp add: algebra_simps)

text \<open>Division by a linear factor and its inverse.\<close>

primrec quotient_at :: "'f::field \<Rightarrow> 'f list \<Rightarrow> 'f list" where
  "quotient_at a [] = []"
| "quotient_at a (c # cs) = (if cs = [] then [] else poly_eval cs a # quotient_at a cs)"

lemma length_quotient_at [simp]: "length (quotient_at a cs) = length cs - 1"
  by (induction cs) auto

lemma poly_eval_quotient: "poly_eval cs x = poly_eval cs a + (x - a) * poly_eval (quotient_at a cs) x"
proof (induction cs)
  case (Cons c cs)
  show ?case
  proof (cases "cs = []")
    case False
    have "poly_eval (c # cs) x = c + x * (poly_eval cs a + (x - a) * poly_eval (quotient_at a cs) x)"
      using Cons.IH by simp
    also have "\<dots> = poly_eval (c # cs) a + (x - a) * poly_eval (quotient_at a (c # cs)) x"
      using False by (simp add: algebra_simps)
    finally show ?thesis .
  qed simp
qed simp

primrec add_root :: "'f::field \<Rightarrow> 'f \<Rightarrow> 'f list \<Rightarrow> 'f list" where
  "add_root a v [] = [v]"
| "add_root a v (c # cs) = (v - a * c) # add_root a c cs"

lemma length_add_root [simp]: "length (add_root a v cs) = Suc (length cs)"
  by (induction cs arbitrary: v) auto

lemma poly_eval_add_root: "poly_eval (add_root a v cs) x = v + (x - a) * poly_eval cs x"
proof (induction cs arbitrary: v)
  case (Cons c cs)
  have "poly_eval (add_root a v (c # cs)) x = v - a * c + x * (c + (x - a) * poly_eval cs x)"
    using Cons.IH by simp
  also have "\<dots> = v + (x - a) * poly_eval (c # cs) x"
    by (simp add: algebra_simps)
  finally show ?case .
qed simp

section \<open>The Lagrange sum at zero\<close>

definition lagrange_weight :: "'f::field set \<Rightarrow> 'f \<Rightarrow> 'f" where
  "lagrange_weight S x = (\<Prod>m \<in> S - {x}. m) * inverse (\<Prod>m \<in> S - {x}. m - x)"

definition lagrange_zero :: "'f::field set \<Rightarrow> ('f \<Rightarrow> 'f) \<Rightarrow> 'f" where
  "lagrange_zero S f = (\<Sum>x \<in> S. f x * lagrange_weight S x)"

lemma lagrange_zero_cong: "(\<And>x. x \<in> S \<Longrightarrow> f x = g x) \<Longrightarrow> lagrange_zero S f = lagrange_zero S g"
  unfolding lagrange_zero_def by (rule sum.cong) simp_all

lemma lagrange_zero_linear:
  "lagrange_zero S (\<lambda>x. f x + g x) = lagrange_zero S f + lagrange_zero S g"
  "lagrange_zero S (\<lambda>x. c * f x) = c * lagrange_zero S f"
  by (simp_all add: lagrange_zero_def distrib_right sum.distrib sum_distrib_left mult.assoc)

lemma lagrange_weight_remove:
  assumes "finite S" "a \<in> S" "x \<in> S" "x \<noteq> a"
  shows "(x - a) * lagrange_weight S x = - a * lagrange_weight (S - {a}) x"
proof -
  have S: "S - {x} = insert a (S - {a} - {x})" using assms by auto
  have "lagrange_weight S x = a * inverse (a - x) * lagrange_weight (S - {a}) x"
    using assms(1) unfolding lagrange_weight_def S by simp
  then show ?thesis
    using assms(4) by (simp add: field_simps)
qed

lemma lagrange_zero_root:
  assumes "finite S" "a \<in> S"
  shows "lagrange_zero S (\<lambda>x. (x - a) * f x) = - a * lagrange_zero (S - {a}) f"
proof -
  have "lagrange_zero S (\<lambda>x. (x - a) * f x) = (\<Sum>x \<in> S - {a}. (x - a) * f x * lagrange_weight S x)"
    unfolding lagrange_zero_def using assms by (simp add: sum.remove [of S a])
  also have "\<dots> = (\<Sum>x \<in> S - {a}. - a * (f x * lagrange_weight (S - {a}) x))"
    using lagrange_weight_remove [OF assms]
    by (intro sum.cong refl) (simp add: mult.assoc mult.left_commute [of _ "f _"])
  also have "\<dots> = - a * lagrange_zero (S - {a}) f"
    by (simp only: lagrange_zero_def sum_distrib_left)
  finally show ?thesis .
qed

lemma lagrange_zero_one:
  assumes "finite S" "S \<noteq> {}"
  shows "lagrange_zero S (\<lambda>_. 1) = 1"
  using assms
proof (induction "card S" arbitrary: S)
  case (Suc n)
  obtain a where a: "a \<in> S" using Suc.prems by auto
  show ?case
  proof (cases "S = {a}")
    case True
    then show ?thesis by (simp add: lagrange_zero_def lagrange_weight_def)
  next
    case False
    then obtain b where b: "b \<in> S" "b \<noteq> a" using a by auto
    have IH: "lagrange_zero (S - {c}) (\<lambda>_. 1) = 1" if "c \<in> {a, b}" for c
    proof (rule Suc.hyps(1))
      show "n = card (S - {c})" using that a b Suc.hyps(2) Suc.prems(1) by auto
      show "finite (S - {c})" "S - {c} \<noteq> {}" using that a b Suc.prems(1) by auto
    qed
    have root: "lagrange_zero S (\<lambda>x. (x - c) * 1) = - c" if "c \<in> {a, b}" for c
      using that lagrange_zero_root [of S c "\<lambda>_. 1"] Suc.prems(1) a b IH [of c] by auto
    have "(a - b) * lagrange_zero S (\<lambda>_. 1) = lagrange_zero S (\<lambda>x. (x - b) * 1 + (-1) * ((x - a) * 1))"
      unfolding lagrange_zero_linear(2) [symmetric] by (rule lagrange_zero_cong) simp
    also have "\<dots> = a - b"
      unfolding lagrange_zero_linear using root by simp
    finally show ?thesis using b(2) by simp
  qed
qed simp

theorem lagrange_interpolation:
  assumes "finite S" "length cs \<le> card S" "S \<noteq> {}"
  shows "lagrange_zero S (poly_eval cs) = poly_eval cs 0"
  using assms
proof (induction "card S" arbitrary: S cs)
  case (Suc n)
  obtain a where a: "a \<in> S" using Suc.prems by auto
  let ?q = "quotient_at a cs"
  have q: "lagrange_zero (S - {a}) (poly_eval ?q) = poly_eval ?q 0"
  proof (cases "S - {a} = {}")
    case True
    then have "S = {a}" using a by auto
    then have "length ?q = 0" using Suc.prems(2) by simp
    then have "?q = []" by (simp only: length_0_conv)
    with True show ?thesis by (simp add: lagrange_zero_def)
  next
    case False
    then show ?thesis
      using Suc.hyps a Suc.prems by (intro Suc.hyps(1)) auto
  qed
  have "lagrange_zero S (poly_eval cs) =
      lagrange_zero S (\<lambda>x. poly_eval cs a * 1 + (x - a) * poly_eval ?q x)"
    by (rule lagrange_zero_cong, simp only: mult_1_right) (rule poly_eval_quotient)
  also have "\<dots> = poly_eval cs a * 1 + - a * poly_eval ?q 0"
    unfolding lagrange_zero_linear lagrange_zero_one [OF Suc.prems(1,3)]
      lagrange_zero_root [OF Suc.prems(1) a] q ..
  also have "\<dots> = poly_eval cs 0"
    using poly_eval_quotient [of cs 0 a] by simp
  finally show ?case .
qed auto

section \<open>Existence\<close>

lemma interpolation_exists:
  fixes f :: "'f::field \<Rightarrow> 'f"
  assumes "finite S"
  shows "\<exists>cs. length cs = card S \<and> (\<forall>x \<in> S. poly_eval cs x = f x)"
  using assms
proof (induction S arbitrary: f rule: finite_induct)
  case (insert a S)
  obtain cs where cs: "length cs = card S" "\<forall>x \<in> S. poly_eval cs x = (f x - f a) * inverse (x - a)"
    using insert.IH [of "\<lambda>x. (f x - f a) * inverse (x - a)"] by blast
  have "poly_eval (add_root a (f a) cs) x = f x" if "x \<in> insert a S" for x
  proof (cases "x = a")
    case False
    with that cs(2) have "poly_eval cs x = (f x - f a) * inverse (x - a)" by simp
    moreover have "(x - a) * ((f x - f a) * inverse (x - a)) = f x - f a"
      using False by simp
    ultimately show ?thesis by (simp only: poly_eval_add_root) simp
  qed (simp add: poly_eval_add_root)
  with cs(1) insert.hyps show ?case
    by (intro exI [of _ "add_root a (f a) cs"]) simp
qed simp

section \<open>The sum over an indexed list\<close>

text \<open>The code runs over the shares with their positions and skips a position, not a value. On a list
  of distinct points that is the same.\<close>

definition others :: "nat \<Rightarrow> 'a list \<Rightarrow> 'a list" where
  "others j xs = map snd (filter (\<lambda>(m, x). m \<noteq> j) (enumerate 0 xs))"

lemma enumerate_nth: "enumerate 0 xs = map (\<lambda>j. (j, xs ! j)) [0..<length xs]"
  by (rule nth_equalityI) (simp_all add: nth_enumerate_eq)

lemma others_split: "j < length xs \<Longrightarrow> others j xs = take j xs @ drop (Suc j) xs"
proof -
  assume j: "j < length xs"
  have "map snd (filter (\<lambda>(m, x). m \<noteq> j) (enumerate n xs)) = xs" if "j < n \<or> n + length xs \<le> j"
    for n and xs :: "'a list"
    using that by (induction xs arbitrary: n) auto
  note skip = this
  have xs: "enumerate 0 xs = enumerate 0 (take j xs) @ (j, xs ! j) # enumerate (Suc j) (drop (Suc j) xs)"
    using j by (subst id_take_nth_drop [OF j]) (simp only: enumerate_append_eq enumerate_simps, simp)
  show ?thesis
    unfolding others_def xs using skip [of 0 "take j xs"] skip [of "Suc j" "drop (Suc j) xs"] j by simp
qed

lemma others_distinct:
  assumes "j < length xs" "distinct xs"
  shows "distinct (others j xs)" "set (others j xs) = set xs - {xs ! j}"
proof -
  have xs: "xs = take j xs @ xs ! j # drop (Suc j) xs"
    by (rule id_take_nth_drop [OF assms(1)])
  have "distinct (take j xs @ xs ! j # drop (Suc j) xs)"
    using assms(2) xs by simp
  then show "distinct (others j xs)"
    using others_split [OF assms(1)] by simp
  have "set xs = set (take j xs @ xs ! j # drop (Suc j) xs)"
    using xs by simp
  with \<open>distinct (take j xs @ xs ! j # drop (Suc j) xs)\<close> show "set (others j xs) = set xs - {xs ! j}"
    using others_split [OF assms(1)] by auto
qed

lemma map_others: "map f (others j xs) = others j (map f xs)"
proof -
  have "map f (map snd (filter (\<lambda>(m, x). m \<noteq> j) (enumerate n xs))) =
      map snd (filter (\<lambda>(m, x). m \<noteq> j) (enumerate n (map f xs)))" for n
    by (induction xs arbitrary: n) auto
  then show ?thesis by (simp only: others_def)
qed

lemma lagrange_weight_list:
  assumes "j < length xs" "distinct xs"
  shows "lagrange_weight (set xs) (xs ! j) =
    prod_list (others j xs) * inverse (prod_list (map (\<lambda>m. m - xs ! j) (others j xs)))"
proof -
  have "(\<Prod>m \<in> set xs - {xs ! j}. g m) = prod_list (map g (others j xs))" for g :: "'a \<Rightarrow> 'a"
    using prod.distinct_set_conv_list [of "others j xs" g] others_distinct [OF assms] by simp
  from this [of "\<lambda>m. m"] this [of "\<lambda>m. m - xs ! j"] show ?thesis
    unfolding lagrange_weight_def by simp
qed

lemma lagrange_zero_list:
  assumes "distinct xs"
  shows "lagrange_zero (set xs) f =
    (\<Sum>j\<leftarrow>[0..<length xs]. f (xs ! j) * (prod_list (others j xs) *
       inverse (prod_list (map (\<lambda>m. m - xs ! j) (others j xs)))))"
proof -
  have "lagrange_zero (set xs) f = (\<Sum>x\<leftarrow>xs. f x * lagrange_weight (set xs) x)"
    unfolding lagrange_zero_def using assms by (simp add: sum.distinct_set_conv_list)
  also have "\<dots> = (\<Sum>x\<leftarrow>map (\<lambda>j. xs ! j) [0..<length xs]. f x * lagrange_weight (set xs) x)"
    by (simp only: map_nth)
  also have "\<dots> = (\<Sum>j\<leftarrow>[0..<length xs]. f (xs ! j) * lagrange_weight (set xs) (xs ! j))"
    by (simp add: comp_def)
  also have "\<dots> = (\<Sum>j\<leftarrow>[0..<length xs]. f (xs ! j) * (prod_list (others j xs) *
       inverse (prod_list (map (\<lambda>m. m - xs ! j) (others j xs)))))"
    using assms by (intro arg_cong [of _ _ sum_list] map_cong refl) (simp add: lagrange_weight_list)
  finally show ?thesis .
qed

end
