(* ===== verification/Threshold.thy ===== *)
theory Threshold
  imports Complex_Main Interpolation Ckd
begin

text \<open>
  Threshold custody, \<^verbatim>\<open>crates/custody/src\<close>: secret sharing over the scalars of the curve (\<^verbatim>\<open>shamir.rs\<close>),
  threshold Schnorr signing without reconstruction (\<^verbatim>\<open>threshold.rs\<close>), signing by reconstruction
  (\<^verbatim>\<open>reconstruction.rs\<close>) and the attribution of a wrong final share (\<^verbatim>\<open>type7.rs\<close>).

  The scalars of the \<open>k256\<close> crate are a type of the class of fields, its points an arbitrary type; the
  operations the code calls on them are the record \<open>group_ops\<close>. \<open>Scalar::from(u64)\<close> is \<open>of_nat\<close>.
  SHA-256 is the argument \<open>sha\<close>, the generator of the operating system \<open>rand\<close> as in theory \<open>Cipher\<close>.
\<close>

section \<open>Parameters\<close>

record ('f, 'p) group_ops =
  gr_identity :: 'p
  gr_base :: 'p
  gr_add :: "'p \<Rightarrow> 'p \<Rightarrow> 'p"
  gr_mul :: "'p \<Rightarrow> 'f \<Rightarrow> 'p"
  gr_encode :: "'p \<Rightarrow> bytes"
  sc_decode :: "bytes \<Rightarrow> 'f option"
  sc_encode :: "'f \<Rightarrow> bytes"
  sc_reduce :: "bytes \<Rightarrow> 'f"

text \<open>Points form a commutative group on which the scalars act.\<close>

definition group_law :: "('f::field, 'p) group_ops \<Rightarrow> bool" where
  "group_law g \<longleftrightarrow>
     (\<forall>p q r. gr_add g (gr_add g p q) r = gr_add g p (gr_add g q r)) \<and>
     (\<forall>p q. gr_add g p q = gr_add g q p) \<and>
     (\<forall>p. gr_add g (gr_identity g) p = p) \<and>
     (\<forall>p. gr_mul g p 0 = gr_identity g) \<and>
     (\<forall>p a b. gr_mul g p (a + b) = gr_add g (gr_mul g p a) (gr_mul g p b)) \<and>
     (\<forall>p a b. gr_mul g p (a * b) = gr_mul g (gr_mul g p a) b)"

definition scalar_invert :: "'f::field \<Rightarrow> 'f option" where
  "scalar_invert x = (if x = 0 then None else Some (inverse x))"

section \<open>Secret sharing\<close>

datatype custody_error = CusBadParams | CusInsufficientShares | BadShare | BadCommitment | CusSigning
  | Revoked | CusRandom

type_synonym 'a cus_draw = "(nat, custody_error, 'a) op"

record 'f share =
  sh_x :: 'f
  sh_y :: 'f

definition cus_fill :: "rng \<Rightarrow> nat \<Rightarrow> bytes cus_draw" where
  "cus_fill rand n i = (let (r, j) = random_fill rand n i in (map_err (\<lambda>_. CusRandom) r, j))"

fun scalar_loop :: "rng \<Rightarrow> ('f::field, 'p) group_ops \<Rightarrow> nat \<Rightarrow> 'f cus_draw" where
  "scalar_loop rand g 0 = op_fail CusRandom"
| "scalar_loop rand g (Suc tries) =
     op_bind (cus_fill rand 32) (\<lambda>bs.
     case sc_decode g bs of
       Some scalar \<Rightarrow> if scalar \<noteq> 0 then op_return scalar else scalar_loop rand g tries
     | None \<Rightarrow> scalar_loop rand g tries)"

definition random_scalar :: "rng \<Rightarrow> ('f::field, 'p) group_ops \<Rightarrow> 'f cus_draw" where
  "random_scalar rand g = scalar_loop rand g 16"

fun draw_coeffs :: "rng \<Rightarrow> ('f::field, 'p) group_ops \<Rightarrow> nat \<Rightarrow> 'f list cus_draw" where
  "draw_coeffs rand g 0 = op_return []"
| "draw_coeffs rand g (Suc n) =
     op_bind (random_scalar rand g) (\<lambda>c. op_bind (draw_coeffs rand g n) (\<lambda>cs. op_return (c # cs)))"

definition scalar_eval :: "'f::field list \<Rightarrow> 'f \<Rightarrow> 'f" where
  "scalar_eval coeffs x = foldl (\<lambda>acc coeff. acc * x + coeff) 0 (rev coeffs)"

definition shamir_split :: "rng \<Rightarrow> ('f::field, 'p) group_ops \<Rightarrow> 'f \<Rightarrow> nat \<Rightarrow> nat \<Rightarrow> 'f share list cus_draw" where
  "shamir_split rand g secret threshold shares =
     (if threshold = 0 \<or> shares < threshold then op_fail CusBadParams
      else op_bind (draw_coeffs rand g (threshold - 1)) (\<lambda>tail.
           let coeffs = secret # tail in
           op_return (map (\<lambda>index. let x = of_nat index in \<lparr>sh_x = x, sh_y = scalar_eval coeffs x\<rparr>)
                          [1..<Suc shares])))"

fun weight_products :: "nat \<Rightarrow> 'f::field \<Rightarrow> (nat \<times> 'f share) list \<Rightarrow> 'f \<Rightarrow> 'f \<Rightarrow> 'f \<times> 'f" where
  "weight_products j x_j [] numerator denominator = (numerator, denominator)"
| "weight_products j x_j ((m, share_m) # rest) numerator denominator =
     (if m = j then weight_products j x_j rest numerator denominator
      else weight_products j x_j rest (numerator * sh_x share_m) (denominator * (sh_x share_m - x_j)))"

fun shamir_loop :: "'f::field share list \<Rightarrow> (nat \<times> 'f share) list \<Rightarrow> 'f \<Rightarrow> 'f" where
  "shamir_loop shares [] secret = secret"
| "shamir_loop shares ((j, share_j) # rest) secret =
     (let (numerator, denominator) = weight_products j (sh_x share_j) (enumerate 0 shares) 1 1 in
      shamir_loop shares rest
        (case scalar_invert denominator of
           Some inverse_d \<Rightarrow> secret + sh_y share_j * numerator * inverse_d
         | None \<Rightarrow> secret))"

definition shamir_reconstruct :: "'f::field share list \<Rightarrow> 'f" where
  "shamir_reconstruct shares = shamir_loop shares (enumerate 0 shares) 0"

section \<open>Threshold signing\<close>

record 'p group_key =
  gk_public :: 'p

definition custody_encode_point :: "('f, 'p) group_ops \<Rightarrow> 'p \<Rightarrow> bytes" where
  "custody_encode_point g point = (let bs = gr_encode g point in if length bs = 33 then bs else replicate 33 0)"

definition public_compressed :: "('f, 'p) group_ops \<Rightarrow> 'p group_key \<Rightarrow> bytes" where
  "public_compressed g gkey = custody_encode_point g (gk_public gkey)"

definition keygen :: "rng \<Rightarrow> ('f::field, 'p) group_ops \<Rightarrow> nat \<Rightarrow> nat \<Rightarrow> ('p group_key \<times> 'f share list) cus_draw" where
  "keygen rand g threshold shares =
     op_bind (random_scalar rand g) (\<lambda>secret.
     let public = gr_mul g (gr_base g) secret in
     op_bind (shamir_split rand g secret threshold shares) (\<lambda>shares.
     op_return (\<lparr>gk_public = public\<rparr>, shares)))"

record 'f nonce_commitment =
  nc_index :: 'f
  nc_commitment :: bytes

record ('f, 'p) nonce_reveal =
  nr_index :: 'f
  nr_point :: 'p

record 'f partial_sig =
  ps_index :: 'f
  ps_s :: 'f

record ('f, 'p) threshold_signature =
  ts_r :: 'p
  ts_s :: 'f

record ('f, 'p) threshold_party =
  tp_share :: "'f share"
  tp_nonce :: "'f option"
  tp_nonce_point :: "'p option"

definition party_new :: "'f share \<Rightarrow> ('f, 'p) threshold_party" where
  "party_new share = \<lparr>tp_share = share, tp_nonce = None, tp_nonce_point = None\<rparr>"

definition hash_commitment :: "(bytes \<Rightarrow> bytes) \<Rightarrow> ('f, 'p) group_ops \<Rightarrow> 'p \<Rightarrow> bytes" where
  "hash_commitment sha g point = sha (as_bytes ''custody/nonce-commitment/v1'' @ custody_encode_point g point)"

definition challenge_scalar :: "(bytes \<Rightarrow> bytes) \<Rightarrow> ('f, 'p) group_ops \<Rightarrow> 'p \<Rightarrow> 'p \<Rightarrow> bytes \<Rightarrow> 'f" where
  "challenge_scalar sha g r p message = sc_reduce g (sha (custody_encode_point g r @ custody_encode_point g p @ message))"

fun coefficient_products :: "'f::field list \<Rightarrow> 'f \<Rightarrow> 'f \<Rightarrow> 'f \<Rightarrow> 'f \<times> 'f" where
  "coefficient_products [] j numerator denominator = (numerator, denominator)"
| "coefficient_products (m # rest) j numerator denominator =
     (if m = j then coefficient_products rest j numerator denominator
      else coefficient_products rest j (numerator * m) (denominator * (m - j)))"

definition lagrange_coefficient :: "'f::field list \<Rightarrow> 'f \<Rightarrow> 'f" where
  "lagrange_coefficient signing_set j =
     (let (numerator, denominator) = coefficient_products signing_set j 1 1 in
      numerator * unwrap_or (scalar_invert denominator) 0)"

definition party_commit :: "rng \<Rightarrow> (bytes \<Rightarrow> bytes) \<Rightarrow> ('f::field, 'p) group_ops
    \<Rightarrow> (('f, 'p) threshold_party \<times> nat, custody_error, 'f nonce_commitment) op" where
  "party_commit rand sha g = (\<lambda>(p, i).
     case random_scalar rand g i of
       (Inl e, j) \<Rightarrow> (Inl e, (p, j))
     | (Inr nonce, j) \<Rightarrow>
         let point = gr_mul g (gr_base g) nonce in
         (Inr \<lparr>nc_index = sh_x (tp_share p), nc_commitment = hash_commitment sha g point\<rparr>,
          (p\<lparr>tp_nonce := Some nonce, tp_nonce_point := Some point\<rparr>, j)))"

definition party_reveal :: "('f, 'p) threshold_party \<Rightarrow> custody_error + ('f, 'p) nonce_reveal" where
  "party_reveal p =
     rbind (ok_or (tp_nonce_point p) CusSigning) (\<lambda>point.
     Inr \<lparr>nr_index = sh_x (tp_share p), nr_point = point\<rparr>)"

definition partial_sign :: "(bytes \<Rightarrow> bytes) \<Rightarrow> ('f::field, 'p) group_ops \<Rightarrow> ('f, 'p) threshold_party \<Rightarrow> bytes
    \<Rightarrow> 'p group_key \<Rightarrow> 'p \<Rightarrow> 'f list \<Rightarrow> custody_error + 'f partial_sig" where
  "partial_sign sha g p message gkey aggregated_r signing_set =
     rbind (ok_or (tp_nonce p) CusSigning) (\<lambda>nonce.
     let challenge = challenge_scalar sha g aggregated_r (gk_public gkey) message;
         lambda = lagrange_coefficient signing_set (sh_x (tp_share p))
     in Inr \<lparr>ps_index = sh_x (tp_share p), ps_s = nonce + challenge * lambda * sh_y (tp_share p)\<rparr>)"

definition verify_commitments :: "(bytes \<Rightarrow> bytes) \<Rightarrow> ('f, 'p) group_ops \<Rightarrow> 'f nonce_commitment list
    \<Rightarrow> ('f, 'p) nonce_reveal list \<Rightarrow> bool" where
  "verify_commitments sha g commitments reveals =
     (if length commitments \<noteq> length reveals then False
      else list_all (\<lambda>reveal.
             case find (\<lambda>c. nc_index c = nr_index reveal) commitments of
               None \<Rightarrow> False
             | Some c \<Rightarrow> nc_commitment c = hash_commitment sha g (nr_point reveal)) reveals)"

definition aggregated_nonce :: "('f, 'p) group_ops \<Rightarrow> ('f, 'p) nonce_reveal list \<Rightarrow> 'p" where
  "aggregated_nonce g reveals = foldl (\<lambda>acc r. gr_add g acc (nr_point r)) (gr_identity g) reveals"

definition aggregate :: "('f::field, 'p) group_ops \<Rightarrow> ('f, 'p) nonce_reveal list \<Rightarrow> 'f partial_sig list
    \<Rightarrow> ('f, 'p) threshold_signature" where
  "aggregate g reveals partials =
     \<lparr>ts_r = aggregated_nonce g reveals, ts_s = foldl (\<lambda>acc p. acc + ps_s p) 0 partials\<rparr>"

definition threshold_verify :: "(bytes \<Rightarrow> bytes) \<Rightarrow> ('f, 'p) group_ops \<Rightarrow> 'p group_key \<Rightarrow> bytes
    \<Rightarrow> ('f, 'p) threshold_signature \<Rightarrow> bool" where
  "threshold_verify sha g gkey message signature =
     (let challenge = challenge_scalar sha g (ts_r signature) (gk_public gkey) message in
      gr_mul g (gr_base g) (ts_s signature) = gr_add g (ts_r signature) (gr_mul g (gk_public gkey) challenge))"

section \<open>Signing by reconstruction\<close>

definition recon_public_key :: "('f::field, 'p) group_ops \<Rightarrow> 'f share list \<Rightarrow> nat \<Rightarrow> custody_error + bytes" where
  "recon_public_key g shares threshold =
     (if length shares < threshold then Inl CusInsufficientShares
      else let secret = shamir_reconstruct shares;
               bs = gr_encode g (gr_mul g (gr_base g) secret)
           in if length bs \<noteq> 33 then Inl BadShare else Inr bs)"

definition recon_sign_prehash :: "('k, 'v, 's) ecdsa_ops \<Rightarrow> ('f::field, 'p) group_ops \<Rightarrow> 'f share list \<Rightarrow> nat \<Rightarrow> bytes
    \<Rightarrow> custody_error + bytes" where
  "recon_sign_prehash ds g shares threshold prehash =
     (if length shares < threshold then Inl CusInsufficientShares
      else let secret = shamir_reconstruct shares;
               private_key = sc_encode g secret
           in map_err (\<lambda>_. CusSigning) (sign_prehash_der ds private_key prehash))"

section \<open>Attribution of a wrong final share\<close>

record ('f, 'p) share_evidence =
  se_k_commitment :: 'p
  se_sigma_commitment :: 'p
  se_s_share :: 'f

definition evidence_from_shares :: "('f::field, 'p) group_ops \<Rightarrow> 'f \<Rightarrow> 'f \<Rightarrow> 'f \<Rightarrow> 'f \<Rightarrow> ('f, 'p) share_evidence" where
  "evidence_from_shares g k_share sigma_share m r =
     \<lparr>se_k_commitment = gr_mul g (gr_base g) k_share, se_sigma_commitment = gr_mul g (gr_base g) sigma_share,
      se_s_share = m * k_share + r * sigma_share\<rparr>"

datatype type7_outcome = Type7Consistent | Faulty nat

fun final_shares_loop :: "('f, 'p) group_ops \<Rightarrow> 'f \<Rightarrow> 'f \<Rightarrow> (nat \<times> ('f, 'p) share_evidence) list \<Rightarrow> type7_outcome" where
  "final_shares_loop g m r [] = Type7Consistent"
| "final_shares_loop g m r ((index, party) # rest) =
     (let claimed = gr_mul g (gr_base g) (se_s_share party);
          expected = gr_add g (gr_mul g (se_k_commitment party) m) (gr_mul g (se_sigma_commitment party) r)
      in if claimed \<noteq> expected then Faulty index else final_shares_loop g m r rest)"

definition verify_final_shares :: "('f, 'p) group_ops \<Rightarrow> ('f, 'p) share_evidence list \<Rightarrow> 'f \<Rightarrow> 'f \<Rightarrow> type7_outcome" where
  "verify_final_shares g evidence m r = final_shares_loop g m r (enumerate 0 evidence)"

section \<open>A run of the signing protocol\<close>

text \<open>The rounds as the parties follow them: everybody commits, then reveals, then signs for the set
  of all of them.\<close>

fun commit_all :: "rng \<Rightarrow> (bytes \<Rightarrow> bytes) \<Rightarrow> ('f::field, 'p) group_ops \<Rightarrow> ('f, 'p) threshold_party list
    \<Rightarrow> ('f nonce_commitment list \<times> ('f, 'p) threshold_party list) cus_draw" where
  "commit_all rand sha g [] i = (Inr ([], []), i)"
| "commit_all rand sha g (p # ps) i =
     (case party_commit rand sha g (p, i) of
        (Inl e, (q, j)) \<Rightarrow> (Inl e, j)
      | (Inr c, (q, j)) \<Rightarrow>
          (case commit_all rand sha g ps j of
             (Inl e, k) \<Rightarrow> (Inl e, k)
           | (Inr (cs, qs), k) \<Rightarrow> (Inr (c # cs, q # qs), k)))"

fun each :: "('a \<Rightarrow> 'e + 'b) \<Rightarrow> 'a list \<Rightarrow> 'e + 'b list" where
  "each f [] = Inr []"
| "each f (x # xs) = rbind (f x) (\<lambda>y. rbind (each f xs) (\<lambda>ys. Inr (y # ys)))"

definition signing_run :: "rng \<Rightarrow> (bytes \<Rightarrow> bytes) \<Rightarrow> ('f::field, 'p) group_ops \<Rightarrow> 'p group_key \<Rightarrow> bytes
    \<Rightarrow> ('f, 'p) threshold_party list
    \<Rightarrow> ('f nonce_commitment list \<times> ('f, 'p) nonce_reveal list \<times> ('f, 'p) threshold_signature) cus_draw" where
  "signing_run rand sha g gkey message parties =
     op_bind (commit_all rand sha g parties) (\<lambda>(commitments, parties).
     op_lift (
     rbind (each party_reveal parties) (\<lambda>reveals.
     let signing_set = map (\<lambda>p. sh_x (tp_share p)) parties;
         r = aggregated_nonce g reveals
     in rbind (each (\<lambda>p. partial_sign sha g p message gkey r signing_set) parties) (\<lambda>partials.
        Inr (commitments, reveals, aggregate g reveals partials)))))"

section \<open>Reconstruction is interpolation\<close>

lemma weight_products_eq:
  "weight_products j x L num den =
     (num * prod_list (map (\<lambda>(m, s). sh_x s) (filter (\<lambda>(m, s). m \<noteq> j) L)),
      den * prod_list (map (\<lambda>(m, s). sh_x s - x) (filter (\<lambda>(m, s). m \<noteq> j) L)))"
  by (induction j x L num den rule: weight_products.induct) (simp_all add: mult.assoc)

lemma weight_products_shares:
  assumes "j < length shares" "distinct (map sh_x shares)"
  obtains num den where "weight_products j (sh_x (shares ! j)) (enumerate 0 shares) 1 1 = (num, den)"
    "scalar_invert den = Some (inverse den)"
    "num * inverse den = lagrange_weight (set (map sh_x shares)) (sh_x (shares ! j))"
proof -
  let ?xs = "map sh_x shares" and ?x = "sh_x (shares ! j)"
  have o: "map (\<lambda>(m, s). f s) (filter (\<lambda>(m, s). m \<noteq> j) (enumerate 0 shares)) = map f (others j shares)"
    for f :: "'a share \<Rightarrow> 'a"
    by (simp add: others_def comp_def case_prod_unfold)
  define num where "num = prod_list (others j ?xs)"
  define den where "den = prod_list (map (\<lambda>m. m - ?x) (others j ?xs))"
  have w: "weight_products j ?x (enumerate 0 shares) 1 1 = (num, den)"
    unfolding weight_products_eq o [of sh_x] o [of "\<lambda>s. sh_x s - ?x"] num_def den_def
    by (simp add: map_others [symmetric] comp_def)
  have "?x \<notin> set (others j ?xs)"
    using others_distinct(2) [of j ?xs] assms by simp
  then have "den \<noteq> 0"
    by (auto simp: den_def prod_list_zero_iff)
  then have "scalar_invert den = Some (inverse den)"
    by (simp add: scalar_invert_def)
  moreover have "num * inverse den = lagrange_weight (set ?xs) ?x"
    using lagrange_weight_list [of j ?xs] assms by (simp add: num_def den_def)
  ultimately show thesis by (rule that [OF w])
qed

lemma shamir_loop_sum:
  assumes "distinct (map sh_x shares)" "\<forall>j \<in> set js. j < length shares"
  shows "shamir_loop shares (map (\<lambda>j. (j, shares ! j)) js) acc =
    acc + (\<Sum>j\<leftarrow>js. sh_y (shares ! j) * lagrange_weight (set (map sh_x shares)) (sh_x (shares ! j)))"
  using assms(2)
proof (induction js arbitrary: acc)
  case (Cons j js)
  then obtain num den where "weight_products j (sh_x (shares ! j)) (enumerate 0 shares) 1 1 = (num, den)"
    "scalar_invert den = Some (inverse den)"
    "num * inverse den = lagrange_weight (set (map sh_x shares)) (sh_x (shares ! j))"
    using weight_products_shares [OF _ assms(1), of j] by auto
  then show ?case using Cons by (simp add: mult.assoc add.assoc)
qed simp

lemma shamir_reconstruct_sum:
  assumes "distinct (map sh_x shares)"
  shows "shamir_reconstruct shares =
    (\<Sum>s\<leftarrow>shares. sh_y s * lagrange_weight (set (map sh_x shares)) (sh_x s))"
proof -
  have "shamir_reconstruct shares =
    (\<Sum>j\<leftarrow>[0..<length shares]. sh_y (shares ! j) * lagrange_weight (set (map sh_x shares)) (sh_x (shares ! j)))"
    using shamir_loop_sum [OF assms, of "[0..<length shares]" 0] by (simp add: shamir_reconstruct_def enumerate_nth)
  also have "\<dots> = (\<Sum>s\<leftarrow>map (\<lambda>j. shares ! j) [0..<length shares]. sh_y s * lagrange_weight (set (map sh_x shares)) (sh_x s))"
    by (simp add: comp_def)
  finally show ?thesis by (simp only: map_nth)
qed

lemma lagrange_coefficient_weight:
  assumes "distinct xs"
  shows "lagrange_coefficient xs x = lagrange_weight (set xs) x"
proof -
  have products: "coefficient_products xs x num den =
      (num * prod_list (filter (\<lambda>m. m \<noteq> x) xs), den * prod_list (map (\<lambda>m. m - x) (filter (\<lambda>m. m \<noteq> x) xs)))" for num den
    by (induction xs x num den rule: coefficient_products.induct) (simp_all add: mult.assoc)
  have d: "distinct (filter (\<lambda>m. m \<noteq> x) xs)" and set: "set (filter (\<lambda>m. m \<noteq> x) xs) = set xs - {x}"
    using assms by auto
  have p: "prod_list (map f (filter (\<lambda>m. m \<noteq> x) xs)) = (\<Prod>m \<in> set xs - {x}. f m)" for f :: "'a \<Rightarrow> 'a"
    using prod.distinct_set_conv_list [OF d, of f] set by simp
  have "(\<Prod>m \<in> set xs - {x}. m - x) \<noteq> 0"
    by simp
  then show ?thesis
    using p [of "\<lambda>m. m"] p [of "\<lambda>m. m - x"]
    by (simp add: lagrange_coefficient_def products scalar_invert_def unwrap_or_def lagrange_weight_def)
qed

lemma draw_coeffs_ok:
  "draw_coeffs rand g n i = (Inr cs, j) \<Longrightarrow> length cs = n \<and> 0 \<notin> set cs"
proof (induction n arbitrary: i cs j)
  case (Suc n)
  have nz: "scalar_loop rand g k i = (Inr c, j) \<Longrightarrow> c \<noteq> 0" for k i c j
    by (induction k arbitrary: i) (auto simp: op_fail_def op_return_def split: option.splits if_splits elim!: op_bind_okE)
  from Suc.prems obtain c l ds m where "random_scalar rand g i = (Inr c, l)" "draw_coeffs rand g n l = (Inr ds, m)" "cs = c # ds"
    by (auto simp: op_return_def elim!: op_bind_okE)
  with Suc.IH nz show ?case by (auto simp: random_scalar_def)
qed (auto simp: op_return_def)

lemma shamir_split_ok:
  assumes "shamir_split rand g secret t n i = (Inr shares, j)"
  obtains tail where "length tail = t - 1" "0 \<notin> set tail" "0 < t" "t \<le> n"
    "shares = map (\<lambda>k. \<lparr>sh_x = of_nat k, sh_y = poly_eval (secret # tail) (of_nat k)\<rparr>) [1..<Suc n]"
proof -
  from assms obtain tail k where "draw_coeffs rand g (t - 1) i = (Inr tail, k)" "0 < t" "t \<le> n"
    "shares = map (\<lambda>k. \<lparr>sh_x = of_nat k, sh_y = poly_eval (secret # tail) (of_nat k)\<rparr>) [1..<Suc n]"
    by (auto simp: shamir_split_def op_fail_def op_return_def Let_def scalar_eval_def horner_poly_eval
        split: if_splits elim!: op_bind_okE)
  with draw_coeffs_ok that show thesis by blast
qed

lemma split_interpolates:
  fixes secret :: "'f::field"
  assumes "shamir_split rand g secret t n i = (Inr shares, j)"
    and "distinct sub" "set sub \<subseteq> set shares" "t \<le> length sub"
  shows "distinct (map sh_x sub)"
    and "(\<Sum>s\<leftarrow>sub. sh_y s * lagrange_weight (set (map sh_x sub)) (sh_x s)) = secret"
proof -
  obtain tail where tail: "length tail = t - 1" "0 < t"
    "shares = map (\<lambda>k. \<lparr>sh_x = of_nat k, sh_y = poly_eval (secret # tail) (of_nat k)\<rparr>) [1..<Suc n]"
    using shamir_split_ok [OF assms(1)] by metis
  let ?p = "poly_eval (secret # tail)"
  have y: "sh_y s = ?p (sh_x s)" if "s \<in> set sub" for s
    using that assms(3) unfolding tail(3) by auto
  have inj: "inj_on sh_x (set sub)"
    using y by (intro inj_onI share.equality) auto
  then show d: "distinct (map sh_x sub)"
    using assms(2) by (simp add: distinct_map)
  have "(\<Sum>s\<leftarrow>sub. sh_y s * lagrange_weight (set (map sh_x sub)) (sh_x s)) =
      (\<Sum>x\<leftarrow>map sh_x sub. ?p x * lagrange_weight (set (map sh_x sub)) x)"
    using y by (simp only: map_map comp_def) (rule arg_cong [of _ _ sum_list], rule map_cong, simp_all)
  also have "\<dots> = lagrange_zero (set (map sh_x sub)) ?p"
    unfolding lagrange_zero_def using d by (simp only: sum.distinct_set_conv_list)
  also have "\<dots> = ?p 0"
  proof (rule lagrange_interpolation)
    show "length (secret # tail) \<le> card (set (map sh_x sub))"
      using distinct_card [OF d] tail(1,2) assms(4) by simp
    show "set (map sh_x sub) \<noteq> {}" using tail(2) assms(4) by auto
  qed simp
  also have "\<dots> = secret" by simp
  finally show "(\<Sum>s\<leftarrow>sub. sh_y s * lagrange_weight (set (map sh_x sub)) (sh_x s)) = secret" .
qed

section \<open>The rounds\<close>

definition committed :: "('f::field, 'p) group_ops \<Rightarrow> ('f, 'p) threshold_party \<Rightarrow> bool" where
  "committed g q \<longleftrightarrow> (\<exists>k. tp_nonce q = Some k \<and> tp_nonce_point q = Some (gr_mul g (gr_base g) k))"

lemma scalar_loop_error: "scalar_loop rand g n i = (Inl e, j) \<Longrightarrow> e = CusRandom"
  by (induction n arbitrary: i)
    (auto simp: op_fail_def op_bind_def op_return_def cus_fill_def random_fill_def map_err_def
      split: option.splits if_splits prod.splits sum.splits)

lemma commit_all_error: "commit_all rand sha g ps i = (Inl e, j) \<Longrightarrow> e = CusRandom"
proof (induction ps arbitrary: i)
  case (Cons p ps)
  then show ?case
    by (auto simp: party_commit_def random_scalar_def Let_def split: prod.splits sum.splits dest: scalar_loop_error)
qed simp

lemma commit_all_ok:
  assumes "commit_all rand sha g ps i = (Inr (cs, qs), j)"
  shows "map tp_share qs = map tp_share ps \<and> (\<forall>q \<in> set qs. committed g q) \<and>
    cs = map (\<lambda>q. \<lparr>nc_index = sh_x (tp_share q), nc_commitment = hash_commitment sha g (the (tp_nonce_point q))\<rparr>) qs"
  using assms
proof (induction ps arbitrary: i cs qs j)
  case (Cons p ps)
  then obtain c q k ds rs where c: "party_commit rand sha g (p, i) = (Inr c, (q, k))"
    and r: "commit_all rand sha g ps k = (Inr (ds, rs), j)" and eq: "cs = c # ds" "qs = q # rs"
    by (auto split: prod.splits sum.splits)
  have "tp_share q = tp_share p" "committed g q"
    "c = \<lparr>nc_index = sh_x (tp_share q), nc_commitment = hash_commitment sha g (the (tp_nonce_point q))\<rparr>"
    using c by (auto simp: party_commit_def committed_def Let_def split: prod.splits sum.splits)
  with Cons.IH [OF r] eq show ?case by simp
qed simp

lemma each_map: "(\<And>x. x \<in> set xs \<Longrightarrow> f x = Inr (h x)) \<Longrightarrow> each f xs = Inr (map h xs)"
  by (induction xs) (simp_all add: rbind_def)

lemma reveal_committed:
  "committed g q \<Longrightarrow> party_reveal q =
     Inr \<lparr>nr_index = sh_x (tp_share q), nr_point = gr_mul g (gr_base g) (the (tp_nonce q))\<rparr>"
  by (auto simp: committed_def party_reveal_def ok_or_def rbind_def)

lemma aggregated_nonce_sum:
  assumes "group_law g"
  shows "aggregated_nonce g (map (\<lambda>q. \<lparr>nr_index = x q, nr_point = gr_mul g (gr_base g) (k q)\<rparr>) qs) =
    gr_mul g (gr_base g) (\<Sum>q\<leftarrow>qs. k q)"
proof -
  have add: "gr_add g (gr_mul g (gr_base g) a) (gr_mul g (gr_base g) b) = gr_mul g (gr_base g) (a + b)" for a b
    using assms by (simp add: group_law_def)
  have "foldl (\<lambda>acc r. gr_add g acc (nr_point r)) (gr_mul g (gr_base g) a)
      (map (\<lambda>q. \<lparr>nr_index = x q, nr_point = gr_mul g (gr_base g) (k q)\<rparr>) qs) =
    gr_mul g (gr_base g) (a + (\<Sum>q\<leftarrow>qs. k q))" for a
    by (induction qs arbitrary: a) (simp_all add: add add.assoc)
  from this [of 0] show ?thesis
    using assms by (simp add: aggregated_nonce_def group_law_def)
qed

lemma foldl_add_sum: "foldl (\<lambda>acc p. acc + f p) (a :: 'f::field) ps = a + (\<Sum>p\<leftarrow>ps. f p)"
  by (induction ps arbitrary: a) (simp_all add: add.assoc)

lemma verify_commitments_own:
  assumes "distinct (map x qs)"
  shows "verify_commitments sha g
    (map (\<lambda>q. \<lparr>nc_index = x q, nc_commitment = hash_commitment sha g (r q)\<rparr>) qs)
    (map (\<lambda>q. \<lparr>nr_index = x q, nr_point = r q\<rparr>) qs)"
proof -
  have "find (\<lambda>c. nc_index c = x q) (map (\<lambda>q. \<lparr>nc_index = x q, nc_commitment = hash_commitment sha g (r q)\<rparr>) qs) =
      Some \<lparr>nc_index = x q, nc_commitment = hash_commitment sha g (r q)\<rparr>" if "q \<in> set qs" for q
    using assms that by (induction qs) auto
  then show ?thesis
    by (simp add: verify_commitments_def list_all_iff)
qed

lemma signature_equation:
  assumes "group_law g" "gkey = gr_mul g (gr_base g) secret"
  shows "gr_mul g (gr_base g) (ks + e * secret) = gr_add g (gr_mul g (gr_base g) ks) (gr_mul g gkey e)"
  using assms by (simp add: group_law_def mult.commute [of e])

lemma signing_run_verifies:
  fixes sub :: "'f::field share list"
  assumes law: "group_law g" and key: "gk_public gkey = gr_mul g (gr_base g) secret"
    and d: "distinct (map sh_x sub)"
    and secret: "(\<Sum>s\<leftarrow>sub. sh_y s * lagrange_weight (set (map sh_x sub)) (sh_x s)) = secret"
    and run: "signing_run rand sha g gkey message (map party_new sub) k = (Inr (cs, rs, sig), l)"
  shows "verify_commitments sha g cs rs \<and> threshold_verify sha g gkey message sig"
proof -
  obtain qs where com: "commit_all rand sha g (map party_new sub) k = (Inr (cs, qs), l)"
    using run by (auto simp: signing_run_def op_lift_def rbind_eq_Inr Let_def elim!: op_bind_okE)
  let ?x = "\<lambda>q. sh_x (tp_share q)" and ?k = "\<lambda>q. the (tp_nonce q)"
  let ?point = "\<lambda>q. gr_mul g (gr_base g) (?k q)"
  have qs: "map tp_share qs = sub" "\<forall>q \<in> set qs. committed g q"
    "cs = map (\<lambda>q. \<lparr>nc_index = ?x q, nc_commitment = hash_commitment sha g (the (tp_nonce_point q))\<rparr>) qs"
    using commit_all_ok [OF com] by (simp_all add: comp_def party_new_def)
  have xs: "map ?x qs = map sh_x sub" unfolding qs(1) [symmetric] by simp
  have rv: "each party_reveal qs = Inr (map (\<lambda>q. \<lparr>nr_index = ?x q, nr_point = ?point q\<rparr>) qs)" (is "_ = Inr ?rs")
    by (rule each_map, rule reveal_committed) (use qs(2) in blast)
  define R where "R = aggregated_nonce g ?rs"
  define e where "e = challenge_scalar sha g R (gk_public gkey) message"
  have ps: "each (\<lambda>p. partial_sign sha g p message gkey R (map ?x qs)) qs =
      Inr (map (\<lambda>q. \<lparr>ps_index = ?x q, ps_s = ?k q + e * lagrange_coefficient (map ?x qs) (?x q) * sh_y (tp_share q)\<rparr>) qs)"
    (is "_ = Inr ?ps")
    by (rule each_map) (use qs(2) in \<open>auto simp: committed_def partial_sign_def ok_or_def rbind_def e_def Let_def\<close>)
  have "(\<Sum>q\<leftarrow>qs. e * lagrange_coefficient (map ?x qs) (?x q) * sh_y (tp_share q)) =
      (\<Sum>s\<leftarrow>map tp_share qs. e * (sh_y s * lagrange_weight (set (map sh_x sub)) (sh_x s)))"
    using d by (simp add: xs lagrange_coefficient_weight comp_def ac_simps)
  also have "\<dots> = e * secret"
    unfolding qs(1) sum_list_const_mult secret ..
  finally have s: "ts_s (aggregate g ?rs ?ps) = (\<Sum>q\<leftarrow>qs. ?k q) + e * secret"
    by (simp add: aggregate_def foldl_add_sum comp_def sum_list_addf)
  have r: "ts_r (aggregate g ?rs ?ps) = R"
    by (simp add: aggregate_def R_def)
  have R: "R = gr_mul g (gr_base g) (\<Sum>q\<leftarrow>qs. ?k q)"
    unfolding R_def by (rule aggregated_nonce_sum [OF law])
  have "gr_mul g (gr_base g) ((\<Sum>q\<leftarrow>qs. ?k q) + e * secret) = gr_add g R (gr_mul g (gk_public gkey) e)"
    unfolding R by (rule signature_equation [OF law key])
  then have "threshold_verify sha g gkey message (aggregate g ?rs ?ps)"
    unfolding threshold_verify_def Let_def r s e_def [symmetric] .
  moreover have "verify_commitments sha g cs ?rs"
  proof -
    have "cs = map (\<lambda>q. \<lparr>nc_index = ?x q, nc_commitment = hash_commitment sha g (?point q)\<rparr>) qs"
      using qs(2) unfolding qs(3) by (intro map_cong) (auto simp: committed_def)
    then show ?thesis using verify_commitments_own [of ?x qs sha g ?point] d xs by simp
  qed
  moreover have "rs = ?rs" "sig = aggregate g ?rs ?ps"
    using run com rv ps by (auto simp: signing_run_def op_bind_def op_lift_def rbind_def R_def Let_def)
  ultimately show ?thesis by simp
qed

lemma signing_run_error:
  assumes "signing_run rand sha g gkey message parties k = (Inl e, l)"
  shows "e = CusRandom"
proof (cases "commit_all rand sha g parties k")
  case (Pair r j)
  show ?thesis
  proof (cases r)
    case (Inl e')
    then show ?thesis using assms Pair commit_all_error by (auto simp: signing_run_def op_bind_def)
  next
    case (Inr p)
    obtain cs qs where p: "p = (cs, qs)" by (cases p)
    then have qs: "\<forall>q \<in> set qs. committed g q"
      using commit_all_ok Pair Inr by blast
    have rv: "each party_reveal qs = Inr (map (\<lambda>q. \<lparr>nr_index = sh_x (tp_share q), nr_point = gr_mul g (gr_base g) (the (tp_nonce q))\<rparr>) qs)"
      by (rule each_map, rule reveal_committed) (use qs in blast)
    have "each (\<lambda>q. partial_sign sha g q message gkey R X) qs = Inr (map (\<lambda>q. \<lparr>ps_index = sh_x (tp_share q),
        ps_s = the (tp_nonce q) + challenge_scalar sha g R (gk_public gkey) message *
          lagrange_coefficient X (sh_x (tp_share q)) * sh_y (tp_share q)\<rparr>) qs)" for R X
      by (rule each_map) (use qs in \<open>auto simp: committed_def partial_sign_def ok_or_def rbind_def Let_def\<close>)
    with rv assms Pair Inr p show ?thesis
      by (simp add: signing_run_def op_bind_def op_lift_def rbind_def Let_def)
  qed
qed

lemma keygen_ok:
  assumes "keygen rand g t n i = (Inr (gkey, shares), j)"
  obtains secret k where "gk_public gkey = gr_mul g (gr_base g) secret"
    "shamir_split rand g secret t n k = (Inr shares, j)"
  using assms by (auto simp: keygen_def op_return_def Let_def elim!: op_bind_okE)

section \<open>An instance of the parameters\<close>

text \<open>The rational numbers acting on themselves.\<close>

definition toy_points :: "(rat, rat) group_ops" where
  "toy_points = \<lparr>gr_identity = 0, gr_base = 1, gr_add = (+), gr_mul = (*), gr_encode = (\<lambda>_. replicate 33 2),
     sc_decode = (\<lambda>bs. Some (1 + of_nat (unat (hd bs)))), sc_encode = (\<lambda>_. replicate 32 7),
     sc_reduce = (\<lambda>bs. of_nat (length bs))\<rparr>"

lemma toy_points_law: "group_law toy_points"
  by (simp add: group_law_def toy_points_def distrib_left mult.assoc)

definition toy_share :: "rat \<Rightarrow> rat share" where
  "toy_share x = \<lparr>sh_x = x, sh_y = 1 + 2 * x\<rparr>"

lemma toy_scalar: "i < 256 \<Longrightarrow> random_scalar toy_rand toy_points i = (Inr (1 + of_nat i), Suc i)"
proof -
  assume "i < 256"
  then have "unat (word_of_nat i :: byte) = i" by (simp add: byte_unat_of_nat)
  then have u: "(unsigned (word_of_nat i :: byte) :: rat) = of_nat i" by (metis of_nat_unat)
  have nz: "1 + of_nat i \<noteq> (0 :: rat)" using of_nat_0_le_iff [where 'a = rat, of i] by linarith
  have "scalar_loop toy_rand toy_points (Suc 15) i = (Inr (1 + of_nat i), Suc i)"
    unfolding scalar_loop.simps(2)
    by (simp add: op_bind_def cus_fill_def random_fill_def toy_rand_def map_err_def toy_points_def u nz op_return_def
        del: scalar_loop.simps)
  moreover have "Suc 15 = 16" by simp
  ultimately show ?thesis unfolding random_scalar_def by (simp only:)
qed

lemma toy_split: "shamir_split toy_rand toy_points 1 2 3 1 = (Inr (map toy_share [1, 2, 3]), 2)"
proof -
  have "[1..<Suc 3] = [1, 2, 3 :: nat]" by (simp add: upt_rec)
  moreover have "draw_coeffs toy_rand toy_points 1 1 = (Inr [2], 2)"
    using toy_scalar [of 1] by (simp add: op_bind_def op_return_def)
  ultimately show ?thesis
    by (simp add: shamir_split_def op_bind_def op_return_def scalar_eval_def toy_share_def Let_def)
qed

lemma toy_keygen: "keygen toy_rand toy_points 2 3 0 = (Inr (\<lparr>gk_public = 1\<rparr>, map toy_share [1, 2, 3]), 2)"
  using toy_scalar [of 0] toy_split by (simp add: keygen_def op_bind_def op_return_def toy_points_def Let_def)

section \<open>Properties\<close>

text \<open>
  C7 [threshold_signature_verifies] Any threshold many parties with distinct shares of a generated key
  that follow the three rounds produce a signature that verifies under the group key, with every
  revealed nonce matching its commitment, although nobody computes the key; a run can only fail when
  the generator of the operating system does.
\<close>

theorem threshold_signature_verifies:
  assumes "group_law g" "keygen rand g t n i = (Inr (gkey, shares), j)"
    and "distinct sub" "set sub \<subseteq> set shares" "t \<le> length sub"
  shows "case signing_run rand sha g gkey message (map party_new sub) k of
      (Inl e, _) \<Rightarrow> e = CusRandom
    | (Inr (cs, rs, sig), _) \<Rightarrow> verify_commitments sha g cs rs \<and> threshold_verify sha g gkey message sig"
proof -
  obtain secret m where key: "gk_public gkey = gr_mul g (gr_base g) secret"
    and split: "shamir_split rand g secret t n m = (Inr shares, j)"
    using keygen_ok [OF assms(2)] by blast
  note interp = split_interpolates [OF split assms(3-5)]
  show ?thesis
    using signing_run_error [of rand sha g gkey message "map party_new sub" k]
      signing_run_verifies [OF assms(1) key interp, of rand sha message k]
    by (auto split: prod.splits sum.splits)
qed

theorem threshold_signature_verifies_witness:
  "case signing_run toy_rand len_digest toy_points \<lparr>gk_public = 1\<rparr> [5] (map party_new [toy_share 3, toy_share 1]) 2 of
     (Inl e, _) \<Rightarrow> e = CusRandom
   | (Inr (cs, rs, sig), _) \<Rightarrow>
       verify_commitments len_digest toy_points cs rs \<and> threshold_verify len_digest toy_points \<lparr>gk_public = 1\<rparr> [5] sig"
  by (rule threshold_signature_verifies [OF toy_points_law toy_keygen]) (simp_all add: toy_share_def)

text \<open>
  The fallback agrees with the group key: any threshold many distinct
  shares reconstruct the one secret whose point is the group key, so the public key computed from
  them is the group's and the signature is the one made with that secret; fewer are refused.
\<close>

lemma reconstruction_recovers_key:
  assumes "keygen rand g t n i = (Inr (gkey, shares), j)"
  shows "\<exists>secret. gk_public gkey = gr_mul g (gr_base g) secret \<and>
    (\<forall>sub. distinct sub \<longrightarrow> set sub \<subseteq> set shares \<longrightarrow>
       (if t \<le> length sub
        then shamir_reconstruct sub = secret \<and>
          recon_public_key g sub t = (if length (gr_encode g (gk_public gkey)) = 33
            then Inr (public_compressed g gkey) else Inl BadShare) \<and>
          recon_sign_prehash ds g sub t prehash =
            map_err (\<lambda>_. CusSigning) (sign_prehash_der ds (sc_encode g secret) prehash)
        else recon_public_key g sub t = Inl CusInsufficientShares \<and>
          recon_sign_prehash ds g sub t prehash = Inl CusInsufficientShares))"
proof -
  obtain secret m where key: "gk_public gkey = gr_mul g (gr_base g) secret"
    and split: "shamir_split rand g secret t n m = (Inr shares, j)"
    using keygen_ok [OF assms] by blast
  have "shamir_reconstruct sub = secret" if "distinct sub" "set sub \<subseteq> set shares" "t \<le> length sub" for sub
    using split_interpolates [OF split that] shamir_reconstruct_sum by metis
  with key show ?thesis
    by (intro exI [of _ secret])
      (simp add: recon_public_key_def recon_sign_prehash_def public_compressed_def custody_encode_point_def Let_def)
qed

text \<open>
  Because coefficients are drawn among the nonzero scalars only, a share of a
  two-party split does say something about the secret: it is never equal to it.
\<close>

lemma share_excludes_secret:
  assumes "shamir_split rand g secret 2 n i = (Inr shares, j)"
    and "\<forall>k \<in> {1..n}. (of_nat k :: 'f::field) \<noteq> 0" and "(s :: 'f share) \<in> set shares"
  shows "sh_y s \<noteq> secret"
proof -
  obtain tail where tail: "length tail = 2 - 1" "0 \<notin> set tail"
    "shares = map (\<lambda>k. \<lparr>sh_x = of_nat k, sh_y = poly_eval (secret # tail) (of_nat k)\<rparr>) [1..<Suc n]"
    using shamir_split_ok [OF assms(1)] by metis
  obtain c where c: "tail = [c]" "c \<noteq> 0"
    using tail(1,2) by (cases tail) auto
  obtain k where k: "k \<in> {1..<Suc n}" "s = \<lparr>sh_x = of_nat k, sh_y = poly_eval (secret # tail) (of_nat k)\<rparr>"
    using assms(3) unfolding tail(3) set_map set_upt by (rule imageE)
  have "(of_nat k :: 'f) \<noteq> 0"
    using assms(2) k(1) by auto
  with c k(2) show ?thesis by simp
qed

text \<open>
  If the published commitments are honest, the check of the final shares blames
  the first party whose share is not \<open>m * k + r * sigma\<close>, and nobody exactly when all shares are right.
\<close>

lemma type7_attribution:
  assumes "group_law g" "\<forall>a b. gr_mul g (gr_base g) a = gr_mul g (gr_base g) b \<longrightarrow> a = b"
    and "evidence = map (\<lambda>(k, sigma, s). \<lparr>se_k_commitment = gr_mul g (gr_base g) k,
           se_sigma_commitment = gr_mul g (gr_base g) sigma, se_s_share = s\<rparr>) shares"
  shows "case verify_final_shares g evidence m r of
      Type7Consistent \<Rightarrow> list_all (\<lambda>(k, sigma, s). s = m * k + r * sigma) shares
    | Faulty i \<Rightarrow> i < length shares \<and> (case shares ! i of (k, sigma, s) \<Rightarrow> s \<noteq> m * k + r * sigma) \<and>
        list_all (\<lambda>(k, sigma, s). s = m * k + r * sigma) (take i shares)"
proof -
  have ok: "gr_mul g (gr_base g) s = gr_add g (gr_mul g (gr_mul g (gr_base g) k) m) (gr_mul g (gr_mul g (gr_base g) sigma) r)
      \<longleftrightarrow> s = m * k + r * sigma" for s k sigma
  proof -
    have "gr_add g (gr_mul g (gr_mul g (gr_base g) k) m) (gr_mul g (gr_mul g (gr_base g) sigma) r) =
        gr_mul g (gr_base g) (k * m + sigma * r)"
      using assms(1) by (simp add: group_law_def)
    then show ?thesis using assms(2) by (auto simp: mult.commute)
  qed
  have "case final_shares_loop g m r (enumerate n (map (\<lambda>(k, sigma, s). \<lparr>se_k_commitment = gr_mul g (gr_base g) k,
           se_sigma_commitment = gr_mul g (gr_base g) sigma, se_s_share = s\<rparr>) shares)) of
      Type7Consistent \<Rightarrow> list_all (\<lambda>(k, sigma, s). s = m * k + r * sigma) shares
    | Faulty i \<Rightarrow> n \<le> i \<and> i < n + length shares \<and>
        (case shares ! (i - n) of (k, sigma, s) \<Rightarrow> s \<noteq> m * k + r * sigma) \<and>
        list_all (\<lambda>(k, sigma, s). s = m * k + r * sigma) (take (i - n) shares)" for n
  proof (induction shares arbitrary: n)
    case (Cons a shares)
    obtain k sigma s where a: "a = (k, sigma, s)" by (cases a)
    show ?case
      using Cons.IH [of "Suc n"] ok [of s k sigma]
      by (auto simp: a Let_def Suc_diff_le nth_Cons' take_Cons' split: type7_outcome.splits)
  qed simp
  from this [of 0] show ?thesis
    by (simp add: verify_final_shares_def assms(3) split: type7_outcome.splits)
qed

end
