(* ===== verification/Merkle.thy ===== *)
theory Merkle
  imports HeaderChain
begin

unbundle bit_operations_syntax

text \<open>
  Merkle roots and inclusion proofs, \<^verbatim>\<open>crates/bsv/src/merkle.rs\<close>. The root loop and the proof loop
  are translated as they are, with the bound of 64 levels. \<open>audit_path\<close> is the specification of an
  honest proof: the siblings on the way from a leaf to the root, the odd node paired with itself.
  The proofs are complete (an honest proof verifies against a chain that anchors the root, now and
  after any growth of the chain, by the contract \<open>trust_root\<close>) and binding (without a collision
  among the messages hashed, an accepted proof at a position proves the leaf at that position).
\<close>

section \<open>Nodes, levels and the root\<close>

definition MAX_TREE_HEIGHT :: nat where
  "MAX_TREE_HEIGHT = 64"

definition write_half :: "bytes \<Rightarrow> nat \<Rightarrow> bytes \<Rightarrow> bytes" where
  "write_half buf off src =
     (case checked_add off 32 of
        None \<Rightarrow> buf
      | Some e \<Rightarrow> if e \<le> length buf then take off buf @ src @ drop e buf else buf)"

definition hash_pair :: "(bytes \<Rightarrow> bytes) \<Rightarrow> hash256 \<Rightarrow> hash256 \<Rightarrow> hash256" where
  "hash_pair sha left right =
     (let buf = replicate 64 0;
          buf = write_half buf 0 (internal left);
          buf = write_half buf 32 (internal right)
      in double_sha256 sha buf)"

fun next_level :: "(bytes \<Rightarrow> bytes) \<Rightarrow> hash256 list \<Rightarrow> hash256 list" where
  "next_level sha [] = []"
| "next_level sha [l] = [hash_pair sha l l]"
| "next_level sha (l # r # rest) = hash_pair sha l r # next_level sha rest"

lemma length_next_level [simp]: "length (next_level sha level) = (length level + 1) div 2"
  by (induction sha level rule: next_level.induct) auto

function merkle_loop :: "(bytes \<Rightarrow> bytes) \<Rightarrow> nat \<Rightarrow> hash256 list \<Rightarrow> bsv_error + hash256 list" where
  "merkle_loop sha height level =
     (if 1 < length level then
        (case checked_add height 1 of
           None \<Rightarrow> Inl OutOfRange
         | Some h \<Rightarrow> if MAX_TREE_HEIGHT < h then Inl OutOfRange else merkle_loop sha h (next_level sha level))
      else Inr level)"
  by pat_completeness auto
termination
  by (relation "measure (\<lambda>(sha, height, level). length level)") auto

declare merkle_loop.simps [simp del]

definition merkle_root :: "(bytes \<Rightarrow> bytes) \<Rightarrow> hash256 list \<Rightarrow> bsv_error + hash256" where
  "merkle_root sha leaves =
     (if leaves = [] then Inl MerkleMismatch
      else rbind (merkle_loop sha 0 leaves) (\<lambda>level. ok_or (get_at level 0) MerkleMismatch))"

section \<open>Inclusion proofs\<close>

record merkle_proof =
  mp_index :: "64 word"
  mp_siblings :: "hash256 list"

fun proof_loop :: "(bytes \<Rightarrow> bytes) \<Rightarrow> hash256 \<Rightarrow> 64 word \<Rightarrow> hash256 list \<Rightarrow> hash256" where
  "proof_loop sha current index [] = current"
| "proof_loop sha current index (sibling # rest) =
     proof_loop sha (if index AND 1 = 0 then hash_pair sha current sibling else hash_pair sha sibling current)
       (drop_bit 1 index) rest"

definition compute_root_from_proof :: "(bytes \<Rightarrow> bytes) \<Rightarrow> hash256 \<Rightarrow> merkle_proof \<Rightarrow> bsv_error + hash256" where
  "compute_root_from_proof sha leaf p =
     (if MAX_TREE_HEIGHT < length (mp_siblings p) then Inl OutOfRange
      else Inr (proof_loop sha leaf (mp_index p) (mp_siblings p)))"

definition verify_against_chain ::
  "(bytes \<Rightarrow> bytes) \<Rightarrow> hash256 \<Rightarrow> merkle_proof \<Rightarrow> nat \<Rightarrow> header_chain \<Rightarrow> bsv_error + unit" where
  "verify_against_chain sha leaf p height chain =
     rbind (ok_or (merkle_root_at_height chain height) MerkleMismatch) (\<lambda>anchored.
     rbind (compute_root_from_proof sha leaf p) (\<lambda>computed.
     if computed = anchored then Inr () else Inl MerkleMismatch))"

section \<open>Specification\<close>

text \<open>The root of a level without the bound, and the honest path of a position.\<close>

function tree_root :: "(bytes \<Rightarrow> bytes) \<Rightarrow> hash256 list \<Rightarrow> hash256" where
  "tree_root sha level = (if 1 < length level then tree_root sha (next_level sha level) else hd level)"
  by pat_completeness auto
termination
  by (relation "measure (\<lambda>(sha, level). length level)") auto

definition sibling_of :: "hash256 list \<Rightarrow> nat \<Rightarrow> hash256" where
  "sibling_of level i =
     (if odd i then level ! (i - 1) else if i + 1 < length level then level ! (i + 1) else level ! i)"

function audit_path :: "(bytes \<Rightarrow> bytes) \<Rightarrow> hash256 list \<Rightarrow> nat \<Rightarrow> hash256 list" where
  "audit_path sha level i =
     (if 1 < length level then sibling_of level i # audit_path sha (next_level sha level) (i div 2) else [])"
  by pat_completeness auto
termination
  by (relation "measure (\<lambda>(sha, level, i). length level)") auto

declare tree_root.simps [simp del] audit_path.simps [simp del]

definition audit_proof :: "(bytes \<Rightarrow> bytes) \<Rightarrow> hash256 list \<Rightarrow> nat \<Rightarrow> merkle_proof" where
  "audit_proof sha leaves i = \<lparr>mp_index = word_of_nat i, mp_siblings = audit_path sha leaves i\<rparr>"

text \<open>The messages hashed while a proof is folded.\<close>

fun path_messages :: "(bytes \<Rightarrow> bytes) \<Rightarrow> hash256 \<Rightarrow> 64 word \<Rightarrow> hash256 list \<Rightarrow> bytes list" where
  "path_messages sha current index [] = []"
| "path_messages sha current index (sibling # rest) =
     (if index AND 1 = 0 then internal current @ internal sibling else internal sibling @ internal current)
     # path_messages sha (if index AND 1 = 0 then hash_pair sha current sibling else hash_pair sha sibling current)
         (drop_bit 1 index) rest"

section \<open>The root\<close>

lemma hash_pair_enc:
  assumes "wf_hash l" "wf_hash r"
  shows "hash_pair sha l r = double_sha256 sha (internal l @ internal r)"
proof -
  have "replicate 64 (0::byte) = replicate 32 0 @ replicate 32 0" by (simp flip: replicate_add)
  then show ?thesis
    using assms by (simp add: hash_pair_def write_half_def wf_hash_def usize_bound_def)
qed

lemma wf_hash_pair: "digest_len 32 sha \<Longrightarrow> wf_hash (hash_pair sha l r)"
  by (simp add: hash_pair_def)

lemma next_level_nth:
  "j < length (next_level sha level) \<Longrightarrow>
   next_level sha level ! j = hash_pair sha (level ! (2 * j)) (sibling_of level (2 * j))"
proof (induction sha level arbitrary: j rule: next_level.induct)
  case (3 sha l r rest)
  then show ?case by (cases j) (auto simp: sibling_of_def)
qed (auto simp: sibling_of_def)

lemma next_level_step:
  assumes "i < length level"
  shows "next_level sha level ! (i div 2) =
    (if even i then hash_pair sha (level ! i) (sibling_of level i)
     else hash_pair sha (sibling_of level i) (level ! i))"
proof (cases "even i")
  case True
  then have "2 * (i div 2) = i" by simp
  moreover have "i div 2 < length (next_level sha level)" using assms by simp
  ultimately show ?thesis using True next_level_nth [of "i div 2" sha level] by simp
next
  case False
  then have "2 * (i div 2) = i - 1" "i - 1 + 1 = i" by (auto elim: oddE)
  moreover have "i div 2 < length (next_level sha level)" using assms by simp
  ultimately show ?thesis
    using False assms next_level_nth [of "i div 2" sha level] by (auto simp: sibling_of_def elim!: oddE)
qed

lemma merkle_loop_root:
  "level \<noteq> [] \<Longrightarrow> length level \<le> 2 ^ k \<Longrightarrow> height + k \<le> MAX_TREE_HEIGHT \<Longrightarrow>
   merkle_loop sha height level = Inr [tree_root sha level]"
proof (induction k arbitrary: height level)
  case 0
  then obtain x where "level = [x]" by (cases level) auto
  then show ?case by (simp add: merkle_loop.simps tree_root.simps)
next
  case (Suc k)
  show ?case
  proof (cases "1 < length level")
    case True
    have ne: "next_level sha level \<noteq> []" using True by (auto dest: arg_cong [where f = length])
    have "merkle_loop sha (height + 1) (next_level sha level) = Inr [tree_root sha (next_level sha level)]"
      by (rule Suc.IH [OF ne]) (use Suc.prems in auto)
    moreover have "height + 1 < usize_bound" "\<not> MAX_TREE_HEIGHT < height + 1"
      using Suc.prems(3) by (simp_all add: usize_bound_def MAX_TREE_HEIGHT_def)
    ultimately show ?thesis
      using True by (subst merkle_loop.simps, subst tree_root.simps) simp
  next
    case False
    with Suc.prems(1) obtain x where "level = [x]" by (cases level) auto
    then show ?thesis by (simp add: merkle_loop.simps tree_root.simps)
  qed
qed

lemma merkle_root_tree:
  "leaves \<noteq> [] \<Longrightarrow> length leaves \<le> 2 ^ 64 \<Longrightarrow> merkle_root sha leaves = Inr (tree_root sha leaves)"
  using merkle_loop_root [of leaves 64 0 sha] by (simp add: merkle_root_def MAX_TREE_HEIGHT_def get_at_def)

section \<open>Honest proofs verify\<close>

lemma word_parity: "i < 2 ^ 64 \<Longrightarrow> (word_of_nat i :: 64 word) AND 1 = 0 \<longleftrightarrow> even i"
  by (simp add: and_one_eq word_unat_eq_iff unat_mod_distrib unat_of_nat even_iff_mod_2_eq_zero
      del: odd_iff_mod_2_eq_one)

lemma word_half: "i < 2 ^ 64 \<Longrightarrow> drop_bit (Suc 0) (word_of_nat i :: 64 word) = word_of_nat (i div 2)"
  by (simp add: word_unat_eq_iff unat_of_nat drop_bit_eq_div unat_div_distrib)

lemma proof_loop_audit_path:
  "i < length level \<Longrightarrow> length level \<le> 2 ^ 64 \<Longrightarrow>
   proof_loop sha (level ! i) (word_of_nat i) (audit_path sha level i) = tree_root sha level"
proof (induction sha level i rule: audit_path.induct)
  case (1 sha level i)
  show ?case
  proof (cases "1 < length level")
    case True
    have "proof_loop sha (next_level sha level ! (i div 2)) (word_of_nat (i div 2))
        (audit_path sha (next_level sha level) (i div 2)) = tree_root sha (next_level sha level)"
      by (rule "1.IH" [OF True]) (use 1 in auto)
    moreover have "i < 2 ^ 64" using 1 by simp
    ultimately show ?thesis
      using True next_level_step [OF "1.prems"(1), of sha]
      by (simp add: audit_path.simps [of sha level] tree_root.simps [of sha level] word_parity word_half)
  next
    case False
    with 1 show ?thesis by (cases level) (auto simp: audit_path.simps tree_root.simps)
  qed
qed

lemma length_audit_path: "length level \<le> 2 ^ k \<Longrightarrow> length (audit_path sha level i) \<le> k"
proof (induction k arbitrary: level i)
  case 0
  then show ?case by (simp add: audit_path.simps)
next
  case (Suc k)
  have "length (audit_path sha (next_level sha level) (i div 2)) \<le> k" by (rule Suc.IH) (use Suc in simp)
  then show ?case by (subst audit_path.simps) simp
qed

section \<open>Accepted proofs bind the leaf\<close>

lemma append_halves: "length a = length b \<Longrightarrow> a @ c = b @ d \<longleftrightarrow> a = b \<and> c = d"
  by simp

lemma proof_loop_binding:
  assumes "digest_len 32 sha" "length p = length q" "wf_hash x" "wf_hash y"
    "\<forall>h \<in> set p \<union> set q. wf_hash h"
    "collision_free sha (set (path_messages sha x i p) \<union> set (path_messages sha y i q))"
    "proof_loop sha x i p = proof_loop sha y i q"
  shows "x = y \<and> p = q"
  using assms(2-7)
proof (induction p q arbitrary: x y i rule: list_induct2)
  case (Cons s p t q)
  let ?j = "drop_bit 1 i"
  let ?x = "if i AND 1 = 0 then hash_pair sha x s else hash_pair sha s x"
  let ?y = "if i AND 1 = 0 then hash_pair sha y t else hash_pair sha t y"
  let ?m = "if i AND 1 = 0 then internal x @ internal s else internal s @ internal x"
  let ?n = "if i AND 1 = 0 then internal y @ internal t else internal t @ internal y"
  have wf: "wf_hash s" "wf_hash t" using Cons.prems(3) by auto
  have "?x = ?y \<and> p = q"
    by (rule Cons.IH)
      (use Cons.prems in \<open>auto simp: wf_hash_pair [OF assms(1)] elim!: collision_free_subset\<close>)
  moreover have "?x = double_sha256 sha ?m" "?y = double_sha256 sha ?n"
    using wf Cons.prems(1,2) by (simp_all add: hash_pair_enc)
  ultimately have "?m = ?n" and pq: "p = q"
    by (auto intro!: collision_freeD [OF _ Cons.prems(4)])
  then have "internal x = internal y \<and> internal s = internal t"
    using wf Cons.prems(1,2) by (auto simp: wf_hash_def append_halves split: if_splits)
  with pq show ?case by (auto intro: hash256.expand)
qed simp

lemma wf_next_level: "digest_len 32 sha \<Longrightarrow> h \<in> set (next_level sha level) \<Longrightarrow> wf_hash h"
  by (induction sha level rule: next_level.induct) (auto intro: wf_hash_pair)

lemma wf_sibling: "\<forall>h \<in> set level. wf_hash h \<Longrightarrow> i < length level \<Longrightarrow> wf_hash (sibling_of level i)"
  by (auto simp: sibling_of_def)

lemma wf_audit_path:
  assumes "digest_len 32 sha"
  shows "\<forall>h \<in> set level. wf_hash h \<Longrightarrow> i < length level \<Longrightarrow> h \<in> set (audit_path sha level i) \<Longrightarrow> wf_hash h"
  using assms
proof (induction sha level i rule: audit_path.induct)
  case (1 sha level i)
  show ?case
  proof (cases "1 < length level")
    case True
    with "1.prems"(3) consider "h = sibling_of level i" | "h \<in> set (audit_path sha (next_level sha level) (i div 2))"
      by (auto simp: audit_path.simps [of sha level])
    then show ?thesis
    proof cases
      case 2
      show ?thesis
        by (rule "1.IH" [OF True _ _ 2]) (use "1.prems" wf_next_level in auto)
    qed (use wf_sibling "1.prems" in auto)
  qed (use "1.prems" in \<open>simp add: audit_path.simps\<close>)
qed

lemma verify_ok_iff:
  "verify_against_chain sha leaf p height chain = Inr () \<longleftrightarrow>
     length (mp_siblings p) \<le> MAX_TREE_HEIGHT
     \<and> merkle_root_at_height chain height = Some (proof_loop sha leaf (mp_index p) (mp_siblings p))"
  by (auto simp: verify_against_chain_def compute_root_from_proof_def rbind_eq_Inr ok_or_def
      split: option.splits if_splits)

section \<open>Properties\<close>

text \<open>
  C22 [merkle_proof_complete] Honest proofs are accepted: the root computation succeeds for every
  non-empty list of at most \<open>2 ^ 64\<close> leaves, and when the chain anchors that root at a height, the
  audit path of every position verifies at that height, against this chain and against every chain
  that it grows into.
\<close>

theorem merkle_proof_complete:
  assumes "i < length leaves" and "length leaves \<le> 2 ^ 64"
    and "merkle_root sha leaves = Inr root"
    and "merkle_root_at_height chain height = Some root" and "(chain_step sha)\<^sup>*\<^sup>* chain later"
  shows "verify_against_chain sha (leaves ! i) (audit_proof sha leaves i) height later = Inr ()"
proof -
  have "leaves \<noteq> []" using assms(1) by auto
  then have "root = tree_root sha leaves" using merkle_root_tree assms(2,3) by simp
  moreover have "merkle_root_at_height later height = Some root"
    using assms(5,4) by (rule chain.stable_steps)
  ultimately show ?thesis
    using proof_loop_audit_path [OF assms(1,2)] length_audit_path [of leaves 64 sha i] assms(2)
    by (simp add: verify_ok_iff audit_proof_def MAX_TREE_HEIGHT_def)
qed

theorem merkle_proof_complete_witness:
  "\<exists>root. verify_against_chain len_digest zero_hash (audit_proof len_digest [zero_hash, zero_hash, zero_hash] 2) 7
     (pushed (ex_header zero_hash root) (chain_new 7)) = Inr ()"
proof -
  let ?l = "[zero_hash, zero_hash, zero_hash]"
  obtain root where root: "merkle_root len_digest ?l = Inr root"
    using merkle_root_tree [of ?l len_digest] by auto
  have "merkle_root_at_height (pushed (ex_header zero_hash root) (chain_new 7)) 7 = Some root"
    by (simp add: merkle_root_at_height_eq chain_new_def ex_header_def)
  from merkle_proof_complete [OF _ _ root this rtranclp.rtrancl_refl, of 2] show ?thesis by auto
qed

text \<open>
  C21 [merkle_proof_sound] Accepted proofs are true: if the anchored root is the merkle root of the
  leaves and a proof for a position of the block, as long as the tree is high, is accepted, then,
  without a collision among the messages hashed along the two paths, the proved leaf is the leaf at
  that position and the siblings are the honest ones.
\<close>

theorem merkle_proof_sound:
  assumes "digest_len 32 sha" and "\<forall>h \<in> set leaves. wf_hash h" and "wf_hash leaf"
    and "\<forall>h \<in> set (mp_siblings p). wf_hash h"
    and "i < length leaves" and "length leaves \<le> 2 ^ 64" and "mp_index p = word_of_nat i"
    and "length (mp_siblings p) = length (audit_path sha leaves i)"
    and "merkle_root sha leaves = Inr root" and "merkle_root_at_height chain height = Some root"
    and "verify_against_chain sha leaf p height chain = Inr ()"
    and "collision_free sha (set (path_messages sha leaf (word_of_nat i) (mp_siblings p))
      \<union> set (path_messages sha (leaves ! i) (word_of_nat i) (audit_path sha leaves i)))"
  shows "leaf = leaves ! i \<and> p = audit_proof sha leaves i"
proof -
  have "leaves \<noteq> []" using assms(5) by auto
  then have "root = tree_root sha leaves" using merkle_root_tree assms(6,9) by simp
  then have "proof_loop sha leaf (word_of_nat i) (mp_siblings p) =
      proof_loop sha (leaves ! i) (word_of_nat i) (audit_path sha leaves i)"
    using assms(7,10,11) proof_loop_audit_path [OF assms(5,6)] by (simp add: verify_ok_iff)
  then have "leaf = leaves ! i \<and> mp_siblings p = audit_path sha leaves i"
    by (intro proof_loop_binding [OF assms(1,8,3) _ _ assms(12)])
      (use assms(2,4,5) wf_audit_path [OF assms(1,2,5)] in auto)
  with assms(7) show ?thesis by (simp add: audit_proof_def)
qed

theorem merkle_proof_sound_witness:
  "\<exists>root. verify_against_chain len_digest (Hash256 (replicate 32 9))
       (audit_proof len_digest [zero_hash, Hash256 (replicate 32 9)] 1) 7
       (pushed (ex_header zero_hash root) (chain_new 7)) = Inr ()
     \<and> audit_proof len_digest [zero_hash, Hash256 (replicate 32 9)] 1 = \<lparr>mp_index = 1, mp_siblings = [zero_hash]\<rparr>"
proof -
  let ?x = "Hash256 (replicate 32 (9::byte))"
  let ?l = "[zero_hash, ?x]" and ?p = "\<lparr>mp_index = 1, mp_siblings = [zero_hash]\<rparr>"
  have path: "audit_path len_digest ?l 1 = [zero_hash]"
    by (simp add: audit_path.simps sibling_of_def)
  obtain root where root: "merkle_root len_digest ?l = Inr root" and tr: "root = tree_root len_digest ?l"
    using merkle_root_tree [of ?l len_digest] by auto
  let ?c = "pushed (ex_header zero_hash root) (chain_new 7)"
  have anch: "merkle_root_at_height ?c 7 = Some root"
    by (simp add: merkle_root_at_height_eq chain_new_def ex_header_def)
  have ok: "verify_against_chain len_digest ?x ?p 7 ?c = Inr ()"
    using proof_loop_audit_path [of 1 ?l len_digest] anch tr path
    by (simp add: verify_ok_iff MAX_TREE_HEIGHT_def)
  have "?x = ?l ! 1 \<and> ?p = audit_proof len_digest ?l 1"
    by (rule merkle_proof_sound [OF digest_len_digest _ _ _ _ _ _ _ root anch ok])
      (use path in \<open>simp_all add: wf_hash_def zero_hash_def from_internal_def collision_free_def\<close>)
  with ok show ?thesis by auto
qed

end
