(* ===== verification/NodeClient.thy ===== *)
theory NodeClient
  imports Merkle "HOL-Library.AList"
begin

text \<open>
  Access to a node, \<^verbatim>\<open>crates/bsv/src/nodeclient.rs\<close>: the offline client over recorded headers and
  branches, and the client that parses the untrusted responses of a transport, whose \<open>get\<close> and
  \<open>post\<close> are parameters. A \<open>str\<close> is the list of the UTF-8 encodings of its characters (\<open>utext\<close>); the
  functions of the standard library that the parsing uses (\<open>from_utf8\<close>, \<open>trim\<close>, \<open>lines\<close>,
  \<open>parse::<u64>\<close>, the decimal format) are modelled on it. The locale \<open>header_source\<close> is what header
  synchronisation relies on; both clients are instances of it.
\<close>

unbundle bit_operations_syntax

section \<open>Text\<close>

type_synonym utext = "bytes list"

definition cont :: "byte \<Rightarrow> bool" where
  "cont b \<longleftrightarrow> 0x80 \<le> b \<and> b \<le> 0xBF"

text \<open>The length of the well-formed character encoding that a byte string starts with.\<close>

fun utf8_width :: "bytes \<Rightarrow> nat option" where
  "utf8_width [] = None"
| "utf8_width (a # bs) =
     (if a \<le> 0x7F then Some 1
      else case bs of
        [] \<Rightarrow> None
      | b # cs \<Rightarrow>
          if 0xC2 \<le> a \<and> a \<le> 0xDF then (if cont b then Some 2 else None)
          else case cs of
            [] \<Rightarrow> None
          | c # ds \<Rightarrow>
              if a = 0xE0 \<and> 0xA0 \<le> b \<and> b \<le> 0xBF \<and> cont c then Some 3
              else if a = 0xED \<and> 0x80 \<le> b \<and> b \<le> 0x9F \<and> cont c then Some 3
              else if (0xE1 \<le> a \<and> a \<le> 0xEC \<or> a = 0xEE \<or> a = 0xEF) \<and> cont b \<and> cont c then Some 3
              else case ds of
                [] \<Rightarrow> None
              | d # _ \<Rightarrow>
                  if a = 0xF0 \<and> 0x90 \<le> b \<and> b \<le> 0xBF \<and> cont c \<and> cont d then Some 4
                  else if 0xF1 \<le> a \<and> a \<le> 0xF3 \<and> cont b \<and> cont c \<and> cont d then Some 4
                  else if a = 0xF4 \<and> 0x80 \<le> b \<and> b \<le> 0x8F \<and> cont c \<and> cont d then Some 4
                  else None)"

lemma utf8_width_pos: "utf8_width bs = Some n \<Longrightarrow> 0 < n"
  by (cases bs) (auto split: if_splits list.splits)

declare utf8_width.simps [simp del]

function from_utf8 :: "bytes \<Rightarrow> utext option" where
  "from_utf8 [] = Some []"
| "from_utf8 (b # bs) =
     (case utf8_width (b # bs) of
        None \<Rightarrow> None
      | Some n \<Rightarrow> map_option ((#) (take n (b # bs))) (from_utf8 (drop n (b # bs))))"
  by pat_completeness auto
termination
  by (relation "measure length") (auto dest: utf8_width_pos)

definition is_whitespace :: "bytes \<Rightarrow> bool" where
  "is_whitespace c \<longleftrightarrow>
     (case c of
        [a] \<Rightarrow> 0x09 \<le> a \<and> a \<le> 0x0D \<or> a = 0x20
      | [a, b] \<Rightarrow> a = 0xC2 \<and> (b = 0x85 \<or> b = 0xA0)
      | [a, b, d] \<Rightarrow>
          a = 0xE1 \<and> b = 0x9A \<and> d = 0x80
          \<or> a = 0xE2 \<and> b = 0x80 \<and> (0x80 \<le> d \<and> d \<le> 0x8A \<or> d = 0xA8 \<or> d = 0xA9 \<or> d = 0xAF)
          \<or> a = 0xE2 \<and> b = 0x81 \<and> d = 0x9F
          \<or> a = 0xE3 \<and> b = 0x80 \<and> d = 0x80
      | _ \<Rightarrow> False)"

definition trim :: "utext \<Rightarrow> utext" where
  "trim cs = rev (dropWhile is_whitespace (rev (dropWhile is_whitespace cs)))"

definition strip_cr :: "utext \<Rightarrow> utext" where
  "strip_cr cs = (if cs \<noteq> [] \<and> last cs = [0x0D] then butlast cs else cs)"

function text_lines :: "utext \<Rightarrow> utext list" where
  "text_lines cs =
     (if cs = [] then []
      else if [0x0A] \<in> set cs
        then strip_cr (takeWhile (\<lambda>c. c \<noteq> [0x0A]) cs) # text_lines (tl (dropWhile (\<lambda>c. c \<noteq> [0x0A]) cs))
      else [cs])"
  by pat_completeness auto
termination
proof (relation "measure length")
  fix cs :: utext
  assume "cs \<noteq> []"
  then have "length (tl (dropWhile (\<lambda>c. c \<noteq> [0x0A]) cs)) < length cs"
    using length_dropWhile_le [of "\<lambda>c. c \<noteq> [0x0A]" cs] by (cases cs) (auto simp: less_Suc_eq_le diff_le_mono)
  then show "(tl (dropWhile (\<lambda>c. c \<noteq> [0x0A]) cs), cs) \<in> measure length" by simp
qed simp

declare text_lines.simps [simp del]

fun parse_digits :: "nat \<Rightarrow> utext \<Rightarrow> nat option" where
  "parse_digits acc [] = Some acc"
| "parse_digits acc (c # cs) =
     (case c of
        [b] \<Rightarrow>
          if 0x30 \<le> b \<and> b \<le> 0x39
          then Option.bind (checked_mul acc 10) (\<lambda>m. Option.bind (checked_add m (unat (b - 0x30))) (\<lambda>n. parse_digits n cs))
          else None
      | _ \<Rightarrow> None)"

definition parse_u64 :: "utext \<Rightarrow> nat option" where
  "parse_u64 cs =
     (case cs of
        [] \<Rightarrow> None
      | c # rest \<Rightarrow>
          if c = [0x2B] then (if rest = [] then None else parse_digits 0 rest)
          else parse_digits 0 cs)"

function show_u64 :: "nat \<Rightarrow> string" where
  "show_u64 n = (if n < 10 then [char_of (48 + n)] else show_u64 (n div 10) @ [char_of (48 + n mod 10)])"
  by pat_completeness auto
termination
  by (relation "measure id") auto

declare show_u64.simps [simp del]

definition to_string :: "utext \<Rightarrow> string" where
  "to_string cs = map (\<lambda>b. char_of (unat b)) (concat cs)"

section \<open>Data\<close>

datatype node_error = NotFound | Unreachable string | BadResponse | NodeBsv bsv_error

record merkle_branch =
  mb_branch :: "hash256 list"
  mb_index :: nat
  mb_block_height :: nat

record node_client =
  submit_tx :: "bytes \<Rightarrow> node_error + txid"
  header_by_height :: "nat \<Rightarrow> node_error + block_header"
  header_by_hash :: "hash256 \<Rightarrow> node_error + block_header"
  merkle_branch_for_txid :: "txid \<Rightarrow> node_error + merkle_branch"
  header_stream :: "nat \<Rightarrow> nat \<Rightarrow> node_error + block_header list"

section \<open>The offline client\<close>

record offline_client =
  oc_by_height :: "(nat \<times> block_header) list"
  oc_by_hash :: "(hash256 \<times> block_header) list"
  oc_branches :: "(txid \<times> merkle_branch) list"

definition offline_new :: offline_client where
  "offline_new = \<lparr>oc_by_height = [], oc_by_hash = [], oc_branches = []\<rparr>"

definition insert_header :: "(bytes \<Rightarrow> bytes) \<Rightarrow> nat \<Rightarrow> block_header \<Rightarrow> offline_client \<Rightarrow> offline_client" where
  "insert_header sha height header c =
     c\<lparr>oc_by_hash := AList.update (block_hash sha header) header (oc_by_hash c),
       oc_by_height := AList.update height header (oc_by_height c)\<rparr>"

definition insert_branch :: "txid \<Rightarrow> merkle_branch \<Rightarrow> offline_client \<Rightarrow> offline_client" where
  "insert_branch t b c = c\<lparr>oc_branches := AList.update t b (oc_branches c)\<rparr>"

definition with_block_181 :: "(bytes \<Rightarrow> bytes) \<Rightarrow> bsv_error + offline_client" where
  "with_block_181 sha =
     rbind (hash_from_display_hex ''00000000b5ef0ea215becad97402ce59d1416fe554261405cda943afd2a8c8f2'') (\<lambda>prev.
     rbind (hash_from_display_hex ''ed92b1db0b3e998c0a4351ee3f825fd5ac6571ce50c050b4b45df015092a6c36'') (\<lambda>root.
     let header = \<lparr>bh_version = 1, bh_prev_block_hash = prev, bh_merkle_root = root, bh_time = 1231740133,
           bh_bits = 0x1d00ffff, bh_nonce = 792669465\<rparr>;
         client = insert_header sha 181 header offline_new in
     rbind (txid_from_display_hex ''8347cee4a1cb5ad1bb0d92e86e6612dbf6cfc7649c9964f210d4069b426e720a'') (\<lambda>t0.
     rbind (txid_from_display_hex ''a16f3ce4dd5deb92d98ef5cf8afeaf0775ebca408f708b2146c4fb42b41e14be'') (\<lambda>t1.
     Inr (insert_branch t1 \<lparr>mb_branch = [as_hash t0], mb_index = 1, mb_block_height = 181\<rparr>
          (insert_branch t0 \<lparr>mb_branch = [as_hash t1], mb_index = 0, mb_block_height = 181\<rparr> client))))))"

definition offline_by_height :: "offline_client \<Rightarrow> nat \<Rightarrow> node_error + block_header" where
  "offline_by_height c height = ok_or (map_of (oc_by_height c) height) NotFound"

fun offline_stream :: "offline_client \<Rightarrow> nat \<Rightarrow> nat \<Rightarrow> nat \<Rightarrow> node_error + block_header list" where
  "offline_stream c from i 0 = Inr []"
| "offline_stream c from i (Suc left) =
     rbind (ok_or (checked_add from i) BadResponse) (\<lambda>height.
     rbind (ok_or (checked_add i 1) BadResponse) (\<lambda>i'.
     rbind (offline_stream c from i' left) (\<lambda>rest.
     Inr ((case map_of (oc_by_height c) height of Some h \<Rightarrow> [h] | None \<Rightarrow> []) @ rest))))"

definition offline_node :: "(bytes \<Rightarrow> bytes) \<Rightarrow> offline_client \<Rightarrow> node_client" where
  "offline_node sha c =
     \<lparr>submit_tx = (\<lambda>raw. Inr (txid_from_hash (double_sha256 sha raw))),
      header_by_height = offline_by_height c,
      header_by_hash = (\<lambda>hash. ok_or (map_of (oc_by_hash c) hash) NotFound),
      merkle_branch_for_txid = (\<lambda>t. ok_or (map_of (oc_branches c) t) NotFound),
      header_stream = (\<lambda>from count. offline_stream c from 0 count)\<rparr>"

section \<open>The client over a transport\<close>

record transport =
  tr_get :: "string \<Rightarrow> node_error + bytes"
  tr_post :: "string \<Rightarrow> bytes \<Rightarrow> node_error + bytes"

fun parse_siblings :: "utext list \<Rightarrow> node_error + hash256 list" where
  "parse_siblings [] = Inr []"
| "parse_siblings (line # rest) =
     (let trimmed = trim line in
      if trimmed = [] then parse_siblings rest
      else rbind (map_err (\<lambda>_. BadResponse) (hash_from_display_hex (to_string trimmed))) (\<lambda>h.
        rbind (parse_siblings rest) (\<lambda>hs. Inr (h # hs))))"

definition parse_branch :: "utext \<Rightarrow> node_error + merkle_branch" where
  "parse_branch t =
     (let ls = text_lines t in
      rbind (ok_or (case ls of [] \<Rightarrow> None | l # _ \<Rightarrow> parse_u64 (trim l)) BadResponse) (\<lambda>block_height.
      let ls = tl ls in
      rbind (ok_or (case ls of [] \<Rightarrow> None | l # _ \<Rightarrow> parse_u64 (trim l)) BadResponse) (\<lambda>index.
      rbind (parse_siblings (tl ls)) (\<lambda>branch.
      Inr \<lparr>mb_branch = branch, mb_index = index, mb_block_height = block_height\<rparr>))))"

definition teranode_submit_tx :: "transport \<Rightarrow> bytes \<Rightarrow> node_error + txid" where
  "teranode_submit_tx tr raw =
     rbind (tr_post tr ''/tx'' raw) (\<lambda>body.
     rbind (ok_or (from_utf8 body) BadResponse) (\<lambda>t.
     map_err (\<lambda>_. BadResponse) (txid_from_display_hex (to_string (trim t)))))"

definition teranode_by_height :: "transport \<Rightarrow> nat \<Rightarrow> node_error + block_header" where
  "teranode_by_height tr height =
     rbind (tr_get tr (''/header/height/'' @ show_u64 height @ ''/raw'')) (\<lambda>raw.
     map_err (\<lambda>_. BadResponse) (header_parse raw))"

definition teranode_by_hash :: "transport \<Rightarrow> hash256 \<Rightarrow> node_error + block_header" where
  "teranode_by_hash tr hash =
     rbind (tr_get tr (''/header/'' @ hash_to_display_hex hash @ ''/raw'')) (\<lambda>raw.
     map_err (\<lambda>_. BadResponse) (header_parse raw))"

definition teranode_branch :: "transport \<Rightarrow> txid \<Rightarrow> node_error + merkle_branch" where
  "teranode_branch tr t =
     rbind (tr_get tr (''/tx/'' @ txid_to_display_hex t @ ''/proof'')) (\<lambda>body.
     rbind (ok_or (from_utf8 body) BadResponse) parse_branch)"

fun teranode_stream :: "transport \<Rightarrow> nat \<Rightarrow> nat \<Rightarrow> nat \<Rightarrow> node_error + block_header list" where
  "teranode_stream tr from i 0 = Inr []"
| "teranode_stream tr from i (Suc left) =
     rbind (ok_or (checked_add from i) BadResponse) (\<lambda>height.
     rbind (teranode_by_height tr height) (\<lambda>h.
     rbind (ok_or (checked_add i 1) BadResponse) (\<lambda>i'.
     rbind (teranode_stream tr from i' left) (\<lambda>rest. Inr (h # rest)))))"

definition teranode :: "transport \<Rightarrow> node_client" where
  "teranode tr =
     \<lparr>submit_tx = teranode_submit_tx tr, header_by_height = teranode_by_height tr, header_by_hash = teranode_by_hash tr,
      merkle_branch_for_txid = teranode_branch tr, header_stream = (\<lambda>from count. teranode_stream tr from 0 count)\<rparr>"

section \<open>Sources of headers\<close>

text \<open>The headers that a lookup has among \<open>n\<close> heights from \<open>k\<close> on.\<close>

fun found :: "(nat \<Rightarrow> 'e + 'h) \<Rightarrow> nat \<Rightarrow> nat \<Rightarrow> 'h list" where
  "found f k 0 = []"
| "found f k (Suc n) = (case f k of Inr h \<Rightarrow> [h] | Inl _ \<Rightarrow> []) @ found f (Suc k) n"

lemma length_found: "length (found f k n) \<le> n"
proof (induction n arbitrary: k)
  case (Suc n)
  from Suc [of "Suc k"] show ?case by (simp split: sum.splits)
qed simp

lemma found_member: "h \<in> set (found f k n) \<Longrightarrow> \<exists>i < n. f (k + i) = Inr h"
proof (induction n arbitrary: k)
  case (Suc n)
  show ?case
  proof (cases "h \<in> set (found f (Suc k) n)")
    case True
    from Suc.IH [OF this] obtain i where "i < n" "f (Suc k + i) = Inr h" by blast
    then show ?thesis by (intro exI [of _ "Suc i"]) simp
  next
    case False
    with Suc.prems have "f k = Inr h" by (auto split: sum.splits)
    then show ?thesis by (intro exI [of _ 0]) simp
  qed
qed simp

locale header_source =
  fixes by_height :: "nat \<Rightarrow> node_error + block_header" and stream :: "nat \<Rightarrow> nat \<Rightarrow> node_error + block_header list"
  assumes stream_found: "stream from count = Inr hs \<Longrightarrow> hs = found by_height from count"
begin

lemma stream_sound:
  "stream from count = Inr hs \<Longrightarrow> length hs \<le> count \<and> (\<forall>h \<in> set hs. \<exists>i < count. by_height (from + i) = Inr h)"
proof -
  assume "stream from count = Inr hs"
  then have "hs = found by_height from count" by (rule stream_found)
  with length_found [of by_height "from" count] found_member [of _ by_height "from" count] show ?thesis by simp
qed

end

lemma offline_stream_found: "offline_stream c from i n = Inr hs \<Longrightarrow> hs = found (offline_by_height c) (from + i) n"
proof (induction n arbitrary: i hs)
  case (Suc n)
  then obtain rest where "offline_stream c from (Suc i) n = Inr rest"
    "hs = (case map_of (oc_by_height c) (from + i) of Some h \<Rightarrow> [h] | None \<Rightarrow> []) @ rest"
    by (auto simp: rbind_eq_Inr checked_add_eq_Some)
  with Suc.IH [of "Suc i" rest] show ?case by (auto simp: offline_by_height_def split: option.splits)
qed simp

lemma teranode_stream_found:
  "teranode_stream tr from i n = Inr hs \<Longrightarrow> length hs = n \<and> hs = found (teranode_by_height tr) (from + i) n"
proof (induction n arbitrary: i hs)
  case (Suc n)
  then obtain h rest where "teranode_by_height tr (from + i) = Inr h" "teranode_stream tr from (Suc i) n = Inr rest"
    "hs = h # rest" by (auto simp: rbind_eq_Inr checked_add_eq_Some)
  moreover from Suc.IH [OF this(2)] have "length rest = n" "found (teranode_by_height tr) (from + Suc i) n = rest" by auto
  ultimately show ?case by simp
qed simp

interpretation offline: header_source "offline_by_height c" "\<lambda>from. offline_stream c from 0" for c
  by unfold_locales (auto dest: offline_stream_found)

interpretation live: header_source "teranode_by_height tr" "\<lambda>from. teranode_stream tr from 0" for tr
  by unfold_locales (auto dest: teranode_stream_found)

section \<open>Printing and parsing text\<close>

definition utext_of :: "string \<Rightarrow> utext" where
  "utext_of s = map (\<lambda>c. [char_byte c]) s"

definition plain :: "char \<Rightarrow> bool" where
  "plain c \<longleftrightarrow> 0x21 \<le> char_byte c \<and> char_byte c \<le> 0x7E"

lemma from_utf8_ascii: "\<forall>c \<in> set s. char_byte c \<le> 0x7F \<Longrightarrow> from_utf8 (as_bytes s) = Some (utext_of s)"
  by (induction s) (simp_all add: as_bytes_def utext_of_def utf8_width.simps)

lemma plain_not_whitespace: "plain c \<Longrightarrow> \<not> is_whitespace [char_byte c] \<and> [char_byte c] \<noteq> [0x0A] \<and> [char_byte c] \<noteq> [0x0D]"
  unfolding plain_def is_whitespace_def by (auto simp: word_le_nat_alt)

lemma trim_plain: "list_all plain s \<Longrightarrow> trim (utext_of s) = utext_of s"
proof -
  assume p: "list_all plain s"
  have "\<forall>c \<in> set (utext_of s). \<not> is_whitespace c"
    using p by (auto simp: utext_of_def list_all_iff dest: plain_not_whitespace)
  moreover have d: "dropWhile is_whitespace xs = xs" if "\<forall>x \<in> set xs. \<not> is_whitespace x" for xs
    using that by (cases xs) auto
  ultimately show ?thesis using d [of "utext_of s"] d [of "rev (utext_of s)"] by (simp add: trim_def)
qed

lemma to_string_utext: "to_string (utext_of s) = s"
proof -
  have "char_of (unat (char_byte c)) = c" for c :: char
    by (simp add: char_byte_def unat_of_nat)
  then show ?thesis by (simp add: to_string_def utext_of_def comp_def map_idI)
qed

lemma text_lines_step:
  assumes "list_all plain s"
  shows "text_lines (utext_of s @ [0x0A] # rest) = utext_of s # text_lines rest"
proof -
  have ne: "\<forall>c \<in> set (utext_of s). c \<noteq> [0x0A] \<and> c \<noteq> [0x0D]"
    using assms by (auto simp: utext_of_def list_all_iff dest: plain_not_whitespace)
  then have "takeWhile (\<lambda>c. c \<noteq> [0x0A]) (utext_of s @ [0x0A] # rest) = utext_of s"
    "dropWhile (\<lambda>c. c \<noteq> [0x0A]) (utext_of s @ [0x0A] # rest) = [0x0A] # rest"
    by (simp_all add: takeWhile_append2 dropWhile_append2)
  moreover have "strip_cr (utext_of s) = utext_of s" using ne by (auto simp: strip_cr_def)
  ultimately show ?thesis by (subst text_lines.simps) simp
qed

definition digit :: "nat \<Rightarrow> char" where
  "digit d = char_of (48 + d)"

lemma digit_byte: "d < 10 \<Longrightarrow> char_byte (digit d) = 48 + word_of_nat d"
  by (simp add: digit_def char_byte_def)

lemma digit_range: "d < 10 \<Longrightarrow> 0x30 \<le> char_byte (digit d) \<and> char_byte (digit d) \<le> 0x39 \<and> unat (char_byte (digit d) - 0x30) = d"
  by (simp add: digit_byte word_le_nat_alt unat_word_ariths byte_unat_of_nat)

lemma parse_digits_append:
  "parse_digits acc (xs @ ys) = Option.bind (parse_digits acc xs) (\<lambda>n. parse_digits n ys)"
  by (induction xs arbitrary: acc) (auto simp: Option.bind_assoc split: list.split)

lemma parse_digit: "d < 10 \<Longrightarrow> acc * 10 + d < usize_bound \<Longrightarrow> parse_digits acc (utext_of [digit d]) = Some (acc * 10 + d)"
  using digit_range [of d] by (simp add: utext_of_def checked_mul_def)

lemma show_u64_step: "show_u64 n = (if n < 10 then [digit n] else show_u64 (n div 10) @ [digit (n mod 10)])"
  by (subst show_u64.simps) (simp add: digit_def)

lemma parse_show: "n < usize_bound \<Longrightarrow> parse_digits 0 (utext_of (show_u64 n)) = Some n"
proof (induction n rule: less_induct)
  case (less n)
  show ?case
  proof (cases "n < 10")
    case True
    with less.prems parse_digit [of n 0] show ?thesis by (subst show_u64_step) simp
  next
    case False
    then have "parse_digits 0 (utext_of (show_u64 (n div 10))) = Some (n div 10)"
      using less.IH [of "n div 10"] less.prems by simp
    moreover have "utext_of (a @ b) = utext_of a @ utext_of b" for a b by (simp add: utext_of_def)
    ultimately show ?thesis
      using False less.prems parse_digit [of "n mod 10" "n div 10"] by (subst show_u64_step) (simp add: parse_digits_append)
  qed
qed

lemma plain_show: "list_all plain (show_u64 n)"
proof (induction n rule: less_induct)
  case (less n)
  have d: "plain (digit k)" if "k < 10" for k
    using digit_range [OF that] by (auto simp: plain_def word_le_nat_alt)
  show ?case
  proof (cases "n < 10")
    case True
    then show ?thesis by (subst show_u64_step) (simp add: d)
  next
    case False
    with less show ?thesis by (subst show_u64_step) (simp add: d)
  qed
qed

lemma show_u64_head: "\<exists>d s. show_u64 n = digit d # s \<and> d < 10"
proof (induction n rule: less_induct)
  case (less n)
  show ?case
  proof (cases "n < 10")
    case True
    then show ?thesis by (subst show_u64_step) auto
  next
    case False
    with less [of "n div 10"] obtain d s where "show_u64 (n div 10) = digit d # s" "d < 10" by auto
    with False show ?thesis by (subst show_u64_step) auto
  qed
qed

lemma parse_u64_show: "n < usize_bound \<Longrightarrow> parse_u64 (utext_of (show_u64 n)) = Some n"
proof -
  assume n: "n < usize_bound"
  obtain d s where h: "show_u64 n = digit d # s" "d < 10" using show_u64_head by blast
  have "char_byte (digit d) \<noteq> 0x2B" using digit_range [OF h(2)] by auto
  with parse_show [OF n] h(1) show ?thesis by (simp add: parse_u64_def utext_of_def)
qed

lemma plain_hex: "list_all plain (bytes_to_hex bs)"
proof -
  have "hex_val c = Inr n \<Longrightarrow> 0x21 \<le> c \<and> c \<le> 0x7E" for c n
    by (auto simp: hex_val_def word_le_nat_alt split: if_splits)
  then have "plain (nibble n)" if "n < 16" for n
    using hex_val_nibble [OF that] by (auto simp: plain_def)
  then show ?thesis using nibble_bounds by (auto simp: bytes_to_hex_def list_all_iff)
qed

section \<open>Proof responses\<close>

text \<open>The textual form of a proof: height, index and siblings, one per line.\<close>

definition branch_text :: "merkle_branch \<Rightarrow> string" where
  "branch_text b = show_u64 (mb_block_height b) @ [char_of (10::nat)] @ show_u64 (mb_index b) @ [char_of (10::nat)]
     @ concat (map (\<lambda>h. hash_to_display_hex h @ [char_of (10::nat)]) (mb_branch b))"

lemma utext_of_append: "utext_of (a @ b) = utext_of a @ utext_of b"
  by (simp add: utext_of_def)

lemma utext_newline: "utext_of (char_of (10::nat) # s) = [0x0A] # utext_of s"
  by (simp add: utext_of_def char_byte_def)

lemma hash_display_inverse: "wf_hash h \<Longrightarrow> hash_from_display_hex (hash_to_display_hex h) = Inr h"
  by (cases h) (simp add: hash_from_display_hex_def hash_to_display_hex_def hex_to_array32_def hex_roundtrip wf_hash_def)

lemma parse_siblings_text:
  "\<forall>h \<in> set hs. wf_hash h \<Longrightarrow>
   parse_siblings (text_lines (utext_of (concat (map (\<lambda>h. hash_to_display_hex h @ [char_of (10::nat)]) hs)))) = Inr hs"
proof (induction hs)
  case Nil
  then show ?case by (simp add: utext_of_def text_lines.simps)
next
  case (Cons h hs)
  let ?rest = "utext_of (concat (map (\<lambda>h. hash_to_display_hex h @ [char_of (10::nat)]) hs))"
  have plain: "list_all plain (hash_to_display_hex h)" by (simp add: hash_to_display_hex_def plain_hex)
  have ne: "utext_of (hash_to_display_hex h) \<noteq> []"
    using Cons.prems by (auto simp: utext_of_def hash_to_display_hex_def bytes_to_hex_def wf_hash_def)
  have "text_lines (utext_of (hash_to_display_hex h) @ [0x0A] # ?rest) = utext_of (hash_to_display_hex h) # text_lines ?rest"
    by (rule text_lines_step [OF plain])
  with Cons ne show ?case
    by (simp add: utext_of_append utext_newline trim_plain [OF plain] to_string_utext hash_display_inverse Let_def)
qed

lemma branch_text_ascii: "\<forall>c \<in> set (branch_text b). char_byte c \<le> 0x7F"
proof -
  have "plain c \<Longrightarrow> char_byte c \<le> 0x7F" for c by (auto simp: plain_def word_le_nat_alt)
  moreover have "char_byte (char_of (10::nat)) \<le> 0x7F" by (simp add: char_byte_def)
  ultimately show ?thesis
    using plain_show plain_hex by (auto simp: branch_text_def hash_to_display_hex_def list_all_iff)
qed

lemma parse_branch_text:
  assumes "mb_block_height b < usize_bound" "mb_index b < usize_bound" "\<forall>h \<in> set (mb_branch b). wf_hash h"
  shows "parse_branch (utext_of (branch_text b)) = Inr b"
proof -
  let ?rest = "utext_of (concat (map (\<lambda>h. hash_to_display_hex h @ [char_of (10::nat)]) (mb_branch b)))"
  have "utext_of (branch_text b) = utext_of (show_u64 (mb_block_height b)) @ [0x0A] #
      (utext_of (show_u64 (mb_index b)) @ [0x0A] # ?rest)"
    by (simp add: branch_text_def utext_of_append utext_newline)
  then have "text_lines (utext_of (branch_text b)) =
      utext_of (show_u64 (mb_block_height b)) # utext_of (show_u64 (mb_index b)) # text_lines ?rest"
    using text_lines_step [OF plain_show] by simp
  then show ?thesis
    using assms by (simp add: parse_branch_def trim_plain plain_show parse_u64_show parse_siblings_text)
qed

section \<open>What is accepted is well formed\<close>

lemma hash_from_display_wf: "hash_from_display_hex s = Inr h \<Longrightarrow> wf_hash h"
  by (auto simp: hash_from_display_hex_def hex_to_array32_def wf_hash_def rbind_eq_Inr split: if_splits)

lemma parse_digits_bound: "parse_digits acc cs = Some n \<Longrightarrow> acc < usize_bound \<Longrightarrow> n < usize_bound"
  by (induction acc cs rule: parse_digits.induct)
    (auto simp: Option.bind_eq_Some_conv checked_add_eq_Some split: list.splits if_splits)

lemma parse_u64_bound: "parse_u64 cs = Some n \<Longrightarrow> n < usize_bound"
  using parse_digits_bound [of 0]
  by (cases cs) (auto simp: parse_u64_def usize_bound_def simp del: parse_digits.simps split: if_splits)

lemma parse_siblings_wf: "parse_siblings ls = Inr hs \<Longrightarrow> \<forall>h \<in> set hs. wf_hash h"
  by (induction ls arbitrary: hs) (auto simp: Let_def rbind_eq_Inr dest: hash_from_display_wf split: if_splits)

lemma parse_branch_wf:
  "parse_branch t = Inr b \<Longrightarrow> mb_block_height b < usize_bound \<and> mb_index b < usize_bound \<and> (\<forall>h \<in> set (mb_branch b). wf_hash h)"
  by (auto simp: parse_branch_def Let_def rbind_eq_Inr dest: parse_u64_bound parse_siblings_wf split: list.splits)

section \<open>Properties\<close>



text \<open>
  The textual proof format is parsed back exactly: when a node answers the
  request for a transaction with the height, the index and the siblings of a branch in the line
  format, the client returns that branch.
\<close>

lemma proof_text_roundtrip:
  assumes "tr_get tr (''/tx/'' @ txid_to_display_hex t @ ''/proof'') = Inr (as_bytes (branch_text b))"
    and "mb_block_height b < usize_bound" and "mb_index b < usize_bound" and "\<forall>h \<in> set (mb_branch b). wf_hash h"
  shows "teranode_branch tr t = Inr b"
  using assms(1) parse_branch_text [OF assms(2-4)] from_utf8_ascii [OF branch_text_ascii]
  by (simp add: teranode_branch_def)

end
