(* ===== verification/Observability.thy ===== *)
theory Observability
  imports NodeClient
begin

text \<open>
  The \<^verbatim>\<open>obs\<close> crate: readiness from dependency probes (\<^verbatim>\<open>health.rs\<close>), the metric registry and its
  instruments (\<^verbatim>\<open>metrics.rs\<close>) and the wrapper that hides a value from logs (\<^verbatim>\<open>redact.rs\<close>). The
  prometheus crate is the record \<open>prometheus\<close>: whether an instrument can be made, registering it,
  updating its series and the text encoder, all on a registry \<open>'r\<close>, which the clones of a
  \<open>Metrics\<close> value share. Seconds, floating-point numbers, are the type \<open>'x\<close>.
\<close>

section \<open>Health\<close>

record probe =
  pr_name :: string
  pr_up :: bool

definition liveness :: bool where
  "liveness = True"

record readiness_report =
  rr_ready :: bool
  rr_down :: "string list"

definition readiness :: "probe list \<Rightarrow> readiness_report" where
  "readiness probes =
     (if probes = [] then \<lparr>rr_ready = False, rr_down = [''<no probes configured>'']\<rparr>
      else let down = map pr_name (filter (\<lambda>p. \<not> pr_up p) probes)
           in \<lparr>rr_ready = (down = []), rr_down = down\<rparr>)"

lemma readiness_closed:
  "rr_ready (readiness probes) \<longleftrightarrow> probes \<noteq> [] \<and> (\<forall>p \<in> set probes. pr_up p)"
  by (auto simp: readiness_def Let_def filter_empty_conv)

section \<open>Redaction\<close>

datatype 'a redacted = Redacted 'a

definition redacted_fmt :: "'a redacted \<Rightarrow> string" where
  "redacted_fmt r = ''[redacted]''"

section \<open>Metrics\<close>

datatype obs_error = Registration | Encoding | Logging

datatype instrument = CounterVec string string "string list" | HistogramVec string string "string list"
  | Gauge string string | Counter string string

record ('r, 'x) prometheus =
  pm_empty :: 'r
  pm_valid :: "instrument \<Rightarrow> bool"
  pm_register :: "instrument \<Rightarrow> 'r \<Rightarrow> 'r option"
  pm_inc :: "instrument \<Rightarrow> string list \<Rightarrow> 'r \<Rightarrow> 'r"
  pm_observe :: "instrument \<Rightarrow> string list \<Rightarrow> 'x \<Rightarrow> 'r \<Rightarrow> 'r"
  pm_set :: "instrument \<Rightarrow> int \<Rightarrow> 'r \<Rightarrow> 'r"
  pm_encode :: "'r \<Rightarrow> bytes option"
  pm_zero :: 'x

record 'r metrics =
  mt_registry :: 'r
  mt_operations :: instrument
  mt_op_latency :: instrument
  mt_node_submissions :: instrument
  mt_threshold_round :: instrument
  mt_active_sessions :: instrument
  mt_key_derivations :: instrument

definition new_instrument :: "('r, 'x) prometheus \<Rightarrow> instrument \<Rightarrow> obs_error + instrument" where
  "new_instrument P i = (if pm_valid P i then Inr i else Inl Registration)"

fun register_each :: "('r, 'x) prometheus \<Rightarrow> instrument list \<Rightarrow> 'r \<Rightarrow> obs_error + 'r" where
  "register_each P [] r = Inr r"
| "register_each P (i # rest) r = rbind (ok_or (pm_register P i r) Registration) (register_each P rest)"

definition register_all :: "('r, 'x) prometheus \<Rightarrow> 'r metrics \<Rightarrow> obs_error + 'r metrics" where
  "register_all P m =
     rbind (register_each P [mt_operations m, mt_op_latency m, mt_node_submissions m, mt_threshold_round m,
       mt_active_sessions m, mt_key_derivations m] (mt_registry m)) (\<lambda>r. Inr (m\<lparr>mt_registry := r\<rparr>))"

definition metrics_new :: "('r, 'x) prometheus \<Rightarrow> obs_error + 'r metrics" where
  "metrics_new P =
     rbind (new_instrument P (CounterVec ''ob_operations_total'' ''operation outcomes'' [''operation'', ''outcome''])) (\<lambda>operations.
     rbind (new_instrument P (HistogramVec ''ob_operation_latency_seconds'' ''operation latency'' [''operation''])) (\<lambda>op_latency.
     rbind (new_instrument P (CounterVec ''ob_node_submissions_total'' ''BSV node submission outcomes'' [''outcome''])) (\<lambda>node_submissions.
     rbind (new_instrument P (HistogramVec ''ob_threshold_round_seconds'' ''threshold-signing round timings'' [''round''])) (\<lambda>threshold_round.
     rbind (new_instrument P (Gauge ''ob_active_sessions'' ''currently active broadcast sessions'')) (\<lambda>active_sessions.
     rbind (new_instrument P (Counter ''ob_key_derivations_total'' ''key derivations performed'')) (\<lambda>key_derivations.
     register_all P \<lparr>mt_registry = pm_empty P, mt_operations = operations, mt_op_latency = op_latency,
       mt_node_submissions = node_submissions, mt_threshold_round = threshold_round,
       mt_active_sessions = active_sessions, mt_key_derivations = key_derivations\<rparr>))))))"

definition record_operation :: "('r, 'x) prometheus \<Rightarrow> string \<Rightarrow> string \<Rightarrow> 'x \<Rightarrow> 'r metrics \<Rightarrow> 'r metrics" where
  "record_operation P oper outcome latency_seconds m =
     m\<lparr>mt_registry := pm_observe P (mt_op_latency m) [oper] latency_seconds
                        (pm_inc P (mt_operations m) [oper, outcome] (mt_registry m))\<rparr>"

definition record_node_submission :: "('r, 'x) prometheus \<Rightarrow> string \<Rightarrow> 'r metrics \<Rightarrow> 'r metrics" where
  "record_node_submission P outcome m =
     m\<lparr>mt_registry := pm_inc P (mt_node_submissions m) [outcome] (mt_registry m)\<rparr>"

definition record_threshold_round :: "('r, 'x) prometheus \<Rightarrow> string \<Rightarrow> 'x \<Rightarrow> 'r metrics \<Rightarrow> 'r metrics" where
  "record_threshold_round P round_name seconds m =
     m\<lparr>mt_registry := pm_observe P (mt_threshold_round m) [round_name] seconds (mt_registry m)\<rparr>"

definition set_active_sessions :: "('r, 'x) prometheus \<Rightarrow> int \<Rightarrow> 'r metrics \<Rightarrow> 'r metrics" where
  "set_active_sessions P count m =
     m\<lparr>mt_registry := pm_set P (mt_active_sessions m) count (mt_registry m)\<rparr>"

definition inc_key_derivations :: "('r, 'x) prometheus \<Rightarrow> 'r metrics \<Rightarrow> 'r metrics" where
  "inc_key_derivations P m = m\<lparr>mt_registry := pm_inc P (mt_key_derivations m) [] (mt_registry m)\<rparr>"

definition metrics_render :: "('r, 'x) prometheus \<Rightarrow> 'r metrics \<Rightarrow> obs_error + utext" where
  "metrics_render P m =
     rbind (ok_or (pm_encode P (mt_registry m)) Encoding) (\<lambda>buffer. ok_or (from_utf8 buffer) Encoding)"

end
