(* ===== verification/NodeRpc.thy ===== *)
theory NodeRpc
  imports Header
begin

text \<open>
  The live node client, \<^verbatim>\<open>crates/node/src/lib.rs\<close> and \<^verbatim>\<open>error.rs\<close>: calls of the JSON-RPC interface of a
  node, and the basic-auth credentials with their base64 encoding.

  The values of \<^verbatim>\<open>serde_json\<close> are the type \<open>json\<close>; its parser, its printer and its reading of numbers
  are the fields of a record \<open>serde\<close>. The HTTP client is a function \<open>post\<close> on a state of its own, the
  network, which every call threads through, so that what a node was sent can be stated.
\<close>

unbundle bit_operations_syntax

section \<open>JSON values\<close>

datatype 'n json = JNull | JBool bool | JNumber 'n | JString string | JArray "'n json list"
  | JObject "(string \<times> 'n json) list"

record 'n serde =
  js_parse :: "bytes \<Rightarrow> 'n json option"
  js_print :: "'n json \<Rightarrow> string"
  js_number_u64 :: "'n \<Rightarrow> 64 word option"

fun json_get :: "'n json \<Rightarrow> string \<Rightarrow> 'n json option" where
  "json_get (JObject entries) key = map_of entries key"
| "json_get _ key = None"

fun json_as_str :: "'n json \<Rightarrow> string option" where
  "json_as_str (JString s) = Some s"
| "json_as_str _ = None"

fun json_as_u64 :: "'n serde \<Rightarrow> 'n json \<Rightarrow> 64 word option" where
  "json_as_u64 J (JNumber n) = js_number_u64 J n"
| "json_as_u64 J _ = None"

section \<open>Base64\<close>

definition ALPHABET :: string where
  "ALPHABET = ''ABCDEFGHIJKLMNOPQRSTUVWXYZabcdefghijklmnopqrstuvwxyz0123456789+/''"

text \<open>\<open>slice.chunks(n)\<close>: pieces of \<open>n\<close> elements, the last one shorter.\<close>

function chunks :: "nat \<Rightarrow> 'a list \<Rightarrow> 'a list list" where
  "chunks n xs = (if n = 0 \<or> xs = [] then [] else take n xs # chunks n (drop n xs))"
  by pat_completeness auto
termination
  by (relation "measure (\<lambda>(n, xs). length xs)") auto

declare chunks.simps [simp del]

definition base64_triple :: "bytes \<Rightarrow> 32 word" where
  "base64_triple chunk =
     (let b0 = unwrap_or (get_at chunk 0) 0; b1 = unwrap_or (get_at chunk 1) 0; b2 = unwrap_or (get_at chunk 2) 0
      in push_bit 16 (ucast b0) OR push_bit 8 (ucast b1) OR ucast b2)"

definition base64_slot :: "bytes \<Rightarrow> nat \<Rightarrow> char" where
  "base64_slot chunk slot =
     (if slot = 3 \<and> length chunk < 3 \<or> slot = 2 \<and> length chunk < 2 then CHR ''=''
      else let index = unat (drop_bit (18 - slot * 6) (base64_triple chunk) AND 0x3f)
           in unwrap_or (get_at ALPHABET index) CHR ''A'')"

definition base64_encode :: "bytes \<Rightarrow> string" where
  "base64_encode input = concat (map (\<lambda>chunk. map (base64_slot chunk) [0..<4]) (chunks 3 input))"

section \<open>The client\<close>

datatype rpc_error = RpcHttp | RpcRejected string | RpcDecode

datatype http_reply = HttpFailed | BodyUnreadable | HttpBody string

type_synonym 'w http_post = "string \<Rightarrow> (string \<times> string) list \<Rightarrow> string \<Rightarrow> 'w \<Rightarrow> http_reply \<times> 'w"

record rpc_client =
  nc_endpoint :: string
  nc_authorization :: "string option"

definition rpc_client_new :: "string \<Rightarrow> string option \<Rightarrow> string option \<Rightarrow> rpc_client" where
  "rpc_client_new endpoint user password =
     (let authorization = (case (user, password) of
            (Some u, Some p) \<Rightarrow> Some (''Basic '' @ base64_encode (as_bytes (u @ '':'' @ p)))
          | _ \<Rightarrow> None)
      in \<lparr>nc_endpoint = endpoint, nc_authorization = authorization\<rparr>)"

definition parse_rpc_result :: "'n serde \<Rightarrow> string \<Rightarrow> rpc_error + 'n json" where
  "parse_rpc_result J txt =
     rbind (ok_or (js_parse J (as_bytes txt)) RpcDecode) (\<lambda>value.
     case json_get value ''error'' of
       Some error \<Rightarrow>
         if error \<noteq> JNull then Inl (RpcRejected (js_print J error))
         else ok_or (json_get value ''result'') RpcDecode
     | None \<Rightarrow> ok_or (json_get value ''result'') RpcDecode)"

definition rpc_request :: "string \<Rightarrow> 'n json \<Rightarrow> 'n json" where
  "rpc_request meth params =
     JObject [(''jsonrpc'', JString ''1.0''), (''id'', JString ''overlay-broadcast''),
              (''method'', JString meth), (''params'', params)]"

definition rpc_headers :: "rpc_client \<Rightarrow> (string \<times> string) list" where
  "rpc_headers c = (''content-type'', ''text/plain'') #
     (case nc_authorization c of Some authorization \<Rightarrow> [(''authorization'', authorization)] | None \<Rightarrow> [])"

definition rpc_call :: "'n serde \<Rightarrow> 'w http_post \<Rightarrow> rpc_client \<Rightarrow> string \<Rightarrow> 'n json \<Rightarrow> ('w, rpc_error, 'n json) op" where
  "rpc_call J post c meth params w =
     (case post (nc_endpoint c) (rpc_headers c) (js_print J (rpc_request meth params)) w of
        (HttpFailed, w) \<Rightarrow> (Inl RpcHttp, w)
      | (BodyUnreadable, w) \<Rightarrow> (Inl RpcDecode, w)
      | (HttpBody txt, w) \<Rightarrow> (parse_rpc_result J txt, w))"

definition best_block_hash :: "'n serde \<Rightarrow> 'w http_post \<Rightarrow> rpc_client \<Rightarrow> ('w, rpc_error, string) op" where
  "best_block_hash J post c =
     op_bind (rpc_call J post c ''getbestblockhash'' (JArray [])) (\<lambda>result.
     op_lift (ok_or (json_as_str result) RpcDecode))"

definition rpc_block_header :: "'n serde \<Rightarrow> 'w http_post \<Rightarrow> rpc_client \<Rightarrow> string \<Rightarrow> ('w, rpc_error, bytes) op" where
  "rpc_block_header J post c hash =
     op_bind (rpc_call J post c ''getblockheader'' (JArray [JString hash, JBool False])) (\<lambda>result.
     op_bind (op_lift (ok_or (json_as_str result) RpcDecode)) (\<lambda>hex.
     op_bind (op_lift (map_err (\<lambda>_. RpcDecode) (hex_to_bytes hex))) (\<lambda>raw.
     if length raw \<noteq> HEADER_LEN then op_fail RpcDecode else op_return raw)))"

definition submit_transaction :: "'n serde \<Rightarrow> 'w http_post \<Rightarrow> rpc_client \<Rightarrow> bytes \<Rightarrow> ('w, rpc_error, string) op" where
  "submit_transaction J post c raw_tx =
     (let hex = bytes_to_hex raw_tx in
      op_bind (rpc_call J post c ''sendrawtransaction'' (JArray [JString hex])) (\<lambda>result.
      op_lift (ok_or (json_as_str result) RpcDecode)))"

definition is_reachable :: "'n serde \<Rightarrow> 'w http_post \<Rightarrow> rpc_client \<Rightarrow> 'w \<Rightarrow> bool \<times> 'w" where
  "is_reachable J post c w = (case best_block_hash J post c w of (r, w) \<Rightarrow> (is_ok r, w))"

section \<open>Decoding of base64\<close>

text \<open>The decoder of the standard, as a specification: four digits give three bytes, less one for each
  padding character.\<close>

definition base64_digit :: "char \<Rightarrow> nat option" where
  "base64_digit c = (if c = CHR ''='' then Some 0 else List.find (\<lambda>i. ALPHABET ! i = c) [0..<64])"

fun base64_decode :: "string \<Rightarrow> bytes option" where
  "base64_decode [] = Some []"
| "base64_decode (c0 # c1 # c2 # c3 # rest) =
     Option.bind (base64_digit c0) (\<lambda>d0. Option.bind (base64_digit c1) (\<lambda>d1.
     Option.bind (base64_digit c2) (\<lambda>d2. Option.bind (base64_digit c3) (\<lambda>d3.
     Option.bind (base64_decode rest) (\<lambda>out.
     let n = (if c3 \<noteq> CHR ''='' then 3 else if c2 \<noteq> CHR ''='' then 2 else 1)
     in Some (take n (nat_to_be 3 (((d0 * 64 + d1) * 64 + d2) * 64 + d3)) @ out))))))"
| "base64_decode _ = None"

lemma length_ALPHABET [simp]: "length ALPHABET = 64"
  by (simp add: ALPHABET_def)

lemma alphabet_digit:
  assumes "i < 64"
  shows "base64_digit (ALPHABET ! i) = Some i" "ALPHABET ! i \<noteq> CHR ''=''"
proof -
  have "\<forall>i \<in> set [0..<64]. base64_digit (ALPHABET ! i) = Some i \<and> ALPHABET ! i \<noteq> CHR ''=''"
    by code_simp
  then show "base64_digit (ALPHABET ! i) = Some i" "ALPHABET ! i \<noteq> CHR ''=''" using assms by auto
qed

lemma byte_bound: "unat (b :: byte) < 256"
  using unsigned_less [of b, where ?'a = nat] by simp

lemma unat_triple:
  "unat (push_bit 16 (ucast (a :: byte)) OR push_bit 8 (ucast (b :: byte)) OR ucast (c :: byte) :: 32 word)
     = unat a * 65536 + unat b * 256 + unat c"
proof -
  have low: "bit (ucast (x :: byte) :: 32 word) n \<Longrightarrow> n < 8" for x n
    by (auto simp: bit_simps dest: bit_imp_le_length)
  have "push_bit 8 (ucast b) AND (ucast c :: 32 word) = 0"
    by (intro bit_eqI) (use low in \<open>force simp: bit_simps\<close>)
  then have bc: "push_bit 8 (ucast b) OR ucast c = push_bit 8 (ucast b) + (ucast c :: 32 word)"
    by (simp add: disjunctive_add_eq_or)
  have "push_bit 16 (ucast a) AND (push_bit 8 (ucast b) OR ucast c :: 32 word) = 0"
    by (intro bit_eqI) (use low in \<open>force simp: bit_simps\<close>)
  then have "push_bit 16 (ucast a) OR (push_bit 8 (ucast b) OR ucast c) = push_bit 16 (ucast a) + (push_bit 8 (ucast b) + (ucast c :: 32 word))"
    using bc by (simp add: disjunctive_add_eq_or)
  moreover have "push_bit 16 (ucast a) + (push_bit 8 (ucast b) + (ucast c :: 32 word))
      = word_of_nat (unat a * 65536 + unat b * 256 + unat c)"
    by (simp add: push_bit_eq_mult mult.commute add.assoc)
  moreover have "unat a * 65536 + unat b * 256 + unat c < 4294967296"
    using byte_bound [of a] byte_bound [of b] byte_bound [of c] by linarith
  ultimately show ?thesis by (simp only: or.assoc unat_of_nat) simp
qed

lemma slot_digit:
  assumes "slot < 4" "\<not> (slot = 3 \<and> length chunk < 3 \<or> slot = 2 \<and> length chunk < 2)"
  shows "base64_digit (base64_slot chunk slot) = Some (unat (base64_triple chunk) div 2 ^ (18 - slot * 6) mod 64)"
    "base64_slot chunk slot \<noteq> CHR ''=''"
proof -
  let ?i = "unat (base64_triple chunk) div 2 ^ (18 - slot * 6) mod 64"
  have "drop_bit (18 - slot * 6) (base64_triple chunk) AND 0x3f
      = take_bit 6 (drop_bit (18 - slot * 6) (base64_triple chunk))"
    by (simp add: take_bit_eq_mask mask_eq_exp_minus_1)
  then have "unat (drop_bit (18 - slot * 6) (base64_triple chunk) AND 0x3f) = ?i"
    using unsigned_less [of "base64_triple chunk", where ?'a = nat]
    by (simp only: unsigned_take_bit_eq unsigned_drop_bit_eq) (simp add: take_bit_eq_mod drop_bit_eq_div)
  then have "base64_slot chunk slot = ALPHABET ! ?i"
    using assms(2) by (auto simp: base64_slot_def get_at_def unwrap_or_def Let_def)
  then show "base64_digit (base64_slot chunk slot) = Some ?i" "base64_slot chunk slot \<noteq> CHR ''=''"
    using alphabet_digit [of ?i] by simp_all
qed

lemma nat_to_be_three: "nat_to_be 3 (unat (a :: byte) * 65536 + unat (b :: byte) * 256 + unat (c :: byte)) = [a, b, c]"
proof -
  have "unat a * 65536 + unat b * 256 + unat c = le_to_nat [c, b, a]" by simp
  moreover have "nat_to_le (length [c, b, a]) (le_to_nat [c, b, a]) = [c, b, a]" by (rule nat_to_le_le_to_nat)
  ultimately show ?thesis by (simp add: nat_to_be_def numeral_3_eq_3 del: le_to_nat.simps nat_to_le.simps)
qed

lemma four_digits:
  assumes "t < 16777216"
  shows "(((t div 262144 mod 64) * 64 + t div 4096 mod 64) * 64 + t div 64 mod 64) * 64 + t mod 64 = (t :: nat)"
proof -
  have *: "t div 4096 = t div 64 div 64" "t div 262144 = t div 64 div 64 div 64"
    by (simp_all flip: div_mult2_eq)
  have "t div 64 div 64 div 64 < 64" using assms by (simp add: less_mult_imp_div_less flip: div_mult2_eq)
  then have "t div 64 div 64 div 64 mod 64 = t div 64 div 64 div 64" by simp
  then show ?thesis unfolding * by (simp add: div_mult_mod_eq)
qed

lemma triple_bound: "unat (a :: byte) * 65536 + unat (b :: byte) * 256 + unat (c :: byte) < 16777216"
  using byte_bound [of a] byte_bound [of b] byte_bound [of c] by linarith

lemma unat_base64_triple:
  "unat (base64_triple [a]) = unat a * 65536 + unat (0 :: byte) * 256 + unat (0 :: byte)"
  "unat (base64_triple [a, b]) = unat a * 65536 + unat b * 256 + unat (0 :: byte)"
  "unat (base64_triple [a, b, c]) = unat a * 65536 + unat b * 256 + unat c"
  using unat_triple [of a 0 0] unat_triple [of a b 0] unat_triple [of a b c]
  by (simp_all add: base64_triple_def get_at_def unwrap_or_def)

lemma chunk_cases:
  assumes "chunk \<noteq> []" "length chunk \<le> 3"
  obtains a where "chunk = [a]" | a b where "chunk = [a, b]" | a b c where "chunk = [a, b, c]"
proof -
  have "0 < length chunk" using assms(1) by simp
  then have "length chunk = 1 \<or> length chunk = 2 \<or> length chunk = 3" using assms(2) by linarith
  then show thesis using that by (auto simp: length_Suc_conv numeral_2_eq_2 numeral_3_eq_3)
qed

lemma chunk_digit:
  assumes "chunk \<noteq> []" "length chunk \<le> 3" "slot < 4"
  shows "base64_digit (base64_slot chunk slot) = Some (unat (base64_triple chunk) div 2 ^ (18 - slot * 6) mod 64)"
proof (cases "slot = 3 \<and> length chunk < 3 \<or> slot = 2 \<and> length chunk < 2")
  case True
  then have "base64_slot chunk slot = CHR ''=''" by (auto simp: base64_slot_def)
  moreover have "unat (base64_triple chunk) div 2 ^ (18 - slot * 6) mod 64 = 0"
    using assms(1,2)
  proof (cases rule: chunk_cases)
    case (1 a)
    have "unat a * 65536 = 64 * (64 * (16 * unat a))" by simp
    then have "unat a * 65536 mod 64 = 0" "unat a * 65536 div 64 mod 64 = 0" by (metis mod_mult_self1_is_0 nonzero_mult_div_cancel_left zero_neq_numeral)+
    then show ?thesis using True 1 by (auto simp: unat_base64_triple)
  next
    case (2 a b)
    have "unat a * 65536 + unat b * 256 = 64 * (1024 * unat a + 4 * unat b)" by simp
    then have "(unat a * 65536 + unat b * 256) mod 64 = 0" by (metis mod_mult_self1_is_0)
    then show ?thesis using True 2 by (auto simp: unat_base64_triple)
  next
    case 3
    then show ?thesis using True by auto
  qed
  ultimately show ?thesis by (simp add: base64_digit_def)
next
  case False
  then show ?thesis using slot_digit(1) [OF assms(3)] by blast
qed

lemma slot_padding: "slot < 4 \<Longrightarrow> base64_slot chunk slot = CHR ''='' \<longleftrightarrow> slot = 3 \<and> length chunk < 3 \<or> slot = 2 \<and> length chunk < 2"
  using slot_digit(2) [of slot chunk] by (auto simp: base64_slot_def)

lemma decode_chunk:
  assumes "chunk \<noteq> []" "length chunk \<le> 3"
  shows "base64_decode (map (base64_slot chunk) [0..<4] @ rest) = map_option ((@) chunk) (base64_decode rest)"
proof -
  have four: "[0..<4] = [0, 1, 2, 3 :: nat]" by (simp add: upt_rec)
  let ?t = "unat (base64_triple chunk)"
  have "?t < 16777216 \<and> take (length chunk) (nat_to_be 3 ?t) = chunk"
    using assms by (cases rule: chunk_cases) (simp_all only: unat_base64_triple triple_bound nat_to_be_three, simp_all)
  then have "take (length chunk) (nat_to_be 3 ((((?t div 262144 mod 64) * 64 + ?t div 4096 mod 64) * 64
      + ?t div 64 mod 64) * 64 + ?t mod 64)) = chunk"
    by (simp only: four_digits)
  moreover have "(if base64_slot chunk 3 \<noteq> CHR ''='' then 3 else if base64_slot chunk 2 \<noteq> CHR ''='' then 2 else 1) = length chunk"
    using assms by (cases rule: chunk_cases) (simp_all add: slot_padding)
  ultimately show ?thesis
    using chunk_digit [OF assms, of 0] chunk_digit [OF assms, of 1] chunk_digit [OF assms, of 2] chunk_digit [OF assms, of 3]
    by (cases "base64_decode rest") (simp_all add: four)
qed

lemma base64_inverse: "base64_decode (base64_encode bs) = Some bs"
proof (induction "length bs" arbitrary: bs rule: less_induct)
  case less
  show ?case
  proof (cases "bs = []")
    case True
    then show ?thesis by (simp add: base64_encode_def chunks.simps)
  next
    case False
    have "base64_encode bs = map (base64_slot (take 3 bs)) [0..<4] @ base64_encode (drop 3 bs)"
      using False by (simp add: base64_encode_def chunks.simps [of 3 bs])
    then show ?thesis
      using less [of "drop 3 bs"] False by (simp add: decode_chunk)
  qed
qed

lemma chunks_Cons: "0 < n \<Longrightarrow> xs \<noteq> [] \<Longrightarrow> chunks n xs = take n xs # chunks n (drop n xs)"
  by (simp add: chunks.simps [of n xs])

lemma length_base64: "length (base64_encode bs) = 4 * ((length bs + 2) div 3)"
proof (induction "length bs" arbitrary: bs rule: less_induct)
  case less
  show ?case
  proof (cases "length bs \<le> 3")
    case True
    show ?thesis
    proof (cases "bs = []")
      case False
      then have "0 < length bs" by simp
      then have "(length bs + 2) div 3 = 1" using True by linarith
      then show ?thesis using True False by (simp add: base64_encode_def chunks_Cons chunks.simps)
    qed (simp add: base64_encode_def chunks.simps)
  next
    case False
    then have "bs \<noteq> []" by auto
    then have "length (base64_encode bs) = 4 + length (base64_encode (drop 3 bs))"
      by (simp add: base64_encode_def chunks_Cons)
    also have "\<dots> = 4 + 4 * ((length bs - 3 + 2) div 3)"
      using less [of "drop 3 bs"] False by simp
    also have "length bs - 3 + 2 = length bs + 2 - 3" using False by simp
    also have "4 + 4 * ((length bs + 2 - 3) div 3) = 4 * Suc ((length bs + 2 - 3) div 3)" by simp
    also have "Suc ((length bs + 2 - 3) div 3) = (length bs + 2) div 3"
      using False le_div_geq [of 3 "length bs + 2"] by linarith
    finally show ?thesis .
  qed
qed

section \<open>Calls\<close>

lemma as_bytes_append: "as_bytes (s @ t) = as_bytes s @ as_bytes t"
  by (simp add: as_bytes_def)

lemma rpc_result_Inr:
  "parse_rpc_result J txt = Inr result \<longleftrightarrow>
     (\<exists>value. js_parse J (as_bytes txt) = Some value \<and> json_get value ''error'' \<in> {None, Some JNull} \<and>
              json_get value ''result'' = Some result)"
  by (auto simp: parse_rpc_result_def rbind_def ok_or_def split: option.splits)

lemma rpc_call_Inr:
  "rpc_call J post c meth params w = (Inr result, w') \<longleftrightarrow>
     (\<exists>txt. post (nc_endpoint c) (rpc_headers c) (js_print J (rpc_request meth params)) w = (HttpBody txt, w') \<and>
            parse_rpc_result J txt = Inr result)"
  by (auto simp: rpc_call_def split: prod.splits http_reply.splits)

lemma rpc_call_state:
  "snd (rpc_call J post c meth params w)
     = snd (post (nc_endpoint c) (rpc_headers c) (js_print J (rpc_request meth params)) w)"
  by (simp add: rpc_call_def split: prod.splits http_reply.splits)

lemma submit_state:
  "snd (submit_transaction J post c raw w)
     = snd (post (nc_endpoint c) (rpc_headers c)
         (js_print J (rpc_request ''sendrawtransaction'' (JArray [JString (bytes_to_hex raw)]))) w)"
  by (simp add: submit_transaction_def op_bind_def op_lift_def rpc_call_state [symmetric] split: prod.splits sum.splits)

section \<open>Properties\<close>

text \<open>
  The authorisation header of a client with user and password is a base64
  text that decodes to exactly \<open>user:password\<close>, and has the padded length of the standard.
\<close>

lemma credentials_roundtrip:
  "\<exists>s. nc_authorization (rpc_client_new endpoint (Some user) (Some password)) = Some (''Basic '' @ s) \<and>
       base64_decode s = Some (as_bytes (user @ '':'' @ password)) \<and>
       length s = 4 * ((length user + length password + 3) div 3)"
  by (simp add: rpc_client_new_def base64_inverse length_base64 as_bytes_def)

text \<open>
  A submission posts one request, and a node that reads it gets
  the method and the bytes of the transaction; the client accepts an identifier exactly when the
  reply is JSON without an error and with a string as its result. The hypothesis is that the JSON
  parser reads back the request that was printed.
\<close>

lemma submission_carries_transaction:
  assumes "let v = rpc_request ''sendrawtransaction'' (JArray [JString (bytes_to_hex raw)])
           in js_parse J (as_bytes (js_print J v)) = Some v"
    and "submit_transaction J post c raw w = (res, w')"
  shows "\<exists>body reply v h. post (nc_endpoint c) (rpc_headers c) body w = (reply, w') \<and>
    js_parse J (as_bytes body) = Some v \<and> json_get v ''method'' = Some (JString ''sendrawtransaction'') \<and>
    json_get v ''params'' = Some (JArray [JString h]) \<and> hex_to_bytes h = Inr raw \<and>
    (\<forall>txid. res = Inr txid \<longleftrightarrow>
      (\<exists>txt u. reply = HttpBody txt \<and> js_parse J (as_bytes txt) = Some u \<and>
        json_get u ''error'' \<in> {None, Some JNull} \<and> json_get u ''result'' = Some (JString txid)))"
proof -
  let ?v = "rpc_request ''sendrawtransaction'' (JArray [JString (bytes_to_hex raw)])"
  have parsed: "js_parse J (as_bytes (js_print J ?v)) = Some ?v" using assms(1) by (simp add: Let_def)
  obtain reply where post: "post (nc_endpoint c) (rpc_headers c) (js_print J ?v) w = (reply, w')"
    using submit_state [of J post c raw w] assms(2) by (metis prod.collapse snd_conv)
  have str: "json_as_str u = Some s \<longleftrightarrow> u = JString s" for u :: "'a json" and s by (cases u) auto
  have "res = Inr txid \<longleftrightarrow> (\<exists>result. rpc_call J post c ''sendrawtransaction'' (JArray [JString (bytes_to_hex raw)]) w
      = (Inr result, w') \<and> json_as_str result = Some txid)" for txid
    using assms(2)
    by (auto simp: submit_transaction_def op_bind_def op_lift_def ok_or_def split: prod.splits sum.splits option.splits)
  then have "res = Inr txid \<longleftrightarrow> (\<exists>txt u. reply = HttpBody txt \<and> js_parse J (as_bytes txt) = Some u \<and>
      json_get u ''error'' \<in> {None, Some JNull} \<and> json_get u ''result'' = Some (JString txid))" for txid
    by (auto simp: rpc_call_Inr rpc_result_Inr post str)
  then show ?thesis
    using post parsed by (intro exI conjI allI) (assumption | simp add: rpc_request_def hex_roundtrip)+
qed

definition ex_json :: "64 word serde" where
  "ex_json = \<lparr>js_parse = (\<lambda>bs. if bs = as_bytes ''q'' then Some (rpc_request ''sendrawtransaction'' (JArray [JString (bytes_to_hex [2, 5])]))
      else Some (JObject [(''error'', JNull), (''result'', JString ''id'')])),
     js_print = (\<lambda>_. ''q''), js_number_u64 = Some\<rparr>"

end
