(* ===== verification/Server.thy ===== *)
theory Server
  imports Api Transaction Threshold Observability NodeRpc
begin

text \<open>
  The HTTP server, \<^verbatim>\<open>crates/server/src\<close>: the backend that executes admitted operations, the JSON
  form of a request and the router (\<^verbatim>\<open>lib.rs\<close>), and the start-up from the environment with the loop
  over incoming requests (\<^verbatim>\<open>main.rs\<close>).

  What comes from other crates is collected in the record \<open>libs\<close>. The state of the network and the
  position in the random numbers are kept with the backend; the readiness probe uses the same network.
  The time of a request and the time its execution takes are read from the clock by the code and
  come with each request here; \<open>tiny_http\<close> is the function \<open>listen\<close>, which gives the requests that
  arrive at an address, and \<open>header_ok\<close>, which says whether a header value is accepted.
\<close>

section \<open>The backend\<close>

record ('k, 'v, 's, 'n, 'w, 'f, 'p, 'r, 'x) libs =
  lb_ecdsa :: "('k, 'v, 's) ecdsa_ops"
  lb_sha :: "bytes \<Rightarrow> bytes"
  lb_serde :: "'n serde"
  lb_post :: "'w http_post"
  lb_rand :: rng
  lb_group :: "('f, 'p) group_ops"
  lb_prometheus :: "('r, 'x) prometheus"

record 'w real_backend =
  rb_node :: "rpc_client option"
  rb_world :: 'w
  rb_draws :: nat

definition real_execute :: "('k, 'v, 's, 'n, 'w, 'f::field, 'p, 'r, 'x) libs \<Rightarrow> 'w real_backend backend" where
  "real_execute L oper payload b =
     (case oper of
        OverlayWrite \<Rightarrow>
          let carrier = build_data_carrier payload;
              b = (case rb_node b of
                     Some node \<Rightarrow> b\<lparr>rb_world := snd (submit_transaction (lb_serde L) (lb_post L) node
                                                  (to_locking_script carrier) (rb_world b))\<rparr>
                   | None \<Rightarrow> b)
          in (Inr (response_plain (to_locking_script carrier)), b)
      | CustodyKeygen \<Rightarrow>
          (case keygen (lb_rand L) (lb_group L) 2 3 (rb_draws b) of
             (Inl _, i) \<Rightarrow> (Inl Internal, b\<lparr>rb_draws := i\<rparr>)
           | (Inr (group_key, _), i) \<Rightarrow>
               (Inr (response_plain (public_compressed (lb_group L) group_key)), b\<lparr>rb_draws := i\<rparr>))
      | _ \<Rightarrow> (Inr (response_plain payload), b))"

section \<open>Requests as JSON\<close>

definition operation_from_name :: "string \<Rightarrow> operation option" where
  "operation_from_name name =
     (if name = ''overlay.write'' then Some OverlayWrite
      else if name = ''overlay.signal_position'' then Some OverlaySignalPosition
      else if name = ''overlay.resolve_position'' then Some OverlayResolvePosition
      else if name = ''overlay.obfuscate'' then Some OverlayObfuscate
      else if name = ''overlay.deobfuscate'' then Some OverlayDeobfuscate
      else if name = ''broadcast.session_open'' then Some BroadcastSessionOpen
      else if name = ''broadcast.rekey.user'' then Some BroadcastRekeyUser
      else if name = ''broadcast.rekey.key'' then Some BroadcastRekeyKey
      else if name = ''broadcast.rekey.group'' then Some BroadcastRekeyGroup
      else if name = ''broadcast.message'' then Some BroadcastMessage
      else if name = ''broadcast.decrypt'' then Some BroadcastDecrypt
      else if name = ''session.subscribe.off_chain'' then Some SessionSubscribeOffChain
      else if name = ''session.subscribe.on_block'' then Some SessionSubscribeOnBlock
      else if name = ''session.renew'' then Some SessionRenew
      else if name = ''session.revoke'' then Some SessionRevoke
      else if name = ''custody.keygen'' then Some CustodyKeygen
      else if name = ''custody.rotate'' then Some CustodyRotate
      else if name = ''custody.revoke'' then Some CustodyRevoke
      else if name = ''health'' then Some Health
      else if name = ''readiness'' then Some Readiness
      else None)"

definition decode_hex_field :: "'n json \<Rightarrow> string \<Rightarrow> bytes" where
  "decode_hex_field value field =
     (case Option.bind (json_get value field) json_as_str of
        None \<Rightarrow> []
      | Some h \<Rightarrow> (case hex_to_bytes h of Inr bs \<Rightarrow> bs | Inl _ \<Rightarrow> []))"

definition parse_request :: "'n serde \<Rightarrow> bytes \<Rightarrow> request option" where
  "parse_request J body =
     Option.bind (js_parse J body) (\<lambda>value.
     Option.bind (Option.bind (json_get value ''caller'') json_as_str) (\<lambda>caller.
     Option.bind (Option.bind (Option.bind (json_get value ''operation'') json_as_str) operation_from_name) (\<lambda>oper.
     let payload = decode_hex_field value ''payload'';
         position = Option.bind (json_get value ''position'') json_as_str in
     Option.bind (Option.bind (json_get value ''nonce'') (json_as_u64 J)) (\<lambda>nonce.
     Option.bind (Option.bind (json_get value ''expiry'') (json_as_u64 J)) (\<lambda>expiry_unix.
     let signature = decode_hex_field value ''signature'' in
     Some \<lparr>rq_caller = caller, rq_operation = oper, rq_payload = payload, rq_position = position,
           rq_nonce = nonce, rq_expiry_unix = expiry_unix, rq_signature = signature\<rparr>)))))"

section \<open>The router\<close>

record http_answer =
  ha_status :: "16 word"
  ha_content_type :: string
  ha_body :: bytes

record ('w, 'r) router =
  rt_service :: "'w real_backend api_service"
  rt_metrics :: "'r metrics"
  rt_node :: "rpc_client option"

definition json_answer :: "16 word \<Rightarrow> string \<Rightarrow> http_answer" where
  "json_answer status body = \<lparr>ha_status = status, ha_content_type = ''application/json'', ha_body = as_bytes body\<rparr>"

definition api_error_text :: "api_error \<Rightarrow> string" where
  "api_error_text e = (case e of
     BadRequest m \<Rightarrow> ''bad request: '' @ m
   | Unauthorized \<Rightarrow> ''unauthorized'' | Replay \<Rightarrow> ''replayed nonce'' | Expired \<Rightarrow> ''expired request''
   | Oversize \<Rightarrow> ''payload too large''
   | RateLimited \<Rightarrow> ''rate limit exceeded''
   | Timeout \<Rightarrow> ''operation timed out''
   | NotTerminated \<Rightarrow> ''verification does not terminate in the header chain''
   | Config m \<Rightarrow> ''invalid configuration: '' @ m
   | Internal \<Rightarrow> ''internal error'')"

definition handle_operation :: "('k, 'v, 's, 'n, 'w, 'f::field, 'p, 'r, 'x) libs \<Rightarrow> nat \<Rightarrow> bytes \<Rightarrow> 64 word
    \<Rightarrow> ('w, 'r) router \<Rightarrow> http_answer \<times> ('w, 'r) router" where
  "handle_operation L elapsed body now_unix s =
     (case parse_request (lb_serde L) body of
        None \<Rightarrow> (json_answer 400 ''{\"error\":\"bad request\"}'', s)
      | Some request \<Rightarrow>
          let name = operation_name (rq_operation request);
              (outcome, service) = api_handle (lb_ecdsa L) (lb_sha L) (real_execute L) elapsed request now_unix (rt_service s);
              status = (if is_ok outcome then ''ok'' else ''error'');
              s = s\<lparr>rt_service := service,
                    rt_metrics := record_operation (lb_prometheus L) name status (pm_zero (lb_prometheus L)) (rt_metrics s)\<rparr>
          in (case outcome of
                Inr data \<Rightarrow> (json_answer 200 (''{\"data\":\"'' @ bytes_to_hex data @ ''\"}''), s)
              | Inl error \<Rightarrow> (json_answer (api_status error) (''{\"error\":\"'' @ api_error_text error @ ''\"}''), s)))"

definition probe_node :: "('k, 'v, 's, 'n, 'w, 'f::field, 'p, 'r, 'x) libs \<Rightarrow> ('w, 'r) router \<Rightarrow> bool \<times> ('w, 'r) router" where
  "probe_node L s =
     (case rt_node s of
        None \<Rightarrow> (False, s)
      | Some node \<Rightarrow>
          let b = as_backend (rt_service s);
              (up, w) = is_reachable (lb_serde L) (lb_post L) node (rb_world b)
          in (up, s\<lparr>rt_service := (rt_service s)\<lparr>as_backend := b\<lparr>rb_world := w\<rparr>\<rparr>\<rparr>))"

definition route :: "('k, 'v, 's, 'n, 'w, 'f::field, 'p, 'r, 'x) libs \<Rightarrow> nat \<Rightarrow> string \<Rightarrow> string \<Rightarrow> bytes \<Rightarrow> 64 word
    \<Rightarrow> ('w, 'r) router \<Rightarrow> http_answer \<times> ('w, 'r) router" where
  "route L elapsed meth path body now_unix s =
     (if meth = ''GET'' \<and> path = ''/health'' then (json_answer 200 ''{\"status\":\"alive\"}'', s)
      else if meth = ''GET'' \<and> path = ''/readiness'' then
        let (up, s) = probe_node L s;
            report = readiness [\<lparr>pr_name = ''bsv-node'', pr_up = up\<rparr>]
        in if rr_ready report then (json_answer 200 ''{\"status\":\"ready\"}'', s)
           else (\<lparr>ha_status = 503, ha_content_type = ''application/json'',
                  ha_body = as_bytes ''{\"status\":\"not-ready\"}''\<rparr>, s)
      else if meth = ''GET'' \<and> path = ''/metrics'' then
        (case metrics_render (lb_prometheus L) (rt_metrics s) of
           Inr txt \<Rightarrow> (\<lparr>ha_status = 200, ha_content_type = ''text/plain; version=0.0.4'', ha_body = concat txt\<rparr>, s)
         | Inl _ \<Rightarrow> (json_answer 500 ''{\"error\":\"metrics\"}'', s))
      else if meth = ''POST'' \<and> path = ''/v1/operation'' then handle_operation L elapsed body now_unix s
      else (json_answer 404 ''{\"error\":\"not found\"}'', s))"

section \<open>Start-up and the request loop\<close>

type_synonym environment = "string \<Rightarrow> utext option"

definition env_usize :: "environment \<Rightarrow> string \<Rightarrow> nat \<Rightarrow> nat" where
  "env_usize env key fallback = unwrap_or (Option.bind (env key) parse_u64) fallback"

definition env_u32 :: "environment \<Rightarrow> string \<Rightarrow> 32 word \<Rightarrow> 32 word" where
  "env_u32 env key fallback = unwrap_or (Option.bind (Option.bind (env key) parse_u64) try_u32) fallback"

definition env_u64 :: "environment \<Rightarrow> string \<Rightarrow> 64 word \<Rightarrow> 64 word" where
  "env_u64 env key fallback = unwrap_or (Option.bind (Option.bind (env key) parse_u64) try_u64) fallback"

definition env_node :: "environment \<Rightarrow> rpc_client option" where
  "env_node env =
     (case env ''NODE_RPC_URL'' of
        Some url \<Rightarrow>
          let user = map_option to_string (env ''NODE_RPC_USER'');
              pass = map_option to_string (env ''NODE_RPC_PASS'')
          in Some (rpc_client_new (to_string url) user pass)
      | None \<Rightarrow> None)"

definition reconnect :: "environment \<Rightarrow> rpc_client option \<Rightarrow> rpc_client option" where
  "reconnect env node = (if node \<noteq> None then env_node env else None)"

definition server_config :: "environment \<Rightarrow> api_config" where
  "server_config env =
     \<lparr>max_payload_bytes = env_usize env ''MAX_PAYLOAD'' 65536,
      rate_limit_per_window = env_u32 env ''RATE_LIMIT'' 100,
      rate_window_secs = env_u64 env ''RATE_WINDOW'' 60,
      op_timeout_millis = unat (env_u64 env ''OP_TIMEOUT_MS'' 5000)\<rparr>"

definition server_start :: "('k, 'v, 's, 'n, 'w, 'f::field, 'p, 'r, 'x) libs \<Rightarrow> environment \<Rightarrow> 'w \<Rightarrow> nat
    \<Rightarrow> string + ('w, 'r) router" where
  "server_start L env w draws =
     (let node = env_node env in
      rbind (map_err (\<lambda>error. ''invalid configuration: '' @ api_error_text error)
        (service_new (server_config env) registry_new (chain_new 0)
          \<lparr>rb_node = reconnect env node, rb_world = w, rb_draws = draws\<rparr>)) (\<lambda>service.
      rbind (map_err (\<lambda>_. ''metrics init'') (metrics_new (lb_prometheus L))) (\<lambda>metrics.
      Inr \<lparr>rt_service = service, rt_metrics = metrics, rt_node = node\<rparr>)))"

record http_request =
  hq_method :: string
  hq_url :: string
  hq_body :: bytes
  hq_now :: "64 word"
  hq_elapsed :: nat

definition url_path :: "string \<Rightarrow> string" where
  "url_path url = takeWhile (\<lambda>c. c \<noteq> CHR ''?'') url"

definition answer_request :: "('k, 'v, 's, 'n, 'w, 'f::field, 'p, 'r, 'x) libs \<Rightarrow> http_request
    \<Rightarrow> ('w, 'r) router \<Rightarrow> http_answer \<times> ('w, 'r) router" where
  "answer_request L q s = route L (hq_elapsed q) (hq_method q) (url_path (hq_url q)) (hq_body q) (hq_now q) s"

fun serve :: "('k, 'v, 's, 'n, 'w, 'f::field, 'p, 'r, 'x) libs \<Rightarrow> (string \<Rightarrow> bool) \<Rightarrow> http_request list
    \<Rightarrow> ('w, 'r) router \<Rightarrow> (string + unit) \<times> http_answer list \<times> ('w, 'r) router" where
  "serve L header_ok [] s = (Inr (), [], s)"
| "serve L header_ok (q # qs) s =
     (let (reply, s) = answer_request L q s
      in if \<not> header_ok (ha_content_type reply) then (Inl ''header'', [], s)
         else let (result, replies, s) = serve L header_ok qs s in (result, reply # replies, s))"

definition server_run :: "('k, 'v, 's, 'n, 'w, 'f::field, 'p, 'r, 'x) libs \<Rightarrow> environment \<Rightarrow> (string \<Rightarrow> bool)
    \<Rightarrow> (string \<Rightarrow> string + http_request list) \<Rightarrow> 'w \<Rightarrow> nat \<Rightarrow> (string + unit) \<times> http_answer list" where
  "server_run L env header_ok listen w draws =
     (let bind_address = (case env ''BIND'' of Some a \<Rightarrow> to_string a | None \<Rightarrow> ''0.0.0.0:8080'') in
      case server_start L env w draws of
        Inl message \<Rightarrow> (Inl message, [])
      | Inr router \<Rightarrow>
          (case listen bind_address of
             Inl error \<Rightarrow> (Inl (''bind '' @ bind_address @ '': '' @ error), [])
           | Inr requests \<Rightarrow> (case serve L header_ok requests router of (result, replies, _) \<Rightarrow> (result, replies))))"

section \<open>Requests and their JSON form\<close>

lemma operation_from_name_iff: "operation_from_name name = Some oper \<longleftrightarrow> name = operation_name oper"
  by (cases oper) (auto simp: operation_from_name_def)

text \<open>The body that a caller sends, as the documents of the service describe it.\<close>

definition request_json :: "(64 word \<Rightarrow> 'n) \<Rightarrow> request \<Rightarrow> 'n json" where
  "request_json num r =
     JObject ([(''caller'', JString (rq_caller r)), (''operation'', JString (operation_name (rq_operation r))),
       (''payload'', JString (bytes_to_hex (rq_payload r))), (''nonce'', JNumber (num (rq_nonce r))),
       (''expiry'', JNumber (num (rq_expiry_unix r))), (''signature'', JString (bytes_to_hex (rq_signature r)))]
       @ (case rq_position r of Some position \<Rightarrow> [(''position'', JString position)] | None \<Rightarrow> []))"

lemma parse_request_json:
  assumes "js_parse J body = Some (request_json num r)" "\<And>n. js_number_u64 J (num n) = Some n"
  shows "parse_request J body = Some r"
proof -
  have "operation_from_name (operation_name oper) = Some oper" for oper by (simp add: operation_from_name_iff)
  then show ?thesis
    using assms
    by (cases r; cases "rq_position r")
      (auto simp: parse_request_def request_json_def decode_hex_field_def hex_roundtrip Let_def split: option.splits)
qed

lemma decode_hex_cases:
  "decode_hex_field v key = [] \<or>
   (\<exists>h. json_get v key = Some (JString h) \<and> hex_to_bytes h = Inr (decode_hex_field v key))"
proof -
  have "json_as_str u = Some s \<longleftrightarrow> u = JString s" for u :: "'a json" and s by (cases u) auto
  then show ?thesis
    by (auto simp: decode_hex_field_def bind_eq_Some_conv split: option.splits sum.splits)
qed

lemma parse_request_Some:
  assumes "parse_request J body = Some r"
  shows "\<exists>v. js_parse J body = Some v \<and>
    json_get v ''caller'' = Some (JString (rq_caller r)) \<and>
    json_get v ''operation'' = Some (JString (operation_name (rq_operation r))) \<and>
    Option.bind (json_get v ''nonce'') (json_as_u64 J) = Some (rq_nonce r) \<and>
    Option.bind (json_get v ''expiry'') (json_as_u64 J) = Some (rq_expiry_unix r) \<and>
    rq_payload r = decode_hex_field v ''payload'' \<and> rq_signature r = decode_hex_field v ''signature''"
proof -
  have "json_as_str u = Some s \<longleftrightarrow> u = JString s" for u :: "'a json" and s by (cases u) auto
  then show ?thesis
    using assms by (auto simp: parse_request_def Let_def bind_eq_Some_conv operation_from_name_iff)
qed

section \<open>The operation endpoint\<close>

lemma real_execute_plain: "fst (real_execute L oper payload b) = Inr response \<Longrightarrow> or_chain_root response = None"
  by (auto simp: real_execute_def response_plain_def Let_def split: operation.splits prod.splits sum.splits)

lemma real_execute_node: "rb_node (snd (real_execute L oper payload b)) = rb_node b"
  by (auto simp: real_execute_def Let_def split: operation.splits prod.splits sum.splits option.splits)

lemma api_status_error: "api_status e \<noteq> 200"
  by (cases e) (simp_all add: api_status_def)

lemma handle_operation_Some:
  assumes "parse_request (lb_serde L) body = Some r"
    and "api_handle (lb_ecdsa L) (lb_sha L) (real_execute L) elapsed r now (rt_service s) = (outcome, service)"
  shows "handle_operation L elapsed body now s =
    (case outcome of
       Inr data \<Rightarrow> json_answer 200 (''{\"data\":\"'' @ bytes_to_hex data @ ''\"}'')
     | Inl error \<Rightarrow> json_answer (api_status error) (''{\"error\":\"'' @ api_error_text error @ ''\"}''),
     s\<lparr>rt_service := service, rt_metrics := record_operation (lb_prometheus L) (operation_name (rq_operation r))
         (if is_ok outcome then ''ok'' else ''error'') (pm_zero (lb_prometheus L)) (rt_metrics s)\<rparr>)"
  using assms by (simp add: handle_operation_def Let_def split: sum.splits)

lemma real_execute_error: "fst (real_execute L oper payload b) = Inl e \<Longrightarrow> e = Internal"
  by (auto simp: real_execute_def Let_def split: operation.splits prod.splits sum.splits)

lemma route_operation: "route L elapsed ''POST'' ''/v1/operation'' body now s = handle_operation L elapsed body now s"
  by (simp add: route_def)

lemma authenticate_only:
  assumes "authenticate ds sha r now s = (res, t)"
  shows "t = s\<lparr>as_nonces := as_nonces t, as_limiter := as_limiter t\<rparr>"
  using assms
  by (auto simp: authenticate_def check_and_record_def limiter_allow_eq Let_def split: option.splits if_splits)

lemma handle_refused_frame:
  assumes "api_handle ds sha exec elapsed r now s = (res, t)" "\<not> admitted ds sha r now s"
  shows "t = s\<lparr>as_nonces := as_nonces t, as_limiter := as_limiter t\<rparr>"
  using assms(1)
proof (cases rule: handle_cases)
  case (signed_op u)
  then show ?thesis using assms(2) authenticate_ok [OF signed_op(3,2,1)] by simp
next
  case (refused e)
  then show ?thesis using authenticate_only by blast
qed (use assms(2) in \<open>auto simp: admitted_def\<close>)

section \<open>A server without callers\<close>

lemma handle_unregistered:
  assumes "as_callers s (rq_caller r) = None" "requires_auth (rq_operation r)"
  shows "api_handle ds sha exec elapsed r now s
    = (Inl (if max_payload_bytes (as_config s) < length (rq_payload r) then Oversize else Unauthorized), s)"
  using assms by (simp add: api_handle_def authenticate_def registered_key_def op_bind_def)

lemma handle_callers:
  assumes "api_handle ds sha exec elapsed r now s = (res, t)"
  shows "as_callers t = as_callers s"
  using assms by (cases rule: handle_cases) (auto, metis authenticate_frame(2), metis execute_audited_frame(4),
      metis authenticate_frame(2) execute_audited_frame(4))

text \<open>The state of a server that knows no caller: \<open>Q\<close> holds of its network, no random number was drawn
  beyond \<open>i\<close>, and only probes were audited.\<close>

definition idle :: "('w \<Rightarrow> bool) \<Rightarrow> nat \<Rightarrow> ('w, 'r) router \<Rightarrow> bool" where
  "idle Q i s \<longleftrightarrow> as_callers (rt_service s) = registry_new \<and> rb_draws (as_backend (rt_service s)) = i \<and>
     Q (rb_world (as_backend (rt_service s))) \<and>
     (\<forall>a \<in> set (as_audit (rt_service s)). ae_operation a \<in> {''health'', ''readiness''})"

definition queries_keep :: "('k, 'v, 's, 'n, 'w, 'f, 'p, 'r, 'x) libs \<Rightarrow> ('w \<Rightarrow> bool) \<Rightarrow> bool" where
  "queries_keep L Q \<longleftrightarrow> (\<forall>node w. Q w \<longrightarrow> Q (snd (best_block_hash (lb_serde L) (lb_post L) node w)))"

lemma handle_idle:
  assumes "idle Q i s" "api_handle ds sha (real_execute L) elapsed r now (rt_service s) = (res, t)"
  shows "as_callers t = registry_new \<and> rb_draws (as_backend t) = i \<and> Q (rb_world (as_backend t)) \<and>
     (\<forall>a \<in> set (as_audit t). ae_operation a \<in> {''health'', ''readiness''})"
proof (cases "requires_auth (rq_operation r)")
  case True
  then have "t = rt_service s"
    using handle_unregistered [of "rt_service s" r ds sha "real_execute L" elapsed now] assms
    by (simp add: idle_def registry_new_def)
  then show ?thesis using assms(1) by (simp add: idle_def)
next
  case False
  then have probe: "rq_operation r \<in> {Health, Readiness}" by (auto simp: requires_auth_def split: operation.splits)
  have callers: "as_callers t = registry_new"
    using handle_callers [OF assms(2)] assms(1) by (simp add: idle_def)
  have same: "snd (real_execute L (rq_operation r) p b) = b" for p b using probe by (auto simp: real_execute_def)
  show ?thesis
  proof (cases "admitted ds sha r now (rt_service s)")
    case True
    then show ?thesis using handle_admitted [OF assms(2)] callers same probe assms(1) by (auto simp: idle_def)
  next
    case False
    then show ?thesis using handle_refused(1,2) [OF assms(2)] callers assms(1) by (auto simp: idle_def)
  qed
qed

lemma answer_idle:
  assumes "queries_keep L Q" "idle Q i s" "answer_request L q s = (reply, t)"
  shows "idle Q i t"
proof -
  have probe: "idle Q i (snd (probe_node L s))"
    using assms(1,2) by (auto simp: probe_node_def is_reachable_def idle_def queries_keep_def case_prod_unfold Let_def split: option.splits)
  have op: "idle Q i (snd (handle_operation L e body now s))" for e body now
  proof (cases "parse_request (lb_serde L) body")
    case (Some r)
    obtain res u where h: "api_handle (lb_ecdsa L) (lb_sha L) (real_execute L) e r now (rt_service s) = (res, u)" by fastforce
    show ?thesis using handle_operation_Some [OF Some h] handle_idle [OF assms(2) h] by (simp add: idle_def)
  qed (use assms(2) in \<open>simp add: handle_operation_def\<close>)
  have "t = snd (answer_request L q s)" using assms(3) by simp
  then show ?thesis
    using probe op assms(2) by (simp add: answer_request_def route_def Let_def case_prod_unfold split: sum.splits)
qed

lemma serve_idle:
  assumes "queries_keep L Q" "idle Q i s" "serve L header_ok qs s = (res, replies, t)"
  shows "idle Q i t \<and> (\<forall>k < length replies. \<exists>u. idle Q i u \<and> replies ! k = fst (answer_request L (qs ! k) u))"
  using assms(2,3)
proof (induction qs arbitrary: s res replies t)
  case (Cons q qs)
  obtain reply u where a: "answer_request L q s = (reply, u)" by fastforce
  obtain res' replies' t' where rest: "serve L header_ok qs u = (res', replies', t')" by (metis prod_cases3)
  have u: "idle Q i u" using answer_idle [OF assms(1) Cons.prems(1) a] .
  show ?case
  proof (cases "header_ok (ha_content_type reply)")
    case True
    then have "replies = reply # replies'" "t = t'" using Cons.prems(2) a rest by simp_all
    then show ?thesis
      using Cons.IH [OF u rest] a Cons.prems(1) by (auto simp: nth_Cons less_Suc_eq_0_disj)
  next
    case False
    then show ?thesis using Cons.prems a u by simp
  qed
qed simp

lemma start_idle:
  assumes "server_start L env w i = Inr s" "Q w"
  shows "idle Q i s"
  using assms
  by (auto simp: server_start_def service_new_def idle_def rbind_def map_err_def Let_def split: sum.splits)

section \<open>Properties\<close>

definition ex_serde :: "request \<Rightarrow> 64 word serde" where
  "ex_serde r = \<lparr>js_parse = (\<lambda>_. Some (request_json id r)), js_print = (\<lambda>v. unwrap_or (Option.bind (json_get v ''method'') json_as_str) []),
     js_number_u64 = Some\<rparr>"

definition ex_prometheus :: "(nat, unit) prometheus" where
  "ex_prometheus = \<lparr>pm_empty = 0, pm_valid = (\<lambda>_. True), pm_register = (\<lambda>_. Some), pm_inc = (\<lambda>_ _. Suc),
     pm_observe = (\<lambda>_ _ _ r. r), pm_set = (\<lambda>_ _ r. r), pm_encode = (\<lambda>_. Some []), pm_zero = ()\<rparr>"

definition ex_libs :: "request \<Rightarrow> (byte, byte, byte \<times> bool, 64 word, string list, rat, rat, nat, unit) libs" where
  "ex_libs r = \<lparr>lb_ecdsa = toy_dsa, lb_sha = len_digest, lb_serde = ex_serde r,
     lb_post = (\<lambda>_ _ body w. (HttpBody ''{}'', w @ [body])), lb_rand = (\<lambda>_ n. Some (replicate n 7)),
     lb_group = toy_points, lb_prometheus = ex_prometheus\<rparr>"

definition ex_node :: rpc_client where
  "ex_node = \<lparr>nc_endpoint = ''http://n'', nc_authorization = None\<rparr>"

definition ex_router :: "(string list, nat) router" where
  "ex_router =
     \<lparr>rt_service =
        \<lparr>as_config = \<lparr>max_payload_bytes = 65536, rate_limit_per_window = 100, rate_window_secs = 60, op_timeout_millis = 5000\<rparr>,
         as_callers = registry_new, as_nonces = {}, as_limiter = limiter_new 100 60, as_audit = [],
         as_header_chain = chain_new 0, as_backend = \<lparr>rb_node = Some ex_node, rb_world = [], rb_draws = 0\<rparr>\<rparr>,
      rt_metrics =
        \<lparr>mt_registry = 0,
         mt_operations = CounterVec ''ob_operations_total'' ''operation outcomes'' [''operation'', ''outcome''],
         mt_op_latency = HistogramVec ''ob_operation_latency_seconds'' ''operation latency'' [''operation''],
         mt_node_submissions = CounterVec ''ob_node_submissions_total'' ''BSV node submission outcomes'' [''outcome''],
         mt_threshold_round = HistogramVec ''ob_threshold_round_seconds'' ''threshold-signing round timings'' [''round''],
         mt_active_sessions = Gauge ''ob_active_sessions'' ''currently active broadcast sessions'',
         mt_key_derivations = Counter ''ob_key_derivations_total'' ''key derivations performed''\<rparr>,
      rt_node = Some ex_node\<rparr>"

lemma ex_start: "server_start (ex_libs r) [''NODE_RPC_URL'' \<mapsto> utext_of ''http://n''] [] 0 = Inr ex_router"
  by (simp add: server_start_def env_node_def reconnect_def server_config_def env_usize_def env_u32_def env_u64_def
      unwrap_or_def service_new_def config_validate_def ex_node_def rpc_client_new_def to_string_utext metrics_new_def new_instrument_def register_all_def
      ex_libs_def ex_prometheus_def ex_router_def rbind_def map_err_def ok_or_def Let_def)

text \<open>
  A caller that writes a request the way the service documents it is
  understood: the router decodes exactly the fields that were sent. Conversely, a decoded request
  has its caller, operation, nonce and expiry from fields of the body, and payload and signature are
  the bytes of their hexadecimal fields, or empty when such a field is missing or malformed.
\<close>

lemma request_json_roundtrip:
  assumes "\<And>n. js_number_u64 J (num n) = Some n"
  shows "(js_parse J body = Some (request_json num r) \<longrightarrow> parse_request J body = Some r) \<and>
    (parse_request J body = Some r \<longrightarrow> (\<exists>v. js_parse J body = Some v \<and>
      json_get v ''caller'' = Some (JString (rq_caller r)) \<and>
      json_get v ''operation'' = Some (JString (operation_name (rq_operation r))) \<and>
      Option.bind (json_get v ''nonce'') (json_as_u64 J) = Some (rq_nonce r) \<and>
      Option.bind (json_get v ''expiry'') (json_as_u64 J) = Some (rq_expiry_unix r) \<and>
      (rq_payload r = [] \<or> (\<exists>h. json_get v ''payload'' = Some (JString h) \<and> hex_to_bytes h = Inr (rq_payload r))) \<and>
      (rq_signature r = [] \<or> (\<exists>h. json_get v ''signature'' = Some (JString h) \<and> hex_to_bytes h = Inr (rq_signature r)))))"
  using parse_request_json [of J body num r] assms parse_request_Some [of J body r] decode_hex_cases by metis

text \<open>
  C36 [operation_endpoint] The operation endpoint and the boundary together: a request that is not
  admitted is answered 401, 413 or 429, and nothing is executed or audited. An admitted one is
  executed once by the backend and audited once, and the answer carries the result in hexadecimal,
  or status 504 when the time budget is exceeded, or 500 when the backend fails.
\<close>

theorem operation_endpoint:
  assumes "parse_request (lb_serde L) body = Some r"
    and "route L elapsed ''POST'' ''/v1/operation'' body now s = (reply, t)"
  shows "if admitted (lb_ecdsa L) (lb_sha L) r now (rt_service s)
    then as_backend (rt_service t) = snd (real_execute L (rq_operation r) (rq_payload r) (as_backend (rt_service s))) \<and>
      length (as_audit (rt_service t)) = Suc (length (as_audit (rt_service s))) \<and>
      reply = (if op_timeout_millis (as_config (rt_service s)) < elapsed
               then json_answer 504 ''{\"error\":\"operation timed out\"}''
               else case fst (real_execute L (rq_operation r) (rq_payload r) (as_backend (rt_service s))) of
                      Inr response \<Rightarrow> json_answer 200 (''{\"data\":\"'' @ bytes_to_hex (or_data response) @ ''\"}'')
                    | Inl _ \<Rightarrow> json_answer 500 ''{\"error\":\"internal error\"}'')
    else rt_service t = (rt_service s)\<lparr>as_nonces := as_nonces (rt_service t), as_limiter := as_limiter (rt_service t)\<rparr> \<and>
      ha_status reply \<in> {401, 413, 429}"
proof -
  obtain res u where h: "api_handle (lb_ecdsa L) (lb_sha L) (real_execute L) elapsed r now (rt_service s) = (res, u)" by fastforce
  note reply = assms(2) [unfolded route_operation handle_operation_Some [OF assms(1) h]]
  show ?thesis
  proof (cases "admitted (lb_ecdsa L) (lb_sha L) r now (rt_service s)")
    case True
    then show ?thesis
      using handle_admitted [OF h] reply
      by (auto simp: api_status_def api_error_text_def dest: real_execute_plain real_execute_error split: sum.splits)
  next
    case False
    have "u = (rt_service s)\<lparr>as_nonces := as_nonces u, as_limiter := as_limiter u\<rparr>"
      using handle_refused_frame [OF h False] .
    then show ?thesis
      using False handle_refused(3) [OF h False] reply by (auto simp: json_answer_def)
  qed
qed

theorem operation_endpoint_witness:
  "\<exists>t. route (ex_libs (ex_request\<lparr>rq_operation := Health\<rparr>)) 2 ''POST'' ''/v1/operation'' [] 30 ex_router
     = (json_answer 200 (''{\"data\":\"'' @ bytes_to_hex [1, 0x1f, 2] @ ''\"}''), t)"
proof -
  let ?r = "ex_request\<lparr>rq_operation := Health\<rparr>" and ?L = "ex_libs (ex_request\<lparr>rq_operation := Health\<rparr>)"
  obtain reply t where step: "route ?L 2 ''POST'' ''/v1/operation'' [] 30 ex_router = (reply, t)" by fastforce
  have "parse_request (lb_serde ?L) [] = Some ?r"
    by (rule parse_request_json [where num = id]) (simp_all add: ex_libs_def ex_serde_def)
  from operation_endpoint [OF this step] show ?thesis
    using step
    by (simp add: admitted_def requires_auth_def ex_request_def ex_router_def real_execute_def response_plain_def)
qed

text \<open>
  C35 [started_server_refuses] What the binary serves after start-up, whatever the environment and
  whatever requests arrive: its registry of callers is empty and nothing fills it, so every signed
  operation is answered 401 (or 413). No key is ever generated, the audit log only holds probes, and
  a node is never sent anything but queries for its best block: every property \<open>Q\<close> of the network
  that these queries keep still holds.
\<close>

theorem started_server_refuses:
  assumes "server_start L env w i = Inr s" "serve L header_ok qs s = (res, replies, t)"
    and "queries_keep L Q" "Q w"
  shows "rb_draws (as_backend (rt_service t)) = i \<and> Q (rb_world (as_backend (rt_service t))) \<and>
    (\<forall>a \<in> set (as_audit (rt_service t)). ae_operation a \<in> {''health'', ''readiness''}) \<and>
    (\<forall>k < length replies. \<forall>r. hq_method (qs ! k) = ''POST'' \<and> url_path (hq_url (qs ! k)) = ''/v1/operation'' \<and>
       parse_request (lb_serde L) (hq_body (qs ! k)) = Some r \<and> requires_auth (rq_operation r)
       \<longrightarrow> ha_status (replies ! k) \<in> {401, 413})"
proof -
  have t: "idle Q i t" and steps: "\<And>k. k < length replies \<Longrightarrow> \<exists>u. idle Q i u \<and> replies ! k = fst (answer_request L (qs ! k) u)"
    using serve_idle [OF assms(3) start_idle [OF assms(1)] assms(2)] assms(4) by auto
  have "ha_status (replies ! k) \<in> {401, 413}"
    if k: "k < length replies" and sent: "hq_method (qs ! k) = ''POST''" "url_path (hq_url (qs ! k)) = ''/v1/operation''"
      and parse: "parse_request (lb_serde L) (hq_body (qs ! k)) = Some r" and auth: "requires_auth (rq_operation r)" for k r
  proof -
    obtain u where u: "idle Q i u" "replies ! k = fst (answer_request L (qs ! k) u)" using steps k by blast
    have none: "as_callers (rt_service u) (rq_caller r) = None" using u(1) by (simp add: idle_def registry_new_def)
    show ?thesis
      using u(2) handle_operation_Some [OF parse handle_unregistered [OF none auth]] sent
      by (simp add: answer_request_def route_operation json_answer_def api_status_def)
  qed
  then show ?thesis using t unfolding idle_def by blast
qed

theorem started_server_refuses_witness:
  "\<exists>replies t. serve (ex_libs ex_request) (\<lambda>_. True)
       [\<lparr>hq_method = ''POST'', hq_url = ''/v1/operation?x'', hq_body = [], hq_now = 30, hq_elapsed = 2\<rparr>,
        \<lparr>hq_method = ''GET'', hq_url = ''/readiness'', hq_body = [], hq_now = 31, hq_elapsed = 2\<rparr>] ex_router
     = (Inr (), replies, t) \<and> ha_status (replies ! 0) \<in> {401, 413} \<and>
     set (rb_world (as_backend (rt_service t))) \<subseteq> {''getbestblockhash''}"
proof -
  let ?qs = "[\<lparr>hq_method = ''POST'', hq_url = ''/v1/operation?x'', hq_body = [], hq_now = 30, hq_elapsed = 2\<rparr>,
    \<lparr>hq_method = ''GET'', hq_url = ''/readiness'', hq_body = [], hq_now = 31, hq_elapsed = 2\<rparr>]"
  obtain x y t where step: "serve (ex_libs ex_request) (\<lambda>_. True) ?qs ex_router = (Inr (), [x, y], t)"
    by (simp add: case_prod_unfold Let_def)
  have parse: "parse_request (lb_serde (ex_libs ex_request)) [] = Some ex_request"
    by (rule parse_request_json [where num = id]) (simp_all add: ex_libs_def ex_serde_def)
  have "queries_keep (ex_libs ex_request) (\<lambda>w. set w \<subseteq> {''getbestblockhash''})"
    by (simp add: queries_keep_def best_block_hash_def op_bind_def op_lift_def rpc_call_def ex_libs_def ex_serde_def
        rpc_request_def unwrap_or_def split: sum.splits)
  from started_server_refuses [OF ex_start step this] parse
  show ?thesis unfolding step by (auto simp: url_path_def ex_request_def requires_auth_def)
qed

end
