(* ===== verification/KeyGraph.thy ===== *)
theory KeyGraph
  imports Prelude "HOL-Library.AList"
begin

text \<open>
  The bounded key graph, \<^verbatim>\<open>crates/keygraph/src/graph.rs\<close> and \<^verbatim>\<open>error.rs\<close>. The node table, a
  \<open>HashMap\<close>, is an association list with distinct keys: looking up, inserting, updating and removing
  are \<open>map_of\<close>, \<open>AList.update\<close> and \<open>AList.delete\<close>, its size is the length, and the order of the list
  stands for the iteration order of the table, which no result here depends on. Node ids, \<open>usize\<close>
  and \<open>u64\<close> counters are natural numbers with the checked additions of the code.

  The invariant \<open>kg_inv\<close> says that the table is a tree with layers and positions that match the
  parent edges, inside the configured bounds. It holds in every reachable state; it gives that the
  traversals end, never report a cycle, and that removing a node removes exactly its descendants.
\<close>

section \<open>Data\<close>

datatype kg_error = NoSuchNode | BoundExceeded | Invariant | Cycle | CannotRemoveRoot

type_synonym node_id = nat

record bounds =
  max_depth :: nat
  max_breadth :: nat
  max_nodes :: nat

record node =
  n_position :: "32 word list"
  n_layer :: nat
  n_parent :: "node_id option"
  n_children :: "node_id list"
  n_key_epoch :: nat

record key_graph =
  g_nodes :: "(node_id \<times> node) list"
  g_root :: node_id
  g_next_id :: nat
  g_bounds :: bounds

section \<open>Operations\<close>

definition with_root :: "bounds \<Rightarrow> key_graph" where
  "with_root b =
     \<lparr>g_nodes = AList.update 0 \<lparr>n_position = [], n_layer = 0, n_parent = None, n_children = [],
        n_key_epoch = 0\<rparr> [], g_root = 0, g_next_id = 1, g_bounds = b\<rparr>"

definition node_count :: "key_graph \<Rightarrow> nat" where
  "node_count g = length (g_nodes g)"

definition depth :: "key_graph \<Rightarrow> nat" where
  "depth g = fold max (map (n_layer \<circ> snd) (g_nodes g)) 0"

definition position :: "key_graph \<Rightarrow> node_id \<Rightarrow> 32 word list option" where
  "position g i = map_option n_position (map_of (g_nodes g) i)"

definition parent :: "key_graph \<Rightarrow> node_id \<Rightarrow> node_id option" where
  "parent g i = Option.bind (map_of (g_nodes g) i) n_parent"

definition root_epoch :: "key_graph \<Rightarrow> nat" where
  "root_epoch g = (case map_of (g_nodes g) (g_root g) of None \<Rightarrow> 0 | Some n \<Rightarrow> n_key_epoch n)"

text \<open>\<open>get_mut\<close>: change the value in place when the key is present.\<close>

definition update_node :: "(node \<Rightarrow> node) \<Rightarrow> node_id \<Rightarrow> (node_id \<times> node) list \<Rightarrow> (node_id \<times> node) list" where
  "update_node f i ns = (case map_of ns i of None \<Rightarrow> ns | Some n \<Rightarrow> AList.update i (f n) ns)"

definition add_child :: "node_id \<Rightarrow> 32 word \<Rightarrow> (key_graph, kg_error, node_id) op" where
  "add_child parent_id coord g =
     (case map_of (g_nodes g) parent_id of
        None \<Rightarrow> (Inl NoSuchNode, g)
      | Some p \<Rightarrow>
          (case checked_add (n_layer p) 1 of
             None \<Rightarrow> (Inl BoundExceeded, g)
           | Some layer \<Rightarrow>
               if max_depth (g_bounds g) < layer \<or> max_breadth (g_bounds g) \<le> length (n_children p)
                  \<or> max_nodes (g_bounds g) \<le> length (g_nodes g)
               then (Inl BoundExceeded, g)
               else
                 (let i = g_next_id g in
                  case checked_add i 1 of
                    None \<Rightarrow> (Inl BoundExceeded, g)
                  | Some nxt \<Rightarrow>
                      (Inr i, g\<lparr>g_next_id := nxt,
                         g_nodes := update_node (\<lambda>p. p\<lparr>n_children := n_children p @ [i]\<rparr>) parent_id
                           (AList.update i \<lparr>n_position = n_position p @ [coord], n_layer = layer,
                              n_parent = Some parent_id, n_children = [], n_key_epoch = 0\<rparr> (g_nodes g))\<rparr>))))"

definition replace_root :: "(key_graph, kg_error, nat) op" where
  "replace_root g =
     (case map_of (g_nodes g) (g_root g) of
        None \<Rightarrow> (Inl NoSuchNode, g)
      | Some r \<Rightarrow>
          (case checked_add (n_key_epoch r) 1 of
             None \<Rightarrow> (Inl BoundExceeded, g)
           | Some e \<Rightarrow> (Inr e, g\<lparr>g_nodes := AList.update (g_root g) (r\<lparr>n_key_epoch := e\<rparr>) (g_nodes g)\<rparr>)))"

text \<open>The removal loop: the stack is a list whose last element is its top, as in a \<open>Vec\<close>.\<close>

function remove_loop :: "nat \<Rightarrow> nat \<Rightarrow> node_id list \<Rightarrow> (node_id \<times> node) list \<Rightarrow>
    (kg_error + unit) \<times> (node_id \<times> node) list" where
  "remove_loop maxn guard stack ns =
     (if stack = [] then (Inr (), ns)
      else
        let current = last stack; stack = butlast stack in
        case checked_add guard 1 of
          None \<Rightarrow> (Inl BoundExceeded, ns)
        | Some guard \<Rightarrow>
            (case checked_add maxn 1 of
               None \<Rightarrow> (Inl BoundExceeded, ns)
             | Some bound \<Rightarrow>
                 if bound < guard then (Inl Cycle, ns)
                 else
                   (case map_of ns current of
                      Some n \<Rightarrow> remove_loop maxn guard (stack @ n_children n) (AList.delete current ns)
                    | None \<Rightarrow> remove_loop maxn guard stack ns)))"
  by pat_completeness auto
termination
  by (relation "measure (\<lambda>(maxn, guard, stack, ns). Suc maxn - guard)")
    (auto simp: checked_add_def split: if_splits)

declare remove_loop.simps [simp del]

definition remove_subtree :: "node_id \<Rightarrow> (key_graph, kg_error, unit) op" where
  "remove_subtree i g =
     (if i = g_root g then (Inl CannotRemoveRoot, g)
      else case map_of (g_nodes g) i of
        None \<Rightarrow> (Inl NoSuchNode, g)
      | Some n \<Rightarrow>
          (let ns = (case n_parent n of
                       None \<Rightarrow> g_nodes g
                     | Some p \<Rightarrow> update_node (\<lambda>q. q\<lparr>n_children := filter (\<lambda>c. c \<noteq> i) (n_children q)\<rparr>) p (g_nodes g));
               (r, ns') = remove_loop (max_nodes (g_bounds g)) 0 [i] ns
           in (r, g\<lparr>g_nodes := ns'\<rparr>)))"

function path_loop :: "key_graph \<Rightarrow> nat \<Rightarrow> node_id list \<Rightarrow> node_id option \<Rightarrow> kg_error + node_id list" where
  "path_loop g max_steps path current =
     (case current of
        None \<Rightarrow> Inr path
      | Some i \<Rightarrow>
          if max_steps < length path then Inl Cycle
          else case map_of (g_nodes g) i of
            None \<Rightarrow> Inl NoSuchNode
          | Some n \<Rightarrow> path_loop g max_steps (path @ [i]) (n_parent n))"
  by pat_completeness auto
termination
  by (relation "measure (\<lambda>(g, max_steps, path, current). Suc max_steps - length path)") auto

declare path_loop.simps [simp del]

definition leaf_to_root :: "key_graph \<Rightarrow> node_id \<Rightarrow> kg_error + node_id list" where
  "leaf_to_root g i =
     rbind (ok_or (checked_add (max_depth (g_bounds g)) 2) BoundExceeded) (\<lambda>max_steps.
     path_loop g max_steps [] (Some i))"

definition reachable_set :: "key_graph \<Rightarrow> node_id \<Rightarrow> kg_error + node_id list" where
  "reachable_set g i = leaf_to_root g i"

fun layers_loop :: "(node_id \<times> node) list \<Rightarrow> node_id list list \<Rightarrow> node_id list list" where
  "layers_loop [] ls = ls"
| "layers_loop ((i, n) # rest) ls =
     (let ls = (if length ls \<le> n_layer n
                then ls @ replicate (saturating_add usize_bound (n_layer n) 1 - length ls) [] else ls);
          ls = (if n_layer n < length ls then ls[n_layer n := ls ! n_layer n @ [i]] else ls)
      in layers_loop rest ls)"

definition layers :: "key_graph \<Rightarrow> node_id list list" where
  "layers g = layers_loop (g_nodes g) []"

fun verify_loop :: "key_graph \<Rightarrow> nat \<Rightarrow> (node_id \<times> node) list \<Rightarrow> kg_error + nat" where
  "verify_loop g roots [] = Inr roots"
| "verify_loop g roots ((i, n) # rest) =
     (case n_parent n of
        None \<Rightarrow>
          rbind (ok_or (checked_add roots 1) Invariant) (\<lambda>roots'.
          if i \<noteq> g_root g then Inl Invariant else verify_loop g roots' rest)
      | Some p \<Rightarrow>
          rbind (ok_or (map_of (g_nodes g) p) Invariant) (\<lambda>pn.
          if i \<notin> set (n_children pn) then Inl Invariant else verify_loop g roots rest))"

definition verify_invariants :: "key_graph \<Rightarrow> kg_error + unit" where
  "verify_invariants g =
     rbind (verify_loop g 0 (g_nodes g)) (\<lambda>roots. if roots = 1 then Inr () else Inl Invariant)"

section \<open>The invariant\<close>

text \<open>What the edge from a non-root node to its parent has to satisfy.\<close>

definition edge_ok :: "(node_id \<Rightarrow> node option) \<Rightarrow> node_id \<Rightarrow> node \<Rightarrow> node_id \<Rightarrow> bool" where
  "edge_ok m i n p \<longleftrightarrow> (\<exists>pn. m p = Some pn \<and> p < i \<and> i \<in> set (n_children pn)
     \<and> n_layer n = Suc (n_layer pn) \<and> (\<exists>c. n_position n = n_position pn @ [c]))"

definition node_ok :: "bounds \<Rightarrow> (node_id \<Rightarrow> node option) \<Rightarrow> node_id \<Rightarrow> node \<Rightarrow> bool" where
  "node_ok b m i n \<longleftrightarrow>
     (case n_parent n of None \<Rightarrow> i = 0 \<and> n_layer n = 0 \<and> n_position n = [] | Some p \<Rightarrow> edge_ok m i n p)
     \<and> distinct (n_children n)
     \<and> (\<forall>c \<in> set (n_children n). \<exists>k. m c = Some k \<and> n_parent k = Some i)
     \<and> n_layer n \<le> max_depth b \<and> length (n_children n) \<le> max_breadth b"

definition kg_inv :: "key_graph \<Rightarrow> bool" where
  "kg_inv g \<longleftrightarrow> g_root g = 0 \<and> distinct (map fst (g_nodes g))
     \<and> (\<exists>r. map_of (g_nodes g) 0 = Some r \<and> n_parent r = None)
     \<and> length (g_nodes g) \<le> max (max_nodes (g_bounds g)) 1
     \<and> (\<forall>i n. map_of (g_nodes g) i = Some n \<longrightarrow> i < g_next_id g \<and> node_ok (g_bounds g) (map_of (g_nodes g)) i n)"

text \<open>Child edges of a table, and the descendants of a node.\<close>

definition edges :: "(node_id \<times> node) list \<Rightarrow> (node_id \<times> node_id) set" where
  "edges ns = {(p, c). \<exists>n. map_of ns c = Some n \<and> n_parent n = Some p}"

definition descendants :: "(node_id \<times> node) list \<Rightarrow> node_id \<Rightarrow> node_id set" where
  "descendants ns i = {d. (i, d) \<in> (edges ns)\<^sup>*}"

inductive kg_step :: "key_graph \<Rightarrow> key_graph \<Rightarrow> bool" where
  add_child: "add_child p c g = (r, h) \<Longrightarrow> kg_step g h"
| replace_root: "replace_root g = (r, h) \<Longrightarrow> kg_step g h"
| remove_subtree: "remove_subtree i g = (r, h) \<Longrightarrow> kg_step g h"

lemmas map_simps = AList.update_conv' AList.delete_conv'

lemma kg_inv_root: "kg_inv g \<Longrightarrow> g_root g = 0"
  by (simp add: kg_inv_def)

lemma kg_inv_node:
  "kg_inv g \<Longrightarrow> map_of (g_nodes g) i = Some n \<Longrightarrow>
   i < g_next_id g \<and> node_ok (g_bounds g) (map_of (g_nodes g)) i n"
  by (simp add: kg_inv_def)

lemma with_root_inv: "kg_inv (with_root b)"
  by (auto simp: kg_inv_def with_root_def node_ok_def)

section \<open>Adding a child\<close>

lemma map_update_node:
  "map_of (update_node f i ns) = (case map_of ns i of None \<Rightarrow> map_of ns | Some n \<Rightarrow> (map_of ns)(i \<mapsto> f n))"
  by (simp add: update_node_def map_simps split: option.splits)

lemma keys_update_node [simp]: "map fst (update_node f i ns) = map fst ns"
proof (cases "map_of ns i")
  case (Some n)
  then have "i \<in> set (map fst ns)" by (metis map_of_eq_None_iff option.distinct(1) set_map)
  with Some show ?thesis by (simp add: update_node_def AList.update_keys)
qed (simp add: update_node_def)

lemma length_update_node [simp]: "length (update_node f i ns) = length ns"
  using keys_update_node [of f i ns] by (metis length_map)

lemma length_update_new: "map_of ns i = None \<Longrightarrow> length (AList.update i v ns) = Suc (length ns)"
  by (induction ns) (auto split: if_splits)

lemma add_child_ok:
  "add_child p c g = (Inr i, h) \<longleftrightarrow> (\<exists>pn. map_of (g_nodes g) p = Some pn
     \<and> Suc (n_layer pn) \<le> max_depth (g_bounds g) \<and> Suc (n_layer pn) < usize_bound
     \<and> length (n_children pn) < max_breadth (g_bounds g) \<and> length (g_nodes g) < max_nodes (g_bounds g)
     \<and> i = g_next_id g \<and> Suc i < usize_bound
     \<and> h = g\<lparr>g_next_id := Suc i,
         g_nodes := update_node (\<lambda>p. p\<lparr>n_children := n_children p @ [i]\<rparr>) p
           (AList.update i \<lparr>n_position = n_position pn @ [c], n_layer = Suc (n_layer pn),
              n_parent = Some p, n_children = [], n_key_epoch = 0\<rparr> (g_nodes g))\<rparr>)"
  by (auto simp: add_child_def checked_add_def Let_def split: option.splits if_splits)

lemma add_child_err: "add_child p c g = (Inl e, h) \<Longrightarrow> h = g"
  by (auto simp: add_child_def checked_add_def Let_def split: option.splits if_splits)

lemma add_child_map:
  assumes "kg_inv g" "add_child p c g = (Inr i, h)"
  obtains pn where "map_of (g_nodes g) p = Some pn" "map_of (g_nodes g) i = None" "p < i"
    "map_of (g_nodes h) = (map_of (g_nodes g))(i \<mapsto> \<lparr>n_position = n_position pn @ [c],
       n_layer = Suc (n_layer pn), n_parent = Some p, n_children = [], n_key_epoch = 0\<rparr>,
       p \<mapsto> pn\<lparr>n_children := n_children pn @ [i]\<rparr>)"
    "g_next_id h = Suc i" "g_root h = g_root g" "g_bounds h = g_bounds g"
    "map fst (g_nodes h) = map fst (g_nodes g) @ [i]"
    "Suc (n_layer pn) \<le> max_depth (g_bounds g)" "length (n_children pn) < max_breadth (g_bounds g)"
    "length (g_nodes g) < max_nodes (g_bounds g)" "i = g_next_id g"
proof -
  from assms(2) obtain pn where pn: "map_of (g_nodes g) p = Some pn" "i = g_next_id g"
    and rest: "Suc (n_layer pn) \<le> max_depth (g_bounds g)" "length (n_children pn) < max_breadth (g_bounds g)"
    "length (g_nodes g) < max_nodes (g_bounds g)"
    and h: "h = g\<lparr>g_next_id := Suc i,
         g_nodes := update_node (\<lambda>p. p\<lparr>n_children := n_children p @ [i]\<rparr>) p
           (AList.update i \<lparr>n_position = n_position pn @ [c], n_layer = Suc (n_layer pn),
              n_parent = Some p, n_children = [], n_key_epoch = 0\<rparr> (g_nodes g))\<rparr>"
    by (auto simp: add_child_ok)
  have fresh: "map_of (g_nodes g) i = None"
    using kg_inv_node [OF assms(1), of i] pn(2) by (cases "map_of (g_nodes g) i") auto
  have "p < i" using kg_inv_node [OF assms(1) pn(1)] pn(2) by simp
  moreover from fresh have "i \<notin> set (map fst (g_nodes g))" by (simp add: map_of_eq_None_iff)
  ultimately show thesis
    using that [OF pn(1) fresh] pn rest h
    by (simp add: map_update_node map_simps AList.update_keys)
qed

text \<open>A table that only gained nodes and children keeps the conditions on its old nodes.\<close>

definition extends :: "(node_id \<Rightarrow> node option) \<Rightarrow> (node_id \<Rightarrow> node option) \<Rightarrow> bool" where
  "extends m m' \<longleftrightarrow> (\<forall>i n. m i = Some n \<longrightarrow> (\<exists>n'. m' i = Some n' \<and> n_parent n' = n_parent n
     \<and> n_layer n' = n_layer n \<and> n_position n' = n_position n \<and> set (n_children n) \<subseteq> set (n_children n')))"

lemma extendsD:
  assumes "extends m m'" "m i = Some n"
  obtains n' where "m' i = Some n'" "n_parent n' = n_parent n" "n_layer n' = n_layer n"
    "n_position n' = n_position n" "set (n_children n) \<subseteq> set (n_children n')"
  using assms unfolding extends_def by blast

lemma edge_ok_extends:
  assumes "extends m m'" "edge_ok m i n p"
  shows "edge_ok m' i n p"
proof -
  from assms(2) obtain pn where pn: "m p = Some pn" "p < i" "i \<in> set (n_children pn)"
    "n_layer n = Suc (n_layer pn)" "\<exists>c. n_position n = n_position pn @ [c]" by (auto simp: edge_ok_def)
  from extendsD [OF assms(1) pn(1)] obtain pn' where "m' p = Some pn'" "n_layer pn' = n_layer pn"
    "n_position pn' = n_position pn" "set (n_children pn) \<subseteq> set (n_children pn')" by metis
  with pn show ?thesis by (auto simp: edge_ok_def)
qed

lemma node_ok_extends:
  assumes "extends m m'" "node_ok b m i n"
  shows "node_ok b m' i n"
  unfolding node_ok_def
proof (intro conjI ballI)
  show "case n_parent n of None \<Rightarrow> i = 0 \<and> n_layer n = 0 \<and> n_position n = [] | Some p \<Rightarrow> edge_ok m' i n p"
    using assms by (auto simp: node_ok_def edge_ok_extends split: option.splits)
  fix c
  assume "c \<in> set (n_children n)"
  with assms(2) obtain k where k: "m c = Some k" "n_parent k = Some i" by (auto simp: node_ok_def)
  from assms(1) k(1) show "\<exists>k. m' c = Some k \<and> n_parent k = Some i"
    by (rule extendsD) (use k(2) in auto)
qed (use assms(2) in \<open>simp_all add: node_ok_def\<close>)

lemma add_child_inv:
  assumes "kg_inv g" "add_child p c g = (Inr i, h)"
  shows "kg_inv h"
proof -
  let ?m = "map_of (g_nodes g)" and ?m' = "map_of (g_nodes h)" and ?b = "g_bounds g"
  obtain pn where pn: "?m p = Some pn" "?m i = None" "p < i"
    and m': "?m' = ?m(i \<mapsto> \<lparr>n_position = n_position pn @ [c], n_layer = Suc (n_layer pn),
       n_parent = Some p, n_children = [], n_key_epoch = 0\<rparr>, p \<mapsto> pn\<lparr>n_children := n_children pn @ [i]\<rparr>)"
    and h: "g_next_id h = Suc i" "g_root h = g_root g" "g_bounds h = ?b"
    "map fst (g_nodes h) = map fst (g_nodes g) @ [i]"
    and bd: "Suc (n_layer pn) \<le> max_depth ?b" "length (n_children pn) < max_breadth ?b"
    "length (g_nodes g) < max_nodes ?b" and i: "i = g_next_id g"
    by (rule add_child_map [OF assms])
  have ext: "extends ?m ?m'" using pn by (auto simp: extends_def m')
  have pok: "node_ok ?b ?m p pn" using kg_inv_node [OF assms(1) pn(1)] by simp
  have fresh: "i \<notin> set (n_children pn)" using pok pn(2) by (auto simp: node_ok_def)
  have "node_ok ?b ?m' j n \<and> j < g_next_id h" if "?m' j = Some n" for j n
  proof -
    consider "j = p" | "j = i" | "j \<noteq> p" "j \<noteq> i" by blast
    then show ?thesis
    proof cases
      case 1
      then have n: "n = pn\<lparr>n_children := n_children pn @ [i]\<rparr>" using that m' by simp
      have "node_ok ?b ?m' p pn" by (rule node_ok_extends [OF ext pok])
      then show ?thesis
        using 1 pn bd fresh h(1) unfolding n
        by (auto simp: node_ok_def edge_ok_def m' split: option.splits)
    next
      case 2
      then show ?thesis
        using that pn bd h(1) by (auto simp: node_ok_def edge_ok_def m')
    next
      case 3
      then have "?m j = Some n" using that m' by simp
      with kg_inv_node [OF assms(1)] node_ok_extends [OF ext] h(1) i show ?thesis by fastforce
    qed
  qed
  moreover have "\<exists>r. ?m' 0 = Some r \<and> n_parent r = None"
    using assms(1) ext by (auto simp: kg_inv_def elim!: extendsD)
  moreover have "distinct (map fst (g_nodes h))"
    using assms(1) pn(2) by (auto simp: kg_inv_def h(4) map_of_eq_None_iff)
  moreover have "length (g_nodes h) = Suc (length (g_nodes g))"
    using arg_cong [OF h(4), of length] by simp
  ultimately show ?thesis
    using assms(1) bd(3) h(2,3) by (auto simp: kg_inv_def)
qed

section \<open>Rotating the root\<close>

lemma replace_root_inv:
  assumes "kg_inv g" "replace_root g = (r, h)"
  shows "kg_inv h"
proof (cases "h = g")
  case False
  from assms obtain rt e where rt: "map_of (g_nodes g) 0 = Some rt"
    and h: "h = g\<lparr>g_nodes := AList.update 0 (rt\<lparr>n_key_epoch := e\<rparr>) (g_nodes g)\<rparr>"
    using False by (auto simp: replace_root_def kg_inv_root split: option.splits)
  let ?m = "map_of (g_nodes g)" and ?m' = "map_of (g_nodes h)"
  have m': "?m' = ?m(0 \<mapsto> rt\<lparr>n_key_epoch := e\<rparr>)" by (simp add: h map_simps)
  have ext: "extends ?m ?m'" using rt by (auto simp: extends_def m')
  have keys: "map fst (g_nodes h) = map fst (g_nodes g)"
    using rt by (auto simp: h AList.update_keys map_of_eq_None_iff dest: map_of_SomeD intro: rev_image_eqI)
  have "node_ok (g_bounds g) ?m' j n \<and> j < g_next_id g" if "?m' j = Some n" for j n
  proof (cases "j = 0")
    case True
    with that have n: "n = rt\<lparr>n_key_epoch := e\<rparr>" by (simp add: m')
    have "node_ok (g_bounds g) ?m' 0 rt"
      using node_ok_extends [OF ext] kg_inv_node [OF assms(1) rt] by blast
    with kg_inv_node [OF assms(1) rt] True show ?thesis
      unfolding n by (auto simp: node_ok_def edge_ok_def split: option.splits)
  next
    case False
    with that have "?m j = Some n" by (simp add: m')
    with node_ok_extends [OF ext] kg_inv_node [OF assms(1)] show ?thesis by blast
  qed
  moreover have "length (g_nodes h) = length (g_nodes g)" using keys by (metis length_map)
  moreover have "\<exists>r. ?m' 0 = Some r \<and> n_parent r = None"
    using assms(1) ext by (auto simp: kg_inv_def elim!: extendsD)
  ultimately show ?thesis
    using assms(1) keys by (auto simp: kg_inv_def h)
qed (use assms in simp)


section \<open>Removing a subtree\<close>

text \<open>A table whose child lists and parent edges agree, except possibly for the node \<open>start\<close>.\<close>

definition forest :: "(node_id \<Rightarrow> node option) \<Rightarrow> node_id \<Rightarrow> bool" where
  "forest m start \<longleftrightarrow>
     (\<forall>i n. m i = Some n \<longrightarrow> distinct (n_children n)
        \<and> (\<forall>c \<in> set (n_children n). \<exists>k. m c = Some k \<and> n_parent k = Some i))
     \<and> (\<forall>c k p. m c = Some k \<longrightarrow> n_parent k = Some p \<longrightarrow> p < c
        \<and> (c \<noteq> start \<longrightarrow> (\<exists>pn. m p = Some pn \<and> c \<in> set (n_children pn))))"

text \<open>The removal loop: \<open>R\<close> is what was removed, the stack what is still to be removed.\<close>

definition removing :: "(node_id \<times> node) list \<Rightarrow> node_id \<Rightarrow> node_id set \<Rightarrow> node_id list \<Rightarrow> bool" where
  "removing ns start R stack \<longleftrightarrow>
     (let m = map_of ns in
      distinct stack \<and> set stack \<inter> R = {} \<and> R \<union> set stack \<subseteq> dom m \<and> start \<in> R \<union> set stack
      \<and> R \<union> set stack \<subseteq> descendants ns start
      \<and> (\<forall>r \<in> R \<union> set stack. r = start \<or> (\<exists>n p. m r = Some n \<and> n_parent n = Some p \<and> p \<in> R))
      \<and> (\<forall>r \<in> R. \<forall>n. m r = Some n \<longrightarrow> set (n_children n) \<subseteq> R \<union> set stack))"

lemma forest_child:
  "forest m start \<Longrightarrow> m i = Some n \<Longrightarrow> c \<in> set (n_children n) \<Longrightarrow> \<exists>k. m c = Some k \<and> n_parent k = Some i \<and> i < c"
  unfolding forest_def by blast

lemma forest_parent:
  "forest m start \<Longrightarrow> m c = Some k \<Longrightarrow> n_parent k = Some p \<Longrightarrow> c \<noteq> start \<Longrightarrow>
   \<exists>pn. m p = Some pn \<and> c \<in> set (n_children pn)"
  unfolding forest_def by blast

lemma removing_children:
  "removing ns start R stack \<Longrightarrow> r \<in> R \<Longrightarrow> map_of ns r = Some n \<Longrightarrow> c \<in> set (n_children n) \<Longrightarrow> c \<in> R \<union> set stack"
  unfolding removing_def Let_def by blast

lemma descendant_ge:
  assumes "forest (map_of ns) start" "d \<in> descendants ns i"
  shows "i \<le> d"
proof -
  have "(i, d) \<in> (edges ns)\<^sup>*" using assms(2) by (simp add: descendants_def)
  then show ?thesis
  proof (induction rule: rtrancl_induct)
    case (step y z)
    then have "y < z" using assms(1) by (auto simp: edges_def forest_def)
    with step show ?case by simp
  qed simp
qed

lemma removing_child:
  assumes f: "forest (map_of ns) start" and inv: "removing ns start R (stack @ [cur])"
    and n: "map_of ns cur = Some n" and c: "c \<in> set (n_children n)"
  shows "\<exists>k. map_of ns c = Some k \<and> n_parent k = Some cur" "cur < c" "c \<notin> R \<union> set stack" "c \<in> descendants ns start"
proof -
  have cur: "cur \<notin> R" "cur \<in> descendants ns start" using inv by (auto simp: removing_def Let_def)
  have par: "r = start \<or> (\<exists>n p. map_of ns r = Some n \<and> n_parent n = Some p \<and> p \<in> R)" if "r \<in> R \<union> set stack" for r
    using that inv unfolding removing_def Let_def by auto
  from forest_child [OF f n c] obtain k where k: "map_of ns c = Some k" "n_parent k = Some cur" "cur < c" by blast
  then show "\<exists>k. map_of ns c = Some k \<and> n_parent k = Some cur" "cur < c" by blast+
  have "c \<noteq> start" using descendant_ge [OF f cur(2)] k(3) by auto
  with par [of c] k cur(1) show "c \<notin> R \<union> set stack" by auto
  have "(cur, c) \<in> edges ns" using k by (auto simp: edges_def)
  with cur(2) show "c \<in> descendants ns start" by (auto simp: descendants_def intro: rtrancl_into_rtrancl)
qed

lemma removing_step:
  assumes f: "forest (map_of ns) start" and inv: "removing ns start R (stack @ [cur])"
    and n: "map_of ns cur = Some n"
  shows "removing ns start (insert cur R) (stack @ n_children n)"
proof -
  note ch = removing_child [OF f inv n]
  have old: "cur \<notin> R" "cur \<notin> set stack" "distinct stack" "set stack \<inter> R = {}" "R \<subseteq> dom (map_of ns)" "set stack \<subseteq> dom (map_of ns)"
    "start \<in> insert cur (R \<union> set stack)" "insert cur (R \<union> set stack) \<subseteq> descendants ns start"
    using inv by (auto simp: removing_def Let_def)
  have parents: "\<forall>r \<in> R \<union> set (stack @ [cur]). r = start \<or> (\<exists>n p. map_of ns r = Some n \<and> n_parent n = Some p \<and> p \<in> R)"
    using inv unfolding removing_def Let_def by (elim conjE)
  have par: "\<forall>r \<in> insert cur R \<union> set (stack @ n_children n).
      r = start \<or> (\<exists>n p. map_of ns r = Some n \<and> n_parent n = Some p \<and> p \<in> insert cur R)"
  proof
    fix r
    assume "r \<in> insert cur R \<union> set (stack @ n_children n)"
    then consider "r \<in> R \<union> set (stack @ [cur])" | "r \<in> set (n_children n)" by auto
    then show "r = start \<or> (\<exists>n p. map_of ns r = Some n \<and> n_parent n = Some p \<and> p \<in> insert cur R)"
    proof cases
      case 1
      with parents show ?thesis by blast
    next
      case 2
      with ch(1) show ?thesis by blast
    qed
  qed
  have "distinct (n_children n)" using f n by (auto simp: forest_def)
  with old(3) ch(3) have distinct: "distinct (stack @ n_children n)" by auto
  have "c \<notin> insert cur R" if "c \<in> set (n_children n)" for c using ch(2,3) [OF that] by auto
  then have apart: "set (stack @ n_children n) \<inter> insert cur R = {}" using old(2,4) by auto
  have "set (n_children n) \<subseteq> dom (map_of ns)" using ch(1) by blast
  then have inside: "insert cur R \<union> set (stack @ n_children n) \<subseteq> dom (map_of ns)" using old(5,6) n by auto
  have "insert cur R \<union> set (stack @ n_children n) \<subseteq> descendants ns start" using old(8) ch(4) by auto
  moreover have "\<forall>r \<in> insert cur R. \<forall>n'. map_of ns r = Some n' \<longrightarrow> set (n_children n') \<subseteq> insert cur R \<union> set (stack @ n_children n)"
    using n removing_children [OF inv] by auto
  moreover have "start \<in> insert cur R \<union> set (stack @ n_children n)" using old(7) by auto
  ultimately show ?thesis using par distinct apart inside unfolding removing_def Let_def by (intro conjI)
qed

lemma removing_done:
  assumes f: "forest (map_of ns) start" and inv: "removing ns start R []"
  shows "R = descendants ns start"
proof
  show "R \<subseteq> descendants ns start" using inv by (simp add: removing_def Let_def)
  show "descendants ns start \<subseteq> R"
  proof
    fix d
    assume "d \<in> descendants ns start"
    then have "(start, d) \<in> (edges ns)\<^sup>*" by (simp add: descendants_def)
    then show "d \<in> R"
    proof (induction rule: rtrancl_induct)
      case base
      then show ?case using inv by (simp add: removing_def Let_def)
    next
      case (step y z)
      then obtain k where k: "map_of ns z = Some k" "n_parent k = Some y" by (auto simp: edges_def)
      have "start \<le> y" using step(1) descendant_ge [OF f] by (simp add: descendants_def)
      moreover have "y < z" using f k by (auto simp: forest_def)
      ultimately obtain pn where "map_of ns y = Some pn" "z \<in> set (n_children pn)"
        using forest_parent [OF f k] by auto
      with removing_children [OF inv step.IH] show ?case by auto
    qed
  qed
qed


lemma remove_loop_spec:
  assumes f: "forest (map_of ns0) start"
    and bound: "card (dom (map_of ns0)) \<le> Suc maxn" "Suc maxn < usize_bound"
  shows "removing ns0 start R stack \<Longrightarrow> map_of ns = map_of ns0 |` (- R) \<Longrightarrow> distinct (map fst ns) \<Longrightarrow>
     guard = card R \<Longrightarrow>
     \<exists>ns'. remove_loop maxn guard stack ns = (Inr (), ns') \<and> distinct (map fst ns')
       \<and> map_of ns' = map_of ns0 |` (- descendants ns0 start)"
proof (induction "card (dom (map_of ns0)) - card R" arbitrary: R stack ns guard rule: less_induct)
  case less
  show ?case
  proof (cases "stack = []")
    case True
    with less.prems(1) have "R = descendants ns0 start" using removing_done [OF f] by simp
    with True less.prems(2,3) show ?thesis by (subst remove_loop.simps) simp
  next
    case False
    then obtain st cur where st: "stack = st @ [cur]" by (cases stack rule: rev_cases) auto
    have R: "cur \<notin> R" "cur \<in> dom (map_of ns0)" "R \<subseteq> dom (map_of ns0)"
      using less.prems(1) st by (auto simp: removing_def Let_def)
    then obtain n where n: "map_of ns0 cur = Some n" "map_of ns cur = Some n"
      using less.prems(2) by auto
    have fin: "finite R" using R(3) finite_dom_map_of [of ns0] by (rule finite_subset)
    then have card: "card (insert cur R) = Suc guard" using R(1) less.prems(4) by simp
    moreover have le: "card (insert cur R) \<le> card (dom (map_of ns0))"
      using R by (intro card_mono finite_dom_map_of) auto
    ultimately have g: "Suc guard \<le> Suc maxn" using bound(1) by simp
    then have ca: "checked_add guard 1 = Some (Suc guard)" "checked_add maxn 1 = Some (Suc maxn)"
      using bound(2) by simp_all
    have "\<exists>ns'. remove_loop maxn (Suc guard) (st @ n_children n) (AList.delete cur ns) = (Inr (), ns')
        \<and> distinct (map fst ns') \<and> map_of ns' = map_of ns0 |` (- descendants ns0 start)"
    proof (rule less.hyps [of "insert cur R"])
      show "card (dom (map_of ns0)) - card (insert cur R) < card (dom (map_of ns0)) - card R"
        using card le less.prems(4) by simp
      show "removing ns0 start (insert cur R) (st @ n_children n)"
        using removing_step [OF f _ n(1)] less.prems(1) st by simp
      show "map_of (AList.delete cur ns) = map_of ns0 |` (- insert cur R)"
        using less.prems(2) by (auto simp: map_simps fun_eq_iff restrict_map_def)
      show "distinct (map fst (AList.delete cur ns))"
        using less.prems(3) by (rule AList.distinct_delete)
      show "Suc guard = card (insert cur R)" by (simp only: card)
    qed
    then show ?thesis
      using st n g ca by (subst remove_loop.simps) simp
  qed
qed

lemma node_ok_parts:
  assumes "node_ok b m i n"
  shows "distinct (n_children n)" "c \<in> set (n_children n) \<Longrightarrow> \<exists>k. m c = Some k \<and> n_parent k = Some i"
    "n_parent n = Some p \<Longrightarrow> edge_ok m i n p" "n_parent n = None \<Longrightarrow> i = 0"
  using assms by (auto simp: node_ok_def)

text \<open>The table after the parent has dropped the removed child from its list.\<close>

definition unlinked :: "(node_id \<times> node) list \<Rightarrow> node_id \<Rightarrow> node_id \<Rightarrow> (node_id \<times> node) list" where
  "unlinked ns p i = update_node (\<lambda>q. q\<lparr>n_children := filter (\<lambda>c. c \<noteq> i) (n_children q)\<rparr>) p ns"

lemma map_unlinked:
  "map_of ns p = Some pn \<Longrightarrow>
   map_of (unlinked ns p i) = (map_of ns)(p \<mapsto> pn\<lparr>n_children := filter (\<lambda>c. c \<noteq> i) (n_children pn)\<rparr>)"
  by (simp add: unlinked_def map_update_node)

lemma edges_unlinked: "edges (unlinked ns p i) = edges ns"
  by (auto simp: edges_def unlinked_def map_update_node split: option.splits if_splits)

lemma descendants_unlinked: "descendants (unlinked ns p i) j = descendants ns j"
  by (simp add: descendants_def edges_unlinked)

lemma kg_forest:
  assumes "kg_inv g"
  shows "forest (map_of (g_nodes g)) start"
  unfolding forest_def
proof (intro conjI allI impI)
  fix i n
  assume "map_of (g_nodes g) i = Some n"
  with kg_inv_node [OF assms] have ok: "node_ok (g_bounds g) (map_of (g_nodes g)) i n" by blast
  then show "distinct (n_children n)" "\<forall>c \<in> set (n_children n). \<exists>k. map_of (g_nodes g) c = Some k \<and> n_parent k = Some i"
    by (auto simp: node_ok_parts(1) dest: node_ok_parts(2))
  fix p
  assume "n_parent n = Some p"
  from node_ok_parts(3) [OF ok this] show "p < i" "\<exists>pn. map_of (g_nodes g) p = Some pn \<and> i \<in> set (n_children pn)"
    by (auto simp: edge_ok_def)
qed

lemma unlinked_forest:
  assumes f: "forest (map_of ns) 0" and n: "map_of ns i = Some n" "n_parent n = Some p"
    and p: "map_of ns p = Some pn"
  shows "forest (map_of (unlinked ns p i)) i"
  unfolding forest_def
proof (intro conjI allI impI)
  let ?m = "map_of ns" and ?m' = "map_of (unlinked ns p i)"
  have same: "\<exists>k'. ?m' c = Some k' \<and> n_parent k' = n_parent k" if "?m c = Some k" for c k
    using that p by (auto simp: map_unlinked)
  have origin: "\<exists>k. ?m c = Some k \<and> n_parent k' = n_parent k \<and> set (n_children k') \<subseteq> set (n_children k)
      \<and> (distinct (n_children k) \<longrightarrow> distinct (n_children k'))
      \<and> (\<forall>x \<in> set (n_children k). x \<noteq> i \<longrightarrow> x \<in> set (n_children k'))" if "?m' c = Some k'" for c k'
    using that p by (auto simp: map_unlinked split: if_splits)
  fix c k'
  assume k': "?m' c = Some k'"
  then obtain k where k: "?m c = Some k" "n_parent k' = n_parent k"
    "set (n_children k') \<subseteq> set (n_children k)" "distinct (n_children k) \<longrightarrow> distinct (n_children k')"
    using origin by blast
  then show "distinct (n_children k')" using f by (auto simp: forest_def)
  show "\<forall>x \<in> set (n_children k'). \<exists>y. ?m' x = Some y \<and> n_parent y = Some c"
    using forest_child [OF f k(1)] k(3) same by fastforce
  fix q
  assume q: "n_parent k' = Some q"
  then show "q < c" using f k by (auto simp: forest_def)
  assume "c \<noteq> i"
  from q k(2) have pk: "n_parent k = Some q" by simp
  with f k(1) have "q < c" by (auto simp: forest_def)
  then have "c \<noteq> 0" by simp
  from forest_parent [OF f k(1) pk this] obtain qn where qn: "?m q = Some qn" "c \<in> set (n_children qn)" by blast
  then obtain qn' where "?m' q = Some qn'" using same by blast
  with origin qn \<open>c \<noteq> i\<close> show "\<exists>pn. ?m' q = Some pn \<and> c \<in> set (n_children pn)" by fastforce
qed


lemma card_keys: "distinct (map fst ns) \<Longrightarrow> card (dom (map_of ns)) = length ns"
  by (metis distinct_card dom_map_of_conv_image_fst length_map list.set_map)

lemma remove_subtree_run:
  assumes inv: "kg_inv g" and n: "map_of (g_nodes g) i = Some n" and i: "i \<noteq> 0"
    and bd: "Suc (max_nodes (g_bounds g)) < usize_bound"
  obtains p pn ns' where "n_parent n = Some p" "map_of (g_nodes g) p = Some pn" "p < i"
    "remove_subtree i g = (Inr (), g\<lparr>g_nodes := ns'\<rparr>)" "distinct (map fst ns')"
    "map_of ns' = map_of (unlinked (g_nodes g) p i) |` (- descendants (g_nodes g) i)"
proof -
  have ok: "node_ok (g_bounds g) (map_of (g_nodes g)) i n" using kg_inv_node [OF inv n] by simp
  with i obtain p where p: "n_parent n = Some p" using node_ok_parts(4) by (cases "n_parent n") auto
  from node_ok_parts(3) [OF ok p] obtain pn where pn: "map_of (g_nodes g) p = Some pn" "p < i"
    by (auto simp: edge_ok_def)
  let ?ns = "unlinked (g_nodes g) p i"
  have f: "forest (map_of ?ns) i" by (rule unlinked_forest [OF kg_forest [OF inv] n p pn(1)])
  have keys: "map fst ?ns = map fst (g_nodes g)" by (simp add: unlinked_def)
  then have dist: "distinct (map fst ?ns)" using inv by (simp add: kg_inv_def)
  have dom: "dom (map_of ?ns) = dom (map_of (g_nodes g))"
    using keys by (metis dom_map_of_conv_image_fst list.set_map)
  have "length (g_nodes g) \<le> max (max_nodes (g_bounds g)) 1" "distinct (map fst (g_nodes g))"
    using inv by (auto simp: kg_inv_def)
  then have "card (dom (map_of ?ns)) \<le> Suc (max_nodes (g_bounds g))"
    unfolding dom by (subst card_keys) auto
  moreover have "removing ?ns i {} [i]"
    using n dom by (auto simp: removing_def Let_def descendants_def)
  ultimately obtain ns' where ns': "remove_loop (max_nodes (g_bounds g)) 0 [i] ?ns = (Inr (), ns')"
    "distinct (map fst ns')" "map_of ns' = map_of ?ns |` (- descendants ?ns i)"
    using remove_loop_spec [OF f _ bd, of "{}" "[i]" ?ns 0] dist
    by (auto simp: restrict_map_def [of _ UNIV])
  then have "remove_subtree i g = (Inr (), g\<lparr>g_nodes := ns'\<rparr>)"
    using n p i inv by (simp add: remove_subtree_def kg_inv_root unlinked_def)
  with that [OF p pn this ns'(2)] ns'(3) show thesis by (simp add: descendants_unlinked)
qed

lemma descendants_closed:
  "j \<in> descendants ns i \<Longrightarrow> map_of ns c = Some k \<Longrightarrow> n_parent k = Some j \<Longrightarrow> c \<in> descendants ns i"
  by (auto simp: descendants_def edges_def intro: rtrancl_into_rtrancl)

lemma descendants_parent:
  assumes "c \<in> descendants ns i" "c \<noteq> i" "map_of ns c = Some k" "n_parent k = Some j"
  shows "j \<in> descendants ns i"
proof -
  from assms(1,2) obtain q where "(i, q) \<in> (edges ns)\<^sup>*" "(q, c) \<in> edges ns"
    by (auto simp: descendants_def elim: rtranclE)
  with assms(3,4) show ?thesis by (auto simp: descendants_def edges_def)
qed

text \<open>A node that stays keeps everything but the link to the removed subtree, and stays well formed.\<close>

lemma unlinked_at:
  assumes p: "map_of (g_nodes g) p = Some pn"
    and m': "map_of ns' = map_of (unlinked (g_nodes g) p i) |` (- descendants (g_nodes g) i)"
  shows "map_of ns' j = (if j \<in> descendants (g_nodes g) i then None else if j = p then
      Some (pn\<lparr>n_children := filter (\<lambda>c. c \<noteq> i) (n_children pn)\<rparr>) else map_of (g_nodes g) j)"
  by (auto simp: m' map_unlinked [OF p] restrict_map_def)

lemma unlinked_keeps:
  assumes "map_of (g_nodes g) p = Some pn"
    and "map_of ns' = map_of (unlinked (g_nodes g) p i) |` (- descendants (g_nodes g) i)"
    and "map_of (g_nodes g) j = Some k" "j \<notin> descendants (g_nodes g) i"
  shows "\<exists>k'. map_of ns' j = Some k' \<and> n_parent k' = n_parent k \<and> n_layer k' = n_layer k
    \<and> n_position k' = n_position k \<and> (\<forall>c \<in> set (n_children k). c \<noteq> i \<longrightarrow> c \<in> set (n_children k'))"
  using assms(1,3,4) by (auto simp: unlinked_at [OF assms(1,2)])

lemma unlinked_from:
  assumes "map_of (g_nodes g) p = Some pn"
    and "map_of ns' = map_of (unlinked (g_nodes g) p i) |` (- descendants (g_nodes g) i)"
    and "map_of ns' j = Some k'"
  obtains k where "map_of (g_nodes g) j = Some k" "j \<notin> descendants (g_nodes g) i" "n_parent k' = n_parent k" "n_layer k' = n_layer k"
    "n_position k' = n_position k" "set (n_children k') = set (n_children k) - (if j = p then {i} else {})"
    "distinct (n_children k) \<longrightarrow> distinct (n_children k')" "length (n_children k') \<le> length (n_children k)"
  using assms(1,3) by (auto simp: unlinked_at [OF assms(1,2)] set_diff_eq split: if_splits)

lemma unlinked_node_ok:
  assumes inv: "kg_inv g" and n: "map_of (g_nodes g) i = Some n" and p: "n_parent n = Some p" "map_of (g_nodes g) p = Some pn"
    and m': "map_of ns' = map_of (unlinked (g_nodes g) p i) |` (- descendants (g_nodes g) i)" and k': "map_of ns' j = Some k'"
  shows "j < g_next_id g \<and> node_ok (g_bounds g) (map_of ns') j k'"
proof -
  let ?D = "descendants (g_nodes g) i" and ?m = "map_of (g_nodes g)"
  note keep = unlinked_keeps [OF p(2) m']
  obtain k where k: "?m j = Some k" "j \<notin> ?D" and kk: "n_parent k' = n_parent k" "n_layer k' = n_layer k"
    "n_position k' = n_position k" "set (n_children k') = set (n_children k) - (if j = p then {i} else {})"
    "distinct (n_children k) \<longrightarrow> distinct (n_children k')" "length (n_children k') \<le> length (n_children k)"
    by (rule unlinked_from [OF p(2) m' k'])
  have ok: "node_ok (g_bounds g) ?m j k" and jn: "j < g_next_id g" using kg_inv_node [OF inv k(1)] by auto
  have "edge_ok (map_of ns') j k' q" if q: "n_parent k = Some q" for q
  proof -
    from node_ok_parts(3) [OF ok q] obtain qn where qn: "?m q = Some qn" "q < j" "j \<in> set (n_children qn)"
      "n_layer k = Suc (n_layer qn)" "\<exists>c. n_position k = n_position qn @ [c]" by (auto simp: edge_ok_def)
    have "q \<notin> ?D" using descendants_closed [OF _ k(1) q] k(2) by blast
    moreover have "j \<noteq> i" using k(2) by (auto simp: descendants_def)
    ultimately show ?thesis using keep [OF qn(1)] qn kk by (auto simp: edge_ok_def)
  qed
  moreover have "\<exists>l. map_of ns' c = Some l \<and> n_parent l = Some j" if c: "c \<in> set (n_children k')" for c
  proof -
    from c kk(4) node_ok_parts(2) [OF ok] obtain l where l: "?m c = Some l" "n_parent l = Some j" by auto
    have "c \<noteq> i" using c kk(4) l n p(1) by (auto split: if_splits)
    then have "c \<notin> ?D" using descendants_parent [OF _ _ l] k(2) by blast
    from keep [OF l(1) this] l(2) show ?thesis by auto
  qed
  ultimately show ?thesis
    using ok kk jn by (auto simp: node_ok_def split: option.splits)
qed

lemma remove_subtree_inv:
  assumes inv: "kg_inv g" and n: "map_of (g_nodes g) i = Some n" and i: "i \<noteq> 0"
    and bd: "Suc (max_nodes (g_bounds g)) < usize_bound" and h: "remove_subtree i g = (r, h)"
  shows "kg_inv h"
proof -
  obtain p pn ns' where p: "n_parent n = Some p" "map_of (g_nodes g) p = Some pn" "p < i"
    and run: "remove_subtree i g = (Inr (), g\<lparr>g_nodes := ns'\<rparr>)" and dist: "distinct (map fst ns')"
    and m': "map_of ns' = map_of (unlinked (g_nodes g) p i) |` (- descendants (g_nodes g) i)"
    by (rule remove_subtree_run [OF inv n i bd])
  have "0 \<notin> descendants (g_nodes g) i" using descendant_ge [OF kg_forest [OF inv]] i by fastforce
  then have "\<exists>r. map_of ns' 0 = Some r \<and> n_parent r = None"
    using inv unlinked_keeps [OF p(2) m'] by (fastforce simp: kg_inv_def)
  moreover have "length ns' \<le> length (g_nodes g)"
  proof -
    have "dom (map_of ns') \<subseteq> dom (map_of (g_nodes g))" using p(2) by (auto simp: unlinked_at [OF p(2) m'] split: if_splits)
    then have "card (dom (map_of ns')) \<le> card (dom (map_of (g_nodes g)))" by (intro card_mono finite_dom_map_of)
    moreover have "distinct (map fst (g_nodes g))" using inv by (simp add: kg_inv_def)
    ultimately show ?thesis using dist by (simp add: card_keys)
  qed
  moreover have "h = g\<lparr>g_nodes := ns'\<rparr>" using h run by simp
  ultimately show ?thesis
    using inv dist unlinked_node_ok [OF inv n p(1,2) m'] by (auto simp: kg_inv_def)
qed

section \<open>Traversals\<close>

fun path_to_root :: "key_graph \<Rightarrow> node_id list \<Rightarrow> bool" where
  "path_to_root g [] = False"
| "path_to_root g [i] = (\<exists>n. map_of (g_nodes g) i = Some n \<and> n_parent n = None)"
| "path_to_root g (i # j # rest) =
     ((\<exists>n. map_of (g_nodes g) i = Some n \<and> n_parent n = Some j) \<and> path_to_root g (j # rest))"

lemma path_loop_spec:
  assumes inv: "kg_inv g"
  shows "map_of (g_nodes g) i = Some n \<Longrightarrow> \<exists>xs. path_to_root g (i # xs) \<and> length xs = n_layer n
    \<and> (\<forall>max_steps path. length path + n_layer n \<le> max_steps \<longrightarrow>
         path_loop g max_steps path (Some i) = Inr (path @ i # xs))"
proof (induction "n_layer n" arbitrary: i n)
  case 0
  have ok: "node_ok (g_bounds g) (map_of (g_nodes g)) i n" using kg_inv_node [OF inv 0(2)] by simp
  have par: "n_parent n = None"
    using node_ok_parts(3) [OF ok] 0(1) by (cases "n_parent n") (auto simp: edge_ok_def)
  then have "\<forall>max_steps path. length path + n_layer n \<le> max_steps \<longrightarrow>
      path_loop g max_steps path (Some i) = Inr (path @ [i])"
    using 0 by (simp add: path_loop.simps)
  with par 0 show ?case by (intro exI [of _ "[]"]) auto
next
  case (Suc l)
  have ok: "node_ok (g_bounds g) (map_of (g_nodes g)) i n" using kg_inv_node [OF inv Suc.prems] by simp
  obtain p where p: "n_parent n = Some p"
    using ok Suc.hyps(2) by (cases "n_parent n") (auto simp: node_ok_def)
  from node_ok_parts(3) [OF ok p] obtain pn where pn: "map_of (g_nodes g) p = Some pn" "l = n_layer pn"
    using Suc.hyps(2) by (auto simp: edge_ok_def)
  from Suc.hyps(1) [OF pn(2,1)] obtain xs where xs: "path_to_root g (p # xs)" "length xs = n_layer pn"
    "\<forall>max_steps path. length path + n_layer pn \<le> max_steps \<longrightarrow>
       path_loop g max_steps path (Some p) = Inr (path @ p # xs)" by blast
  have "path_loop g max_steps path (Some i) = Inr (path @ i # p # xs)"
    if "length path + n_layer n \<le> max_steps" for max_steps path
    using that xs(3) [rule_format, of "path @ [i]" max_steps] Suc.prems p pn(2) Suc.hyps(2)
    by (subst path_loop.simps) simp
  with xs(1,2) p pn Suc show ?case by (intro exI [of _ "p # xs"]) auto
qed

lemma path_descends:
  assumes "path_to_root g xs" "kg_inv g"
  shows "last xs = 0 \<and> sorted_wrt (>) xs \<and> set xs \<subseteq> dom (map_of (g_nodes g))"
  using assms
proof (induction g xs rule: path_to_root.induct)
  case (2 g i)
  then obtain n where n: "map_of (g_nodes g) i = Some n" "n_parent n = None" by auto
  with kg_inv_node [OF 2(2) n(1)] node_ok_parts(4) show ?case by fastforce
next
  case (3 g i j rest)
  then obtain n where n: "map_of (g_nodes g) i = Some n" "n_parent n = Some j" by auto
  with kg_inv_node [OF 3(3) n(1)] have "edge_ok (map_of (g_nodes g)) i n j"
    using node_ok_parts(3) by blast
  then have "j < i" by (auto simp: edge_ok_def)
  with 3 n show ?case by auto
qed simp

lemma descending_distinct: "sorted_wrt (>) (xs :: nat list) \<Longrightarrow> distinct xs"
  by (induction xs) auto

lemma verify_loop_spec:
  "\<forall>(i, n) \<in> set ns. (case n_parent n of None \<Rightarrow> i = g_root g
     | Some p \<Rightarrow> \<exists>pn. map_of (g_nodes g) p = Some pn \<and> i \<in> set (n_children pn)) \<Longrightarrow>
   roots + length ns < usize_bound \<Longrightarrow>
   verify_loop g roots ns = Inr (roots + length (filter (\<lambda>(i, n). n_parent n = None) ns))"
  by (induction g roots ns rule: verify_loop.induct) (fastforce split: option.splits)+

lemma one_root:
  assumes "kg_inv g"
  shows "length (filter (\<lambda>(i, n). n_parent n = None) (g_nodes g)) = 1"
proof -
  have d: "distinct (map fst (g_nodes g))" using assms by (simp add: kg_inv_def)
  obtain r where r: "map_of (g_nodes g) 0 = Some r" "n_parent r = None"
    using assms by (auto simp: kg_inv_def)
  have "n_parent n = None \<longleftrightarrow> i = 0" if "(i, n) \<in> set (g_nodes g)" for i n
  proof -
    have m: "map_of (g_nodes g) i = Some n" using d that by simp
    show ?thesis
      using kg_inv_node [OF assms m] node_ok_parts(4) r m by fastforce
  qed
  then have "filter (\<lambda>(i, n). n_parent n = None) (g_nodes g) = filter (\<lambda>(i, n). i = 0) (g_nodes g)"
    by (intro filter_cong) auto
  then have "length (filter (\<lambda>(i, n). n_parent n = None) (g_nodes g)) =
      card (set (filter (\<lambda>(i, n). i = 0) (g_nodes g)))"
    using d by (metis distinct_card distinct_filter distinct_map)
  moreover have "set (filter (\<lambda>(i, n). i = 0) (g_nodes g)) = {(0, r)}"
    using d r(1) by (auto dest: map_of_SomeD eq_key_imp_eq_value [OF d])
  ultimately show ?thesis by simp
qed

lemma kg_size:
  assumes "kg_inv g" "Suc (max_nodes (g_bounds g)) < usize_bound"
  shows "length (g_nodes g) < usize_bound"
proof -
  have "length (g_nodes g) \<le> max (max_nodes (g_bounds g)) 1" using assms(1) by (simp add: kg_inv_def)
  also have "\<dots> < usize_bound" using assms(2) by auto
  finally show ?thesis .
qed

lemma verify_invariants_ok:
  assumes inv: "kg_inv g" and bd: "Suc (max_nodes (g_bounds g)) < usize_bound"
  shows "verify_invariants g = Inr ()"
proof -
  have d: "distinct (map fst (g_nodes g))" using inv by (simp add: kg_inv_def)
  have "case n_parent n of None \<Rightarrow> i = g_root g
      | Some p \<Rightarrow> \<exists>pn. map_of (g_nodes g) p = Some pn \<and> i \<in> set (n_children pn)"
    if "(i, n) \<in> set (g_nodes g)" for i n
  proof -
    have "map_of (g_nodes g) i = Some n" using d that by simp
    with kg_inv_node [OF inv this] show ?thesis
      by (auto simp: node_ok_def edge_ok_def kg_inv_root [OF inv] split: option.splits)
  qed
  then have "verify_loop g 0 (g_nodes g) = Inr (0 + length (filter (\<lambda>(i, n). n_parent n = None) (g_nodes g)))"
    by (intro verify_loop_spec) (use kg_size [OF inv bd] in auto)
  then show ?thesis by (simp add: verify_invariants_def one_root [OF inv])
qed

definition layer_at :: "node_id list list \<Rightarrow> nat \<Rightarrow> node_id set" where
  "layer_at ls l = (if l < length ls then set (ls ! l) else {})"

lemma layer_at_push:
  assumes "Suc k < usize_bound"
  shows "layer_at (let ls = (if length ls \<le> k then ls @ replicate (saturating_add usize_bound k 1 - length ls) [] else ls)
    in if k < length ls then ls[k := ls ! k @ [i]] else ls) l = layer_at ls l \<union> (if l = k then {i} else {})"
  using assms
  by (auto simp: layer_at_def Let_def saturating_add_def nth_append nth_list_update)

lemma layers_loop_spec:
  "\<forall>(i, n) \<in> set ns. Suc (n_layer n) < usize_bound \<Longrightarrow>
   layer_at (layers_loop ns ls) l = layer_at ls l \<union> {i. \<exists>n. (i, n) \<in> set ns \<and> n_layer n = l}"
proof (induction ns ls rule: layers_loop.induct)
  case (2 i n rest ls)
  then have "Suc (n_layer n) < usize_bound" by simp
  note push = layer_at_push [OF this, of ls i l]
  from 2 show ?case
    by (simp only: layers_loop.simps Let_def) (auto simp: push [unfolded Let_def])
qed simp

section \<open>Reachable graphs\<close>

definition bounds_ok :: "bounds \<Rightarrow> bool" where
  "bounds_ok b \<longleftrightarrow> Suc (max_nodes b) < usize_bound \<and> max_depth b + 2 < usize_bound"

lemma remove_subtree_cases:
  assumes "kg_inv g" "remove_subtree i g = (r, h)" "Suc (max_nodes (g_bounds g)) < usize_bound"
  shows "kg_inv h \<and> g_bounds h = g_bounds g"
proof (cases "i = 0 \<or> map_of (g_nodes g) i = None")
  case True
  with assms show ?thesis by (auto simp: remove_subtree_def kg_inv_root split: if_splits)
next
  case False
  then obtain n where n: "map_of (g_nodes g) i = Some n" "i \<noteq> 0" by auto
  have "kg_inv h" by (rule remove_subtree_inv [OF assms(1) n assms(3,2)])
  moreover have "g_bounds h = g_bounds g"
  proof -
    obtain ns' where "remove_subtree i g = (Inr (), g\<lparr>g_nodes := ns'\<rparr>)"
      using remove_subtree_run [OF assms(1) n assms(3)] by blast
    with assms(2) show ?thesis by auto
  qed
  ultimately show ?thesis by simp
qed

lemma kg_step_inv:
  assumes "kg_step g h" "kg_inv g" "bounds_ok (g_bounds g)"
  shows "kg_inv h \<and> g_bounds h = g_bounds g"
  using assms(1)
proof cases
  case (add_child p c r)
  then show ?thesis
  proof (cases r)
    case (Inr i)
    with add_child add_child_inv [OF assms(2)] show ?thesis by (auto simp: add_child_ok)
  next
    case (Inl e)
    with add_child have "h = g" by (auto intro: add_child_err)
    with assms(2) show ?thesis by simp
  qed
next
  case (replace_root r)
  moreover have "g_bounds h = g_bounds g"
    using replace_root by (auto simp: replace_root_def split: option.splits)
  ultimately show ?thesis using replace_root_inv [OF assms(2)] by blast
next
  case (remove_subtree i r)
  then show ?thesis using remove_subtree_cases [OF assms(2)] assms(3) by (simp add: bounds_ok_def)
qed

lemma kg_reach_inv:
  assumes "kg_step\<^sup>*\<^sup>* (with_root b) g" "bounds_ok b"
  shows "kg_inv g \<and> g_bounds g = b"
  using assms(1)
proof (induction rule: rtranclp_induct)
  case base
  show ?case using with_root_inv [of b] by (simp add: with_root_def)
next
  case (step g h)
  then show ?case using kg_step_inv [OF step(2)] assms(2) by auto
qed

lemma leaf_to_root_spec:
  assumes inv: "kg_inv g" and bd: "bounds_ok (g_bounds g)"
  shows "case map_of (g_nodes g) i of
      None \<Rightarrow> leaf_to_root g i = Inl NoSuchNode
    | Some n \<Rightarrow> (\<exists>xs. leaf_to_root g i = Inr (i # xs) \<and> path_to_root g (i # xs)
        \<and> length xs = n_layer n \<and> last (i # xs) = g_root g \<and> distinct (i # xs))"
proof (cases "map_of (g_nodes g) i")
  case None
  then show ?thesis using bd by (simp add: leaf_to_root_def path_loop.simps bounds_ok_def)
next
  case (Some n)
  from path_loop_spec [OF inv Some] obtain xs where xs: "path_to_root g (i # xs)" "length xs = n_layer n"
    "\<And>max_steps path. length path + n_layer n \<le> max_steps \<Longrightarrow>
         path_loop g max_steps path (Some i) = Inr (path @ i # xs)" by blast
  have "n_layer n \<le> max_depth (g_bounds g)" using kg_inv_node [OF inv Some] by (simp add: node_ok_def)
  then have "leaf_to_root g i = Inr (i # xs)"
    using xs(3) [of "[]" "max_depth (g_bounds g) + 2"] bd by (simp add: leaf_to_root_def bounds_ok_def)
  moreover have "last (i # xs) = 0" "distinct (i # xs)"
    using path_descends [OF xs(1) inv] descending_distinct by blast+
  ultimately show ?thesis using Some xs kg_inv_root [OF inv] by auto
qed

section \<open>The interface of the layers above\<close>

text \<open>What the broadcast and overlay layers use: from every member the walk ends at the top, along
  the upward edges. A value carried along such a walk ends as the value of the top.\<close>

locale rooted_tree =
  fixes inv :: "'g \<Rightarrow> bool" and members :: "'g \<Rightarrow> 'n set" and up :: "'g \<Rightarrow> 'n \<Rightarrow> 'n option"
    and top_of :: "'g \<Rightarrow> 'n" and walk :: "'g \<Rightarrow> 'n \<Rightarrow> 'e + 'n list"
  assumes walk_ok: "inv g \<Longrightarrow> i \<in> members g \<Longrightarrow>
    \<exists>xs. walk g i = Inr (i # xs) \<and> successively (\<lambda>c p. up g c = Some p) (i # xs)
      \<and> last (i # xs) = top_of g \<and> distinct (i # xs) \<and> set (i # xs) \<subseteq> members g"
begin

lemma carried:
  assumes "successively (\<lambda>c p. up g c = Some p) (i # xs)"
    "\<And>c p. up g c = Some p \<Longrightarrow> f c p (K c) = Inr (K p)"
  shows "fold_windows f (i # xs) (K i) = Inr (K (last (i # xs)))"
  using assms(1) by (induction xs arbitrary: i) (simp_all add: assms(2))

lemma climb:
  assumes "inv g" "i \<in> members g" "\<And>c p. up g c = Some p \<Longrightarrow> f c p (K c) = Inr (K p)"
  shows "\<exists>path. walk g i = Inr path \<and> fold_windows f path (K i) = Inr (K (top_of g))"
  using walk_ok [OF assms(1,2)] carried [of g i _ f K, OF _ assms(3)] by metis

end

lemma path_to_root_successively:
  "path_to_root g xs \<Longrightarrow> successively (\<lambda>c p. parent g c = Some p) xs"
  by (induction g xs rule: path_to_root.induct) (auto simp: parent_def)

interpretation kg: rooted_tree "\<lambda>g. kg_inv g \<and> bounds_ok (g_bounds g)" "\<lambda>g. dom (map_of (g_nodes g))"
  parent g_root leaf_to_root
proof
  fix g i
  assume g: "kg_inv g \<and> bounds_ok (g_bounds g)" and "i \<in> dom (map_of (g_nodes g))"
  then obtain n where "map_of (g_nodes g) i = Some n" by auto
  with leaf_to_root_spec [of g i] g obtain xs where xs: "leaf_to_root g i = Inr (i # xs)"
    "path_to_root g (i # xs)" "last (i # xs) = g_root g" "distinct (i # xs)" by auto
  moreover have "set (i # xs) \<subseteq> dom (map_of (g_nodes g))" using path_descends [OF xs(2)] g by blast
  ultimately show "\<exists>xs. leaf_to_root g i = Inr (i # xs) \<and> successively (\<lambda>c p. parent g c = Some p) (i # xs)
      \<and> last (i # xs) = g_root g \<and> distinct (i # xs) \<and> set (i # xs) \<subseteq> dom (map_of (g_nodes g))"
    using path_to_root_successively [OF xs(2)] by blast
qed

section \<open>A concrete graph\<close>

definition ex_bounds :: bounds where
  "ex_bounds = \<lparr>max_depth = 2, max_breadth = 2, max_nodes = 5\<rparr>"

definition ex_graph :: key_graph where
  "ex_graph = snd (add_child 1 7 (snd (add_child 0 5 (with_root ex_bounds))))"

lemma ex_bounds_ok: "bounds_ok ex_bounds"
  by (simp add: bounds_ok_def ex_bounds_def usize_bound_def)

lemma ex_graph_reach: "kg_step\<^sup>*\<^sup>* (with_root ex_bounds) ex_graph"
  unfolding ex_graph_def
  by (meson kg_step.add_child prod.exhaust_sel converse_rtranclp_into_rtranclp rtranclp.rtrancl_refl)

lemma ex_graph_nodes: "map fst (g_nodes ex_graph) = [0, 1, 2]" "parent ex_graph 2 = Some 1" "parent ex_graph 1 = Some 0"
  by (simp_all add: ex_graph_def add_child_def with_root_def ex_bounds_def usize_bound_def update_node_def parent_def)

section \<open>Properties\<close>

text \<open>
  C5 [key_graph_invariant] In every state reachable from \<open>with_root\<close> by any sequence of additions,
  removals and root rotations, failed ones included, the graph is a tree inside its bounds (one
  root, each other node listed exactly by its parent, layer and position one longer than the
  parent's, no more nodes, children or layers than configured), and \<open>verify_invariants\<close> accepts it.
\<close>

theorem key_graph_invariant:
  assumes "kg_step\<^sup>*\<^sup>* (with_root b) g" and "bounds_ok b"
  shows "kg_inv g \<and> verify_invariants g = Inr () \<and> node_count g \<le> max (max_nodes b) 1"
proof -
  have inv: "kg_inv g" "g_bounds g = b" using kg_reach_inv [OF assms] by auto
  with verify_invariants_ok [OF inv(1)] assms(2) have "verify_invariants g = Inr ()"
    by (simp add: bounds_ok_def)
  moreover have "node_count g \<le> max (max_nodes b) 1"
    using inv by (auto simp: node_count_def kg_inv_def)
  ultimately show ?thesis using inv by blast
qed

theorem key_graph_invariant_witness:
  "verify_invariants ex_graph = Inr () \<and> node_count ex_graph = 3"
  using key_graph_invariant [OF ex_graph_reach ex_bounds_ok] arg_cong [OF ex_graph_nodes(1), of length]
  by (simp add: node_count_def)

text \<open>
  Adding a child succeeds exactly when the parent exists, the depth, breadth
  and node bounds leave room and the id counter does not overflow; then the new node has a fresh id,
  lies one layer below its parent at the parent's position extended by the coordinate, and every
  other node keeps its parent. A refused addition changes nothing.
\<close>

lemma add_child_outcome:
  assumes "kg_step\<^sup>*\<^sup>* (with_root b) g" and "bounds_ok b" and "add_child p c g = (r, h)"
  shows "case r of
      Inl e \<Rightarrow> h = g \<and> (e = NoSuchNode \<longleftrightarrow> map_of (g_nodes g) p = None)
        \<and> (e \<noteq> NoSuchNode \<longrightarrow> e = BoundExceeded \<and> (\<exists>pn. map_of (g_nodes g) p = Some pn \<and>
             (max_depth b \<le> n_layer pn \<or> max_breadth b \<le> length (n_children pn)
              \<or> max_nodes b \<le> node_count g \<or> usize_bound \<le> Suc (g_next_id g))))
    | Inr i \<Rightarrow> position g i = None \<and> parent h i = Some p
        \<and> position h i = map_option (\<lambda>ps. ps @ [c]) (position g p)
        \<and> node_count h = Suc (node_count g)
        \<and> (\<forall>j. j \<noteq> i \<longrightarrow> parent h j = parent g j \<and> position h j = position g j)"
proof (cases r)
  case (Inl e)
  have inv: "kg_inv g" "g_bounds g = b" using kg_reach_inv [OF assms(1,2)] by auto
  have "n_layer pn \<le> max_depth b" if "map_of (g_nodes g) p = Some pn" for pn
    using kg_inv_node [OF inv(1) that] inv(2) by (simp add: node_ok_def)
  with Inl assms(2,3) inv(2) show ?thesis
    by (auto simp: add_child_def checked_add_def Let_def bounds_ok_def node_count_def
        split: option.splits if_splits)
next
  case (Inr i)
  have inv: "kg_inv g" using kg_reach_inv [OF assms(1,2)] by simp
  from assms(3) Inr have "add_child p c g = (Inr i, h)" by simp
  from add_child_map [OF inv this] obtain pn where "map_of (g_nodes g) p = Some pn" "p < i"
    "map_of (g_nodes g) i = None" "map fst (g_nodes h) = map fst (g_nodes g) @ [i]"
    "map_of (g_nodes h) = (map_of (g_nodes g))(i \<mapsto> \<lparr>n_position = n_position pn @ [c],
       n_layer = Suc (n_layer pn), n_parent = Some p, n_children = [], n_key_epoch = 0\<rparr>,
       p \<mapsto> pn\<lparr>n_children := n_children pn @ [i]\<rparr>)" by metis
  moreover from this(4) have "length (g_nodes h) = Suc (length (g_nodes g))"
    using arg_cong [of _ _ length] by (metis length_append_singleton length_map)
  ultimately show ?thesis
    by (auto simp: Inr position_def parent_def node_count_def)
qed

text \<open>What is left of the nodes when a subtree is taken out and unlinked from its parent.\<close>

lemma unlinked_rest:
  assumes "kg_inv g" and "map_of (g_nodes g) i = Some n" "n_parent n = Some p" "map_of (g_nodes g) p = Some pn"
    and m': "map_of ns' = map_of (unlinked (g_nodes g) p i) |` (- descendants (g_nodes g) i)" and k: "map_of ns' j = Some k"
  shows "\<exists>k'. map_of (g_nodes g) j = Some k' \<and> n_parent k = n_parent k' \<and> n_position k = n_position k'" "i \<notin> set (n_children k)"
proof -
  show "\<exists>k'. map_of (g_nodes g) j = Some k' \<and> n_parent k = n_parent k' \<and> n_position k = n_position k'"
    using k assms(4) by (auto simp: m' map_unlinked restrict_map_def split: if_splits)
  show "i \<notin> set (n_children k)"
  proof (cases "j = p")
    case True
    with k assms(4) show ?thesis by (auto simp: m' map_unlinked restrict_map_def split: if_splits)
  next
    case False
    with k assms(4) have kj: "map_of (g_nodes g) j = Some k"
      by (auto simp: m' map_unlinked restrict_map_def split: if_splits)
    with False show ?thesis
      using forest_child [OF kg_forest [OF assms(1)] kj] assms(2,3) by fastforce
  qed
qed

text \<open>
  C16 [remove_subtree_exact] Removing a node other than the root removes exactly the node and its
  descendants: the call succeeds (it never reports a cycle), no removed node remains, its parent
  drops it from its children, and every other node keeps its parent and position. Removing the root
  or a missing node fails with the specific error and changes nothing.
\<close>

theorem remove_subtree_exact:
  assumes "kg_step\<^sup>*\<^sup>* (with_root b) g" and "bounds_ok b" and "remove_subtree i g = (r, h)"
  shows "if i = 0 then r = Inl CannotRemoveRoot \<and> h = g
    else if i \<notin> dom (map_of (g_nodes g)) then r = Inl NoSuchNode \<and> h = g
    else r = Inr () \<and> dom (map_of (g_nodes h)) = dom (map_of (g_nodes g)) - descendants (g_nodes g) i
      \<and> (\<forall>j k. map_of (g_nodes h) j = Some k \<longrightarrow> parent h j = parent g j \<and> position h j = position g j
          \<and> i \<notin> set (n_children k))"
proof -
  have inv: "kg_inv g" "g_bounds g = b" using kg_reach_inv [OF assms(1,2)] by auto
  show ?thesis
  proof (cases "i = 0 \<or> map_of (g_nodes g) i = None")
    case True
    with assms(3) inv show ?thesis by (auto simp: remove_subtree_def kg_inv_root split: if_splits)
  next
    case False
    then obtain n where n: "map_of (g_nodes g) i = Some n" "i \<noteq> 0" by auto
    have bd: "Suc (max_nodes (g_bounds g)) < usize_bound" using assms(2) inv(2) by (simp add: bounds_ok_def)
    obtain p pn ns' where p: "n_parent n = Some p" "map_of (g_nodes g) p = Some pn"
      and run: "remove_subtree i g = (Inr (), g\<lparr>g_nodes := ns'\<rparr>)"
      and m': "map_of ns' = map_of (unlinked (g_nodes g) p i) |` (- descendants (g_nodes g) i)"
      using remove_subtree_run [OF inv(1) n bd] by metis
    have rh: "r = Inr ()" "h = g\<lparr>g_nodes := ns'\<rparr>" using run assms(3) by auto
    have "dom (map_of ns') = dom (map_of (g_nodes g)) - descendants (g_nodes g) i"
      using p(2) by (auto simp: m' map_unlinked restrict_map_def split: if_splits)
    moreover have "parent h j = parent g j \<and> position h j = position g j \<and> i \<notin> set (n_children k)"
      if k: "map_of ns' j = Some k" for j k
      using unlinked_rest [OF inv(1) n(1) p m' k] k by (auto simp: parent_def position_def rh(2))
    ultimately show ?thesis using n rh by (simp add: domIff)
  qed
qed

theorem remove_subtree_exact_witness:
  "\<exists>h. remove_subtree 1 ex_graph = (Inr (), h) \<and> 2 \<notin> dom (map_of (g_nodes h))"
proof -
  obtain r h where rh: "remove_subtree 1 ex_graph = (r, h)" by fastforce
  have "1 \<in> dom (map_of (g_nodes ex_graph))"
    using ex_graph_nodes(1) by (metis dom_map_of_conv_image_fst list.set_intros list.set_map)
  with remove_subtree_exact [OF ex_graph_reach ex_bounds_ok rh]
  have "r = Inr ()" "dom (map_of (g_nodes h)) = dom (map_of (g_nodes ex_graph)) - descendants (g_nodes ex_graph) 1"
    by auto
  moreover have "(1, 2) \<in> edges (g_nodes ex_graph)"
    using ex_graph_nodes(2) by (auto simp: parent_def edges_def bind_eq_Some_conv)
  then have "2 \<in> descendants (g_nodes ex_graph) 1" by (auto simp: descendants_def)
  ultimately show ?thesis using rh by auto
qed

text \<open>
  C25 [leaf_to_root_path] The walk from an existing node succeeds and returns the nodes from it to
  the root along the parent edges, one per layer, without repetition; it never reports a cycle. From
  a missing node it fails with \<open>NoSuchNode\<close>.
\<close>

theorem leaf_to_root_path:
  assumes "kg_step\<^sup>*\<^sup>* (with_root b) g" and "bounds_ok b"
  shows "case map_of (g_nodes g) i of
      None \<Rightarrow> leaf_to_root g i = Inl NoSuchNode
    | Some n \<Rightarrow> (\<exists>xs. leaf_to_root g i = Inr (i # xs) \<and> path_to_root g (i # xs)
        \<and> length xs = n_layer n \<and> last (i # xs) = g_root g \<and> distinct (i # xs))"
  using leaf_to_root_spec [of g i] kg_reach_inv [OF assms] assms(2) by (simp split: option.splits)

theorem leaf_to_root_path_witness:
  "\<exists>xs. leaf_to_root ex_graph 2 = Inr (2 # xs) \<and> last (2 # xs) = g_root ex_graph"
proof -
  obtain n where "map_of (g_nodes ex_graph) 2 = Some n"
    using ex_graph_nodes(2) by (cases "map_of (g_nodes ex_graph) 2") (simp_all add: parent_def)
  with leaf_to_root_path [OF ex_graph_reach ex_bounds_ok, of 2] show ?thesis
    by (simp only: option.case) blast
qed

text \<open>
  \<open>layers\<close> groups the nodes by layer: whatever the iteration order, the entry
  at an index holds exactly the nodes of that layer.
\<close>

lemma layers_partition:
  assumes "kg_step\<^sup>*\<^sup>* (with_root b) g" and "bounds_ok b"
  shows "layer_at (layers g) l = {i. \<exists>n. map_of (g_nodes g) i = Some n \<and> n_layer n = l}"
proof -
  have inv: "kg_inv g" "g_bounds g = b" using kg_reach_inv [OF assms] by auto
  have d: "distinct (map fst (g_nodes g))" using inv(1) by (simp add: kg_inv_def)
  have "Suc (n_layer n) < usize_bound" if "(i, n) \<in> set (g_nodes g)" for i n
    using kg_inv_node [OF inv(1), of i n] d that assms(2) inv(2) by (auto simp: node_ok_def bounds_ok_def)
  then have "layer_at (layers g) l = layer_at [] l \<union> {i. \<exists>n. (i, n) \<in> set (g_nodes g) \<and> n_layer n = l}"
    unfolding layers_def by (intro layers_loop_spec) auto
  with d show ?thesis by (auto simp: layer_at_def dest: map_of_SomeD)
qed

end
