(* ===== verification/Broadcast.thy ===== *)
theory Broadcast
  imports KeyGraph Cipher
begin

text \<open>
  The broadcast key graph, \<^verbatim>\<open>crates/broadcast/src/graph.rs\<close> and \<^verbatim>\<open>rekey.rs\<close>: a key per node of a
  key graph, a leaf per user, items that wrap each parent key under its child key, and the rekeying
  after a user joins or leaves with its three packagings. The two hash maps are association lists
  with distinct keys whose order stands for the iteration order. Operations that draw random bytes
  pass on the number of draws; those that change the graph work on the pair of the graph and that
  number, and keep what was changed before an early return.
\<close>

section \<open>Data\<close>

datatype bcs_error = BadStructure | MissingKey | NotEligible | CipherErr cipher_error | GraphErr kg_error
  | RandomErr

definition MESSAGE_AAD :: bytes where
  "MESSAGE_AAD = as_bytes ''broadcast/message/v1''"

record data_item =
  it_node :: node_id
  it_parent :: node_id
  it_wrapped_parent_key :: wrapped_key

record broadcast_graph =
  bg_graph :: key_graph
  bg_keys :: "(node_id \<times> bytes) list"
  bg_user_leaves :: "(nat \<times> node_id) list"

record rekey_message =
  rm_new_key_node :: node_id
  rm_under_node :: node_id
  rm_wrapped :: wrapped_key

record rekey_result =
  rr_replaced :: "node_id list"
  rr_messages :: "rekey_message list"

datatype strategy = UserOriented | KeyOriented | GroupOriented

datatype encryption_ref = Node node_id | UserLeaf nat

record communique =
  cq_encrypted_under :: encryption_ref
  cq_keys :: "(node_id \<times> wrapped_key) list"

type_synonym 'a bcs_draw = "(nat, bcs_error, 'a) op"
type_synonym 'a bcs_op = "(broadcast_graph \<times> nat, bcs_error, 'a) op"

section \<open>Error conversions\<close>

definition from_cipher :: "'a draw \<Rightarrow> 'a bcs_draw" where
  "from_cipher m i = (let (r, j) = m i in (map_err CipherErr r, j))"

definition reading :: "(broadcast_graph \<Rightarrow> 'a bcs_draw) \<Rightarrow> 'a bcs_op" where
  "reading f = (\<lambda>(b, i). let (r, j) = f b i in (r, (b, j)))"

definition on_graph :: "(key_graph, kg_error, 'a) op \<Rightarrow> 'a bcs_op" where
  "on_graph f = (\<lambda>(b, i). let (r, g) = f (bg_graph b) in (map_err GraphErr r, (b\<lparr>bg_graph := g\<rparr>, i)))"

definition changing :: "(broadcast_graph \<Rightarrow> broadcast_graph) \<Rightarrow> unit bcs_op" where
  "changing f = (\<lambda>(b, i). (Inr (), (f b, i)))"

definition random_key :: "rng \<Rightarrow> bytes bcs_draw" where
  "random_key rand i = (case rand i KEY_LEN of None \<Rightarrow> (Inl RandomErr, Suc i) | Some k \<Rightarrow> (Inr k, Suc i))"

section \<open>Building\<close>

function trailing_zeros :: "nat \<Rightarrow> nat" where
  "trailing_zeros n = (if n = 0 \<or> odd n then 0 else Suc (trailing_zeros (n div 2)))"
  by pat_completeness auto
termination
  by (relation "measure id") auto

declare trailing_zeros.simps [simp del]

definition is_power_of_two :: "nat \<Rightarrow> bool" where
  "is_power_of_two n \<longleftrightarrow> 0 < n \<and> n = 2 ^ trailing_zeros n"

fun split_level :: "node_id list \<Rightarrow> (key_graph, kg_error, node_id list) op" where
  "split_level [] = op_return []"
| "split_level (node # rest) =
     op_bind (add_child node 0) (\<lambda>a. op_bind (add_child node 1) (\<lambda>b.
     op_bind (split_level rest) (\<lambda>out. op_return (a # b # out))))"

fun build_levels :: "nat \<Rightarrow> node_id list \<Rightarrow> (key_graph, kg_error, node_id list) op" where
  "build_levels 0 current = op_return current"
| "build_levels (Suc d) current = op_bind (split_level current) (build_levels d)"

definition build_binary :: "nat \<Rightarrow> (key_graph, kg_error, node_id list) op" where
  "build_binary n_users g = build_levels (trailing_zeros n_users) [g_root g] g"

fun draw_keys :: "rng \<Rightarrow> node_id list \<Rightarrow> (node_id \<times> bytes) list \<Rightarrow> (node_id \<times> bytes) list bcs_draw" where
  "draw_keys rand [] keys = op_return keys"
| "draw_keys rand (node # rest) keys =
     op_bind (random_key rand) (\<lambda>k. draw_keys rand rest (AList.update node k keys))"

fun assign_leaves :: "nat list \<Rightarrow> nat \<Rightarrow> node_id list \<Rightarrow> (nat \<times> node_id) list \<Rightarrow> bcs_error + (nat \<times> node_id) list" where
  "assign_leaves [] index leaves m = Inr m"
| "assign_leaves (user # rest) index leaves m =
     rbind (ok_or (get_at leaves index) BadStructure) (\<lambda>leaf.
     assign_leaves rest (Suc index) leaves (AList.update user leaf m))"

definition bcs_build :: "rng \<Rightarrow> nat list \<Rightarrow> broadcast_graph bcs_draw" where
  "bcs_build rand user_ids =
     (let n = length user_ids in
      if n = 0 \<or> \<not> is_power_of_two n then op_fail BadStructure
      else op_bind (op_lift (ok_or (checked_mul n 4) BadStructure)) (\<lambda>maxn.
        case build_binary n (with_root \<lparr>max_depth = 64, max_breadth = 8, max_nodes = maxn\<rparr>) of
          (Inl e, _) \<Rightarrow> op_fail (GraphErr e)
        | (Inr leaves, g) \<Rightarrow>
            op_bind (draw_keys rand (concat (layers g)) []) (\<lambda>keys.
            op_bind (op_lift (assign_leaves user_ids 0 leaves [])) (\<lambda>ul.
            op_return \<lparr>bg_graph = g, bg_keys = keys, bg_user_leaves = ul\<rparr>))))"

section \<open>Messages\<close>

definition message_key :: "broadcast_graph \<Rightarrow> bcs_error + bytes" where
  "message_key b = ok_or (map_of (bg_keys b) (g_root (bg_graph b))) MissingKey"

definition user_leaf_key :: "broadcast_graph \<Rightarrow> nat \<Rightarrow> bytes option" where
  "user_leaf_key b user =
     (case map_of (bg_user_leaves b) user of None \<Rightarrow> None | Some leaf \<Rightarrow> map_of (bg_keys b) leaf)"

fun items_loop :: "rng \<Rightarrow> gcm_ops \<Rightarrow> broadcast_graph \<Rightarrow> (node_id \<times> bytes) list \<Rightarrow> data_item list bcs_draw" where
  "items_loop rand gcm b [] = op_return []"
| "items_loop rand gcm b ((node, node_key) # rest) =
     (case parent (bg_graph b) node of
        None \<Rightarrow> items_loop rand gcm b rest
      | Some p \<Rightarrow>
          op_bind (op_lift (ok_or (map_of (bg_keys b) p) MissingKey)) (\<lambda>parent_key.
          op_bind (from_cipher (wrap rand gcm node_key parent_key)) (\<lambda>w.
          op_bind (items_loop rand gcm b rest) (\<lambda>items.
          op_return (\<lparr>it_node = node, it_parent = p, it_wrapped_parent_key = w\<rparr> # items)))))"

definition encrypted_data_items :: "rng \<Rightarrow> gcm_ops \<Rightarrow> broadcast_graph \<Rightarrow> data_item list bcs_draw" where
  "encrypted_data_items rand gcm b = items_loop rand gcm b (bg_keys b)"

definition encrypt_message ::
  "rng \<Rightarrow> 'p curve_ops \<Rightarrow> hkdf \<Rightarrow> gcm_ops \<Rightarrow> broadcast_graph \<Rightarrow> bytes \<Rightarrow> sealed_message bcs_draw" where
  "encrypt_message rand cv hk gcm b plaintext =
     op_bind (op_lift (message_key b)) (\<lambda>key.
     from_cipher (seal_for rand cv hk gcm (SymmetricKey key) plaintext MESSAGE_AAD))"

definition climb_step :: "gcm_ops \<Rightarrow> data_item list \<Rightarrow> node_id \<Rightarrow> node_id \<Rightarrow> bytes \<Rightarrow> bcs_error + bytes" where
  "climb_step gcm items child par current =
     rbind (ok_or (find (\<lambda>it. it_node it = child \<and> it_parent it = par) items) NotEligible) (\<lambda>item.
     map_err (\<lambda>_. NotEligible) (unwrap gcm current (it_wrapped_parent_key item)))"

definition user_decrypt ::
  "'p curve_ops \<Rightarrow> hkdf \<Rightarrow> gcm_ops \<Rightarrow> broadcast_graph \<Rightarrow> nat \<Rightarrow> bytes \<Rightarrow> data_item list \<Rightarrow> sealed_message \<Rightarrow>
   bcs_error + bytes" where
  "user_decrypt cv hk gcm b user leaf_key items sealed =
     rbind (ok_or (map_of (bg_user_leaves b) user) NotEligible) (\<lambda>leaf.
     rbind (map_err GraphErr (leaf_to_root (bg_graph b) leaf)) (\<lambda>path.
     rbind (fold_windows (climb_step gcm items) path leaf_key) (\<lambda>current.
     map_err CipherErr (open_for cv hk gcm (Some current) None sealed MESSAGE_AAD))))"

definition decrypt_with_key ::
  "'p curve_ops \<Rightarrow> hkdf \<Rightarrow> gcm_ops \<Rightarrow> bytes \<Rightarrow> sealed_message \<Rightarrow> bcs_error + bytes" where
  "decrypt_with_key cv hk gcm key sealed =
     map_err CipherErr (open_for cv hk gcm (Some key) None sealed MESSAGE_AAD)"

section \<open>Rekeying\<close>

definition ancestors_of :: "broadcast_graph \<Rightarrow> node_id \<Rightarrow> bcs_error + node_id list" where
  "ancestors_of b leaf =
     rbind (map_err GraphErr (leaf_to_root (bg_graph b) leaf)) (\<lambda>path.
     Inr (unwrap_or (get_range path 1 (length path)) []))"

definition children_of :: "broadcast_graph \<Rightarrow> node_id \<Rightarrow> node_id list" where
  "children_of b p = filter (\<lambda>n. parent (bg_graph b) n = Some p) (map fst (bg_keys b))"

fun wrap_under :: "rng \<Rightarrow> gcm_ops \<Rightarrow> broadcast_graph \<Rightarrow> node_id \<Rightarrow> bytes \<Rightarrow> node_id list \<Rightarrow> rekey_message list bcs_draw" where
  "wrap_under rand gcm b node new_key [] = op_return []"
| "wrap_under rand gcm b node new_key (child # rest) =
     op_bind (op_lift (ok_or (map_of (bg_keys b) child) MissingKey)) (\<lambda>under.
     op_bind (from_cipher (wrap rand gcm under new_key)) (\<lambda>w.
     op_bind (wrap_under rand gcm b node new_key rest) (\<lambda>ms.
     op_return (\<lparr>rm_new_key_node = node, rm_under_node = child, rm_wrapped = w\<rparr> # ms))))"

fun rotate_loop :: "rng \<Rightarrow> gcm_ops \<Rightarrow> node_id list \<Rightarrow> rekey_message list bcs_op" where
  "rotate_loop rand gcm [] = op_return []"
| "rotate_loop rand gcm (node # rest) =
     op_bind (reading (\<lambda>b. random_key rand)) (\<lambda>new_key.
     op_bind (reading (\<lambda>b. wrap_under rand gcm b node new_key (children_of b node))) (\<lambda>ms.
     op_bind (changing (\<lambda>b. b\<lparr>bg_keys := AList.update node new_key (bg_keys b)\<rparr>)) (\<lambda>_.
     op_bind (rotate_loop rand gcm rest) (\<lambda>more. op_return (ms @ more)))))"

definition rotate_and_rekey :: "rng \<Rightarrow> gcm_ops \<Rightarrow> node_id list \<Rightarrow> rekey_result bcs_op" where
  "rotate_and_rekey rand gcm ancestors =
     op_bind (rotate_loop rand gcm ancestors) (\<lambda>ms.
     op_return \<lparr>rr_replaced = ancestors, rr_messages = ms\<rparr>)"

definition leave :: "rng \<Rightarrow> gcm_ops \<Rightarrow> nat \<Rightarrow> rekey_result bcs_op" where
  "leave rand gcm user =
     op_bind (reading (\<lambda>b. op_lift (ok_or (map_of (bg_user_leaves b) user) NotEligible))) (\<lambda>leaf.
     op_bind (reading (\<lambda>b. op_lift (ancestors_of b leaf))) (\<lambda>ancestors.
     op_bind (on_graph (remove_subtree leaf)) (\<lambda>_.
     op_bind (changing (\<lambda>b. b\<lparr>bg_user_leaves := AList.delete user (bg_user_leaves b)\<rparr>)) (\<lambda>_.
     op_bind (changing (\<lambda>b. b\<lparr>bg_keys := AList.delete leaf (bg_keys b)\<rparr>)) (\<lambda>_.
     rotate_and_rekey rand gcm ancestors)))))"

definition join :: "rng \<Rightarrow> gcm_ops \<Rightarrow> nat \<Rightarrow> node_id \<Rightarrow> (rekey_result \<times> bytes) bcs_op" where
  "join rand gcm user sponsor =
     op_bind (reading (\<lambda>b. op_lift (ok_or (try_u32 (length (children_of b sponsor))) BadStructure))) (\<lambda>coord.
     op_bind (on_graph (add_child sponsor coord)) (\<lambda>leaf.
     op_bind (reading (\<lambda>b. random_key rand)) (\<lambda>leaf_key.
     op_bind (changing (\<lambda>b. b\<lparr>bg_keys := AList.update leaf leaf_key (bg_keys b)\<rparr>)) (\<lambda>_.
     op_bind (changing (\<lambda>b. b\<lparr>bg_user_leaves := AList.update user leaf (bg_user_leaves b)\<rparr>)) (\<lambda>_.
     op_bind (reading (\<lambda>b. op_lift (ancestors_of b leaf))) (\<lambda>ancestors.
     op_bind (rotate_and_rekey rand gcm ancestors) (\<lambda>result.
     op_return (result, leaf_key))))))))"

section \<open>Packaging\<close>

definition communiques_key_oriented :: "rekey_result \<Rightarrow> communique list" where
  "communiques_key_oriented r =
     map (\<lambda>m. \<lparr>cq_encrypted_under = Node (rm_under_node m), cq_keys = [(rm_new_key_node m, rm_wrapped m)]\<rparr>)
       (rr_messages r)"

definition push_group ::
  "rekey_message \<Rightarrow> (node_id \<times> (node_id \<times> wrapped_key) list) list \<Rightarrow> (node_id \<times> (node_id \<times> wrapped_key) list) list" where
  "push_group m grouped =
     AList.update (rm_under_node m)
       ((case map_of grouped (rm_under_node m) of None \<Rightarrow> [] | Some ks \<Rightarrow> ks) @ [(rm_new_key_node m, rm_wrapped m)]) grouped"

definition communiques_group_oriented :: "rekey_result \<Rightarrow> communique list" where
  "communiques_group_oriented r =
     map (\<lambda>(under, keys). \<lparr>cq_encrypted_under = Node under, cq_keys = keys\<rparr>)
       (fold push_group (rr_messages r) [])"

fun wrap_path ::
  "rng \<Rightarrow> gcm_ops \<Rightarrow> broadcast_graph \<Rightarrow> node_id list \<Rightarrow> bytes \<Rightarrow> node_id list \<Rightarrow> (node_id \<times> wrapped_key) list bcs_draw" where
  "wrap_path rand gcm b replaced leaf_key [] = op_return []"
| "wrap_path rand gcm b replaced leaf_key (node # rest) =
     (if node \<in> set replaced then
        op_bind (op_lift (ok_or (map_of (bg_keys b) node) MissingKey)) (\<lambda>new_key.
        op_bind (from_cipher (wrap rand gcm leaf_key new_key)) (\<lambda>w.
        op_bind (wrap_path rand gcm b replaced leaf_key rest) (\<lambda>ks. op_return ((node, w) # ks))))
      else wrap_path rand gcm b replaced leaf_key rest)"

fun user_communiques ::
  "rng \<Rightarrow> gcm_ops \<Rightarrow> broadcast_graph \<Rightarrow> rekey_result \<Rightarrow> (nat \<times> node_id) list \<Rightarrow> communique list bcs_draw" where
  "user_communiques rand gcm b r [] = op_return []"
| "user_communiques rand gcm b r ((user, leaf) # rest) =
     op_bind (op_lift (map_err GraphErr (leaf_to_root (bg_graph b) leaf))) (\<lambda>path.
     op_bind (op_lift (ok_or (map_of (bg_keys b) leaf) MissingKey)) (\<lambda>leaf_key.
     op_bind (wrap_path rand gcm b (rr_replaced r) leaf_key path) (\<lambda>keys.
     op_bind (user_communiques rand gcm b r rest) (\<lambda>cs.
     op_return ((if keys = [] then [] else [\<lparr>cq_encrypted_under = UserLeaf user, cq_keys = keys\<rparr>]) @ cs)))))"

definition communiques_user_oriented :: "rng \<Rightarrow> gcm_ops \<Rightarrow> broadcast_graph \<Rightarrow> rekey_result \<Rightarrow> communique list bcs_draw" where
  "communiques_user_oriented rand gcm b r = user_communiques rand gcm b r (bg_user_leaves b)"

definition communiques :: "rng \<Rightarrow> gcm_ops \<Rightarrow> broadcast_graph \<Rightarrow> rekey_result \<Rightarrow> strategy \<Rightarrow> communique list bcs_draw" where
  "communiques rand gcm b r s =
     (case s of
        KeyOriented \<Rightarrow> op_return (communiques_key_oriented r)
      | GroupOriented \<Rightarrow> op_return (communiques_group_oriented r)
      | UserOriented \<Rightarrow> communiques_user_oriented rand gcm b r)"

fun open_keys :: "gcm_ops \<Rightarrow> bytes \<Rightarrow> (node_id \<times> wrapped_key) list \<Rightarrow> bcs_error + (node_id \<times> bytes) list" where
  "open_keys gcm leaf_key [] = Inr []"
| "open_keys gcm leaf_key ((node, w) # rest) =
     rbind (map_err CipherErr (unwrap gcm leaf_key w)) (\<lambda>k.
     rbind (open_keys gcm leaf_key rest) (\<lambda>out. Inr ((node, k) # out)))"

definition open_user_communique :: "gcm_ops \<Rightarrow> communique \<Rightarrow> bytes \<Rightarrow> bcs_error + (node_id \<times> bytes) list" where
  "open_user_communique gcm c leaf_key = open_keys gcm leaf_key (cq_keys c)"

section \<open>The invariant\<close>

definition node_set :: "broadcast_graph \<Rightarrow> node_id set" where
  "node_set b = dom (map_of (g_nodes (bg_graph b)))"

definition bg_inv :: "broadcast_graph \<Rightarrow> bool" where
  "bg_inv b \<longleftrightarrow> kg_inv (bg_graph b) \<and> bounds_ok (g_bounds (bg_graph b))
     \<and> node_set b \<subseteq> dom (map_of (bg_keys b)) \<and> distinct (map fst (bg_keys b))"

text \<open>The key of a node, for the nodes that have one.\<close>

definition key_at :: "broadcast_graph \<Rightarrow> node_id \<Rightarrow> bytes" where
  "key_at b n = the (map_of (bg_keys b) n)"

section \<open>Eligible users decrypt\<close>

lemma from_cipher_ok: "from_cipher m i = (Inr x, j) \<longleftrightarrow> m i = (Inr x, j)"
  by (auto simp: from_cipher_def Let_def split: prod.splits)

lemma bg_parent_key:
  assumes "bg_inv b" "parent (bg_graph b) c = Some p"
  shows "c \<in> node_set b" "p \<in> node_set b" "map_of (bg_keys b) c = Some (key_at b c)"
    "map_of (bg_keys b) p = Some (key_at b p)"
proof -
  from assms(2) obtain n where n: "map_of (g_nodes (bg_graph b)) c = Some n" "n_parent n = Some p"
    by (auto simp: parent_def bind_eq_Some_conv)
  then show c: "c \<in> node_set b" by (auto simp: node_set_def)
  have "node_ok (g_bounds (bg_graph b)) (map_of (g_nodes (bg_graph b))) c n"
    using assms(1) n(1) kg_inv_node by (auto simp: bg_inv_def)
  from node_ok_parts(3) [OF this n(2)] show p: "p \<in> node_set b" by (auto simp: edge_ok_def node_set_def)
  show "map_of (bg_keys b) c = Some (key_at b c)" "map_of (bg_keys b) p = Some (key_at b p)"
    using assms(1) c p by (auto simp: bg_inv_def key_at_def dom_def)
qed

lemma items_loop_sound:
  assumes law: "gcm_law gcm" and inv: "bg_inv b"
  shows "items_loop rand gcm b ks i = (Inr items, j) \<Longrightarrow> \<forall>(n, k) \<in> set ks. map_of (bg_keys b) n = Some k \<Longrightarrow>
    (\<forall>it \<in> set items. parent (bg_graph b) (it_node it) = Some (it_parent it)
       \<and> unwrap gcm (key_at b (it_node it)) (it_wrapped_parent_key it) = Inr (key_at b (it_parent it)))
    \<and> (\<forall>n p. n \<in> fst ` set ks \<longrightarrow> parent (bg_graph b) n = Some p \<longrightarrow> (\<exists>it \<in> set items. it_node it = n \<and> it_parent it = p))"
proof (induction ks arbitrary: i items)
  case Nil
  then show ?case by (simp add: op_return_def)
next
  case (Cons a rest)
  obtain node node_key where a: "a = (node, node_key)" by (cases a)
  have keys: "\<forall>(n, k) \<in> set rest. map_of (bg_keys b) n = Some k" "key_at b node = node_key"
    using Cons.prems(2) a by (auto simp: key_at_def)
  show ?case
  proof (cases "parent (bg_graph b) node")
    case None
    then have "items_loop rand gcm b rest i = (Inr items, j)" using Cons.prems(1) a by simp
    from Cons.IH [OF this keys(1)] None a show ?thesis by auto
  next
    case (Some p)
    from Cons.prems(1) Some obtain pk w k j' items' where pk: "map_of (bg_keys b) p = Some pk"
      and w: "wrap rand gcm node_key pk k = (Inr w, j')" and rest: "items_loop rand gcm b rest j' = (Inr items', j)"
      and items: "items = \<lparr>it_node = node, it_parent = p, it_wrapped_parent_key = w\<rparr> # items'"
      by (auto simp: a op_lift_def op_return_def from_cipher_ok elim!: op_bind_okE)
    have "key_at b p = pk" using pk by (simp add: key_at_def)
    moreover have "unwrap gcm node_key w = Inr pk" by (rule wrap_unwrap [OF law w])
    ultimately show ?thesis
      using Cons.IH [OF rest keys(1)] keys(2) Some items a by auto
  qed
qed

lemma climb_step_ok:
  assumes law: "gcm_law gcm" and inv: "bg_inv b"
    and items: "encrypted_data_items rand gcm b i = (Inr items, j)"
    and edge: "parent (bg_graph b) c = Some p"
  shows "climb_step gcm items c p (key_at b c) = Inr (key_at b p)"
proof -
  have keys: "\<forall>(n, k) \<in> set (bg_keys b). map_of (bg_keys b) n = Some k"
    using inv by (auto simp: bg_inv_def)
  note sound = items_loop_sound [OF law inv items [unfolded encrypted_data_items_def] keys]
  have "c \<in> fst ` set (bg_keys b)"
    using bg_parent_key(3) [OF inv edge] by (force dest: map_of_SomeD)
  with sound edge have "\<exists>it \<in> set items. it_node it = c \<and> it_parent it = p" by blast
  then obtain it where it: "find (\<lambda>it. it_node it = c \<and> it_parent it = p) items = Some it"
    by (metis (mono_tags, lifting) find_None_iff not_None_eq)
  then have "it \<in> set items" "it_node it = c" "it_parent it = p" by (auto simp: find_Some_iff)
  with sound it show ?thesis by (auto simp: climb_step_def)
qed

lemma eligible_decrypts:
  assumes law: "gcm_law gcm" and inv: "bg_inv b"
    and user: "map_of (bg_user_leaves b) user = Some leaf" "leaf \<in> node_set b"
    and items: "encrypted_data_items rand gcm b i = (Inr items, j)"
    and msg: "encrypt_message rand cv hk gcm b m i' = (Inr sealed, j')"
  shows "user_decrypt cv hk gcm b user (key_at b leaf) items sealed = Inr m"
proof -
  from kg.climb [of "bg_graph b" leaf "climb_step gcm items" "key_at b"] inv user(2)
    climb_step_ok [OF law inv items]
  obtain path where path: "leaf_to_root (bg_graph b) leaf = Inr path"
    "fold_windows (climb_step gcm items) path (key_at b leaf) = Inr (key_at b (g_root (bg_graph b)))"
    by (auto simp: bg_inv_def node_set_def)
  from msg obtain k where key: "map_of (bg_keys b) (g_root (bg_graph b)) = Some k"
    and ct: "seal_for rand cv hk gcm (SymmetricKey k) m MESSAGE_AAD i' = (Inr sealed, j')"
    by (auto simp: encrypt_message_def message_key_def op_lift_def from_cipher_ok elim!: op_bind_okE)
  have "open_for cv hk gcm (Some k) None sealed MESSAGE_AAD = Inr m"
    using ct seal_open [OF law]
    by (auto simp: seal_for_def open_for_def op_lift_def op_return_def elim!: op_bind_okE)
  then show ?thesis
    using user(1) path key by (simp add: user_decrypt_def key_at_def)
qed

section \<open>Rotation\<close>

lemma reading_ok: "reading f (b, i) = (Inr x, s) \<longleftrightarrow> (\<exists>j. f b i = (Inr x, j) \<and> s = (b, j))"
  by (auto simp: reading_def Let_def split: prod.splits)

lemma changing_run [simp]: "changing f (b, i) = (Inr (), (f b, i))"
  by (simp add: changing_def)

lemma random_key_ok: "random_key rand i = (Inr k, j) \<longleftrightarrow> rand i KEY_LEN = Some k \<and> j = Suc i"
  by (auto simp: random_key_def split: option.splits)

lemma wrap_draws: "wrap rand gcm k m i = (Inr w, j) \<Longrightarrow> j = Suc i"
  by (auto simp: wrap_def op_lift_def op_return_def random_fill_ok elim!: op_bind_okE)

lemma wrap_under_ok:
  assumes law: "gcm_law gcm"
  shows "wrap_under rand gcm b node nk cs i = (Inr ms, j) \<Longrightarrow> i \<le> j
    \<and> map rm_under_node ms = cs \<and> (\<forall>m \<in> set ms. rm_new_key_node m = node \<and> (\<exists>k. map_of (bg_keys b) (rm_under_node m) = Some k
        \<and> unwrap gcm k (rm_wrapped m) = Inr nk))"
proof (induction cs arbitrary: i ms)
  case (Cons c cs)
  from Cons.prems obtain k w i' ms' where k: "map_of (bg_keys b) c = Some k"
    and w: "wrap rand gcm k nk i = (Inr w, i')" and rest: "wrap_under rand gcm b node nk cs i' = (Inr ms', j)"
    and ms: "ms = \<lparr>rm_new_key_node = node, rm_under_node = c, rm_wrapped = w\<rparr> # ms'"
    by (auto simp: op_lift_def op_return_def from_cipher_ok elim!: op_bind_okE)
  from Cons.IH [OF rest] k wrap_unwrap [OF law w] wrap_draws [OF w] ms show ?case by auto
qed (simp add: op_return_def)

text \<open>What a rotation of the nodes \<open>as\<close> does to the keys, and what its messages deliver.\<close>

definition rotated :: "rng \<Rightarrow> nat \<Rightarrow> nat \<Rightarrow> node_id list \<Rightarrow> broadcast_graph \<Rightarrow> broadcast_graph \<Rightarrow> bool" where
  "rotated rand i j as b b' \<longleftrightarrow> i \<le> j \<and> bg_graph b' = bg_graph b \<and> bg_user_leaves b' = bg_user_leaves b
     \<and> (\<forall>n. n \<notin> set as \<longrightarrow> map_of (bg_keys b') n = map_of (bg_keys b) n)
     \<and> (\<forall>n \<in> set as. \<exists>d. i \<le> d \<and> d < j \<and> rand d KEY_LEN \<noteq> None \<and> map_of (bg_keys b') n = rand d KEY_LEN)
     \<and> (distinct (map fst (bg_keys b)) \<longrightarrow> distinct (map fst (bg_keys b')))"

definition delivers :: "gcm_ops \<Rightarrow> broadcast_graph \<Rightarrow> node_id list \<Rightarrow> rekey_message list \<Rightarrow> bool" where
  "delivers gcm b as ms \<longleftrightarrow>
     (\<forall>m \<in> set ms. rm_new_key_node m \<in> set as \<and> parent (bg_graph b) (rm_under_node m) = Some (rm_new_key_node m)
        \<and> unwrap gcm (key_at b (rm_under_node m)) (rm_wrapped m) = Inr (key_at b (rm_new_key_node m)))
     \<and> (\<forall>a \<in> set as. \<forall>c. parent (bg_graph b) c = Some a \<longrightarrow> (\<exists>m \<in> set ms. rm_under_node m = c \<and> rm_new_key_node m = a))"

lemma parent_less: "kg_inv g \<Longrightarrow> parent g c = Some p \<Longrightarrow> p < c"
  using kg_forest [of g 0] by (auto simp: parent_def bind_eq_Some_conv forest_def)

text \<open>One step of the rotation: a fresh key for a node, wrapped under the keys of its children, which are
  later nodes than any that is still to be rotated.\<close>

lemma rotated_Cons:
  assumes "rand i KEY_LEN = Some nk" and "i < i1" and "a \<notin> set as"
    and "rotated rand i1 j as (b\<lparr>bg_keys := AList.update a nk (bg_keys b)\<rparr>) b'"
  shows "rotated rand i j (a # as) b b'"
  unfolding rotated_def
proof (intro conjI ballI)
  fix n
  assume n: "n \<in> set (a # as)"
  show "\<exists>d. i \<le> d \<and> d < j \<and> rand d KEY_LEN \<noteq> None \<and> map_of (bg_keys b') n = rand d KEY_LEN"
  proof (cases "n = a")
    case True
    have "map_of (bg_keys b') a = Some nk" "i1 \<le> j" using assms(3,4) by (simp_all add: rotated_def AList.update_conv')
    with True assms(1,2) show ?thesis by (intro exI [of _ i]) auto
  next
    case False
    with n assms(4) obtain d where "d \<ge> i1" "d < j" "rand d KEY_LEN \<noteq> None" "map_of (bg_keys b') n = rand d KEY_LEN"
      by (auto simp: rotated_def)
    with assms(2) show ?thesis by (intro exI [of _ d]) auto
  qed
qed (use assms(2,4) in \<open>auto simp: rotated_def AList.update_conv' AList.distinct_update\<close>)

lemma delivers_Cons:
  assumes "\<forall>m \<in> set ms1. rm_new_key_node m = a \<and> parent (bg_graph b') (rm_under_node m) = Some a
      \<and> unwrap gcm (key_at b' (rm_under_node m)) (rm_wrapped m) = Inr (key_at b' a)"
    and "\<forall>c. parent (bg_graph b') c = Some a \<longrightarrow> (\<exists>m \<in> set ms1. rm_under_node m = c)"
    and "delivers gcm b' as ms2"
  shows "delivers gcm b' (a # as) (ms1 @ ms2)"
  unfolding delivers_def
proof (intro conjI ballI allI impI)
  fix x c
  assume x: "x \<in> set (a # as)" and c: "parent (bg_graph b') c = Some x"
  show "\<exists>m \<in> set (ms1 @ ms2). rm_under_node m = c \<and> rm_new_key_node m = x"
  proof (cases "x = a")
    case True
    with assms(1,2) c show ?thesis by fastforce
  next
    case False
    with x c assms(3) have "\<exists>m \<in> set ms2. rm_under_node m = c \<and> rm_new_key_node m = x"
      unfolding delivers_def by (metis set_ConsD)
    then show ?thesis by auto
  qed
qed (use assms(1,3) in \<open>auto simp: delivers_def\<close>)

lemma rotated_later:
  assumes "rotated rand i j as (b\<lparr>bg_keys := AList.update a nk (bg_keys b)\<rparr>) b'"
    and "sorted_wrt (>) (a # as)" "kg_inv (bg_graph b)" "parent (bg_graph b) c = Some a"
  shows "map_of (bg_keys b') c = map_of (bg_keys b) c"
proof -
  have "a < c" using parent_less [OF assms(3,4)] .
  then have "c \<notin> set (a # as)" using assms(2) by auto
  with assms(1) show ?thesis by (simp add: rotated_def AList.update_conv')
qed

lemma wrap_under_delivers:
  assumes law: "gcm_law gcm" and w: "wrap_under rand gcm b a nk (children_of b a) k = (Inr ms, l)"
    and rot: "rotated rand i j as (b\<lparr>bg_keys := AList.update a nk (bg_keys b)\<rparr>) b'"
    and sorted: "sorted_wrt (>) (a # as)" and inv: "kg_inv (bg_graph b)" and m: "m \<in> set ms"
  shows "rm_new_key_node m = a \<and> parent (bg_graph b') (rm_under_node m) = Some a
    \<and> unwrap gcm (key_at b' (rm_under_node m)) (rm_wrapped m) = Inr (key_at b' a)"
proof -
  note wu = wrap_under_ok [OF law w]
  from wu m have "rm_under_node m \<in> set (children_of b a)" by (metis image_eqI set_map)
  then have par: "parent (bg_graph b) (rm_under_node m) = Some a" by (simp add: children_of_def)
  have "map_of (bg_keys b') a = Some nk" "bg_graph b' = bg_graph b"
    using rot sorted by (auto simp: rotated_def AList.update_conv')
  moreover from wu m obtain key where "map_of (bg_keys b) (rm_under_node m) = Some key"
    "unwrap gcm key (rm_wrapped m) = Inr nk" "rm_new_key_node m = a" by blast
  ultimately show ?thesis using par rotated_later [OF rot sorted inv par] by (simp add: key_at_def)
qed

lemma rotate_loop_spec:
  assumes law: "gcm_law gcm"
  shows "rotate_loop rand gcm as (b, i) = (Inr ms, (b', j)) \<Longrightarrow> sorted_wrt (>) as \<Longrightarrow> kg_inv (bg_graph b) \<Longrightarrow>
    node_set b \<subseteq> dom (map_of (bg_keys b)) \<Longrightarrow> rotated rand i j as b b' \<and> delivers gcm b' as ms"
proof (induction as arbitrary: b i ms)
  case Nil
  then show ?case by (auto simp: op_return_def rotated_def delivers_def)
next
  case (Cons a as)
  from Cons.prems(1) obtain nk ms1 ms2 i1 where nk: "rand i KEY_LEN = Some nk"
    and w: "wrap_under rand gcm b a nk (children_of b a) (Suc i) = (Inr ms1, i1)"
    and rest: "rotate_loop rand gcm as (b\<lparr>bg_keys := AList.update a nk (bg_keys b)\<rparr>, i1) = (Inr ms2, (b', j))"
    and ms: "ms = ms1 @ ms2"
    by (auto simp: reading_ok random_key_ok op_return_def elim!: op_bind_okE)
  let ?b = "b\<lparr>bg_keys := AList.update a nk (bg_keys b)\<rparr>"
  have "node_set ?b \<subseteq> dom (map_of (bg_keys ?b))"
    using Cons.prems(4) by (auto simp: node_set_def AList.update_conv')
  then have IH: "rotated rand i1 j as ?b b'" "delivers gcm b' as ms2"
    using Cons.IH [OF rest] Cons.prems(2,3) by auto
  note wu = wrap_under_ok [OF law w]
  have "\<exists>m \<in> set ms1. rm_under_node m = c" if "parent (bg_graph b') c = Some a" for c
  proof -
    have c: "parent (bg_graph b) c = Some a" using that IH(1) by (simp add: rotated_def)
    then have "c \<in> node_set b" by (auto simp: node_set_def parent_def bind_eq_Some_conv)
    with Cons.prems(4) have "c \<in> fst ` set (bg_keys b)" by (auto simp: dom_map_of_conv_image_fst)
    with c have "c \<in> set (children_of b a)" by (auto simp: children_of_def)
    with wu show ?thesis by (metis (no_types, lifting) imageE set_map)
  qed
  then show ?case
    using rotated_Cons [OF nk _ _ IH(1)] delivers_Cons [OF _ _ IH(2)] wu Cons.prems(2) ms
      wrap_under_delivers [OF law w IH(1) Cons.prems(2,3)] by auto
qed

section \<open>Leaving and joining\<close>

lemma bg_graph_inv: "bg_inv b \<Longrightarrow> kg_inv (bg_graph b) \<and> bounds_ok (g_bounds (bg_graph b))"
  by (simp add: bg_inv_def)

lemma leaf_path:
  assumes "kg_inv g" "bounds_ok (g_bounds g)" "leaf_to_root g leaf = Inr path"
  obtains xs where "path = leaf # xs" "leaf \<in> dom (map_of (g_nodes g))" "sorted_wrt (>) (leaf # xs)"
    "set path \<subseteq> dom (map_of (g_nodes g))" "successively (\<lambda>c p. parent g c = Some p) path"
proof -
  from leaf_to_root_spec [OF assms(1,2), of leaf] assms(3) obtain n xs where
    n: "map_of (g_nodes g) leaf = Some n" "path = leaf # xs" "path_to_root g (leaf # xs)"
    by (auto split: option.splits)
  with path_descends [OF n(3) assms(1)] path_to_root_successively [OF n(3)] that [of xs] show thesis by auto
qed

lemma ancestors_path:
  assumes "bg_inv b" "ancestors_of b leaf = Inr as"
  shows "leaf_to_root (bg_graph b) leaf = Inr (leaf # as) \<and> sorted_wrt (>) (leaf # as) \<and> set (leaf # as) \<subseteq> node_set b
    \<and> successively (\<lambda>c p. parent (bg_graph b) c = Some p) (leaf # as)"
proof -
  from assms(2) obtain path where path: "leaf_to_root (bg_graph b) leaf = Inr path"
    "as = unwrap_or (get_range path 1 (length path)) []" by (auto simp: ancestors_of_def rbind_eq_Inr)
  from bg_graph_inv [OF assms(1)] path(1) obtain xs where xs: "path = leaf # xs" "sorted_wrt (>) (leaf # xs)"
    "set path \<subseteq> node_set b" "successively (\<lambda>c p. parent (bg_graph b) c = Some p) path"
    by (metis leaf_path node_set_def)
  then have "as = xs" using path(2) by (simp add: get_range_def)
  with xs path(1) show ?thesis by simp
qed

lemma leave_parts:
  assumes "leave rand gcm user (b, i) = (Inr r, (b', j))"
  obtains leaf as g ms where "map_of (bg_user_leaves b) user = Some leaf" "ancestors_of b leaf = Inr as"
    "remove_subtree leaf (bg_graph b) = (Inr (), g)"
    "rotate_loop rand gcm as (b\<lparr>bg_graph := g, bg_user_leaves := AList.delete user (bg_user_leaves b),
       bg_keys := AList.delete leaf (bg_keys b)\<rparr>, i) = (Inr ms, (b', j))"
    "r = \<lparr>rr_replaced = as, rr_messages = ms\<rparr>"
  using assms
  by (auto simp: leave_def reading_ok op_lift_def on_graph_def rotate_and_rekey_def op_return_def Let_def
      split: prod.splits elim!: op_bind_okE)

lemma removed_graph:
  assumes "kg_inv g" "bounds_ok (g_bounds g)" "remove_subtree leaf g = (Inr (), h)"
  shows "kg_inv h \<and> g_bounds h = g_bounds g \<and> leaf \<notin> dom (map_of (g_nodes h))
    \<and> dom (map_of (g_nodes h)) = dom (map_of (g_nodes g)) - descendants (g_nodes g) leaf
    \<and> (\<forall>j \<in> dom (map_of (g_nodes h)). parent h j = parent g j)"
proof -
  have bd: "Suc (max_nodes (g_bounds g)) < usize_bound" using assms(2) by (simp add: bounds_ok_def)
  have n: "leaf \<noteq> 0" "\<exists>n. map_of (g_nodes g) leaf = Some n"
    using assms(1,3) by (auto simp: remove_subtree_def kg_inv_root split: if_splits option.splits)
  then obtain n where n: "leaf \<noteq> 0" "map_of (g_nodes g) leaf = Some n" by blast
  from remove_subtree_run [OF assms(1) n(2,1) bd] obtain p pn ns' where
    p: "map_of (g_nodes g) p = Some pn" and h: "h = g\<lparr>g_nodes := ns'\<rparr>"
    and m: "map_of ns' = map_of (unlinked (g_nodes g) p leaf) |` (- descendants (g_nodes g) leaf)"
    using assms(3) by (metis prod.inject)
  have "kg_inv h" "g_bounds h = g_bounds g" using remove_subtree_cases [OF assms(1,3) bd] by auto
  moreover have "leaf \<in> descendants (g_nodes g) leaf" by (simp add: descendants_def)
  ultimately show ?thesis
    using p by (auto simp: h m map_unlinked restrict_map_def parent_def split: if_splits)
qed

lemma rotatedD: "rotated rand i j as b b' \<Longrightarrow> n \<in> set as \<Longrightarrow> \<exists>d k. i \<le> d \<and> d < j \<and> rand d KEY_LEN = Some k \<and> map_of (bg_keys b') n = Some k"
  unfolding rotated_def by (metis option.exhaust)

lemma rotated_inv:
  assumes "bg_inv b" "rotated rand i j as b b'"
  shows "bg_inv b'" "node_set b' = node_set b" "n \<notin> set as \<Longrightarrow> key_at b' n = key_at b n"
    "n \<in> set as \<Longrightarrow> \<exists>d. i \<le> d \<and> d < j \<and> rand d KEY_LEN = Some (key_at b' n)"
proof -
  show nodes: "node_set b' = node_set b" using assms(2) by (simp add: rotated_def node_set_def)
  have "n \<in> dom (map_of (bg_keys b'))" if "n \<in> node_set b" for n
    using rotatedD [OF assms(2), of n] that assms by (cases "n \<in> set as") (auto simp: rotated_def bg_inv_def)
  with nodes assms show "bg_inv b'" by (auto simp: bg_inv_def rotated_def)
  show "n \<notin> set as \<Longrightarrow> key_at b' n = key_at b n" using assms(2) by (simp add: rotated_def key_at_def)
  show "n \<in> set as \<Longrightarrow> \<exists>d. i \<le> d \<and> d < j \<and> rand d KEY_LEN = Some (key_at b' n)"
    using rotatedD [OF assms(2)] by (fastforce simp: key_at_def)
qed

lemma leave_spec:
  assumes law: "gcm_law gcm" and inv: "bg_inv b" and run: "leave rand gcm user (b, i) = (Inr r, (b', j))"
  obtains leaf as where "map_of (bg_user_leaves b) user = Some leaf"
    "leaf_to_root (bg_graph b) leaf = Inr (leaf # as)" "rr_replaced r = as" "set (leaf # as) \<subseteq> node_set b"
    "bg_inv b'" "bg_user_leaves b' = AList.delete user (bg_user_leaves b)"
    "node_set b' = node_set b - descendants (g_nodes (bg_graph b)) leaf" "leaf \<notin> node_set b'"
    "\<forall>n \<in> node_set b'. parent (bg_graph b') n = parent (bg_graph b) n"
    "\<forall>n \<in> node_set b'. n \<notin> set as \<longrightarrow> key_at b' n = key_at b n"
    "\<forall>n \<in> set as. \<exists>d. i \<le> d \<and> d < j \<and> rand d KEY_LEN = Some (key_at b' n)"
    "delivers gcm b' as (rr_messages r)"
proof -
  obtain leaf as g ms where l: "map_of (bg_user_leaves b) user = Some leaf" "ancestors_of b leaf = Inr as"
    and g: "remove_subtree leaf (bg_graph b) = (Inr (), g)"
    and rot: "rotate_loop rand gcm as (b\<lparr>bg_graph := g, bg_user_leaves := AList.delete user (bg_user_leaves b),
       bg_keys := AList.delete leaf (bg_keys b)\<rparr>, i) = (Inr ms, (b', j))"
    and r: "r = \<lparr>rr_replaced = as, rr_messages = ms\<rparr>"
    by (rule leave_parts [OF run])
  let ?b = "b\<lparr>bg_graph := g, bg_user_leaves := AList.delete user (bg_user_leaves b),
       bg_keys := AList.delete leaf (bg_keys b)\<rparr>"
  note path = ancestors_path [OF inv l(2)]
  note rg = removed_graph [OF _ _ g] 
  have kg: "kg_inv (bg_graph b)" "bounds_ok (g_bounds (bg_graph b))" using inv by (auto simp: bg_inv_def)
  have b1: "node_set ?b = node_set b - descendants (g_nodes (bg_graph b)) leaf" "leaf \<notin> node_set ?b"
    "kg_inv g" "g_bounds g = g_bounds (bg_graph b)"
    "\<forall>n \<in> node_set ?b. parent g n = parent (bg_graph b) n"
    using rg [OF kg] by (auto simp: node_set_def)
  have sub: "node_set ?b \<subseteq> dom (map_of (bg_keys ?b))"
    using b1(1,2) inv by (auto simp: bg_inv_def AList.delete_conv')
  from rotate_loop_spec [OF law rot _ _ sub] path b1(3) have rt: "rotated rand i j as ?b b'" "delivers gcm b' as ms"
    by auto
  have "distinct (map fst (bg_keys ?b))" using inv by (simp add: bg_inv_def AList.distinct_delete)
  with sub b1(3,4) kg have inv1: "bg_inv ?b" by (simp add: bg_inv_def)
  note ri = rotated_inv [OF inv1 rt(1)]
  have "\<forall>n \<in> node_set b'. n \<notin> set as \<longrightarrow> key_at b' n = key_at b n"
    using ri(2,3) b1(2) by (auto simp: key_at_def AList.delete_conv')
  then show thesis
    using that [of leaf as] l(1) path r rt ri b1 by (simp add: rotated_def)
qed

lemma join_parts:
  assumes "join rand gcm user sponsor (b, i) = (Inr (r, lk), (b', j))"
  obtains coord leaf g as ms where "try_u32 (length (children_of b sponsor)) = Some coord"
    "add_child sponsor coord (bg_graph b) = (Inr leaf, g)" "rand i KEY_LEN = Some lk"
    "ancestors_of (b\<lparr>bg_graph := g, bg_keys := AList.update leaf lk (bg_keys b),
       bg_user_leaves := AList.update user leaf (bg_user_leaves b)\<rparr>) leaf = Inr as"
    "rotate_loop rand gcm as (b\<lparr>bg_graph := g, bg_keys := AList.update leaf lk (bg_keys b),
       bg_user_leaves := AList.update user leaf (bg_user_leaves b)\<rparr>, Suc i) = (Inr ms, (b', j))"
    "r = \<lparr>rr_replaced = as, rr_messages = ms\<rparr>"
  using assms
  by (auto simp: join_def reading_ok op_lift_def on_graph_def rotate_and_rekey_def op_return_def Let_def random_key_ok
      split: prod.splits elim!: op_bind_okE)

text \<open>The graph with the new leaf: one more node, below the sponsor, with a key of its own.\<close>

lemma joined_graph:
  fixes lk :: bytes and ul :: "(nat \<times> node_id) list"
  assumes inv: "bg_inv b" and add: "add_child sponsor coord (bg_graph b) = (Inr leaf, g)"
  defines "c \<equiv> b\<lparr>bg_graph := g, bg_keys := AList.update leaf lk (bg_keys b), bg_user_leaves := ul\<rparr>"
  shows "kg_inv g" "bg_inv c" "node_set c = insert leaf (node_set b)" "leaf \<notin> node_set b" "sponsor \<in> node_set b" "sponsor < leaf"
    "parent g leaf = Some sponsor" "\<And>n. n \<noteq> leaf \<Longrightarrow> parent g n = parent (bg_graph b) n"
proof -
  have kg: "kg_inv (bg_graph b)" "bounds_ok (g_bounds (bg_graph b))" using inv by (auto simp: bg_inv_def)
  obtain pn where pn: "map_of (g_nodes (bg_graph b)) sponsor = Some pn" "map_of (g_nodes (bg_graph b)) leaf = None"
    "sponsor < leaf" "g_bounds g = g_bounds (bg_graph b)" and m: "map_of (g_nodes g) =
      (map_of (g_nodes (bg_graph b)))(leaf \<mapsto> \<lparr>n_position = n_position pn @ [coord],
       n_layer = Suc (n_layer pn), n_parent = Some sponsor, n_children = [], n_key_epoch = 0\<rparr>,
       sponsor \<mapsto> pn\<lparr>n_children := n_children pn @ [leaf]\<rparr>)"
    using add_child_map [OF kg(1) add] by metis
  show g: "kg_inv g" by (rule add_child_inv [OF kg(1) add])
  show nodes: "node_set c = insert leaf (node_set b)" "leaf \<notin> node_set b" "sponsor \<in> node_set b" "sponsor < leaf"
    using pn by (auto simp: node_set_def c_def m)
  show "parent g leaf = Some sponsor" "\<And>n. n \<noteq> leaf \<Longrightarrow> parent g n = parent (bg_graph b) n"
    using pn by (auto simp: parent_def m)
  show "bg_inv c"
    using inv nodes(1) g pn(4) by (auto simp: bg_inv_def c_def AList.update_conv' AList.distinct_update)
qed

lemma first_ancestor:
  assumes "bg_inv b" "ancestors_of b leaf = Inr as" "parent (bg_graph b) leaf = Some p" "p < leaf"
  shows "p \<in> set as"
proof (cases as)
  case Nil
  have "kg_inv (bg_graph b)" using assms(1) by (simp add: bg_inv_def)
  moreover have "leaf = g_root (bg_graph b)"
    using leaf_to_root_spec [of "bg_graph b" leaf] assms(1) ancestors_path [OF assms(1,2)] Nil
    by (auto simp: bg_inv_def split: option.splits)
  ultimately show ?thesis using kg_inv_root assms(4) by simp
next
  case (Cons x xs)
  with ancestors_path [OF assms(1,2)] assms(3) show ?thesis by auto
qed

lemma join_spec:
  assumes law: "gcm_law gcm" and inv: "bg_inv b" and run: "join rand gcm user sponsor (b, i) = (Inr (r, lk), (b', j))"
  obtains leaf as where "leaf \<notin> node_set b" "sponsor \<in> node_set b" "map_of (bg_user_leaves b') user = Some leaf"
    "bg_user_leaves b' = AList.update user leaf (bg_user_leaves b)" "rand i KEY_LEN = Some lk" "i < j"
    "key_at b' leaf = lk" "leaf_to_root (bg_graph b') leaf = Inr (leaf # as)" "rr_replaced r = as"
    "sponsor \<in> set as" "set as \<subseteq> node_set b"
    "bg_inv b'" "node_set b' = insert leaf (node_set b)" "parent (bg_graph b') leaf = Some sponsor"
    "\<forall>n \<in> node_set b. parent (bg_graph b') n = parent (bg_graph b) n"
    "\<forall>n \<in> node_set b. n \<notin> set as \<longrightarrow> key_at b' n = key_at b n"
    "\<forall>n \<in> set as. \<exists>d. i < d \<and> d < j \<and> rand d KEY_LEN = Some (key_at b' n)"
    "delivers gcm b' as (rr_messages r)"
proof -
  obtain coord leaf g as ms where add: "add_child sponsor coord (bg_graph b) = (Inr leaf, g)"
    and lk: "rand i KEY_LEN = Some lk"
    and as: "ancestors_of (b\<lparr>bg_graph := g, bg_keys := AList.update leaf lk (bg_keys b),
       bg_user_leaves := AList.update user leaf (bg_user_leaves b)\<rparr>) leaf = Inr as"
    and rot: "rotate_loop rand gcm as (b\<lparr>bg_graph := g, bg_keys := AList.update leaf lk (bg_keys b),
       bg_user_leaves := AList.update user leaf (bg_user_leaves b)\<rparr>, Suc i) = (Inr ms, (b', j))"
    and r: "r = \<lparr>rr_replaced = as, rr_messages = ms\<rparr>"
    by (rule join_parts [OF run])
  let ?b = "b\<lparr>bg_graph := g, bg_keys := AList.update leaf lk (bg_keys b),
       bg_user_leaves := AList.update user leaf (bg_user_leaves b)\<rparr>"
  have g: "kg_inv g" "bg_inv ?b" "node_set ?b = insert leaf (node_set b)" "leaf \<notin> node_set b" "sponsor \<in> node_set b"
    "sponsor < leaf" "parent g leaf = Some sponsor" "\<And>n. n \<noteq> leaf \<Longrightarrow> parent g n = parent (bg_graph b) n"
    by (rule joined_graph [OF inv add]; assumption?)+
  note path = ancestors_path [OF g(2) as]
  from rotate_loop_spec [OF law rot] path g(2) have rt: "rotated rand (Suc i) j as ?b b'" "delivers gcm b' as ms"
    by (auto simp: bg_inv_def)
  note ri = rotated_inv [OF g(2) rt(1)]
  have leaf_as: "leaf \<notin> set as" using path by auto
  have "sponsor \<in> set as" using first_ancestor [OF g(2) as] g(6,7) by simp
  moreover have "set as \<subseteq> node_set b" using path g(3) leaf_as by auto
  moreover have "\<forall>n \<in> node_set b. n \<notin> set as \<longrightarrow> key_at b' n = key_at b n"
    using ri(3) g(4) by (auto simp: key_at_def AList.update_conv')
  moreover have "key_at b' leaf = lk" using ri(3) [OF leaf_as] by (simp add: key_at_def AList.update_conv')
  moreover have "\<forall>n \<in> set as. \<exists>d. i < d \<and> d < j \<and> rand d KEY_LEN = Some (key_at b' n)"
    using ri(4) by (metis Suc_le_eq)
  moreover have "i < j" using rt(1) by (simp add: rotated_def)
  moreover have "\<forall>n \<in> node_set b. parent g n = parent (bg_graph b) n" using g(4,8) by metis
  ultimately show thesis
    using that [of leaf as] lk path r rt ri(1,2) g(3-5,7) by (simp add: rotated_def AList.update_conv')
qed

section \<open>Building the balanced graph\<close>

text \<open>A list of distinct nodes of one layer without children: where the next level can grow.\<close>

definition frontier :: "key_graph \<Rightarrow> nat \<Rightarrow> node_id list \<Rightarrow> bool" where
  "frontier g l xs \<longleftrightarrow> distinct xs \<and> (\<forall>x \<in> set xs. \<exists>n. map_of (g_nodes g) x = Some n \<and> n_layer n = l \<and> n_children n = [])"

lemma frontier_dom: "frontier g l xs \<Longrightarrow> x \<in> set xs \<Longrightarrow> map_of (g_nodes g) x \<noteq> None"
  by (auto simp: frontier_def)

lemma frontier_mono:
  "frontier g l xs \<Longrightarrow> (\<And>y. y \<in> set xs \<Longrightarrow> map_of (g_nodes h) y = map_of (g_nodes g) y) \<Longrightarrow> frontier h l xs"
  by (auto simp: frontier_def)

lemma frontier_tail: "frontier g l (x # xs) \<Longrightarrow> frontier g l xs \<and> x \<notin> set xs"
  by (auto simp: frontier_def)

definition room :: "key_graph \<Rightarrow> nat \<Rightarrow> bool" where
  "room g k \<longleftrightarrow> length (g_nodes g) + k \<le> max_nodes (g_bounds g) \<and> g_next_id g + k < usize_bound
     \<and> 2 \<le> max_breadth (g_bounds g) \<and> max_depth (g_bounds g) < usize_bound"

lemma add_child_run:
  assumes inv: "kg_inv g" and n: "map_of (g_nodes g) p = Some n" and r: "room g (Suc k)"
    and l: "n_layer n < max_depth (g_bounds g)" and c: "length (n_children n) < 2"
  obtains h where "add_child p co g = (Inr (g_next_id g), h)" "kg_inv h" "room h k" "g_bounds h = g_bounds g"
    "g_next_id h = Suc (g_next_id g)" "length (g_nodes h) = Suc (length (g_nodes g))"
    "map_of (g_nodes g) (g_next_id g) = None"
    "map_of (g_nodes h) = (map_of (g_nodes g))(g_next_id g \<mapsto> \<lparr>n_position = n_position n @ [co],
       n_layer = Suc (n_layer n), n_parent = Some p, n_children = [], n_key_epoch = 0\<rparr>,
       p \<mapsto> n\<lparr>n_children := n_children n @ [g_next_id g]\<rparr>)"
proof -
  obtain h where h: "add_child p co g = (Inr (g_next_id g), h)"
    using n r l c by (auto simp: add_child_ok room_def)
  from add_child_map [OF inv this] n obtain
    m: "map_of (g_nodes g) (g_next_id g) = None" "g_next_id h = Suc (g_next_id g)" "g_bounds h = g_bounds g"
      "map fst (g_nodes h) = map fst (g_nodes g) @ [g_next_id g]"
      "map_of (g_nodes h) = (map_of (g_nodes g))(g_next_id g \<mapsto> \<lparr>n_position = n_position n @ [co],
       n_layer = Suc (n_layer n), n_parent = Some p, n_children = [], n_key_epoch = 0\<rparr>,
       p \<mapsto> n\<lparr>n_children := n_children n @ [g_next_id g]\<rparr>)" by (metis option.inject)
  then have len: "length (g_nodes h) = Suc (length (g_nodes g))"
    by (metis length_append_singleton length_map)
  with r m(2,3) have "room h k" by (simp add: room_def)
  with that [OF h add_child_inv [OF inv h]] m len show thesis by blast
qed

lemma split_level_ok:
  "kg_inv g \<Longrightarrow> frontier g l (xs @ ys) \<Longrightarrow> frontier g (Suc l) made \<Longrightarrow> set made \<inter> set (xs @ ys) = {} \<Longrightarrow>
   room g (2 * length xs + k) \<Longrightarrow> l < max_depth (g_bounds g) \<Longrightarrow>
   \<exists>out h. split_level xs g = (Inr out, h) \<and> kg_inv h \<and> room h k \<and> g_bounds h = g_bounds g
     \<and> length out = 2 * length xs \<and> frontier h (Suc l) (made @ out)"
proof (induction xs arbitrary: g made)
  case Nil
  then show ?case by (auto simp: op_return_def)
next
  case (Cons x xs)
  obtain n where n: "map_of (g_nodes g) x = Some n" "n_layer n = l" "n_children n = []"
    using Cons.prems(2) by (auto simp: frontier_def)
  have r: "room g (Suc (Suc (2 * length xs + k)))" using Cons.prems(5) by simp
  obtain h where h: "add_child x 0 g = (Inr (g_next_id g), h)" "kg_inv h" "room h (Suc (2 * length xs + k))"
    "g_bounds h = g_bounds g" "g_next_id h = Suc (g_next_id g)" "map_of (g_nodes g) (g_next_id g) = None"
    and hm: "map_of (g_nodes h) = (map_of (g_nodes g))(g_next_id g \<mapsto> \<lparr>n_position = n_position n @ [0],
       n_layer = Suc (n_layer n), n_parent = Some x, n_children = [], n_key_epoch = 0\<rparr>,
       x \<mapsto> n\<lparr>n_children := n_children n @ [g_next_id g]\<rparr>)"
    by (rule add_child_run [OF Cons.prems(1) n(1) r, of 0]) (use n Cons.prems(6) in auto)
  let ?a = "g_next_id g" and ?b = "Suc (g_next_id g)"
  have xa: "x \<noteq> ?a" "x < ?a" using kg_inv_node [OF Cons.prems(1) n(1)] by auto
  let ?n = "n\<lparr>n_children := n_children n @ [?a]\<rparr>"
  have "map_of (g_nodes h) x = Some ?n" by (simp add: hm)
  from add_child_run [OF h(2) this h(3), of 1] obtain h' where h': "add_child x 1 h = (Inr ?b, h')" "kg_inv h'"
    "room h' (2 * length xs + k)" "g_bounds h' = g_bounds g"
    and h'm: "map_of (g_nodes h') = (map_of (g_nodes h))(?b \<mapsto> \<lparr>n_position = n_position ?n @ [1],
       n_layer = Suc (n_layer ?n), n_parent = Some x, n_children = [], n_key_epoch = 0\<rparr>,
       x \<mapsto> ?n\<lparr>n_children := n_children ?n @ [?b]\<rparr>)" and fr: "map_of (g_nodes h) ?b = None"
    using n h(4,5) Cons.prems(6) by auto
  have old: "y \<noteq> ?a \<and> y \<noteq> ?b \<and> map_of (g_nodes h') y = map_of (g_nodes g) y"
    if "map_of (g_nodes g) y \<noteq> None" "y \<noteq> x" for y
    using that h(6) fr xa by (auto simp: hm h'm split: if_splits)
  have tail: "frontier g l (xs @ ys)" "x \<notin> set (xs @ ys)" using frontier_tail [of g l x "xs @ ys"] Cons.prems(2) by simp_all
  have old': "y \<noteq> ?a" "y \<noteq> ?b" "map_of (g_nodes h') y = map_of (g_nodes g) y"
    if "y \<in> set (xs @ ys) \<or> y \<in> set made" for y
  proof -
    have "map_of (g_nodes g) y \<noteq> None" using that frontier_dom [OF tail(1)] frontier_dom [OF Cons.prems(3)] by blast
    moreover have "y \<noteq> x" using that tail(2) Cons.prems(4) by auto
    ultimately show "y \<noteq> ?a" "y \<noteq> ?b" "map_of (g_nodes h') y = map_of (g_nodes g) y" using old by blast+
  qed
  have f1: "frontier h' l (xs @ ys)" by (rule frontier_mono [OF tail(1)]) (rule old', simp)
  have f2: "frontier h' (Suc l) (made @ [?a, ?b])"
  proof -
    have "frontier h' (Suc l) made" by (rule frontier_mono [OF Cons.prems(3)]) (rule old', simp)
    moreover have "?a \<notin> set made" "?b \<notin> set made" using old' by blast+
    moreover have "\<exists>m. map_of (g_nodes h') ?a = Some m \<and> n_layer m = Suc l \<and> n_children m = []"
      "\<exists>m. map_of (g_nodes h') ?b = Some m \<and> n_layer m = Suc l \<and> n_children m = []"
      using xa n(2) by (simp_all add: hm h'm)
    ultimately show ?thesis by (auto simp: frontier_def)
  qed
  have disj: "set (made @ [?a, ?b]) \<inter> set (xs @ ys) = {}" using Cons.prems(4) old' by auto
  from Cons.IH [OF h'(2) f1 f2 disj h'(3)] Cons.prems(6) h'(4) obtain out k' where
    out: "split_level xs h' = (Inr out, k')" "kg_inv k'" "room k' k" "g_bounds k' = g_bounds g"
      "length out = 2 * length xs" "frontier k' (Suc l) ((made @ [?a, ?b]) @ out)" by auto
  then show ?case
    using h(1) h'(1) by (intro exI [of _ "?a # ?b # out"] exI [of _ k']) (simp add: op_bind_def op_return_def)
qed

lemma build_levels_ok:
  "kg_inv g \<Longrightarrow> frontier g l xs \<Longrightarrow> room g (length xs * (2 ^ Suc d - 2)) \<Longrightarrow> l + d \<le> max_depth (g_bounds g) \<Longrightarrow>
   \<exists>out h. build_levels d xs g = (Inr out, h) \<and> kg_inv h \<and> g_bounds h = g_bounds g
     \<and> length out = 2 ^ d * length xs \<and> frontier h (l + d) out"
proof (induction d arbitrary: g l xs)
  case (Suc d)
  have "(2::nat) ^ Suc d \<ge> 2" by simp
  then have split: "length xs * (2 ^ Suc (Suc d) - 2) = 2 * length xs + (2 * length xs) * (2 ^ Suc d - 2)"
    by (simp add: algebra_simps diff_mult_distrib2)
  from split_level_ok [of g l xs "[]" "[]" "(2 * length xs) * (2 ^ Suc d - 2)"] Suc.prems split obtain out h where
    h: "split_level xs g = (Inr out, h)" "kg_inv h" "room h ((2 * length xs) * (2 ^ Suc d - 2))"
      "g_bounds h = g_bounds g" "length out = 2 * length xs" "frontier h (Suc l) out"
    by (auto simp: frontier_def)
  from Suc.IH [OF h(2,6)] h(3-5) Suc.prems(4) show ?case
    by (auto simp: op_bind_def h(1))
qed (auto simp: op_return_def)

lemma trailing_zeros_bound: "0 < n \<Longrightarrow> 2 ^ trailing_zeros n \<le> n"
proof (induction n rule: trailing_zeros.induct)
  case (1 n)
  show ?case
  proof (cases "odd n")
    case False
    then have "2 ^ trailing_zeros (n div 2) \<le> n div 2" using 1 by auto
    then show ?thesis using False 1 by (subst trailing_zeros.simps) auto
  qed (use 1 in \<open>simp add: trailing_zeros.simps\<close>)
qed

lemma draw_keys_dom:
  "draw_keys rand ns keys i = (Inr keys', j) \<Longrightarrow> dom (map_of keys') = dom (map_of keys) \<union> set ns
    \<and> (distinct (map fst keys) \<longrightarrow> distinct (map fst keys'))"
proof (induction ns arbitrary: keys i)
  case (Cons n ns)
  from Cons.prems obtain k where "draw_keys rand ns (AList.update n k keys) (Suc i) = (Inr keys', j)"
    by (auto simp: random_key_ok elim!: op_bind_okE)
  from Cons.IH [OF this] show ?case
    by (auto simp: AList.update_conv' AList.distinct_update simp del: fun_upd_apply)
qed (simp add: op_return_def)

lemma draw_keys_ok:
  assumes "\<And>i n. rand i n \<noteq> None"
  shows "\<exists>keys' j. draw_keys rand ns keys i = (Inr keys', j)"
proof (induction ns arbitrary: keys i)
  case (Cons n ns)
  from assms [of i KEY_LEN] obtain k where "rand i KEY_LEN = Some k" by auto
  with Cons [of "AList.update n k keys" "Suc i"] show ?case by (auto simp: op_bind_def random_key_def)
qed (simp add: op_return_def)

lemma assign_leaves_ok:
  "index + length us \<le> length leaves \<Longrightarrow>
   \<exists>m'. assign_leaves us index leaves m = Inr m' \<and> dom (map_of m') = dom (map_of m) \<union> set us
     \<and> ran (map_of m') \<subseteq> ran (map_of m) \<union> set leaves"
proof (induction us arbitrary: index m)
  case (Cons u us)
  have "ran ((map_of m)(u \<mapsto> leaves ! index)) \<subseteq> ran (map_of m) \<union> set leaves"
    using Cons.prems by (auto simp: ran_def split: if_splits)
  moreover obtain m' where "assign_leaves us (Suc index) leaves (AList.update u (leaves ! index) m) = Inr m'"
    "dom (map_of m') = insert u (dom (map_of m)) \<union> set us"
    "ran (map_of m') \<subseteq> ran ((map_of m)(u \<mapsto> leaves ! index)) \<union> set leaves"
    using Cons.IH [of "Suc index" "AList.update u (leaves ! index) m"] Cons.prems
    by (auto simp: AList.update_conv' simp del: fun_upd_apply)
  ultimately show ?case using Cons.prems by (auto simp: get_at_def)
qed simp

lemma layers_nodes:
  assumes "kg_inv g" "bounds_ok (g_bounds g)"
  shows "set (concat (layers g)) = dom (map_of (g_nodes g))"
proof -
  have d: "distinct (map fst (g_nodes g))" using assms(1) by (simp add: kg_inv_def)
  have "Suc (n_layer n) < usize_bound" if "(i, n) \<in> set (g_nodes g)" for i n
    using kg_inv_node [OF assms(1), of i n] d that assms(2) by (auto simp: node_ok_def bounds_ok_def)
  then have at: "layer_at (layers g) l = {i. \<exists>n. (i, n) \<in> set (g_nodes g) \<and> n_layer n = l}" for l
    unfolding layers_def by (subst layers_loop_spec) (auto simp: layer_at_def)
  have "set (concat (layers g)) = (\<Union>l. layer_at (layers g) l)"
    by (auto simp: layer_at_def set_conv_nth [of "layers g"] split: if_splits)
  also have "\<dots> = dom (map_of (g_nodes g))"
    by (auto simp: at dom_map_of_conv_image_fst image_iff) force
  finally show ?thesis .
qed

lemma kg_root_layer: "kg_inv g \<Longrightarrow> map_of (g_nodes g) 0 = Some r \<Longrightarrow> n_layer r = 0"
  using kg_inv_node [of g 0 r] by (fastforce simp: kg_inv_def node_ok_def)

lemma build_binary_ok:
  assumes "is_power_of_two n" "n * 4 < usize_bound"
  shows "\<exists>leaves g. build_binary n (with_root \<lparr>max_depth = 64, max_breadth = 8, max_nodes = n * 4\<rparr>) = (Inr leaves, g)
    \<and> kg_inv g \<and> bounds_ok (g_bounds g) \<and> length leaves = n \<and> distinct leaves \<and> set leaves \<subseteq> dom (map_of (g_nodes g))
    \<and> (1 < n \<longrightarrow> 0 \<notin> set leaves)"
proof -
  let ?d = "trailing_zeros n" and ?g = "with_root \<lparr>max_depth = 64, max_breadth = 8, max_nodes = n * 4\<rparr>"
  have n: "n = 2 ^ ?d" "0 < n" using assms(1) by (auto simp: is_power_of_two_def)
  have "(2::nat) ^ ?d < 2 ^ 64" using n assms(2) by (simp add: usize_bound_def)
  then have "?d < 64" by (rule power_less_imp_less_exp [rotated]) simp
  then have d: "?d \<le> 64" by simp
  have bd: "bounds_ok (g_bounds ?g)" using assms(2) by (simp add: bounds_ok_def with_root_def usize_bound_def)
  have f: "frontier ?g 0 [0]" by (simp add: frontier_def with_root_def)
  have r: "room ?g (length [0::nat] * (2 ^ Suc ?d - 2))"
    using n assms(2) by (simp add: room_def with_root_def usize_bound_def) (intro conjI; linarith)
  have "0 + ?d \<le> max_depth (g_bounds ?g)" using d by (simp add: with_root_def)
  from build_levels_ok [OF with_root_inv f r this] obtain out h where
    h: "build_levels ?d [0] ?g = (Inr out, h)" "kg_inv h" "g_bounds h = g_bounds ?g"
      "length out = 2 ^ ?d * length [0::nat]" "frontier h (0 + ?d) out" by blast
  have "build_binary n ?g = (Inr out, h)" using h(1) by (simp add: build_binary_def with_root_def)
  moreover have "length out = n" using h(4) n(1) by simp
  moreover have "distinct out" "set out \<subseteq> dom (map_of (g_nodes h))"
    using h(5) frontier_dom [OF h(5)] by (auto simp: frontier_def)
  moreover have "0 \<notin> set out" if "1 < n"
  proof
    assume "0 \<in> set out"
    then obtain r where r: "map_of (g_nodes h) 0 = Some r" "n_layer r = ?d" using h(5) by (auto simp: frontier_def)
    have "n_layer r = 0" using kg_root_layer [OF h(2) r(1)] .
    with r(2) have "n = 1" using n(1) by simp
    with that show False by simp
  qed
  ultimately show ?thesis using h(2,3) bd by auto
qed

lemma build_run:
  assumes "is_power_of_two (length us)" "length us * 4 < usize_bound"
  obtains leaves g where "kg_inv g" "bounds_ok (g_bounds g)" "length leaves = length us"
    "set leaves \<subseteq> dom (map_of (g_nodes g))" "1 < length us \<longrightarrow> 0 \<notin> set leaves"
    "bcs_build rand us = op_bind (draw_keys rand (concat (layers g)) []) (\<lambda>keys.
       op_bind (op_lift (assign_leaves us 0 leaves [])) (\<lambda>ul.
       op_return \<lparr>bg_graph = g, bg_keys = keys, bg_user_leaves = ul\<rparr>))"
proof -
  from build_binary_ok [OF assms] obtain leaves g where
    g: "build_binary (length us) (with_root \<lparr>max_depth = 64, max_breadth = 8, max_nodes = length us * 4\<rparr>) = (Inr leaves, g)"
      "kg_inv g" "bounds_ok (g_bounds g)" "length leaves = length us" "set leaves \<subseteq> dom (map_of (g_nodes g))"
      "1 < length us \<longrightarrow> 0 \<notin> set leaves" by blast
  have "0 < length us" using assms(1) by (simp add: is_power_of_two_def)
  then have "bcs_build rand us = op_bind (draw_keys rand (concat (layers g)) []) (\<lambda>keys.
       op_bind (op_lift (assign_leaves us 0 leaves [])) (\<lambda>ul.
       op_return \<lparr>bg_graph = g, bg_keys = keys, bg_user_leaves = ul\<rparr>))"
    using assms g(1)
    by (simp add: bcs_build_def Let_def op_bind_def [of "op_lift (Inr _)"] op_lift_def [of "Inr _"] checked_mul_def
        fun_eq_iff)
  with that g show thesis by blast
qed

lemma build_inv:
  assumes "bcs_build rand us i = (Inr b, j)"
  shows "bg_inv b \<and> dom (map_of (bg_user_leaves b)) = set us \<and> ran (map_of (bg_user_leaves b)) \<subseteq> node_set b
    \<and> (1 < length us \<longrightarrow> 0 \<notin> ran (map_of (bg_user_leaves b)))"
proof -
  have "is_power_of_two (length us)" "length us * 4 < usize_bound"
    using assms by (auto simp: bcs_build_def Let_def op_fail_def op_lift_def checked_mul_def
        split: if_splits elim!: op_bind_okE)
  then obtain leaves g where g: "kg_inv g" "bounds_ok (g_bounds g)" "length leaves = length us"
    "set leaves \<subseteq> dom (map_of (g_nodes g))" "1 < length us \<longrightarrow> 0 \<notin> set leaves" and run: "bcs_build rand us = op_bind (draw_keys rand (concat (layers g)) []) (\<lambda>keys.
       op_bind (op_lift (assign_leaves us 0 leaves [])) (\<lambda>ul.
       op_return \<lparr>bg_graph = g, bg_keys = keys, bg_user_leaves = ul\<rparr>))" by (rule build_run)
  from assms [unfolded run] obtain keys ul k where b: "b = \<lparr>bg_graph = g, bg_keys = keys, bg_user_leaves = ul\<rparr>"
    and keys: "draw_keys rand (concat (layers g)) [] i = (Inr keys, k)" and ul: "assign_leaves us 0 leaves [] = Inr ul"
    by (auto simp: op_lift_def op_return_def elim!: op_bind_okE)
  have "dom (map_of keys) = dom (map_of (g_nodes g))" "distinct (map fst keys)"
    using draw_keys_dom [OF keys] layers_nodes [OF g(1,2)] by simp_all
  moreover have "dom (map_of ul) = set us" "ran (map_of ul) \<subseteq> set leaves"
    using assign_leaves_ok [of 0 us leaves "[]"] g(3) ul by (auto simp: ran_def)
  ultimately show ?thesis using g b by (auto simp: bg_inv_def node_set_def)
qed

section \<open>Packaging\<close>

definition carried_keys :: "communique list \<Rightarrow> (encryption_ref \<times> node_id \<times> wrapped_key) set" where
  "carried_keys cs = {(cq_encrypted_under c, n, w) | c n w. c \<in> set cs \<and> (n, w) \<in> set (cq_keys c)}"

definition group_content :: "(node_id \<times> (node_id \<times> wrapped_key) list) list \<Rightarrow> (node_id \<times> node_id \<times> wrapped_key) set" where
  "group_content gs = {(u, n, w) | u ks n w. map_of gs u = Some ks \<and> (n, w) \<in> set ks}"

lemma in_group_content:
  "(u, n, w) \<in> group_content gs \<longleftrightarrow> (case map_of gs u of None \<Rightarrow> False | Some ks \<Rightarrow> (n, w) \<in> set ks)"
  by (auto simp: group_content_def split: option.splits)

lemma push_group_content:
  "group_content (push_group m gs) = insert (rm_under_node m, rm_new_key_node m, rm_wrapped m) (group_content gs)"
proof -
  have "(u, n, w) \<in> group_content (push_group m gs) \<longleftrightarrow>
      (u, n, w) \<in> insert (rm_under_node m, rm_new_key_node m, rm_wrapped m) (group_content gs)" for u n w
    by (auto simp: in_group_content push_group_def AList.update_conv' split: option.splits)
  then show ?thesis by auto
qed

lemma push_group_keys:
  "distinct (map fst gs) \<Longrightarrow> distinct (map fst (push_group m gs)) \<and> length (push_group m gs) \<le> Suc (length gs)"
proof -
  assume d: "distinct (map fst gs)"
  have "length (AList.update k v gs) \<le> Suc (length gs)" for k :: nat and v
    by (induction gs) auto
  with d show ?thesis by (simp add: push_group_def AList.distinct_update)
qed

lemma fold_push_group:
  "distinct (map fst gs) \<Longrightarrow>
   group_content (fold push_group ms gs) = (\<lambda>m. (rm_under_node m, rm_new_key_node m, rm_wrapped m)) ` set ms \<union> group_content gs
   \<and> distinct (map fst (fold push_group ms gs)) \<and> length (fold push_group ms gs) \<le> length ms + length gs"
proof (induction ms arbitrary: gs)
  case (Cons m ms)
  from push_group_keys [OF Cons.prems, of m] Cons.IH [of "push_group m gs"] show ?case
    by (auto simp: push_group_content)
qed simp

lemma wrap_path_opens:
  assumes law: "gcm_law gcm"
  shows "wrap_path rand gcm b rep lk path i = (Inr ks, j) \<Longrightarrow>
    open_keys gcm lk ks = Inr (map (\<lambda>n. (n, key_at b n)) (filter (\<lambda>n. n \<in> set rep) path))"
proof (induction path arbitrary: i ks)
  case (Cons n path)
  show ?case
  proof (cases "n \<in> set rep")
    case True
    with Cons.prems obtain k w i' ks' where k: "map_of (bg_keys b) n = Some k" "wrap rand gcm lk k i = (Inr w, i')"
      "wrap_path rand gcm b rep lk path i' = (Inr ks', j)" "ks = (n, w) # ks'"
      by (auto simp: op_lift_def op_return_def from_cipher_ok elim!: op_bind_okE)
    with True Cons.IH [OF k(3)] wrap_unwrap [OF law k(2)] show ?thesis by (simp add: key_at_def)
  qed (use Cons in simp)
qed (simp add: op_return_def)

lemma user_communiques_opens:
  assumes law: "gcm_law gcm"
  shows "user_communiques rand gcm b r us i = (Inr cs, j) \<Longrightarrow> c \<in> set cs \<Longrightarrow>
    \<exists>u leaf path. (u, leaf) \<in> set us \<and> cq_encrypted_under c = UserLeaf u \<and> leaf_to_root (bg_graph b) leaf = Inr path
      \<and> open_user_communique gcm c (key_at b leaf)
         = Inr (map (\<lambda>n. (n, key_at b n)) (filter (\<lambda>n. n \<in> set (rr_replaced r)) path))"
proof (induction us arbitrary: i cs)
  case (Cons a us)
  obtain u leaf where a: "a = (u, leaf)" by (cases a)
  from Cons.prems(1) obtain path lk ks cs' i' i'' where p: "leaf_to_root (bg_graph b) leaf = Inr path"
    "map_of (bg_keys b) leaf = Some lk" "wrap_path rand gcm b (rr_replaced r) lk path i' = (Inr ks, i'')"
    "user_communiques rand gcm b r us i'' = (Inr cs', j)"
    "cs = (if ks = [] then [] else [\<lparr>cq_encrypted_under = UserLeaf u, cq_keys = ks\<rparr>]) @ cs'"
    by (auto simp: a op_lift_def op_return_def elim!: op_bind_okE)
  show ?case
  proof (cases "c \<in> set cs'")
    case True
    from Cons.IH [OF p(4) True] show ?thesis by auto
  next
    case False
    with Cons.prems(2) p(5) have "c = \<lparr>cq_encrypted_under = UserLeaf u, cq_keys = ks\<rparr>" by (auto split: if_splits)
    with wrap_path_opens [OF law p(3)] p(1,2) a show ?thesis
      by (intro exI [of _ u] exI [of _ leaf] exI [of _ path]) (simp add: open_user_communique_def key_at_def)
  qed
qed (simp add: op_return_def)


lemma carried_groups:
  assumes "distinct (map fst gs)"
  shows "carried_keys (map (\<lambda>(under, keys). \<lparr>cq_encrypted_under = Node under, cq_keys = keys\<rparr>) gs) =
    (\<lambda>(u, n, w). (Node u, n, w)) ` group_content gs"
proof -
  have "(u, ks) \<in> set gs \<longleftrightarrow> map_of gs u = Some ks" for u ks using assms by simp
  then show ?thesis by (force simp: carried_keys_def group_content_def image_iff)
qed

lemma carried_key_oriented:
  "carried_keys (communiques_key_oriented r) =
     (\<lambda>m. (Node (rm_under_node m), rm_new_key_node m, rm_wrapped m)) ` set (rr_messages r)"
  by (force simp: carried_keys_def communiques_key_oriented_def image_iff)

lemma no_child_descendants:
  assumes "\<And>c. parent g c = Some i \<Longrightarrow> c \<notin> dom (map_of (g_nodes g))"
  shows "descendants (g_nodes g) i = {i}"
proof -
  have "d = i" if "(i, d) \<in> (edges (g_nodes g))\<^sup>*" for d
    using that
  proof (induction rule: rtrancl_induct)
    case (step y z)
    then have "parent g z = Some i" "z \<in> dom (map_of (g_nodes g))" by (auto simp: edges_def parent_def)
    with assms show ?case by blast
  qed simp
  then show ?thesis by (auto simp: descendants_def)
qed

section \<open>Reachable graphs\<close>

inductive bg_reach :: "rng \<Rightarrow> gcm_ops \<Rightarrow> broadcast_graph \<times> nat \<Rightarrow> bool" for rand gcm where
  built: "bcs_build rand us i = (Inr b, j) \<Longrightarrow> bg_reach rand gcm (b, j)"
| joined: "bg_reach rand gcm s \<Longrightarrow> join rand gcm user sponsor s = (Inr x, t) \<Longrightarrow> bg_reach rand gcm t"
| departed: "bg_reach rand gcm s \<Longrightarrow> leave rand gcm user s = (Inr r, t) \<Longrightarrow> bg_reach rand gcm t"

lemma bg_reach_inv:
  assumes "bg_reach rand gcm s" "gcm_law gcm"
  shows "bg_inv (fst s)"
  using assms(1)
proof (induction rule: bg_reach.induct)
  case (built us i b j)
  then show ?case using build_inv by simp
next
  case (joined s user sponsor x t)
  obtain b i b' j r lk where st: "s = (b, i)" "t = (b', j)" "x = (r, lk)" by (metis prod.exhaust)
  with joined have "bg_inv b" "join rand gcm user sponsor (b, i) = (Inr (r, lk), (b', j))" by auto
  from join_spec [OF assms(2) this] st show ?case by auto
next
  case (departed s user r t)
  obtain b i b' j where st: "s = (b, i)" "t = (b', j)" by (metis prod.exhaust)
  with departed have "bg_inv b" "leave rand gcm user (b, i) = (Inr r, (b', j))" by auto
  from leave_spec [OF assms(2) this] st show ?case by auto
qed

text \<open>The keys in use differ pairwise, and the draws made from \<open>i\<close> up to \<open>j\<close> differ from them.\<close>

definition fresh_keys :: "rng \<Rightarrow> nat \<Rightarrow> nat \<Rightarrow> broadcast_graph \<Rightarrow> bool" where
  "fresh_keys rand i j b \<longleftrightarrow> inj_on (key_at b) (node_set b)
     \<and> (\<forall>d \<in> {i..<j}. \<forall>n \<in> node_set b. rand d KEY_LEN \<noteq> Some (key_at b n))"

section \<open>An example\<close>

text \<open>Two users, drawn with the counting generator and the transparent cipher of the example instances.\<close>

definition ex_key :: "nat \<Rightarrow> bytes" where
  "ex_key i = replicate 32 (word_of_nat i)"

definition ex_wrap :: "nat \<Rightarrow> nat \<Rightarrow> nat \<Rightarrow> wrapped_key" where
  "ex_wrap i a b = (case wrap toy_rand toy_gcm (ex_key a) (ex_key b) i of (Inr w, _) \<Rightarrow> w)"

definition ex_nodes :: "(node_id \<times> node) list" where
  "ex_nodes = [(0, \<lparr>n_position = [], n_layer = 0, n_parent = None, n_children = [1, 2], n_key_epoch = 0\<rparr>),
     (1, \<lparr>n_position = [0], n_layer = 1, n_parent = Some 0, n_children = [], n_key_epoch = 0\<rparr>),
     (2, \<lparr>n_position = [1], n_layer = 1, n_parent = Some 0, n_children = [], n_key_epoch = 0\<rparr>)]"

definition ex_bcs :: broadcast_graph where
  "ex_bcs = \<lparr>bg_graph = \<lparr>g_nodes = ex_nodes, g_root = 0, g_next_id = 3,
       g_bounds = \<lparr>max_depth = 64, max_breadth = 8, max_nodes = 8\<rparr>\<rparr>,
     bg_keys = [(0, ex_key 0), (1, ex_key 1), (2, ex_key 2)], bg_user_leaves = [(1, 1), (2, 2)]\<rparr>"

lemma toy_key: "random_key toy_rand i = (Inr (ex_key i), Suc i)"
  by (simp add: random_key_def toy_rand_def KEY_LEN_def ex_key_def)

lemma toy_wrap: "from_cipher (wrap toy_rand toy_gcm (ex_key a) (ex_key b)) i = (Inr (ex_wrap i a b), Suc i)"
  by (simp add: ex_wrap_def from_cipher_def wrap_def op_bind_def random_fill_def toy_rand_def op_lift_def
      toy_seal ex_key_def op_return_def)

lemmas ex_eval = op_bind_def op_lift_def op_return_def Let_def toy_key toy_wrap reading_def on_graph_def
  with_root_def add_child_def update_node_def parent_def layers_def leaf_to_root_def remove_subtree_def
  remove_loop.simps path_loop.simps ancestors_of_def children_of_def rotate_and_rekey_def
  checked_add_def checked_mul_def saturating_add_def get_at_def get_range_def try_u32_def usize_bound_def
  ex_bcs_def ex_nodes_def

lemma ex_built: "bcs_build toy_rand [1, 2] 0 = (Inr ex_bcs, 3)"
proof -
  have "ex_key (Suc (Suc 0)) = ex_key 2" by (simp add: numeral_2_eq_2)
  then show ?thesis
    by (simp add: bcs_build_def is_power_of_two_def trailing_zeros.simps build_binary_def ex_eval)
qed

lemma ex_reach: "bg_reach toy_rand gcm (ex_bcs, 3)"
  by (rule bg_reach.built [OF ex_built])

lemma ex_key_inject: "a < 256 \<Longrightarrow> b < 256 \<Longrightarrow> ex_key a = ex_key b \<longleftrightarrow> a = b"
  by (auto simp: ex_key_def word_of_nat_eq_iff take_bit_eq_mod)

lemma ex_fresh: "3 \<le> i \<Longrightarrow> j < 256 \<Longrightarrow> fresh_keys toy_rand i j ex_bcs"
  by (auto simp: fresh_keys_def node_set_def ex_bcs_def ex_nodes_def key_at_def inj_on_def ex_key_inject
      toy_rand_def KEY_LEN_def simp flip: ex_key_def)

lemma ex_items: "\<exists>items j. encrypted_data_items toy_rand toy_gcm ex_bcs i = (Inr items, j)"
  by (simp add: encrypted_data_items_def ex_eval)

lemma ex_message: "\<exists>ct j. encrypt_message toy_rand toy_curve toy_hkdf toy_gcm ex_bcs m i = (Inr ct, j)"
  by (simp add: encrypt_message_def message_key_def ex_bcs_def seal_for_def from_cipher_def op_bind_def
      random_fill_def toy_rand_def op_lift_def op_return_def toy_seal ex_key_def)

lemma ex_leave: "\<exists>r b. leave toy_rand toy_gcm 1 (ex_bcs, 3) = (Inr r, (b, 5))"
  by (simp add: leave_def ex_eval)

lemma ex_join: "\<exists>r b. join toy_rand toy_gcm 7 0 (ex_bcs, 3) = (Inr (r, ex_key 3), (b, 8))"
  by (simp add: join_def ex_eval)

lemma ex_rejoin:
  "\<exists>r b r' b' items k. join toy_rand toy_gcm 2 0 (ex_bcs, 3) = (Inr (r, ex_key 3), (b, 8))
     \<and> rr_replaced r = [0] \<and> leave toy_rand toy_gcm 2 (b, 8) = (Inr r', (b', 11))
     \<and> encrypted_data_items toy_rand toy_gcm b' 11 = (Inr items, k)"
  by (simp add: join_def leave_def encrypted_data_items_def ex_eval)

section \<open>Properties\<close>

text \<open>
  C1 [eligible_members_decrypt] In every broadcast graph reachable by building, joins and leaves, a
  user whose leaf is in the graph decrypts every message with its leaf key and the published items:
  unwrapping along its path reaches the message key. A user without a leaf is refused as not
  eligible, whatever key it presents.
\<close>

theorem eligible_members_decrypt:
  assumes "gcm_law gcm" and "bg_reach rand gcm (b, d)"
    and "encrypted_data_items rand gcm b i = (Inr items, j)"
    and "encrypt_message rand cv hk gcm b m i' = (Inr sealed, j')"
  shows "(map_of (bg_user_leaves b) user = Some leaf \<and> leaf \<in> node_set b \<longrightarrow>
      (\<exists>key. user_leaf_key b user = Some key \<and> user_decrypt cv hk gcm b user key items sealed = Inr m))
    \<and> (map_of (bg_user_leaves b) user = None \<longrightarrow> user_decrypt cv hk gcm b user key items sealed = Inl NotEligible)"
proof (intro conjI impI)
  have inv: "bg_inv b" using bg_reach_inv [OF assms(2,1)] by simp
  assume u: "map_of (bg_user_leaves b) user = Some leaf \<and> leaf \<in> node_set b"
  then have "user_leaf_key b user = Some (key_at b leaf)"
    using inv by (auto simp: user_leaf_key_def key_at_def bg_inv_def)
  with eligible_decrypts [OF assms(1) inv _ _ assms(3,4)] u
  show "\<exists>key. user_leaf_key b user = Some key \<and> user_decrypt cv hk gcm b user key items sealed = Inr m" by blast
qed (simp add: user_decrypt_def)

theorem eligible_members_decrypt_witness:
  "\<exists>items ct j k. encrypted_data_items toy_rand toy_gcm ex_bcs 3 = (Inr items, j)
     \<and> encrypt_message toy_rand toy_curve toy_hkdf toy_gcm ex_bcs [42] j = (Inr ct, k)
     \<and> user_decrypt toy_curve toy_hkdf toy_gcm ex_bcs 2 (ex_key 2) items ct = Inr [42]
     \<and> user_decrypt toy_curve toy_hkdf toy_gcm ex_bcs 9 (ex_key 2) items ct = Inl NotEligible"
proof -
  obtain items j where i: "encrypted_data_items toy_rand toy_gcm ex_bcs 3 = (Inr items, j)" using ex_items by blast
  obtain ct k where c: "encrypt_message toy_rand toy_curve toy_hkdf toy_gcm ex_bcs [42] j = (Inr ct, k)"
    using ex_message by blast
  have "map_of (bg_user_leaves ex_bcs) 2 = Some 2" "2 \<in> node_set ex_bcs" "map_of (bg_user_leaves ex_bcs) 9 = None"
    "user_leaf_key ex_bcs 2 = Some (ex_key 2)"
    by (simp_all add: ex_bcs_def ex_nodes_def node_set_def user_leaf_key_def)
  with eligible_members_decrypt [OF toy_gcm_law ex_reach i c, of 2 2]
    eligible_members_decrypt [OF toy_gcm_law ex_reach i c, of 9] i c show ?thesis by auto
qed





text \<open>
  Building for a power-of-two number of users (small enough for the node bound)
  succeeds whenever the generator does: the graph is a valid tree with a key on every node and every
  user has a leaf in it. Any other number of users is refused with \<open>BadStructure\<close>.
\<close>

lemma broadcast_build:
  assumes "\<And>d n. rand d n \<noteq> None"
  shows "(is_power_of_two (length us) \<and> length us * 4 < usize_bound \<longrightarrow>
      (\<exists>b j. bcs_build rand us i = (Inr b, j) \<and> bg_inv b \<and> dom (map_of (bg_user_leaves b)) = set us
        \<and> ran (map_of (bg_user_leaves b)) \<subseteq> node_set b))
    \<and> (\<not> is_power_of_two (length us) \<longrightarrow> bcs_build rand us i = (Inl BadStructure, i))"
proof (intro conjI impI)
  assume n: "is_power_of_two (length us) \<and> length us * 4 < usize_bound"
  then obtain leaves g where g: "length leaves = length us"
    and run: "bcs_build rand us = op_bind (draw_keys rand (concat (layers g)) []) (\<lambda>keys.
       op_bind (op_lift (assign_leaves us 0 leaves [])) (\<lambda>ul.
       op_return \<lparr>bg_graph = g, bg_keys = keys, bg_user_leaves = ul\<rparr>))" by (metis build_run)
  obtain keys j where "draw_keys rand (concat (layers g)) [] i = (Inr keys, j)"
    using draw_keys_ok [where rand = rand, OF assms] by metis
  moreover obtain ul where "assign_leaves us 0 leaves [] = Inr ul"
    using assign_leaves_ok [of 0 us leaves "[]"] g by auto
  ultimately obtain b where "bcs_build rand us i = (Inr b, j)"
    by (simp add: run op_bind_def op_lift_def op_return_def)
  with build_inv [OF this] show "\<exists>b j. bcs_build rand us i = (Inr b, j) \<and> bg_inv b
      \<and> dom (map_of (bg_user_leaves b)) = set us \<and> ran (map_of (bg_user_leaves b)) \<subseteq> node_set b" by blast
qed (simp add: bcs_build_def Let_def op_fail_def)



text \<open>
  Leaving does not always end a user's access: when a user who already has a
  leaf joins again, only the newest leaf is remembered, so after it leaves, the key of its first
  leaf, which it still holds, opens the published items up to the current message key.
\<close>

lemma rejoin_keeps_access:
  assumes "gcm_law gcm" and "bg_reach rand gcm (b, i)"
    and "map_of (bg_user_leaves b) user = Some old" and "old \<in> node_set b"
    and "join rand gcm user sponsor (b, i) = (Inr (r, leaf_key), (b1, i1))" and "old \<notin> set (rr_replaced r)"
    and "leave rand gcm user (b1, i1) = (Inr r2, (b2, i2))"
    and "encrypted_data_items rand gcm b2 i3 = (Inr items, i4)"
  shows "map_of (bg_user_leaves b2) user = None
    \<and> (\<exists>path. leaf_to_root (bg_graph b2) old = Inr path
        \<and> fold_windows (climb_step gcm items) path (key_at b old) = message_key b2)"
proof -
  have inv: "bg_inv b" using bg_reach_inv [OF assms(2,1)] by simp
  obtain leaf as where j: "leaf \<notin> node_set b" "map_of (bg_user_leaves b1) user = Some leaf"
    "leaf_to_root (bg_graph b1) leaf = Inr (leaf # as)" "rr_replaced r = as" "bg_inv b1"
    "node_set b1 = insert leaf (node_set b)" "parent (bg_graph b1) leaf = Some sponsor"
    "\<forall>n \<in> node_set b. parent (bg_graph b1) n = parent (bg_graph b) n"
    "\<forall>n \<in> node_set b. n \<notin> set as \<longrightarrow> key_at b1 n = key_at b n"
    by (rule join_spec [OF assms(1) inv assms(5)])
  obtain leaf' as' where l: "map_of (bg_user_leaves b1) user = Some leaf'"
    "leaf_to_root (bg_graph b1) leaf' = Inr (leaf' # as')" "bg_inv b2"
    "bg_user_leaves b2 = AList.delete user (bg_user_leaves b1)"
    "node_set b2 = node_set b1 - descendants (g_nodes (bg_graph b1)) leaf'"
    "\<forall>n \<in> node_set b2. n \<notin> set as' \<longrightarrow> key_at b2 n = key_at b1 n"
    by (rule leave_spec [OF assms(1) j(5) assms(7)])
  have same: "leaf' = leaf" "as' = as" using l(1,2) j(2,3) by auto
  have "c \<notin> node_set b1" if "parent (bg_graph b1) c = Some leaf" for c
  proof
    assume "c \<in> node_set b1"
    moreover have "c \<noteq> leaf" using parent_less [OF _ that] j(5) by (auto simp: bg_inv_def)
    ultimately have "parent (bg_graph b) c = Some leaf" using j(6,8) that by auto
    from bg_parent_key(2) [OF inv this] j(1) show False by simp
  qed
  then have "descendants (g_nodes (bg_graph b1)) leaf = {leaf}"
    by (intro no_child_descendants) (simp add: node_set_def)
  then have old: "old \<in> node_set b2" "old \<notin> set as'" using l(5) same j(1,4,6) assms(4,6) by auto
  then have key: "key_at b2 old = key_at b old" using l(6) j(4,9) same assms(4) by auto
  obtain path where path: "leaf_to_root (bg_graph b2) old = Inr path"
    "fold_windows (climb_step gcm items) path (key_at b2 old) = Inr (key_at b2 (g_root (bg_graph b2)))"
    using kg.climb [of "bg_graph b2" old "climb_step gcm items" "key_at b2"] climb_step_ok [OF assms(1) l(3) assms(8)]
      l(3) old(1) by (auto simp: bg_inv_def node_set_def)
  have "message_key b2 = Inr (key_at b2 (g_root (bg_graph b2)))"
    using l(3) by (auto simp: message_key_def key_at_def bg_inv_def node_set_def kg_inv_def)
  with path key l(4) show ?thesis by (simp add: AList.delete_conv')
qed

end
