(* ===== verification/Sighash.thy ===== *)
theory Sighash
  imports Transaction
begin

unbundle bit_operations_syntax

text \<open>
  The FORKID signature digest, \<^verbatim>\<open>crates/bsv/src/sighash.rs\<close>. The definition follows the code: the
  errors, the three inner digests, the preimage and the outer digest. The abstract side is
  \<open>sighash_view\<close>, the part of a transaction that a signature of a given type is meant to commit to.
  Two results connect them: equal views give equal digests (nothing else is signed), and, for a
  digest function without a collision among the messages hashed, equal digests give equal views
  (everything in the view is signed).
\<close>

section \<open>The digest\<close>

definition SIGHASH_ALL :: byte where "SIGHASH_ALL = 0x01"
definition SIGHASH_NONE :: byte where "SIGHASH_NONE = 0x02"
definition SIGHASH_SINGLE :: byte where "SIGHASH_SINGLE = 0x03"
definition SIGHASH_ANYONECANPAY :: byte where "SIGHASH_ANYONECANPAY = 0x80"
definition SIGHASH_FORKID :: byte where "SIGHASH_FORKID = 0x40"

lemmas sighash_consts = SIGHASH_ALL_def SIGHASH_NONE_def SIGHASH_SINGLE_def SIGHASH_ANYONECANPAY_def
  SIGHASH_FORKID_def

definition enc_outpoint :: "out_point \<Rightarrow> bytes" where
  "enc_outpoint p = internal (as_hash (op_txid p)) @ u32_to_le (op_vout p)"

definition prevouts :: "transaction \<Rightarrow> bytes" where
  "prevouts tx = concat (map (\<lambda>i. enc_outpoint (ti_outpoint i)) (tx_inputs tx))"

definition sequences :: "transaction \<Rightarrow> bytes" where
  "sequences tx = concat (map (\<lambda>i. u32_to_le (ti_sequence i)) (tx_inputs tx))"

definition sighash_serialize_output :: "bytes \<Rightarrow> tx_out \<Rightarrow> bsv_error + bytes" where
  "sighash_serialize_output out t =
     rbind (ok_or (try_u64 (length (to_locking_script t))) OutOfRange) (\<lambda>n.
     Inr (write_varint (out @ u64_to_le (to_value t)) n @ to_locking_script t))"

definition outputs_hash :: "(bytes \<Rightarrow> bytes) \<Rightarrow> transaction \<Rightarrow> byte \<Rightarrow> nat \<Rightarrow> bsv_error + hash256" where
  "outputs_hash sha tx base input_index =
     (if base \<noteq> SIGHASH_SINGLE \<and> base \<noteq> SIGHASH_NONE then
        rbind (serialize_all sighash_serialize_output [] (tx_outputs tx)) (\<lambda>out.
        Inr (double_sha256 sha out))
      else if base = SIGHASH_SINGLE then
        rbind (ok_or (get_at (tx_outputs tx) input_index) SighashSingleIndex) (\<lambda>output.
        rbind (sighash_serialize_output [] output) (\<lambda>out. Inr (double_sha256 sha out)))
      else Inr zero_hash)"

text \<open>The bytes that the last call of \<open>double_sha256\<close> hashes.\<close>

definition sighash_preimage ::
  "(bytes \<Rightarrow> bytes) \<Rightarrow> transaction \<Rightarrow> nat \<Rightarrow> bytes \<Rightarrow> 64 word \<Rightarrow> byte \<Rightarrow> bsv_error + bytes" where
  "sighash_preimage sha tx input_index script_code v sighash_type =
     (let base = sighash_type AND 0x1f;
          anyone = (sighash_type AND SIGHASH_ANYONECANPAY) \<noteq> 0 in
      rbind (ok_or (get_at (tx_inputs tx) input_index) MalformedTx) (\<lambda>input.
      if base = SIGHASH_SINGLE \<and> length (tx_outputs tx) \<le> input_index then Inl SighashSingleIndex
      else
        let hash_prevouts = if anyone then zero_hash else double_sha256 sha (prevouts tx);
            hash_sequence = if anyone \<or> base = SIGHASH_SINGLE \<or> base = SIGHASH_NONE then zero_hash
              else double_sha256 sha (sequences tx) in
        rbind (outputs_hash sha tx base input_index) (\<lambda>hash_outputs.
        rbind (ok_or (try_u64 (length script_code)) OutOfRange) (\<lambda>n.
        Inr (write_varint
               (u32_to_le (tx_version tx) @ internal hash_prevouts @ internal hash_sequence
                @ internal (as_hash (op_txid (ti_outpoint input)))
                @ u32_to_le (op_vout (ti_outpoint input))) n
             @ script_code @ u64_to_le v @ u32_to_le (ti_sequence input) @ internal hash_outputs
             @ u32_to_le (tx_locktime tx) @ u32_to_le (ucast sighash_type))))))"

definition sighash ::
  "(bytes \<Rightarrow> bytes) \<Rightarrow> transaction \<Rightarrow> nat \<Rightarrow> bytes \<Rightarrow> 64 word \<Rightarrow> byte \<Rightarrow> bsv_error + hash256" where
  "sighash sha tx input_index script_code v sighash_type =
     rbind (sighash_preimage sha tx input_index script_code v sighash_type) (\<lambda>p.
     Inr (double_sha256 sha p))"

section \<open>What a signature commits to\<close>

datatype outputs_view = AllOutputs "tx_out list" | OneOutput "tx_out option" | NoOutputs

record sighash_view_rec =
  sv_version :: "32 word"
  sv_prevouts :: "out_point list option"
  sv_sequences :: "32 word list option"
  sv_outpoint :: "out_point option"
  sv_script_code :: bytes
  sv_value :: "64 word"
  sv_sequence :: "32 word option"
  sv_outputs :: outputs_view
  sv_locktime :: "32 word"
  sv_type :: byte

definition view_outputs :: "transaction \<Rightarrow> byte \<Rightarrow> nat \<Rightarrow> outputs_view" where
  "view_outputs tx base i =
     (if base = SIGHASH_SINGLE then OneOutput (get_at (tx_outputs tx) i)
      else if base = SIGHASH_NONE then NoOutputs else AllOutputs (tx_outputs tx))"

definition sighash_view :: "transaction \<Rightarrow> nat \<Rightarrow> bytes \<Rightarrow> 64 word \<Rightarrow> byte \<Rightarrow> sighash_view_rec" where
  "sighash_view tx i script_code v ty =
     (let base = ty AND 0x1f; anyone = (ty AND SIGHASH_ANYONECANPAY) \<noteq> 0 in
      \<lparr>sv_version = tx_version tx,
       sv_prevouts = (if anyone then None else Some (map ti_outpoint (tx_inputs tx))),
       sv_sequences = (if anyone \<or> base = SIGHASH_SINGLE \<or> base = SIGHASH_NONE then None
         else Some (map ti_sequence (tx_inputs tx))),
       sv_outpoint = map_option ti_outpoint (get_at (tx_inputs tx) i),
       sv_script_code = script_code, sv_value = v,
       sv_sequence = map_option ti_sequence (get_at (tx_inputs tx) i),
       sv_outputs = view_outputs tx base i,
       sv_locktime = tx_locktime tx, sv_type = ty\<rparr>)"

definition sighash_error :: "transaction \<Rightarrow> nat \<Rightarrow> byte \<Rightarrow> bsv_error option" where
  "sighash_error tx i ty =
     (if length (tx_inputs tx) \<le> i then Some MalformedTx
      else if ty AND 0x1f = SIGHASH_SINGLE \<and> length (tx_outputs tx) \<le> i then Some SighashSingleIndex
      else None)"

text \<open>The inner messages that are hashed on the way to the preimage.\<close>

definition view_message :: "outputs_view \<Rightarrow> bytes list" where
  "view_message w = (case w of AllOutputs ts \<Rightarrow> [concat (map enc_out ts)]
     | OneOutput (Some t) \<Rightarrow> [enc_out t] | _ \<Rightarrow> [])"

definition sighash_messages ::
  "(bytes \<Rightarrow> bytes) \<Rightarrow> transaction \<Rightarrow> nat \<Rightarrow> bytes \<Rightarrow> 64 word \<Rightarrow> byte \<Rightarrow> bytes set" where
  "sighash_messages sha tx i script_code v ty =
     set (prevouts tx # sequences tx # view_message (view_outputs tx (ty AND 0x1f) i)
       @ (case sighash_preimage sha tx i script_code v ty of Inl _ \<Rightarrow> [] | Inr p \<Rightarrow> [p]))"

definition sighash_ok :: "transaction \<Rightarrow> nat \<Rightarrow> bytes \<Rightarrow> byte \<Rightarrow> bool" where
  "sighash_ok tx i script_code ty \<longleftrightarrow> wf_tx tx \<and> length (enc_tx tx) < usize_bound
     \<and> length script_code < 2 ^ 63 \<and> sighash_error tx i ty = None"

section \<open>The preimage, field by field\<close>

definition view_hash :: "(bytes \<Rightarrow> bytes) \<Rightarrow> outputs_view \<Rightarrow> hash256" where
  "view_hash sha w = (case view_message w of m # _ \<Rightarrow> double_sha256 sha m | [] \<Rightarrow> zero_hash)"

definition opt_hash :: "(bytes \<Rightarrow> bytes) \<Rightarrow> bool \<Rightarrow> bytes \<Rightarrow> hash256" where
  "opt_hash sha skip m = (if skip then zero_hash else double_sha256 sha m)"

lemma sighash_serialize_output_enc: "wf_out t \<Longrightarrow> sighash_serialize_output out t = Inr (out @ enc_out t)"
  by (simp add: wf_out_def sighash_serialize_output_def enc_out_def write_varint_append try_u64_def)

lemma serialize_outputs_enc:
  "wf_tx tx \<Longrightarrow> serialize_all sighash_serialize_output [] (tx_outputs tx) = Inr (concat (map enc_out (tx_outputs tx)))"
  using serialize_all_enc [of "tx_outputs tx" sighash_serialize_output enc_out "[]"]
  by (simp add: sighash_serialize_output_enc wf_tx_def)

lemma outputs_hash_view:
  assumes "wf_tx tx" "sighash_error tx i ty = None"
  shows "outputs_hash sha tx (ty AND 0x1f) i = Inr (view_hash sha (view_outputs tx (ty AND 0x1f) i))"
  using assms
  by (auto simp: outputs_hash_def view_hash_def view_message_def view_outputs_def sighash_error_def
      serialize_outputs_enc get_at_def sighash_serialize_output_enc wf_tx_def split: if_splits)

lemma sighash_preimage_fields:
  assumes "sighash_ok tx i sc ty"
  shows "sighash_preimage sha tx i sc v ty = Inr
    (u32_to_le (tx_version tx)
     @ internal (opt_hash sha (ty AND SIGHASH_ANYONECANPAY \<noteq> 0) (prevouts tx))
     @ internal (opt_hash sha (ty AND SIGHASH_ANYONECANPAY \<noteq> 0 \<or> ty AND 0x1f = SIGHASH_SINGLE
         \<or> ty AND 0x1f = SIGHASH_NONE) (sequences tx))
     @ enc_outpoint (ti_outpoint (tx_inputs tx ! i))
     @ (varint_enc (word_of_nat (length sc)) @ sc)
     @ u64_to_le v @ u32_to_le (ti_sequence (tx_inputs tx ! i))
     @ internal (view_hash sha (view_outputs tx (ty AND 0x1f) i))
     @ u32_to_le (tx_locktime tx) @ u32_to_le (ucast ty))"
  using assms outputs_hash_view [of tx i ty sha]
  by (auto simp: sighash_ok_def sighash_preimage_def Let_def sighash_error_def get_at_def opt_hash_def
      try_u64_def write_varint_append enc_outpoint_def split: if_splits)

section \<open>The inner messages determine their parts\<close>

definition parse_outpoint :: "out_point reader" where
  "parse_outpoint = op_bind cur_hash256 (\<lambda>h. op_bind cur_u32_le (\<lambda>vout.
     op_return \<lparr>op_txid = txid_from_hash h, op_vout = vout\<rparr>))"

definition wf_outpoint :: "out_point \<Rightarrow> bool" where
  "wf_outpoint p \<longleftrightarrow> wf_hash (as_hash (op_txid p))"

interpretation outpoint: codec enc_outpoint parse_outpoint wf_outpoint
proof
  fix p
  assume "wf_outpoint p"
  then show "parses parse_outpoint (enc_outpoint p) p"
    unfolding parse_outpoint_def enc_outpoint_def wf_outpoint_def
    by (intro parses_bind [OF parses_hash256] parses_bind_pure [OF parses_u32_le])
      (auto simp: txid_from_hash_def intro!: parses_return_eq)
qed

lemma length_enc_outpoint: "wf_outpoint p \<Longrightarrow> length (enc_outpoint p) = 36"
  by (simp add: wf_outpoint_def wf_hash_def enc_outpoint_def)

lemma concat_map_le:
  assumes "\<And>x. x \<in> set xs \<Longrightarrow> length (f x) \<le> length (g x)"
  shows "length (concat (map f xs)) \<le> length (concat (map g xs))"
  using assms by (induction xs) (auto intro: add_mono)

lemma inner_lengths:
  "length (prevouts tx) \<le> length (enc_tx tx)" "length (sequences tx) \<le> length (enc_tx tx)"
  "length (concat (map enc_out (tx_outputs tx))) \<le> length (enc_tx tx)"
  using concat_map_le [of "tx_inputs tx" "\<lambda>i. enc_outpoint (ti_outpoint i)" enc_in]
    concat_map_le [of "tx_inputs tx" "\<lambda>i. u32_to_le (ti_sequence i)" enc_in]
  by (auto simp: prevouts_def sequences_def enc_tx_def enc_vec_def enc_in_def enc_outpoint_def)

lemma enc_nonempty: "enc_outpoint p \<noteq> []" "u32_to_le w \<noteq> []" "enc_out t \<noteq> []"
  by (auto simp: enc_outpoint_def enc_out_def dest: arg_cong [where f = length])

lemma prevouts_inj:
  assumes "wf_tx tx" "wf_tx tx'" "prevouts tx = prevouts tx'" "length (enc_tx tx) < usize_bound"
  shows "map ti_outpoint (tx_inputs tx) = map ti_outpoint (tx_inputs tx')"
  by (rule outpoint.concat_injective)
    (use assms inner_lengths(1) [of tx] in \<open>auto simp: prevouts_def wf_tx_def wf_in_def wf_outpoint_def
       comp_def enc_nonempty\<close>)

lemma sequences_inj:
  assumes "sequences tx = sequences tx'" "length (enc_tx tx) < usize_bound"
  shows "map ti_sequence (tx_inputs tx) = map ti_sequence (tx_inputs tx')"
  by (rule u32.concat_injective)
    (use assms inner_lengths(2) [of tx] in \<open>auto simp: sequences_def comp_def enc_nonempty\<close>)

lemma outputs_inj:
  assumes "wf_tx tx" "wf_tx tx'" "length (enc_tx tx) < usize_bound"
    "concat (map enc_out (tx_outputs tx)) = concat (map enc_out (tx_outputs tx'))"
  shows "tx_outputs tx = tx_outputs tx'"
  by (rule tx_output.concat_injective)
    (use assms inner_lengths(3) [of tx] in \<open>auto simp: wf_tx_def enc_nonempty\<close>)

lemma length_enc_out_elem: "t \<in> set ts \<Longrightarrow> length (enc_out t) \<le> length (concat (map enc_out ts))"
  by (induction ts) auto

lemma one_output_inj:
  assumes "wf_tx tx" "wf_tx tx'" "length (enc_tx tx) < usize_bound" "enc_out t = enc_out t'"
    "t \<in> set (tx_outputs tx)" "t' \<in> set (tx_outputs tx')"
  shows "t = t'"
  using assms length_enc_out_elem [OF assms(5)] inner_lengths(3) [of tx]
  by (intro tx_output.injective) (auto simp: wf_tx_def)


section \<open>The preimage determines the view\<close>

lemma wf_opt_hash: "digest_len 32 sha \<Longrightarrow> length (internal (opt_hash sha b m)) = 32"
  using wf_double_sha256 [of sha m] wf_zero_hash by (auto simp: opt_hash_def wf_hash_def)

lemma wf_view_hash: "digest_len 32 sha \<Longrightarrow> length (internal (view_hash sha w)) = 32"
  using wf_double_sha256 [of sha] wf_zero_hash by (auto simp: view_hash_def wf_hash_def split: list.splits)

lemma u32_to_le_inj [simp]: "u32_to_le a = u32_to_le b \<longleftrightarrow> a = b"
  using u32_from_to_le [of a] u32_from_to_le [of b] by metis

lemma u64_to_le_inj [simp]: "u64_to_le a = u64_to_le b \<longleftrightarrow> a = b"
  using u64_from_to_le [of a] u64_from_to_le [of b] by metis

lemma ucast_type_inj: "(ucast (a :: byte) :: 32 word) = ucast b \<Longrightarrow> a = b"
proof -
  assume "(ucast a :: 32 word) = ucast b"
  then have "unat (ucast a :: 32 word) = unat (ucast b :: 32 word)" by simp
  then show ?thesis
    using byte_unat_less [of a] byte_unat_less [of b]
    by (simp add: unsigned_ucast_eq take_bit_eq_mod word_unat_eq_iff del: byte_unat_less)
qed

lemma fields_inj:
  assumes "a @ b @ c @ d @ (varint_enc (word_of_nat (length sc)) @ sc) @ e @ f @ g @ h @ k =
      a' @ b' @ c' @ d' @ (varint_enc (word_of_nat (length sc')) @ sc') @ e' @ f' @ g' @ h' @ k'"
    and "length a = length a'" "length b = length b'" "length c = length c'" "length d = length d'"
    "length e = length e'" "length f = length f'" "length g = length g'" "length h = length h'"
    and "length (e @ f @ g @ h @ k) < 100" "length sc < 2 ^ 63" "length sc' < 2 ^ 63"
  shows "a = a' \<and> b = b' \<and> c = c' \<and> d = d' \<and> sc = sc' \<and> e = e' \<and> f = f' \<and> g = g' \<and> h = h' \<and> k = k'"
proof -
  have 1: "a = a'" "b = b'" "c = c'" "d = d'" and
    2: "(varint_enc (word_of_nat (length sc)) @ sc) @ (e @ f @ g @ h @ k) =
      (varint_enc (word_of_nat (length sc')) @ sc') @ (e' @ f' @ g' @ h' @ k')"
    using assms(1-5) by simp_all
  have "length (varint_enc (word_of_nat (length sc))) \<le> 9" by (simp add: length_varint_enc)
  then have "sc = sc' \<and> e @ f @ g @ h @ k = e' @ f' @ g' @ h' @ k'"
    by (intro var_bytes.prefix_free [OF _ _ 2]) (use assms(10-12) in \<open>simp_all add: usize_bound_def\<close>)
  with 1 assms(6-9) show ?thesis by simp
qed

lemma opt_hash_inj:
  "opt_hash sha b m = opt_hash sha b m' \<Longrightarrow> collision_free sha S \<Longrightarrow> m \<in> S \<Longrightarrow> m' \<in> S \<Longrightarrow> b \<or> m = m'"
  by (auto simp: opt_hash_def split: if_splits dest: collision_freeD)

lemma view_hash_inj:
  assumes ok: "sighash_ok tx i sc ty" "sighash_ok tx' i' sc' ty"
    and eq: "view_hash sha (view_outputs tx (ty AND 0x1f) i) = view_hash sha (view_outputs tx' (ty AND 0x1f) i')"
    and cf: "collision_free sha S"
    and S: "set (view_message (view_outputs tx (ty AND 0x1f) i)) \<subseteq> S"
      "set (view_message (view_outputs tx' (ty AND 0x1f) i')) \<subseteq> S"
  shows "view_outputs tx (ty AND 0x1f) i = view_outputs tx' (ty AND 0x1f) i'"
proof -
  have wf: "wf_tx tx" "wf_tx tx'" "length (enc_tx tx) < usize_bound"
    using ok by (simp_all add: sighash_ok_def)
  consider "ty AND 0x1f = SIGHASH_SINGLE" | "ty AND 0x1f = SIGHASH_NONE"
    | "ty AND 0x1f \<noteq> SIGHASH_SINGLE" "ty AND 0x1f \<noteq> SIGHASH_NONE" by blast
  then show ?thesis
  proof cases
    case 1
    then have i: "i < length (tx_outputs tx)" "i' < length (tx_outputs tx')"
      using ok by (auto simp: sighash_ok_def sighash_error_def split: if_splits)
    then have "enc_out (tx_outputs tx ! i) = enc_out (tx_outputs tx' ! i')"
      using 1 eq cf S
      by (auto simp: view_outputs_def get_at_def view_hash_def view_message_def dest: collision_freeD)
    then have "tx_outputs tx ! i = tx_outputs tx' ! i'"
      using one_output_inj [OF wf] i by simp
    with 1 i show ?thesis by (simp add: view_outputs_def get_at_def)
  next
    case 2
    then show ?thesis by (simp add: view_outputs_def sighash_consts)
  next
    case 3
    then have "concat (map enc_out (tx_outputs tx)) = concat (map enc_out (tx_outputs tx'))"
      using eq cf S by (auto simp: view_outputs_def view_hash_def view_message_def dest: collision_freeD)
    with 3 outputs_inj [OF wf] show ?thesis by (simp add: view_outputs_def)
  qed
qed

lemma sighash_inj:
  assumes sha: "digest_len 32 sha"
    and ok: "sighash_ok tx i sc ty" "sighash_ok tx' i' sc' ty'"
    and cf: "collision_free sha (sighash_messages sha tx i sc v ty \<union> sighash_messages sha tx' i' sc' v' ty')"
      (is "collision_free sha ?S")
    and eq: "sighash sha tx i sc v ty = sighash sha tx' i' sc' v' ty'"
  shows "sighash_view tx i sc v ty = sighash_view tx' i' sc' v' ty'"
proof -
  note p = sighash_preimage_fields [OF ok(1), of sha v]
  note p' = sighash_preimage_fields [OF ok(2), of sha v']
  let ?i = "tx_inputs tx ! i" and ?i' = "tx_inputs tx' ! i'"
  have len: "i < length (tx_inputs tx)" "i' < length (tx_inputs tx')"
    using ok by (auto simp: sighash_ok_def sighash_error_def split: if_splits)
  then have wfp: "wf_outpoint (ti_outpoint ?i)" "wf_outpoint (ti_outpoint ?i')"
    using ok by (auto simp: sighash_ok_def wf_tx_def wf_in_def wf_outpoint_def)
  have pre: "sighash_preimage sha tx i sc v ty = sighash_preimage sha tx' i' sc' v' ty'"
  proof -
    obtain P P' where P: "sighash_preimage sha tx i sc v ty = Inr P"
      "sighash_preimage sha tx' i' sc' v' ty' = Inr P'" using p p' by blast
    have "P = P'"
      by (rule collision_freeD [OF _ cf]) (use eq P in \<open>simp_all add: sighash_def sighash_messages_def\<close>)
    with P show ?thesis by simp
  qed
  note f = fields_inj [OF pre [unfolded p p', THEN sum.inject(2) [THEN iffD1]]]
  have F: "tx_version tx = tx_version tx'" "enc_outpoint (ti_outpoint ?i) = enc_outpoint (ti_outpoint ?i')"
    "sc = sc'" "v = v'" "ti_sequence ?i = ti_sequence ?i'" "tx_locktime tx = tx_locktime tx'" "ty = ty'"
    and H: "opt_hash sha (ty AND SIGHASH_ANYONECANPAY \<noteq> 0) (prevouts tx) =
        opt_hash sha (ty' AND SIGHASH_ANYONECANPAY \<noteq> 0) (prevouts tx')"
      "opt_hash sha (ty AND SIGHASH_ANYONECANPAY \<noteq> 0 \<or> ty AND 0x1f = SIGHASH_SINGLE
         \<or> ty AND 0x1f = SIGHASH_NONE) (sequences tx) =
       opt_hash sha (ty' AND SIGHASH_ANYONECANPAY \<noteq> 0 \<or> ty' AND 0x1f = SIGHASH_SINGLE
         \<or> ty' AND 0x1f = SIGHASH_NONE) (sequences tx')"
      "view_hash sha (view_outputs tx (ty AND 0x1f) i) = view_hash sha (view_outputs tx' (ty' AND 0x1f) i')"
    using f wfp ok
    by (auto simp: wf_opt_hash [OF sha] wf_view_hash [OF sha] length_enc_outpoint sighash_ok_def hash256.expand
        dest: ucast_type_inj)
  have sub: "prevouts tx \<in> ?S" "prevouts tx' \<in> ?S" "sequences tx \<in> ?S" "sequences tx' \<in> ?S"
    "set (view_message (view_outputs tx (ty AND 0x1f) i)) \<subseteq> ?S"
    "set (view_message (view_outputs tx' (ty AND 0x1f) i')) \<subseteq> ?S"
    by (auto simp: sighash_messages_def F(7))
  have "ti_outpoint ?i = ti_outpoint ?i'"
    by (rule outpoint.injective [OF wfp F(2)]) (simp add: length_enc_outpoint [OF wfp(1)] usize_bound_def)
  moreover have "view_outputs tx (ty AND 0x1f) i = view_outputs tx' (ty AND 0x1f) i'"
    by (rule view_hash_inj [OF ok(1) ok(2) [folded F(7)] H(3) [folded F(7)] cf sub(5,6)])
  moreover have "ty AND SIGHASH_ANYONECANPAY \<noteq> 0 \<or> map ti_outpoint (tx_inputs tx) = map ti_outpoint (tx_inputs tx')"
    using opt_hash_inj [OF H(1) [folded F(7)] cf sub(1,2)] prevouts_inj [of tx tx'] ok
    by (auto simp: sighash_ok_def)
  moreover have "ty AND SIGHASH_ANYONECANPAY \<noteq> 0 \<or> ty AND 0x1f = SIGHASH_SINGLE
      \<or> ty AND 0x1f = SIGHASH_NONE \<or> map ti_sequence (tx_inputs tx) = map ti_sequence (tx_inputs tx')"
    using opt_hash_inj [OF H(2) [folded F(7)] cf sub(3,4)] sequences_inj [of tx tx'] ok
    by (auto simp: sighash_ok_def)
  ultimately show ?thesis
    using F len by (auto simp: sighash_view_def Let_def get_at_def)
qed


section \<open>Only the view is hashed\<close>

lemma get_at_map_option: "map_option f (get_at xs i) = get_at (map f xs) i"
  by (simp add: get_at_def)

lemma inner_messages_alt:
  "prevouts tx = concat (map enc_outpoint (map ti_outpoint (tx_inputs tx)))"
  "sequences tx = concat (map u32_to_le (map ti_sequence (tx_inputs tx)))"
  by (simp_all add: prevouts_def sequences_def comp_def)

lemma prevouts_cong: "map ti_outpoint (tx_inputs tx) = map ti_outpoint (tx_inputs tx') \<Longrightarrow> prevouts tx = prevouts tx'"
  by (simp only: inner_messages_alt)

lemma sequences_cong: "map ti_sequence (tx_inputs tx) = map ti_sequence (tx_inputs tx') \<Longrightarrow> sequences tx = sequences tx'"
  by (simp only: inner_messages_alt)

lemma outputs_hash_cong:
  "view_outputs tx b i = view_outputs tx' b i' \<Longrightarrow> outputs_hash sha tx b i = outputs_hash sha tx' b i'"
  by (auto simp: view_outputs_def outputs_hash_def sighash_consts split: if_splits)

lemma single_guard_cong:
  "view_outputs tx b i = view_outputs tx' b i' \<Longrightarrow>
   (b = SIGHASH_SINGLE \<and> length (tx_outputs tx) \<le> i) = (b = SIGHASH_SINGLE \<and> length (tx_outputs tx') \<le> i')"
  by (auto simp: view_outputs_def get_at_def split: if_splits)

lemma sighash_preimage_cong:
  assumes "sighash_view tx i sc v ty = sighash_view tx' i' sc' v' ty'"
  shows "sighash_preimage sha tx i sc v ty = sighash_preimage sha tx' i' sc' v' ty'"
proof -
  let ?any = "ty AND SIGHASH_ANYONECANPAY \<noteq> 0" and ?b = "ty AND 0x1f"
  have E: "tx_version tx = tx_version tx'" "sc = sc'" "v = v'" "ty = ty'" "tx_locktime tx = tx_locktime tx'"
    and V: "view_outputs tx ?b i = view_outputs tx' ?b i'"
    and O: "map_option ti_outpoint (get_at (tx_inputs tx) i) = map_option ti_outpoint (get_at (tx_inputs tx') i')"
    "map_option ti_sequence (get_at (tx_inputs tx) i) = map_option ti_sequence (get_at (tx_inputs tx') i')"
    and P: "?any \<or> prevouts tx = prevouts tx'"
    and Q: "?any \<or> ?b = SIGHASH_SINGLE \<or> ?b = SIGHASH_NONE \<or> sequences tx = sequences tx'"
    using assms by (auto simp: sighash_view_def Let_def split: if_splits intro: prevouts_cong sequences_cong)
  show ?thesis
  proof (cases "get_at (tx_inputs tx) i")
    case None
    with O have "get_at (tx_inputs tx') i' = None" by simp
    with None show ?thesis by (simp add: sighash_preimage_def Let_def)
  next
    case (Some a)
    with O obtain a' where a': "get_at (tx_inputs tx') i' = Some a'" "ti_outpoint a = ti_outpoint a'"
      "ti_sequence a = ti_sequence a'" by (auto simp: map_option_case split: option.splits)
    have "(if ?any then zero_hash else double_sha256 sha (prevouts tx)) =
        (if ?any then zero_hash else double_sha256 sha (prevouts tx'))" using P by auto
    moreover have "(if ?any \<or> ?b = SIGHASH_SINGLE \<or> ?b = SIGHASH_NONE then zero_hash else double_sha256 sha (sequences tx)) =
        (if ?any \<or> ?b = SIGHASH_SINGLE \<or> ?b = SIGHASH_NONE then zero_hash else double_sha256 sha (sequences tx'))"
      using Q by auto
    ultimately show ?thesis
      unfolding sighash_preimage_def Let_def Some a'(1) ok_or_simps rbind_simps
        E(4) [symmetric] E(2) [symmetric] E(3) [symmetric]
      by (simp only: E(1,5) a'(2,3) outputs_hash_cong [OF V] single_guard_cong [OF V])
  qed
qed

section \<open>A concrete transaction\<close>

definition ex_tx :: "bytes \<Rightarrow> 64 word \<Rightarrow> transaction" where
  "ex_tx unlocking v = \<lparr>tx_version = 1,
     tx_inputs = [\<lparr>ti_outpoint = \<lparr>op_txid = Txid zero_hash, op_vout = 0\<rparr>,
       ti_unlocking_script = unlocking, ti_sequence = 7\<rparr>],
     tx_outputs = [\<lparr>to_value = v, to_locking_script = [0x51]\<rparr>], tx_locktime = 0\<rparr>"

lemma ex_tx_wf: "length u < 100 \<Longrightarrow> wf_tx (ex_tx u v) \<and> length (enc_tx (ex_tx u v)) < usize_bound"
  by (simp add: ex_tx_def wf_tx_def wf_in_def wf_out_def MAX_IO_def enc_tx_def enc_vec_def enc_in_def
      enc_out_def usize_bound_def length_varint_enc unat_of_nat zero_hash_def from_internal_def wf_hash_def)

lemma ex_tx_view:
  "sighash_view (ex_tx u v) i sc w ty = sighash_view (ex_tx u' v) i sc w ty"
  "sighash_view (ex_tx u v) i sc w 0x42 = sighash_view (ex_tx u' v') i sc w 0x42"
  by (simp_all add: sighash_view_def view_outputs_def sighash_consts ex_tx_def get_at_map_option Let_def)

lemma ex_tx_ok: "length u < 100 \<Longrightarrow> sighash_ok (ex_tx u v) 0 [0x51] 0x41"
  using ex_tx_wf [of u v] by (simp add: sighash_ok_def sighash_error_def) (simp add: ex_tx_def)

lemma ex_tx_messages:
  assumes "length u < 100"
  shows "\<exists>p. length p = 158 \<and> sighash_messages len_digest (ex_tx u v) 0 [0x51] w 0x41 =
    {enc_outpoint \<lparr>op_txid = Txid zero_hash, op_vout = 0\<rparr>, u32_to_le 7,
     enc_out \<lparr>to_value = v, to_locking_script = [0x51]\<rparr>, p}
    \<and> sighash_preimage len_digest (ex_tx u v) 0 [0x51] w 0x41 = Inr p"
  using sighash_preimage_fields [OF ex_tx_ok [OF assms], of len_digest v w]
    wf_opt_hash [OF digest_len_digest] wf_view_hash [OF digest_len_digest]
  by (auto simp: sighash_messages_def view_outputs_def sighash_consts view_message_def ex_tx_def
      prevouts_def sequences_def enc_outpoint_def zero_hash_def from_internal_def length_varint_enc)

lemma ex_tx_collision_free:
  assumes "length u < 100" "length u' < 100"
  shows "collision_free len_digest (sighash_messages len_digest (ex_tx u v) 0 [0x51] w 0x41
    \<union> sighash_messages len_digest (ex_tx u' v) 0 [0x51] w 0x41)"
proof -
  from ex_tx_messages [OF assms(1), of v w] ex_tx_messages [OF assms(2), of v w]
    sighash_preimage_cong [OF ex_tx_view(1), of len_digest u v 0 "[0x51]" w "0x41" u']
  obtain p where p: "length p = 158"
    "sighash_messages len_digest (ex_tx u v) 0 [0x51] w 0x41 = {enc_outpoint \<lparr>op_txid = Txid zero_hash, op_vout = 0\<rparr>, u32_to_le 7,
     enc_out \<lparr>to_value = v, to_locking_script = [0x51]\<rparr>, p}"
    "sighash_messages len_digest (ex_tx u' v) 0 [0x51] w 0x41 = {enc_outpoint \<lparr>op_txid = Txid zero_hash, op_vout = 0\<rparr>, u32_to_le 7,
     enc_out \<lparr>to_value = v, to_locking_script = [0x51]\<rparr>, p}" by auto
  show ?thesis
    unfolding p(2,3) Un_absorb
    by (rule collision_free_len_digest)
      (auto simp: inj_on_def p(1) enc_outpoint_def enc_out_def zero_hash_def from_internal_def
        length_varint_enc)
qed

section \<open>Properties\<close>

text \<open>
  On a well-formed transaction the digest fails exactly when the input index is
  out of range (\<open>MalformedTx\<close>) or, for SIGHASH_SINGLE, when there is no output at that index
  (\<open>SighashSingleIndex\<close>); in every other case it returns a 32-byte digest.
\<close>

lemma sighash_outcome:
  assumes "digest_len 32 sha" and "wf_tx tx" and "length (enc_tx tx) < usize_bound" and "length sc < 2 ^ 63"
  shows "case sighash_error tx i ty of
      Some e \<Rightarrow> sighash sha tx i sc v ty = Inl e
    | None \<Rightarrow> (\<exists>h. sighash sha tx i sc v ty = Inr h \<and> wf_hash h)"
proof (cases "sighash_error tx i ty")
  case None
  then have "sighash_ok tx i sc ty" using assms by (simp add: sighash_ok_def)
  from sighash_preimage_fields [OF this, of sha v] None assms(1) show ?thesis
    by (simp add: sighash_def)
next
  case (Some e)
  then show ?thesis
    by (auto simp: sighash_error_def sighash_def sighash_preimage_def Let_def get_at_def split: if_splits)
qed

text \<open>
  A signature digest depends on the signed view alone, errors included: two
  signing requests with the same view (for SIGHASH_NONE whatever the outputs, for SIGHASH_SINGLE
  whatever the other outputs, with ANYONECANPAY whatever the other inputs, and always whatever the
  unlocking scripts) give the same result.
\<close>

lemma sighash_view_only:
  assumes "sighash_view tx i sc v ty = sighash_view tx' i' sc' v' ty'"
  shows "sighash sha tx i sc v ty = sighash sha tx' i' sc' v' ty'"
  by (simp add: sighash_def sighash_preimage_cong [OF assms])

text \<open>
  C20 [sighash_commits] A signature digest commits to the whole view: for a digest function without a
  collision among the messages hashed by the two requests, equal digests mean equal version,
  outpoints, sequence numbers, script code, value, outputs, lock time and type.
\<close>

theorem sighash_commits:
  assumes "digest_len 32 sha"
    and "sighash_ok tx i sc ty" and "sighash_ok tx' i' sc' ty'"
    and "collision_free sha (sighash_messages sha tx i sc v ty \<union> sighash_messages sha tx' i' sc' v' ty')"
  shows "sighash sha tx i sc v ty = sighash sha tx' i' sc' v' ty' \<longleftrightarrow>
    sighash_view tx i sc v ty = sighash_view tx' i' sc' v' ty'"
proof
  assume "sighash sha tx i sc v ty = sighash sha tx' i' sc' v' ty'"
  then show "sighash_view tx i sc v ty = sighash_view tx' i' sc' v' ty'"
    by (rule sighash_inj [OF assms])
next
  assume "sighash_view tx i sc v ty = sighash_view tx' i' sc' v' ty'"
  from sighash_preimage_cong [OF this]
  show "sighash sha tx i sc v ty = sighash sha tx' i' sc' v' ty'"
    by (simp add: sighash_def)
qed

theorem sighash_commits_witness:
  "sighash len_digest (ex_tx [] 5) 0 [0x51] 9 0x41 = sighash len_digest (ex_tx [1, 2] 5) 0 [0x51] 9 0x41
   \<longleftrightarrow> sighash_view (ex_tx [] 5) 0 [0x51] 9 0x41 = sighash_view (ex_tx [1, 2] 5) 0 [0x51] 9 0x41"
  by (rule sighash_commits [OF digest_len_digest ex_tx_ok ex_tx_ok])
    (simp_all add: ex_tx_collision_free)


end
