(* ===== verification/Session.thy ===== *)
theory Session
  imports Sighash Ckd
begin

text \<open>
  Session transactions, \<^verbatim>\<open>crates/session/src/\<close>: construction, signing and verification
  (\<^verbatim>\<open>builder.rs\<close>), subscriptions (\<^verbatim>\<open>subscription.rs\<close>) and the session-bound envelopes
  (\<^verbatim>\<open>channel.rs\<close>). SHA-256 and RIPEMD-160 are the parameters \<open>sha\<close> and \<open>rip\<close>, ECDSA the record
  \<open>ds\<close> of \<^theory_text>\<open>Ckd\<close>. Counters of subscriptions are numbers below \<open>usize_bound\<close> (64 bits).
\<close>

section \<open>Data\<close>

datatype ses_error = BsvErr bsv_error | CkdErr ckd_error | BadStructure | BadIndex | Exhausted | BadFee

definition SEQ_FINAL :: "32 word" where "SEQ_FINAL = 0xffffffff"
definition MEMBER_FLAG :: byte where "MEMBER_FLAG = or SIGHASH_SINGLE SIGHASH_FORKID"
definition BROADCASTER_FLAG :: byte where "BROADCASTER_FLAG = or SIGHASH_ALL SIGHASH_FORKID"

record member_spec =
  ms_member_pubkey :: bytes
  ms_funding :: out_point
  ms_input_value :: "64 word"
  ms_output_value :: "64 word"

record session_params =
  sp_broadcaster_pubkey :: bytes
  sp_broadcaster_funding :: out_point
  sp_broadcaster_input_value :: "64 word"
  sp_broadcaster_output_value :: "64 word"
  sp_rekeying_payload :: bytes

record session_tx =
  st_transaction :: transaction
  st_member_count :: nat

definition broadcaster_index :: "session_tx \<Rightarrow> nat" where
  "broadcaster_index st = st_member_count st"

definition ready_to_release :: "bool list \<Rightarrow> bool" where
  "ready_to_release uploaded \<longleftrightarrow> uploaded \<noteq> [] \<and> list_all (\<lambda>d. d) uploaded"

section \<open>Construction\<close>

definition input_for :: "out_point \<Rightarrow> tx_in" where
  "input_for funding = \<lparr>ti_outpoint = funding, ti_unlocking_script = [], ti_sequence = SEQ_FINAL\<rparr>"

definition build_session ::
  "(bytes \<Rightarrow> bytes) \<Rightarrow> (bytes \<Rightarrow> bytes) \<Rightarrow> member_spec list \<Rightarrow> session_params \<Rightarrow> ses_error + session_tx" where
  "build_session sha rip members params =
     (if members = [] then Inl BadStructure
      else
        let inputs = map (\<lambda>m. input_for (ms_funding m)) members @ [input_for (sp_broadcaster_funding params)];
            outputs = map (\<lambda>m. \<lparr>to_value = ms_output_value m,
                to_locking_script = bare_multisig_1_of_2 (ms_member_pubkey m) (sp_broadcaster_pubkey params)\<rparr>) members
              @ [\<lparr>to_value = sp_broadcaster_output_value params,
                  to_locking_script = p2pkh (hash160 sha rip (sp_broadcaster_pubkey params))\<rparr>,
                 build_data_carrier (sp_rekeying_payload params)]
        in Inr \<lparr>st_transaction = \<lparr>tx_version = 1, tx_inputs = inputs, tx_outputs = outputs, tx_locktime = 0\<rparr>,
             st_member_count = length members\<rparr>)"

section \<open>Signing and verification\<close>

definition member_digest ::
  "(bytes \<Rightarrow> bytes) \<Rightarrow> (bytes \<Rightarrow> bytes) \<Rightarrow> transaction \<Rightarrow> nat \<Rightarrow> bytes \<Rightarrow> 64 word \<Rightarrow> ses_error + hash256" where
  "member_digest sha rip tx index member_pubkey input_value =
     map_err BsvErr (sighash sha tx index (p2pkh (hash160 sha rip member_pubkey)) input_value MEMBER_FLAG)"

definition apply_unlock ::
  "('k, 'v, 's) ecdsa_ops \<Rightarrow> nat \<Rightarrow> bytes \<Rightarrow> bytes \<Rightarrow> hash256 \<Rightarrow> byte \<Rightarrow> (transaction, ses_error, unit) op" where
  "apply_unlock ds index private_key public_key digest flag =
     op_bind (op_lift (map_err CkdErr (sign_prehash_der ds private_key (internal digest)))) (\<lambda>signature.
     let unlock = push_data (push_data [] (signature @ [flag])) public_key in
     (\<lambda>tx. case get_at (tx_inputs tx) index of
        None \<Rightarrow> (Inl BadIndex, tx)
      | Some input \<Rightarrow> (Inr (), tx\<lparr>tx_inputs := (tx_inputs tx)[index := input\<lparr>ti_unlocking_script := unlock\<rparr>]\<rparr>)))"

definition sign_member ::
  "(bytes \<Rightarrow> bytes) \<Rightarrow> (bytes \<Rightarrow> bytes) \<Rightarrow> ('k, 'v, 's) ecdsa_ops \<Rightarrow> nat \<Rightarrow> bytes \<Rightarrow> bytes \<Rightarrow> 64 word \<Rightarrow>
   (transaction, ses_error, unit) op" where
  "sign_member sha rip ds index member_priv member_pubkey input_value tx =
     op_bind (op_lift (member_digest sha rip tx index member_pubkey input_value)) (\<lambda>digest.
     apply_unlock ds index member_priv member_pubkey digest MEMBER_FLAG) tx"

definition sign_broadcaster ::
  "(bytes \<Rightarrow> bytes) \<Rightarrow> (bytes \<Rightarrow> bytes) \<Rightarrow> ('k, 'v, 's) ecdsa_ops \<Rightarrow> nat \<Rightarrow> bytes \<Rightarrow> bytes \<Rightarrow> 64 word \<Rightarrow>
   (transaction, ses_error, unit) op" where
  "sign_broadcaster sha rip ds index broadcaster_priv broadcaster_pubkey input_value tx =
     (let prev = p2pkh (hash160 sha rip broadcaster_pubkey) in
      op_bind (op_lift (map_err BsvErr (sighash sha tx index prev input_value BROADCASTER_FLAG))) (\<lambda>digest.
      apply_unlock ds index broadcaster_priv broadcaster_pubkey digest BROADCASTER_FLAG) tx)"

definition verify_unlock :: "('k, 'v, 's) ecdsa_ops \<Rightarrow> transaction \<Rightarrow> nat \<Rightarrow> hash256 \<Rightarrow> ses_error + bool" where
  "verify_unlock ds tx index digest =
     rbind (ok_or (get_at (tx_inputs tx) index) BadIndex) (\<lambda>input.
     rbind (map_err BsvErr (parse_script (ti_unlocking_script input))) (\<lambda>ops.
     case ops of
       [Push sig_with_flag, Push public_key] \<Rightarrow>
         rbind (ok_or (checked_sub (length sig_with_flag) 1) BadStructure) (\<lambda>der_len.
         rbind (ok_or (get_range sig_with_flag 0 der_len) BadStructure) (\<lambda>signature_der.
         Inr (verify_der_prehash ds public_key (internal digest) signature_der)))
     | _ \<Rightarrow> Inr False))"

definition verify_member ::
  "(bytes \<Rightarrow> bytes) \<Rightarrow> (bytes \<Rightarrow> bytes) \<Rightarrow> ('k, 'v, 's) ecdsa_ops \<Rightarrow> transaction \<Rightarrow> nat \<Rightarrow> bytes \<Rightarrow> 64 word \<Rightarrow>
   ses_error + bool" where
  "verify_member sha rip ds tx index member_pubkey input_value =
     rbind (member_digest sha rip tx index member_pubkey input_value) (verify_unlock ds tx index)"

definition verify_broadcaster ::
  "(bytes \<Rightarrow> bytes) \<Rightarrow> (bytes \<Rightarrow> bytes) \<Rightarrow> ('k, 'v, 's) ecdsa_ops \<Rightarrow> transaction \<Rightarrow> nat \<Rightarrow> bytes \<Rightarrow> 64 word \<Rightarrow>
   ses_error + bool" where
  "verify_broadcaster sha rip ds tx index broadcaster_pubkey input_value =
     (let prev = p2pkh (hash160 sha rip broadcaster_pubkey) in
      rbind (map_err BsvErr (sighash sha tx index prev input_value BROADCASTER_FLAG)) (verify_unlock ds tx index))"

section \<open>Subscriptions\<close>

datatype subscription_mode = OffChain | OnBlock

record subscription =
  sub_mode :: subscription_mode
  sub_contribution :: nat
  sub_mem_fee :: nat
  sub_renewed :: nat

definition subscription_new :: "subscription_mode \<Rightarrow> nat \<Rightarrow> nat \<Rightarrow> ses_error + subscription" where
  "subscription_new mode contribution mem_fee =
     (if mem_fee = 0 then Inl BadFee
      else Inr \<lparr>sub_mode = mode, sub_contribution = contribution, sub_mem_fee = mem_fee, sub_renewed = 0\<rparr>)"

definition sessions_funded :: "subscription \<Rightarrow> nat" where
  "sessions_funded s = sub_contribution s div sub_mem_fee s"

definition renew :: "(subscription, ses_error, unit) op" where
  "renew s =
     (if sessions_funded s \<le> sub_renewed s then (Inl Exhausted, s)
      else case checked_add (sub_renewed s) 1 of
        None \<Rightarrow> (Inl Exhausted, s)
      | Some n \<Rightarrow> (Inr (), s\<lparr>sub_renewed := n\<rparr>))"

definition renewed_count :: "subscription \<Rightarrow> nat" where
  "renewed_count s = sub_renewed s"

definition is_revoked :: "subscription \<Rightarrow> nat \<Rightarrow> bool" where
  "is_revoked s sessions_elapsed \<longleftrightarrow> sub_renewed s < sessions_elapsed"

record sub_session =
  ss_parent_txid :: string
  ss_index :: "32 word"

definition sub_session_new :: "string \<Rightarrow> 32 word \<Rightarrow> sub_session" where
  "sub_session_new parent_txid index = \<lparr>ss_parent_txid = parent_txid, ss_index = index\<rparr>"

section \<open>The channel\<close>

record envelope =
  env_component :: bytes
  env_tag :: hash256

definition channel_bind :: "(bytes \<Rightarrow> bytes) \<Rightarrow> bytes \<Rightarrow> bytes \<Rightarrow> hash256" where
  "channel_bind sha component session_binding = double_sha256 sha (component @ [0x1f] @ session_binding)"

definition channel_seal :: "(bytes \<Rightarrow> bytes) \<Rightarrow> bytes \<Rightarrow> bytes \<Rightarrow> envelope" where
  "channel_seal sha component session_binding =
     \<lparr>env_component = component, env_tag = channel_bind sha component session_binding\<rparr>"

definition channel_open :: "(bytes \<Rightarrow> bytes) \<Rightarrow> envelope \<Rightarrow> bytes \<Rightarrow> bytes option" where
  "channel_open sha e session_binding =
     (if internal (channel_bind sha (env_component e) session_binding) = internal (env_tag e)
      then Some (env_component e) else None)"

section \<open>Unlocking scripts do not enter the digests\<close>

definition same_unsigned :: "transaction \<Rightarrow> transaction \<Rightarrow> bool" where
  "same_unsigned tx t \<longleftrightarrow> tx_version t = tx_version tx \<and> tx_outputs t = tx_outputs tx \<and> tx_locktime t = tx_locktime tx
     \<and> map ti_outpoint (tx_inputs t) = map ti_outpoint (tx_inputs tx)
     \<and> map ti_sequence (tx_inputs t) = map ti_sequence (tx_inputs tx)"

lemma same_unsigned_refl [simp]: "same_unsigned tx tx"
  by (simp add: same_unsigned_def)

lemma same_unsigned_trans: "same_unsigned tx t \<Longrightarrow> same_unsigned t u \<Longrightarrow> same_unsigned tx u"
  by (simp add: same_unsigned_def)

lemma same_unsigned_sighash:
  assumes "same_unsigned tx t"
  shows "sighash sha t i sc v ty = sighash sha tx i sc v ty"
proof -
  note eqs = assms [unfolded same_unsigned_def]
  have "sighash_view t i sc v ty = sighash_view tx i sc v ty"
    by (simp only: sighash_view_def view_outputs_def get_at_map_option eqs)
  from sighash_preimage_cong [OF this] show ?thesis by (simp only: sighash_def)
qed

definition unlocked :: "nat \<Rightarrow> bytes \<Rightarrow> transaction \<Rightarrow> transaction" where
  "unlocked i u tx = tx\<lparr>tx_inputs := (tx_inputs tx)[i := (tx_inputs tx ! i)\<lparr>ti_unlocking_script := u\<rparr>]\<rparr>"

lemma map_unlocked:
  assumes "\<And>x. f (x\<lparr>ti_unlocking_script := u\<rparr>) = f x"
  shows "map f (tx_inputs (unlocked i u tx)) = map f (tx_inputs tx)"
  by (cases "i < length (tx_inputs tx)")
    (simp_all add: unlocked_def map_update assms list_update_same_conv list_update_beyond)

lemma same_unsigned_unlocked: "same_unsigned tx (unlocked i u tx)"
  by (simp add: same_unsigned_def map_unlocked) (simp add: unlocked_def)

lemma get_unlocked:
  "get_at (tx_inputs (unlocked i u tx)) j =
     (if i = j then map_option (\<lambda>x. x\<lparr>ti_unlocking_script := u\<rparr>) (get_at (tx_inputs tx) j) else get_at (tx_inputs tx) j)"
  by (simp add: unlocked_def get_at_def)

lemma parse_unlock:
  assumes "s \<noteq> []" "length s < 2 ^ 16" "q \<noteq> []" "length q < 2 ^ 16"
  shows "parse_script (push_data (push_data [] s) q) = Inr [Push s, Push q]"
proof -
  have len: "length (push_data [] d) \<le> length d + 5" for d by (simp add: push_data_def Let_def)
  have "push_data (push_data [] s) q = concat (map enc_op [Push s, Push q])"
    by (simp add: push_data_append [of "push_data [] s"])
  moreover have "length (concat (map enc_op [Push s, Push q])) < usize_bound"
    using len [of s] len [of q] assms by (simp add: usize_bound_def)
  ultimately show ?thesis
    using parse_script_ops [of "[Push s, Push q]"] assms by (simp add: MAX_SCRIPT_OPS_def)
qed

definition key_pair :: "('k, 'v, 's) ecdsa_ops \<Rightarrow> bytes \<Rightarrow> bytes \<Rightarrow> bool" where
  "key_pair ds priv pub \<longleftrightarrow> length pub = 33
     \<and> (case sk_from_slice ds priv of None \<Rightarrow> False | Some k \<Rightarrow> vk_from_sec1 ds pub = Some (vk_of ds k))"

lemma apply_unlock_ok:
  assumes "ecdsa_law ds" "key_pair ds priv pub" "wf_hash d" "i < length (tx_inputs tx)"
  shows "\<exists>u. apply_unlock ds i priv pub d flag tx = (Inr (), unlocked i u tx)
    \<and> (\<forall>t. map_option ti_unlocking_script (get_at (tx_inputs t) i) = Some u \<longrightarrow> verify_unlock ds t i d = Inr True)"
proof -
  from assms(2) obtain k where k: "sk_from_slice ds priv = Some k" "vk_from_sec1 ds pub = Some (vk_of ds k)" "length pub = 33"
    by (auto simp: key_pair_def split: option.splits)
  have "sk_sign_prehash ds k (internal d) \<noteq> None" using assms(1,3) by (simp add: ecdsa_law_def wf_hash_def)
  then obtain der where der: "sign_prehash_der ds priv (internal d) = Inr der"
    by (auto simp: sign_prehash_der_def k)
  have v: "verify_der_prehash ds pub (internal d) der" "length der < 255"
    using sign_prehash_verifies [OF assms(1) der _ k(2)] k(1) by (simp_all add: verifying_key_def)
  have q: "pub \<noteq> []" using k(3) by auto
  let ?u = "push_data (push_data [] (der @ [flag])) pub"
  have "apply_unlock ds i priv pub d flag tx = (Inr (), unlocked i ?u tx)"
    using assms(4) by (simp add: apply_unlock_def der op_bind_def op_lift_def get_at_def unlocked_def)
  moreover have "verify_unlock ds t i d = Inr True"
    if "map_option ti_unlocking_script (get_at (tx_inputs t) i) = Some ?u" for t
    using that v q k(3) parse_unlock [of "der @ [flag]" pub]
    by (auto simp: verify_unlock_def checked_sub_def get_range_def)
  ultimately show ?thesis by blast
qed

section \<open>Signing a whole session\<close>

text \<open>The signatures of a session, in the order in which they are made; the broadcaster's is the last.\<close>

datatype signing = MemberSigns nat bytes bytes "64 word" | BroadcasterSigns nat bytes bytes "64 word"

fun sign_index :: "signing \<Rightarrow> nat" where
  "sign_index (MemberSigns i _ _ _) = i"
| "sign_index (BroadcasterSigns i _ _ _) = i"

fun sign_step ::
  "(bytes \<Rightarrow> bytes) \<Rightarrow> (bytes \<Rightarrow> bytes) \<Rightarrow> ('k, 'v, 's) ecdsa_ops \<Rightarrow> signing \<Rightarrow> (transaction, ses_error, unit) op" where
  "sign_step sha rip ds (MemberSigns i priv pub v) = sign_member sha rip ds i priv pub v"
| "sign_step sha rip ds (BroadcasterSigns i priv pub v) = sign_broadcaster sha rip ds i priv pub v"

fun verify_step ::
  "(bytes \<Rightarrow> bytes) \<Rightarrow> (bytes \<Rightarrow> bytes) \<Rightarrow> ('k, 'v, 's) ecdsa_ops \<Rightarrow> transaction \<Rightarrow> signing \<Rightarrow> ses_error + bool" where
  "verify_step sha rip ds tx (MemberSigns i priv pub v) = verify_member sha rip ds tx i pub v"
| "verify_step sha rip ds tx (BroadcasterSigns i priv pub v) = verify_broadcaster sha rip ds tx i pub v"

fun sign_all ::
  "(bytes \<Rightarrow> bytes) \<Rightarrow> (bytes \<Rightarrow> bytes) \<Rightarrow> ('k, 'v, 's) ecdsa_ops \<Rightarrow> signing list \<Rightarrow> (transaction, ses_error, unit) op" where
  "sign_all sha rip ds [] = op_return ()"
| "sign_all sha rip ds (s # ss) = op_bind (sign_step sha rip ds s) (\<lambda>_. sign_all sha rip ds ss)"

text \<open>What each signer needs: matching keys, and a digest for its input.\<close>

fun can_sign :: "(bytes \<Rightarrow> bytes) \<Rightarrow> (bytes \<Rightarrow> bytes) \<Rightarrow> ('k, 'v, 's) ecdsa_ops \<Rightarrow> transaction \<Rightarrow> signing \<Rightarrow> bool" where
  "can_sign sha rip ds tx (MemberSigns i priv pub v) \<longleftrightarrow> key_pair ds priv pub
     \<and> (\<exists>d. sighash sha tx i (p2pkh (hash160 sha rip pub)) v MEMBER_FLAG = Inr d \<and> wf_hash d)"
| "can_sign sha rip ds tx (BroadcasterSigns i priv pub v) \<longleftrightarrow> key_pair ds priv pub
     \<and> (\<exists>d. sighash sha tx i (p2pkh (hash160 sha rip pub)) v BROADCASTER_FLAG = Inr d \<and> wf_hash d)"

lemma sighash_index: "sighash sha tx i sc v ty = Inr d \<Longrightarrow> i < length (tx_inputs tx)"
  by (auto simp: sighash_def sighash_preimage_def rbind_eq_Inr Let_def get_at_def split: if_splits)

lemma sign_step_ok:
  assumes "ecdsa_law ds" "can_sign sha rip ds tx s"
  shows "\<exists>u. sign_step sha rip ds s tx = (Inr (), unlocked (sign_index s) u tx)
    \<and> sign_index s < length (tx_inputs tx)
    \<and> (\<forall>t. same_unsigned tx t \<longrightarrow> map_option ti_unlocking_script (get_at (tx_inputs t) (sign_index s)) = Some u
         \<longrightarrow> verify_step sha rip ds t s = Inr True)"
proof (cases s)
  case (MemberSigns i priv pub v)
  with assms(2) obtain d where d: "key_pair ds priv pub" "wf_hash d"
    "sighash sha tx i (p2pkh (hash160 sha rip pub)) v MEMBER_FLAG = Inr d" by auto
  from apply_unlock_ok [OF assms(1) d(1,2) sighash_index [OF d(3)], of MEMBER_FLAG] sighash_index [OF d(3)]
  show ?thesis
    by (auto simp: MemberSigns sign_member_def member_digest_def verify_member_def op_bind_def op_lift_def d(3)
        same_unsigned_sighash)
next
  case (BroadcasterSigns i priv pub v)
  with assms(2) obtain d where d: "key_pair ds priv pub" "wf_hash d"
    "sighash sha tx i (p2pkh (hash160 sha rip pub)) v BROADCASTER_FLAG = Inr d" by auto
  from apply_unlock_ok [OF assms(1) d(1,2) sighash_index [OF d(3)], of BROADCASTER_FLAG] sighash_index [OF d(3)]
  show ?thesis
    by (auto simp: BroadcasterSigns sign_broadcaster_def verify_broadcaster_def Let_def op_bind_def op_lift_def d(3)
        same_unsigned_sighash)
qed

lemma can_sign_same: "same_unsigned tx t \<Longrightarrow> can_sign sha rip ds t s = can_sign sha rip ds tx s"
  by (cases s) (simp_all add: same_unsigned_sighash)

lemma sign_all_ok:
  assumes "ecdsa_law ds"
  shows "\<forall>s \<in> set ss. can_sign sha rip ds tx s \<Longrightarrow> distinct (map sign_index ss) \<Longrightarrow>
    \<exists>t. sign_all sha rip ds ss tx = (Inr (), t) \<and> same_unsigned tx t
      \<and> (\<forall>i. i \<notin> sign_index ` set ss \<longrightarrow> get_at (tx_inputs t) i = get_at (tx_inputs tx) i)
      \<and> (\<forall>s \<in> set ss. verify_step sha rip ds t s = Inr True)"
proof (induction ss arbitrary: tx)
  case (Cons s ss)
  obtain u where u: "sign_step sha rip ds s tx = (Inr (), unlocked (sign_index s) u tx)"
    "sign_index s < length (tx_inputs tx)"
    "\<And>t. same_unsigned tx t \<Longrightarrow> map_option ti_unlocking_script (get_at (tx_inputs t) (sign_index s)) = Some u
         \<Longrightarrow> verify_step sha rip ds t s = Inr True"
    using sign_step_ok [OF assms] Cons.prems(1) by (metis list.set_intros(1))
  let ?tx = "unlocked (sign_index s) u tx"
  have same: "same_unsigned tx ?tx" by (rule same_unsigned_unlocked)
  have "\<forall>s \<in> set ss. can_sign sha rip ds ?tx s" using Cons.prems(1) by (simp add: can_sign_same [OF same])
  then obtain t where t: "sign_all sha rip ds ss ?tx = (Inr (), t)" "same_unsigned ?tx t"
    "\<And>i. i \<notin> sign_index ` set ss \<Longrightarrow> get_at (tx_inputs t) i = get_at (tx_inputs ?tx) i"
    "\<forall>s \<in> set ss. verify_step sha rip ds t s = Inr True" 
    using Cons.IH [of ?tx] Cons.prems(2) by auto
  have "get_at (tx_inputs t) (sign_index s) = get_at (tx_inputs ?tx) (sign_index s)" using t(3) Cons.prems(2) by auto
  then have "map_option ti_unlocking_script (get_at (tx_inputs t) (sign_index s)) = Some u"
    using u(2) unfolding get_unlocked by (simp add: get_at_def)
  with u(3) t(2) same have "verify_step sha rip ds t s = Inr True" by (blast intro: same_unsigned_trans)
  with t u(1) same show ?case
    by (auto simp: op_bind_def get_unlocked intro: same_unsigned_trans)
qed (simp add: op_return_def)

section \<open>Built sessions\<close>

lemma sighash_ok_run:
  assumes "digest_len 32 sha" "sighash_ok tx i sc ty"
  shows "\<exists>h. sighash sha tx i sc v ty = Inr h \<and> wf_hash h"
  using sighash_preimage_fields [OF assms(2), of sha v] assms(1) by (simp add: sighash_def)

lemma flag_bases: "MEMBER_FLAG AND 0x1f = SIGHASH_SINGLE" "BROADCASTER_FLAG AND 0x1f = SIGHASH_ALL"
  "MEMBER_FLAG AND SIGHASH_ANYONECANPAY = 0" "BROADCASTER_FLAG AND SIGHASH_ANYONECANPAY = 0"
  by (simp_all add: MEMBER_FLAG_def BROADCASTER_FLAG_def sighash_consts)

lemma length_p2pkh: "digest_len 20 rip \<Longrightarrow> length (p2pkh (hash160 sha rip q)) < 2 ^ 63"
  using length_push_data [of "hash160 sha rip q"]
  by (simp add: p2pkh_def push_data_append [of "[DUP, HASH160_op]"] hash160_def digest_len_def)

text \<open>The signatures that a session needs: each member's on its input, then the broadcaster's.\<close>

definition session_signings :: "member_spec list \<Rightarrow> bytes list \<Rightarrow> session_params \<Rightarrow> bytes \<Rightarrow> signing list" where
  "session_signings members privs params bpriv =
     map (\<lambda>i. MemberSigns i (privs ! i) (ms_member_pubkey (members ! i)) (ms_input_value (members ! i))) [0..<length members]
     @ [BroadcasterSigns (length members) bpriv (sp_broadcaster_pubkey params) (sp_broadcaster_input_value params)]"

lemma session_signings_set:
  "set (session_signings members privs params bpriv) =
    insert (BroadcasterSigns (length members) bpriv (sp_broadcaster_pubkey params) (sp_broadcaster_input_value params))
      {MemberSigns i (privs ! i) (ms_member_pubkey (members ! i)) (ms_input_value (members ! i)) | i. i < length members}"
  by (auto simp: session_signings_def)

lemma session_signings_distinct: "distinct (map sign_index (session_signings members privs params bpriv))"
  by (simp add: session_signings_def comp_def)

lemma build_session_parts:
  assumes "build_session sha rip members params = Inr st"
  shows "length (tx_inputs (st_transaction st)) = length members + 1"
    "length (tx_outputs (st_transaction st)) = length members + 2" "st_member_count st = length members" "members \<noteq> []"
  using assms by (auto simp: build_session_def Let_def split: if_splits)

section \<open>Scopes of the signatures\<close>

lemma member_digest_scope:
  assumes "get_at outs i = get_at (tx_outputs tx) i"
  shows "member_digest sha rip (tx\<lparr>tx_outputs := outs\<rparr>) i q v = member_digest sha rip tx i q v"
proof -
  have "sighash_view (tx\<lparr>tx_outputs := outs\<rparr>) i sc v MEMBER_FLAG = sighash_view tx i sc v MEMBER_FLAG" for sc
    using assms by (simp add: sighash_view_def view_outputs_def flag_bases Let_def)
  from sighash_preimage_cong [OF this] show ?thesis by (simp add: member_digest_def sighash_def)
qed

section \<open>Renewals\<close>

text \<open>The subscription after a number of renewal attempts.\<close>

primrec renewals :: "nat \<Rightarrow> subscription \<Rightarrow> subscription" where
  "renewals 0 s = s"
| "renewals (Suc n) s = snd (renew (renewals n s))"

lemma renew_step:
  assumes "sub_contribution s < usize_bound" "sub_mem_fee s \<noteq> 0"
  shows "renew s = (if sub_renewed s < sessions_funded s then (Inr (), s\<lparr>sub_renewed := sub_renewed s + 1\<rparr>) else (Inl Exhausted, s))"
proof -
  have "sessions_funded s \<le> sub_contribution s" by (simp add: sessions_funded_def)
  with assms(1) show ?thesis by (auto simp: renew_def)
qed

lemma renew_run:
  assumes "sub_contribution s < usize_bound" "sub_mem_fee s \<noteq> 0" "sub_renewed s = 0"
  shows "renewals n s = s\<lparr>sub_renewed := min n (sessions_funded s)\<rparr>"
proof (induction n)
  case 0
  show ?case using assms(3) by simp
next
  case (Suc n)
  have "sessions_funded (s\<lparr>sub_renewed := m\<rparr>) = sessions_funded s" for m by (simp add: sessions_funded_def)
  then show ?case using assms(1,2) by (simp add: Suc renew_step)
qed

section \<open>An example\<close>

definition ex_rip :: "bytes \<Rightarrow> bytes" where
  "ex_rip m = replicate 20 (word_of_nat (length m))"

definition ex_point :: "32 word \<Rightarrow> out_point" where
  "ex_point v = \<lparr>op_txid = Txid zero_hash, op_vout = v\<rparr>"

definition ex_member :: member_spec where
  "ex_member = \<lparr>ms_member_pubkey = replicate 33 7, ms_funding = ex_point 0, ms_input_value = 10000, ms_output_value = 9000\<rparr>"

definition ex_params :: session_params where
  "ex_params = \<lparr>sp_broadcaster_pubkey = replicate 33 9, sp_broadcaster_funding = ex_point 1,
     sp_broadcaster_input_value = 5000, sp_broadcaster_output_value = 4000, sp_rekeying_payload = [1, 2, 3]\<rparr>"

lemma ex_rip_len: "digest_len 20 ex_rip"
  by (simp add: digest_len_def ex_rip_def)

lemma ex_keys: "key_pair toy_dsa (replicate 32 7) (replicate 33 7)" "key_pair toy_dsa (replicate 32 9) (replicate 33 9)"
  by (simp_all add: key_pair_def toy_dsa_def)

lemma ex_session:
  "\<exists>st. build_session len_digest ex_rip [ex_member] ex_params = Inr st \<and> wf_tx (st_transaction st)
     \<and> length (enc_tx (st_transaction st)) < usize_bound"
  by (simp add: build_session_def ex_member_def ex_params_def ex_point_def input_for_def wf_tx_def wf_in_def wf_out_def
      MAX_IO_def build_data_carrier_def bare_multisig_1_of_2_def p2pkh_def push_data_def Let_def try_u8_def hash160_def
      ex_rip_def enc_tx_def enc_vec_def enc_in_def enc_out_def usize_bound_def length_varint_enc unat_of_nat
      zero_hash_def from_internal_def wf_hash_def)

section \<open>Properties\<close>

text \<open>
  C14 [session_lifecycle] A built session can be completed: when every member and the broadcaster hold
  the keys named in it, all signatures can be made, in order and with the broadcaster last; nothing
  but unlocking scripts changes, and in the final transaction every member's and the broadcaster's
  signature verifies, whatever was signed after it.
\<close>

theorem session_lifecycle:
  assumes "ecdsa_law ds" and "digest_len 32 sha" and "digest_len 20 rip"
    and "build_session sha rip members params = Inr st"
    and "wf_tx (st_transaction st)" and "length (enc_tx (st_transaction st)) < usize_bound"
    and "\<forall>i < length members. key_pair ds (privs ! i) (ms_member_pubkey (members ! i))"
    and "key_pair ds bpriv (sp_broadcaster_pubkey params)"
  shows "\<exists>t. sign_all sha rip ds (session_signings members privs params bpriv) (st_transaction st) = (Inr (), t)
    \<and> same_unsigned (st_transaction st) t
    \<and> (\<forall>i < length members. verify_member sha rip ds t i (ms_member_pubkey (members ! i)) (ms_input_value (members ! i)) = Inr True)
    \<and> verify_broadcaster sha rip ds t (broadcaster_index st) (sp_broadcaster_pubkey params) (sp_broadcaster_input_value params)
        = Inr True"
proof -
  note parts = build_session_parts [OF assms(4)]
  have ok: "\<exists>d. sighash sha (st_transaction st) i (p2pkh (hash160 sha rip q)) v flag = Inr d \<and> wf_hash d"
    if "i < length members + 1" for i q v flag
    using sighash_ok_run [OF assms(2)] that parts assms(5,6) length_p2pkh [OF assms(3)]
    by (simp add: sighash_ok_def sighash_error_def)
  have "\<forall>s \<in> set (session_signings members privs params bpriv). can_sign sha rip ds (st_transaction st) s"
    using ok assms(7,8) by (auto simp: session_signings_set)
  from sign_all_ok [OF assms(1) this session_signings_distinct]
  obtain t where t: "sign_all sha rip ds (session_signings members privs params bpriv) (st_transaction st) = (Inr (), t)"
    "same_unsigned (st_transaction st) t"
    "\<forall>s \<in> set (session_signings members privs params bpriv). verify_step sha rip ds t s = Inr True" by blast
  from t(3) have "verify_step sha rip ds t (MemberSigns i (privs ! i) (ms_member_pubkey (members ! i)) (ms_input_value (members ! i)))
      = Inr True" if "i < length members" for i using that by (auto simp: session_signings_set)
  moreover from t(3) have "verify_step sha rip ds t (BroadcasterSigns (length members) bpriv (sp_broadcaster_pubkey params)
      (sp_broadcaster_input_value params)) = Inr True" by (auto simp: session_signings_set)
  ultimately show ?thesis using t(1,2) parts(3) by (auto simp: broadcaster_index_def)
qed

theorem session_lifecycle_witness:
  "\<exists>st t. build_session len_digest ex_rip [ex_member] ex_params = Inr st
     \<and> sign_all len_digest ex_rip toy_dsa (session_signings [ex_member] [replicate 32 7] ex_params (replicate 32 9)) (st_transaction st)
         = (Inr (), t)
     \<and> verify_member len_digest ex_rip toy_dsa t 0 (replicate 33 7) 10000 = Inr True"
proof -
  obtain st where st: "build_session len_digest ex_rip [ex_member] ex_params = Inr st" "wf_tx (st_transaction st)"
    "length (enc_tx (st_transaction st)) < usize_bound" using ex_session by blast
  from session_lifecycle [OF toy_dsa_law digest_len_digest ex_rip_len st, of "[replicate 32 7]" "replicate 32 9"] ex_keys st(1)
  show ?thesis by (auto simp: ex_member_def ex_params_def)
qed



text \<open>
  Verification does not tie a signature to the member: whoever signs the
  member's digest with a key pair of its own and puts its own public key into the unlocking script
  passes the check for that member, because the key is taken from the script and never compared
  with the member's.
\<close>

lemma verify_accepts_any_key:
  assumes "ecdsa_law ds" and "key_pair ds other_priv other_pub"
    and "member_digest sha rip tx i member_pub v = Inr d" and "wf_hash d"
  shows "\<exists>t. apply_unlock ds i other_priv other_pub d MEMBER_FLAG tx = (Inr (), t)
    \<and> same_unsigned tx t \<and> verify_member sha rip ds t i member_pub v = Inr True"
proof -
  have sg: "sighash sha tx i (p2pkh (hash160 sha rip member_pub)) v MEMBER_FLAG = Inr d"
    using assms(3) by (simp add: member_digest_def)
  note i = sighash_index [OF sg]
  from apply_unlock_ok [OF assms(1,2,4) i, of MEMBER_FLAG] obtain u where
    u: "apply_unlock ds i other_priv other_pub d MEMBER_FLAG tx = (Inr (), unlocked i u tx)"
    "\<forall>t. map_option ti_unlocking_script (get_at (tx_inputs t) i) = Some u \<longrightarrow> verify_unlock ds t i d = Inr True" by blast
  have "map_option ti_unlocking_script (get_at (tx_inputs (unlocked i u tx)) i) = Some u"
    using i unfolding get_unlocked by (simp add: get_at_def)
  with u(2) have "verify_member sha rip ds (unlocked i u tx) i member_pub v = Inr True"
    by (simp add: verify_member_def member_digest_def same_unsigned_sighash [OF same_unsigned_unlocked] sg)
  with u(1) same_unsigned_unlocked show ?thesis by blast
qed

text \<open>
  A subscription renews exactly as often as its contribution funds: after
  any number of attempts the renewals are the smaller of that number and \<open>contribution div fee\<close>, the
  next attempt succeeds exactly while that is below the funded number, and the member counts as
  revoked as soon as more sessions have elapsed.
\<close>

lemma subscription_bounded:
  assumes "subscription_new mode contribution fee = Inr s" and "contribution < usize_bound"
    and "t = renewals n s"
  shows "renewed_count t = min n (contribution div fee) \<and> renewed_count t * fee \<le> contribution
    \<and> (fst (renew t) = Inr () \<longleftrightarrow> n < contribution div fee) \<and> (fst (renew t) \<noteq> Inr () \<longrightarrow> renew t = (Inl Exhausted, t))
    \<and> (is_revoked t elapsed \<longleftrightarrow> min n (contribution div fee) < elapsed)"
proof -
  have s: "s = \<lparr>sub_mode = mode, sub_contribution = contribution, sub_mem_fee = fee, sub_renewed = 0\<rparr>" "fee \<noteq> 0"
    using assms(1) by (auto simp: subscription_new_def split: if_splits)
  have t: "t = s\<lparr>sub_renewed := min n (contribution div fee)\<rparr>"
    using renew_run [of s n] assms(2) s by (simp add: assms(3) sessions_funded_def)
  have r: "renew t = (if sub_renewed t < sessions_funded t then (Inr (), t\<lparr>sub_renewed := sub_renewed t + 1\<rparr>) else (Inl Exhausted, t))"
    by (rule renew_step) (use assms(2) s in \<open>simp_all add: t\<close>)
  have "min n (contribution div fee) * fee \<le> contribution div fee * fee" by (rule mult_right_mono) simp_all
  also have "\<dots> \<le> contribution" by simp
  finally show ?thesis
    using s by (auto simp: r) (auto simp: t renewed_count_def is_revoked_def sessions_funded_def)
qed

text \<open>
  An envelope opens under the binding it was sealed with and, for a digest
  without a collision among the two messages, under no other: a component cannot be moved to another
  session.
\<close>

lemma channel_binding:
  assumes "digest_len 32 sha" and "collision_free sha {component @ [0x1f] @ b, component @ [0x1f] @ b'}"
  shows "channel_open sha (channel_seal sha component b) b' = (if b' = b then Some component else None)"
proof -
  have "b' = b" if "internal (channel_bind sha component b') = internal (channel_bind sha component b)"
  proof -
    from that have "double_sha256 sha (component @ [0x1f] @ b') = double_sha256 sha (component @ [0x1f] @ b)"
      by (simp add: channel_bind_def hash256.expand)
    from collision_freeD [OF this assms(2)] show ?thesis by simp
  qed
  then show ?thesis by (auto simp: channel_open_def channel_seal_def)
qed

end
