(* ===== verification/Overlay.thy ===== *)
theory Overlay
  imports KeyGraph Session NodeClient
begin

text \<open>
  The overlay, \<^verbatim>\<open>crates/overlay/src/\<close>: the graph of data-storage transactions (\<^verbatim>\<open>graph.rs\<close>), the
  function key sets with obfuscation and position signalling (\<^verbatim>\<open>keys.rs\<close>) and the writer
  (\<^verbatim>\<open>writer.rs\<close>). The writer is generic in its node, a \<open>node_client\<close> of \<^theory_text>\<open>NodeClient\<close>; its map of
  written nodes is an association list. Writing works on the pair of the writer and the number of
  random draws.
\<close>

section \<open>Data\<close>

datatype overlay_error = OvCkd ckd_error | OvCipher cipher_error | OvGraph kg_error | OvBsv bsv_error
  | OvNode node_error | OvRandom | UnknownPosition

datatype overlay_network = Metanet | Generic string

record overlay_graph =
  og_graph :: key_graph
  og_network :: overlay_network

definition overlay_new :: "overlay_network \<Rightarrow> bounds \<Rightarrow> overlay_graph" where
  "overlay_new network bs = \<lparr>og_graph = with_root bs, og_network = network\<rparr>"

definition overlay_root :: "overlay_graph \<Rightarrow> node_id" where
  "overlay_root g = g_root (og_graph g)"

definition add_node :: "node_id \<Rightarrow> 32 word \<Rightarrow> (overlay_graph, overlay_error, node_id) op" where
  "add_node par coord g =
     (let (r, kg) = add_child par coord (og_graph g) in (map_err OvGraph r, g\<lparr>og_graph := kg\<rparr>))"

definition position_of :: "overlay_graph \<Rightarrow> node_id \<Rightarrow> overlay_error + pos" where
  "position_of g n = ok_or (map_option Position (position (og_graph g) n)) UnknownPosition"

section \<open>Keys\<close>

definition OBFUSCATION_INFO :: bytes where
  "OBFUSCATION_INFO = as_bytes ''overlay/obfuscation-key/v1''"

definition OBFUSCATION_AAD :: bytes where
  "OBFUSCATION_AAD = as_bytes ''overlay/obfuscation/v1''"

record overlay_keys =
  ov_seeds :: seeds

definition keys_from_master :: "hmac \<Rightarrow> bytes \<Rightarrow> overlay_error + overlay_keys" where
  "keys_from_master hm master_seed =
     rbind (map_err OvCkd (seeds_from_master hm master_seed)) (\<lambda>s. Inr \<lparr>ov_seeds = s\<rparr>)"

definition keys_from_seeds :: "seeds \<Rightarrow> overlay_keys" where
  "keys_from_seeds s = \<lparr>ov_seeds = s\<rparr>"

definition ov_writing_key :: "hmac \<Rightarrow> scalar_ops \<Rightarrow> 'p curve_ops \<Rightarrow> overlay_keys \<Rightarrow> pos \<Rightarrow> overlay_error + xpriv" where
  "ov_writing_key hm sc cv k p = map_err OvCkd (writing_key hm sc cv (ov_seeds k) p)"

definition ov_second_key :: "hmac \<Rightarrow> scalar_ops \<Rightarrow> 'p curve_ops \<Rightarrow> overlay_keys \<Rightarrow> pos \<Rightarrow> overlay_error + xpriv" where
  "ov_second_key hm sc cv k p = map_err OvCkd (second_function_key hm sc cv (ov_seeds k) p)"

definition ov_third_key :: "hmac \<Rightarrow> scalar_ops \<Rightarrow> 'p curve_ops \<Rightarrow> overlay_keys \<Rightarrow> pos \<Rightarrow> overlay_error + xpriv" where
  "ov_third_key hm sc cv k p = map_err OvCkd (third_function_key hm sc cv (ov_seeds k) p)"

definition obfuscation_key :: "hkdf \<Rightarrow> xpriv \<Rightarrow> overlay_error + bytes" where
  "obfuscation_key hk second_key = ok_or (hk (xp_private_key second_key) OBFUSCATION_INFO 32) OvRandom"

definition obfuscate :: "rng \<Rightarrow> hkdf \<Rightarrow> gcm_ops \<Rightarrow> xpriv \<Rightarrow> bytes \<Rightarrow> (nat, overlay_error, ciphertext) op" where
  "obfuscate rand hk gcm second_key payload =
     op_bind (op_lift (obfuscation_key hk second_key)) (\<lambda>key.
     op_bind (\<lambda>i. (ok_or (rand i NONCE_LEN) OvRandom, Suc i)) (\<lambda>nonce.
     op_bind (op_lift (map_err OvCipher (seal gcm key nonce payload OBFUSCATION_AAD))) (\<lambda>bs.
     op_return \<lparr>ct_nonce = nonce, ct_bytes = bs\<rparr>)))"

definition deobfuscate :: "hkdf \<Rightarrow> gcm_ops \<Rightarrow> xpriv \<Rightarrow> ciphertext \<Rightarrow> overlay_error + bytes" where
  "deobfuscate hk gcm second_key c =
     rbind (obfuscation_key hk second_key) (\<lambda>key.
     map_err OvCipher (open_ct gcm key (ct_nonce c) (ct_bytes c) OBFUSCATION_AAD))"

definition signal_position :: "pos \<Rightarrow> 32 word list" where
  "signal_position p = coords p"

definition resolve_key :: "hmac \<Rightarrow> scalar_ops \<Rightarrow> 'p curve_ops \<Rightarrow> 32 word list \<Rightarrow> bytes \<Rightarrow> overlay_error + xpriv" where
  "resolve_key hm sc cv signalled_coords seed =
     (let p = Position signalled_coords in
      map_err OvCkd (rbind (xpriv_from_seed hm sc seed) (\<lambda>x. xpriv_derive_path hm sc cv x (hardened_path p))))"

section \<open>Writing\<close>

definition SEQUENCE_FINAL :: "32 word" where "SEQUENCE_FINAL = 0xffffffff"
definition SIGHASH_FLAG :: byte where "SIGHASH_FLAG = or SIGHASH_ALL SIGHASH_FORKID"

record writing_options =
  wo_obfuscate :: bool
  wo_funding_value :: "64 word"

record written_node =
  wn_position :: "32 word list"
  wn_txid_display :: string
  wn_transaction :: transaction
  wn_obfuscation :: "ciphertext option"
  wn_writing_public_key :: bytes

record overlay_writer =
  ow_keys :: overlay_keys
  ow_written :: "(32 word list \<times> written_node) list"

type_synonym 'a writer_op = "(overlay_writer \<times> nat, overlay_error, 'a) op"

text \<open>The third-party primitives that a writer uses, in one record.\<close>

record ('p, 'k, 'v, 's) crypto =
  cr_sha :: "bytes \<Rightarrow> bytes"
  cr_rip :: "bytes \<Rightarrow> bytes"
  cr_hmac :: hmac
  cr_hkdf :: hkdf
  cr_gcm :: gcm_ops
  cr_rand :: rng
  cr_scalars :: scalar_ops
  cr_curve :: "'p curve_ops"
  cr_dsa :: "('k, 'v, 's) ecdsa_ops"

definition writer_new :: "overlay_keys \<Rightarrow> overlay_writer" where
  "writer_new keys = \<lparr>ow_keys = keys, ow_written = []\<rparr>"

definition written_at :: "overlay_writer \<Rightarrow> 32 word list \<Rightarrow> written_node option" where
  "written_at w c = map_of (ow_written w) c"

definition build_skeleton :: "bytes \<Rightarrow> bytes \<Rightarrow> 64 word \<Rightarrow> out_point \<Rightarrow> transaction" where
  "build_skeleton carrier_payload prev_script funding_value funding =
     (let data_output = build_data_carrier carrier_payload;
          funded_output = \<lparr>to_value = funding_value, to_locking_script = prev_script\<rparr>;
          input = \<lparr>ti_outpoint = funding, ti_unlocking_script = [], ti_sequence = SEQUENCE_FINAL\<rparr>
      in \<lparr>tx_version = 1, tx_inputs = [input], tx_outputs = [data_output, funded_output], tx_locktime = 0\<rparr>)"

definition sign_input ::
  "('p, 'k, 'v, 's) crypto \<Rightarrow> bytes \<Rightarrow> 64 word \<Rightarrow> bytes \<Rightarrow> bytes \<Rightarrow> transaction \<Rightarrow> overlay_error + transaction" where
  "sign_input cr prev_script v writing_priv writing_pub tx =
     rbind (map_err OvBsv (sighash (cr_sha cr) tx 0 prev_script v SIGHASH_FLAG)) (\<lambda>digest.
     rbind (map_err OvCkd (sign_prehash_der (cr_dsa cr) writing_priv (internal digest))) (\<lambda>signature.
     let unlock = push_data (push_data [] (signature @ [SIGHASH_FLAG])) writing_pub in
     Inr (case tx_inputs tx of
        [] \<Rightarrow> tx
      | input # rest \<Rightarrow> tx\<lparr>tx_inputs := input\<lparr>ti_unlocking_script := unlock\<rparr> # rest\<rparr>)))"

definition prepare_payload ::
  "('p, 'k, 'v, 's) crypto \<Rightarrow> overlay_keys \<Rightarrow> pos \<Rightarrow> bytes \<Rightarrow> writing_options \<Rightarrow>
   (nat, overlay_error, bytes \<times> ciphertext option) op" where
  "prepare_payload cr keys p payload options =
     (if wo_obfuscate options then
        op_bind (op_lift (ov_second_key (cr_hmac cr) (cr_scalars cr) (cr_curve cr) keys p)) (\<lambda>second.
        op_bind (obfuscate (cr_rand cr) (cr_hkdf cr) (cr_gcm cr) second payload) (\<lambda>c.
        op_return (ct_nonce c @ ct_bytes c, Some c)))
      else op_return (payload, None))"

definition write_new ::
  "('p, 'k, 'v, 's) crypto \<Rightarrow> node_client \<Rightarrow> overlay_keys \<Rightarrow> pos \<Rightarrow> bytes \<Rightarrow> writing_options \<Rightarrow> out_point \<Rightarrow>
   (nat, overlay_error, written_node) op" where
  "write_new cr node keys p payload options funding =
     op_bind (op_lift (ov_writing_key (cr_hmac cr) (cr_scalars cr) (cr_curve cr) keys p)) (\<lambda>writing.
     op_bind (op_lift (if length (xp_private_key writing) = 32 then Inr (xp_private_key writing) else Inl (OvCkd BadKey))) (\<lambda>writing_priv.
     op_bind (op_lift (map_err OvCkd (xpriv_public_key_compressed (cr_curve cr) writing))) (\<lambda>writing_pub.
     let prev_script = p2pkh (hash160 (cr_sha cr) (cr_rip cr) writing_pub) in
     op_bind (prepare_payload cr keys p payload options) (\<lambda>(carrier_payload, obfuscation).
     op_bind (op_lift (sign_input cr prev_script (wo_funding_value options) writing_priv writing_pub
        (build_skeleton carrier_payload prev_script (wo_funding_value options) funding))) (\<lambda>tx.
     op_bind (op_lift (map_err OvBsv (tx_serialize tx))) (\<lambda>raw.
     op_bind (op_lift (map_err OvNode (submit_tx node raw))) (\<lambda>t.
     op_return \<lparr>wn_position = coords p, wn_txid_display = txid_to_display_hex t, wn_transaction = tx,
       wn_obfuscation = obfuscation, wn_writing_public_key = writing_pub\<rparr>)))))))"

definition write_node ::
  "('p, 'k, 'v, 's) crypto \<Rightarrow> node_client \<Rightarrow> pos \<Rightarrow> bytes \<Rightarrow> writing_options \<Rightarrow> out_point \<Rightarrow> written_node writer_op" where
  "write_node cr node p payload options funding = (\<lambda>(w, i).
     case map_of (ow_written w) (coords p) of
       Some existing \<Rightarrow> (Inr existing, (w, i))
     | None \<Rightarrow>
         (case write_new cr node (ow_keys w) p payload options funding i of
            (Inl e, j) \<Rightarrow> (Inl e, (w, j))
          | (Inr n, j) \<Rightarrow> (Inr n, (w\<lparr>ow_written := AList.update (coords p) n (ow_written w)\<rparr>, j))))"

definition verify_authorisation :: "('p, 'k, 'v, 's) crypto \<Rightarrow> written_node \<Rightarrow> 64 word \<Rightarrow> overlay_error + bool" where
  "verify_authorisation cr n funding_value =
     (let prev_script = p2pkh (hash160 (cr_sha cr) (cr_rip cr) (wn_writing_public_key n)) in
      rbind (map_err OvBsv (sighash (cr_sha cr) (wn_transaction n) 0 prev_script funding_value SIGHASH_FLAG)) (\<lambda>digest.
      rbind (ok_or (get_at (tx_inputs (wn_transaction n)) 0) UnknownPosition) (\<lambda>input.
      rbind (map_err OvBsv (parse_script (ti_unlocking_script input))) (\<lambda>ops.
      case ops of
        [Push sig_with_flag, Push public_key] \<Rightarrow>
          rbind (ok_or (checked_sub (length sig_with_flag) 1) UnknownPosition) (\<lambda>der_len.
          rbind (ok_or (get_range sig_with_flag 0 der_len) UnknownPosition) (\<lambda>signature_der.
          Inr (verify_der_prehash (cr_dsa cr) public_key (internal digest) signature_der)))
      | _ \<Rightarrow> Inr False))))"

definition funding_output :: "('p, 'k, 'v, 's) crypto \<Rightarrow> xpriv \<Rightarrow> 64 word \<Rightarrow> overlay_error + tx_out" where
  "funding_output cr funding_key v =
     rbind (map_err OvCkd (xpriv_public_key_compressed (cr_curve cr) funding_key)) (\<lambda>pk.
     Inr \<lparr>to_value = v, to_locking_script = p2pkh (hash160 (cr_sha cr) (cr_rip cr) pk)\<rparr>)"

section \<open>What a write does\<close>

definition keys_agree :: "('p, 'k, 'v, 's) crypto \<Rightarrow> bool" where
  "keys_agree cr \<longleftrightarrow> (\<forall>x pub. length (xp_private_key x) = 32 \<longrightarrow> xpriv_public_key_compressed (cr_curve cr) x = Inr pub
     \<longrightarrow> key_pair (cr_dsa cr) (xp_private_key x) pub)"

lemma sign_input_unlocks:
  assumes "sign_input cr prev v priv pub tx = Inr t" "tx_inputs tx \<noteq> []"
  obtains digest der where "sighash (cr_sha cr) tx 0 prev v SIGHASH_FLAG = Inr digest"
    "sign_prehash_der (cr_dsa cr) priv (internal digest) = Inr der"
    "t = unlocked 0 (push_data (push_data [] (der @ [SIGHASH_FLAG])) pub) tx"
  using assms by (cases "tx_inputs tx") (auto simp: sign_input_def rbind_eq_Inr Let_def unlocked_def)

lemma write_new_parts:
  assumes "write_new cr node keys p payload options funding i = (Inr n, j)"
  obtains writing pub carrier obf where
    "ov_writing_key (cr_hmac cr) (cr_scalars cr) (cr_curve cr) keys p = Inr writing" "length (xp_private_key writing) = 32"
    "xpriv_public_key_compressed (cr_curve cr) writing = Inr pub"
    "prepare_payload cr keys p payload options i = (Inr (carrier, obf), j)"
    "sign_input cr (p2pkh (hash160 (cr_sha cr) (cr_rip cr) pub)) (wo_funding_value options) (xp_private_key writing) pub
       (build_skeleton carrier (p2pkh (hash160 (cr_sha cr) (cr_rip cr) pub)) (wo_funding_value options) funding)
       = Inr (wn_transaction n)"
    "wn_position n = coords p" "wn_obfuscation n = obf" "wn_writing_public_key n = pub"
  using assms
  by (auto simp: write_new_def Let_def op_lift_def op_return_def elim!: op_bind_okE split: prod.splits if_splits)

lemma prepare_payload_ok:
  assumes "gcm_law (cr_gcm cr)" "prepare_payload cr keys p payload options i = (Inr (carrier, obf), j)"
  shows "(\<not> wo_obfuscate options \<and> carrier = payload \<and> obf = None) \<or>
    (wo_obfuscate options \<and> (\<exists>c second. obf = Some c \<and> carrier = ct_nonce c @ ct_bytes c
       \<and> ov_second_key (cr_hmac cr) (cr_scalars cr) (cr_curve cr) keys p = Inr second
       \<and> deobfuscate (cr_hkdf cr) (cr_gcm cr) second c = Inr payload))"
proof (cases "wo_obfuscate options")
  case True
  with assms(2) obtain second c key where c: "ov_second_key (cr_hmac cr) (cr_scalars cr) (cr_curve cr) keys p = Inr second"
    "obf = Some c" "carrier = ct_nonce c @ ct_bytes c" "obfuscation_key (cr_hkdf cr) second = Inr key"
    "seal (cr_gcm cr) key (ct_nonce c) payload OBFUSCATION_AAD = Inr (ct_bytes c)"
    by (auto simp: prepare_payload_def obfuscate_def op_lift_def op_return_def elim!: op_bind_okE)
  then have "deobfuscate (cr_hkdf cr) (cr_gcm cr) second c = Inr payload"
    using seal_open [OF assms(1)] by (simp add: deobfuscate_def)
  with True c show ?thesis by blast
next
  case False
  with assms(2) show ?thesis by (simp add: prepare_payload_def op_return_def)
qed

lemma verify_authorisation_unlocked:
  assumes "wn_transaction n = unlocked 0 (push_data (push_data [] (der @ [flag])) pub) tx" "tx_inputs tx \<noteq> []"
    and "sighash (cr_sha cr) tx 0 (p2pkh (hash160 (cr_sha cr) (cr_rip cr) (wn_writing_public_key n))) v SIGHASH_FLAG = Inr d"
    and "length der < 255" "length pub = 33"
  shows "verify_authorisation cr n v = Inr (verify_der_prehash (cr_dsa cr) pub (internal d) der)"
proof -
  have q: "pub \<noteq> []" using assms(5) by auto
  have "sighash (cr_sha cr) (wn_transaction n) 0 (p2pkh (hash160 (cr_sha cr) (cr_rip cr) (wn_writing_public_key n))) v SIGHASH_FLAG = Inr d"
    unfolding assms(1) by (simp add: same_unsigned_sighash [OF same_unsigned_unlocked] assms(3))
  moreover have "get_at (tx_inputs (wn_transaction n)) 0 =
      Some ((tx_inputs tx ! 0)\<lparr>ti_unlocking_script := push_data (push_data [] (der @ [flag])) pub\<rparr>)"
    using assms(2) unfolding assms(1) get_unlocked by (simp add: get_at_def)
  ultimately show ?thesis
    using q assms(4,5) parse_unlock [of "der @ [flag]" pub]
    by (simp add: verify_authorisation_def Let_def checked_sub_def get_range_def)
qed

lemma write_existing:
  "map_of (ow_written w) (coords p) = Some n \<Longrightarrow> write_node cr node p payload options funding (w, i) = (Inr n, (w, i))"
  by (simp add: write_node_def)

text \<open>A receiver of a position needs only the matching seed to derive the key of the node.\<close>

lemma position_signalling:
  "resolve_key hm sc cv (signal_position p) (sd_first s) = ov_writing_key hm sc cv (keys_from_seeds s) p"
  "resolve_key hm sc cv (signal_position p) (sd_second s) = ov_second_key hm sc cv (keys_from_seeds s) p"
  "resolve_key hm sc cv (signal_position p) (sd_third s) = ov_third_key hm sc cv (keys_from_seeds s) p"
  by (simp_all add: resolve_key_def signal_position_def ov_writing_key_def ov_second_key_def ov_third_key_def
      keys_from_seeds_def writing_key_def second_function_key_def third_function_key_def)

text \<open>The check reads the public key from the script and does not compare it with the writing key.\<close>

lemma authorisation_any_key:
  assumes "ecdsa_law (cr_dsa cr)" "key_pair (cr_dsa cr) other_priv other_pub" "tx_inputs tx \<noteq> []"
    and "sighash (cr_sha cr) tx 0 (p2pkh (hash160 (cr_sha cr) (cr_rip cr) writing_pub)) v SIGHASH_FLAG = Inr d"
    and "sign_prehash_der (cr_dsa cr) other_priv (internal d) = Inr der"
    and "wn_transaction n = unlocked 0 (push_data (push_data [] (der @ [SIGHASH_FLAG])) other_pub) tx"
    and "wn_writing_public_key n = writing_pub"
  shows "verify_authorisation cr n v = Inr True"
proof -
  from assms(2) obtain k where k: "verifying_key (cr_dsa cr) other_priv = Inr (vk_of (cr_dsa cr) k)"
    "vk_from_sec1 (cr_dsa cr) other_pub = Some (vk_of (cr_dsa cr) k)" "length other_pub = 33"
    by (auto simp: key_pair_def verifying_key_def split: option.splits)
  from sign_prehash_verifies [OF assms(1,5) k(1,2)] k(3)
  show ?thesis
    using verify_authorisation_unlocked [OF assms(6,3) assms(4) [folded assms(7)]] by simp
qed

section \<open>An example\<close>

definition toy_crypto :: "(byte, byte, byte, byte \<times> bool) crypto" where
  "toy_crypto = \<lparr>cr_sha = len_digest, cr_rip = ex_rip, cr_hmac = toy_hmac, cr_hkdf = toy_hkdf, cr_gcm = toy_gcm,
     cr_rand = toy_rand, cr_scalars = toy_scalars, cr_curve = toy_group, cr_dsa = toy_dsa\<rparr>"

definition ex_writer :: overlay_writer where
  "ex_writer = writer_new (keys_from_seeds (seeds_from_parts (replicate 16 9) (replicate 16 9) (replicate 16 9)))"

definition ex_options :: writing_options where
  "ex_options = \<lparr>wo_obfuscate = True, wo_funding_value = 700\<rparr>"

lemma le_to_nat_head: "le_to_nat (b # bs) < 256 \<Longrightarrow> le_to_nat (b # bs) = unat b"
  using byte_unat_less [of b] by (cases "le_to_nat bs") auto

lemma toy_keys_agree: "keys_agree toy_crypto"
proof -
  have "key_pair toy_dsa (xp_private_key x) pub"
    if len: "length (xp_private_key x) = 32" and pub: "xpriv_public_key_compressed toy_group x = Inr pub" for x pub
  proof -
    let ?a = "be_to_nat (xp_private_key x)"
    have a: "0 < ?a" "?a < 256" and e: "encode_point toy_group (word_of_nat ?a) = Inr pub"
      using pub by (auto simp: xpriv_public_key_compressed_def toy_group_def split: if_splits)
    then have p: "pub = replicate 32 0 @ [word_of_nat ?a]" by (auto simp: encode_point_def toy_group_def split: if_splits)
    obtain b bs where b: "rev (xp_private_key x) = b # bs" using len by (cases "rev (xp_private_key x)") auto
    then have "?a = unat b" using le_to_nat_head [of b bs] a(2) by (simp add: be_to_nat_def)
    moreover have "last (xp_private_key x) = b" using b by (metis last_rev list.sel(1) rev_rev_ident)
    ultimately show ?thesis using len p by (simp add: key_pair_def toy_dsa_def)
  qed
  then show ?thesis by (auto simp: keys_agree_def toy_crypto_def)
qed

definition ex_master :: xpriv where
  "ex_master = \<lparr>xp_private_key = replicate 31 0 @ [1], xp_chain_code = replicate 32 0, xp_depth = 0, xp_child_number = 0\<rparr>"

lemma ex_keys_at_root:
  "ov_writing_key toy_hmac toy_scalars toy_group (ow_keys ex_writer) (Position []) = Inr ex_master"
  "ov_second_key toy_hmac toy_scalars toy_group (ow_keys ex_writer) (Position []) = Inr ex_master"
  "xpriv_public_key_compressed toy_group ex_master = Inr (replicate 32 0 @ [1])"
proof -
  have "be_to_nat (replicate 31 0 @ [1]) = 1" by (simp add: be_to_nat_def le_to_nat_zero list_all_iff)
  then show "xpriv_public_key_compressed toy_group ex_master = Inr (replicate 32 0 @ [1])"
    by (simp add: xpriv_public_key_compressed_def ex_master_def toy_group_def encode_point_def)
  show "ov_writing_key toy_hmac toy_scalars toy_group (ow_keys ex_writer) (Position []) = Inr ex_master"
    "ov_second_key toy_hmac toy_scalars toy_group (ow_keys ex_writer) (Position []) = Inr ex_master"
    by (simp_all add: ov_writing_key_def ov_second_key_def writing_key_def second_function_key_def ex_writer_def writer_new_def
        keys_from_seeds_def seeds_from_parts_def toy_master hardened_path_def ex_master_def)
qed

lemma ex_payload:
  "\<exists>carrier c. prepare_payload toy_crypto (ow_keys ex_writer) (Position []) [5, 6] ex_options 0 = (Inr (carrier, Some c), 1)
     \<and> length carrier = 80"
  by (simp add: prepare_payload_def ex_options_def toy_crypto_def ex_keys_at_root obfuscate_def obfuscation_key_def
      toy_hkdf_def op_bind_def op_lift_def op_return_def toy_rand_def toy_seal ex_master_def NONCE_LEN_def OBFUSCATION_AAD_def)

lemma ex_skeleton_wf:
  assumes "length carrier = 80" "length u < 100"
  shows "wf_tx (unlocked 0 u (build_skeleton carrier (p2pkh (hash160 len_digest ex_rip q)) 700 (ex_point 3)))
    \<and> length (enc_tx (unlocked 0 u (build_skeleton carrier (p2pkh (hash160 len_digest ex_rip q)) 700 (ex_point 3)))) < usize_bound"
  using assms
  by (simp add: build_skeleton_def unlocked_def ex_point_def wf_tx_def wf_in_def wf_out_def Let_def
      MAX_IO_def build_data_carrier_def p2pkh_def push_data_def try_u8_def hash160_def
      ex_rip_def enc_tx_def enc_vec_def enc_in_def enc_out_def usize_bound_def length_varint_enc unat_of_nat
      zero_hash_def from_internal_def wf_hash_def)

lemma ex_sign:
  assumes "length carrier = 80"
  shows "\<exists>tx. sign_input toy_crypto (p2pkh (hash160 len_digest ex_rip q)) 700 (xp_private_key ex_master) (replicate 32 0 @ [1])
      (build_skeleton carrier (p2pkh (hash160 len_digest ex_rip q)) 700 (ex_point 3)) = Inr tx \<and> wf_tx tx"
proof -
  let ?prev = "p2pkh (hash160 len_digest ex_rip q)"
  let ?tx = "build_skeleton carrier ?prev 700 (ex_point 3)"
  have "?tx = unlocked 0 [] ?tx" by (simp add: build_skeleton_def unlocked_def)
  then have "wf_tx ?tx" "length (enc_tx ?tx) < usize_bound" using ex_skeleton_wf [OF assms, of "[]" q] by simp_all
  then have "sighash_ok ?tx 0 ?prev SIGHASH_FLAG"
    using length_p2pkh [OF ex_rip_len] by (simp add: sighash_ok_def sighash_error_def) (simp add: build_skeleton_def Let_def)
  from sighash_ok_run [OF digest_len_digest this, of 700] obtain d where
    d: "sighash len_digest ?tx 0 ?prev 700 SIGHASH_FLAG = Inr d" by blast
  have der: "sign_prehash_der toy_dsa (xp_private_key ex_master) (internal d) = Inr [1, 0]"
    by (simp add: sign_prehash_der_def toy_dsa_def ex_master_def)
  have "sign_input toy_crypto ?prev 700 (xp_private_key ex_master) (replicate 32 0 @ [1]) ?tx
      = Inr (unlocked 0 (push_data (push_data [] [1, 0, SIGHASH_FLAG]) (replicate 32 0 @ [1])) ?tx)"
    by (simp add: sign_input_def toy_crypto_def d der Let_def unlocked_def) (simp add: build_skeleton_def Let_def)
  moreover have "length (push_data (push_data [] [1, 0, SIGHASH_FLAG]) (replicate 32 0 @ [1])) < 100"
    by (simp add: push_data_def Let_def)
  ultimately show ?thesis using ex_skeleton_wf [OF assms] by blast
qed

lemma ex_write:
  "\<exists>n w. write_node toy_crypto (offline_node len_digest offline_new) (Position []) [5, 6] ex_options (ex_point 3) (ex_writer, 0)
     = (Inr n, (w, 1))"
proof -
  obtain carrier c where c: "prepare_payload toy_crypto (ow_keys ex_writer) (Position []) [5, 6] ex_options 0 = (Inr (carrier, Some c), 1)"
    "length carrier = 80" using ex_payload by blast
  obtain tx where tx: "sign_input toy_crypto (p2pkh (hash160 len_digest ex_rip (replicate 32 0 @ [1]))) 700 (xp_private_key ex_master)
      (replicate 32 0 @ [1]) (build_skeleton carrier (p2pkh (hash160 len_digest ex_rip (replicate 32 0 @ [1]))) 700 (ex_point 3)) = Inr tx"
    "wf_tx tx" using ex_sign [OF c(2)] by blast
  have k: "cr_sha toy_crypto = len_digest" "cr_rip toy_crypto = ex_rip" "cr_hmac toy_crypto = toy_hmac"
    "cr_scalars toy_crypto = toy_scalars" "cr_curve toy_crypto = toy_group" "wo_funding_value ex_options = 700"
    "length (xp_private_key ex_master) = 32" by (simp_all add: toy_crypto_def ex_options_def ex_master_def)
  have "ow_written ex_writer = []" by (simp add: ex_writer_def writer_new_def)
  moreover have "submit_tx (offline_node len_digest offline_new) raw = Inr (txid_from_hash (double_sha256 len_digest raw))" for raw
    by (simp add: offline_node_def)
  ultimately show ?thesis
    by (simp add: write_node_def write_new_def k ex_keys_at_root c tx tx_serialize_enc op_bind_def op_lift_def op_return_def Let_def)
qed

section \<open>Properties\<close>

text \<open>
  C15 [written_node_authorised] A node that is newly written is authorised by its own writing key: the
  authorisation check on the returned node accepts, the node is recorded under its position, and its
  first output is a data carrier for the payload, or for a ciphertext that the second-function key of
  the position opens to the payload.
\<close>

theorem written_node_authorised:
  assumes "ecdsa_law (cr_dsa cr)" and "gcm_law (cr_gcm cr)" and "keys_agree cr"
    and "written_at w (coords p) = None" and "write_node cr node p payload options funding (w, i) = (Inr n, (w', j))"
  shows "verify_authorisation cr n (wo_funding_value options) = Inr True \<and> written_at w' (coords p) = Some n
    \<and> (\<exists>carrier. get_at (tx_outputs (wn_transaction n)) 0 = Some (build_data_carrier carrier)
        \<and> (length carrier < 2 ^ 32 \<longrightarrow> parse_data_carrier (to_locking_script (build_data_carrier carrier)) = Inr carrier)
        \<and> (if wo_obfuscate options
           then \<exists>c second. wn_obfuscation n = Some c \<and> carrier = ct_nonce c @ ct_bytes c
              \<and> ov_second_key (cr_hmac cr) (cr_scalars cr) (cr_curve cr) (ow_keys w) p = Inr second
              \<and> deobfuscate (cr_hkdf cr) (cr_gcm cr) second c = Inr payload
           else carrier = payload))"
proof -
  have new: "write_new cr node (ow_keys w) p payload options funding i = (Inr n, j)"
    and w': "w' = w\<lparr>ow_written := AList.update (coords p) n (ow_written w)\<rparr>"
    using assms(4,5) by (auto simp: write_node_def written_at_def split: sum.splits prod.splits)
  obtain writing pub carrier obf where
    x: "length (xp_private_key writing) = 32" "xpriv_public_key_compressed (cr_curve cr) writing = Inr pub"
    and pay: "prepare_payload cr (ow_keys w) p payload options i = (Inr (carrier, obf), j)"
    and sg: "sign_input cr (p2pkh (hash160 (cr_sha cr) (cr_rip cr) pub)) (wo_funding_value options) (xp_private_key writing) pub
       (build_skeleton carrier (p2pkh (hash160 (cr_sha cr) (cr_rip cr) pub)) (wo_funding_value options) funding)
       = Inr (wn_transaction n)"
    and n: "wn_obfuscation n = obf" "wn_writing_public_key n = pub"
    by (rule write_new_parts [OF new])
  let ?tx = "build_skeleton carrier (p2pkh (hash160 (cr_sha cr) (cr_rip cr) pub)) (wo_funding_value options) funding"
  have ne: "tx_inputs ?tx \<noteq> []" by (simp add: build_skeleton_def Let_def)
  from sign_input_unlocks [OF sg ne] obtain d der where
    d: "sighash (cr_sha cr) ?tx 0 (p2pkh (hash160 (cr_sha cr) (cr_rip cr) pub)) (wo_funding_value options) SIGHASH_FLAG = Inr d"
    and der: "sign_prehash_der (cr_dsa cr) (xp_private_key writing) (internal d) = Inr der"
    and tx: "wn_transaction n = unlocked 0 (push_data (push_data [] (der @ [SIGHASH_FLAG])) pub) ?tx" .
  have "key_pair (cr_dsa cr) (xp_private_key writing) pub" using assms(3) x by (simp add: keys_agree_def)
  from authorisation_any_key [OF assms(1) this ne d der tx n(2)]
  have "verify_authorisation cr n (wo_funding_value options) = Inr True" .
  moreover have "get_at (tx_outputs (wn_transaction n)) 0 = Some (build_data_carrier carrier)"
    by (simp add: tx unlocked_def build_skeleton_def get_at_def Let_def)
  moreover have "written_at w' (coords p) = Some n" by (simp add: w' written_at_def update_conv')
  ultimately show ?thesis
    using prepare_payload_ok [OF assms(2) pay] data_carrier_inverse [of carrier] n(1) by (intro conjI exI [of _ carrier]) auto
qed

theorem written_node_authorised_witness:
  "\<exists>n w. write_node toy_crypto (offline_node len_digest offline_new) (Position []) [5, 6] ex_options (ex_point 3) (ex_writer, 0)
       = (Inr n, (w, 1)) \<and> verify_authorisation toy_crypto n 700 = Inr True \<and> written_at w [] = Some n"
proof -
  obtain n w where r: "write_node toy_crypto (offline_node len_digest offline_new) (Position []) [5, 6] ex_options (ex_point 3)
      (ex_writer, 0) = (Inr n, (w, 1))" using ex_write by blast
  have "ecdsa_law (cr_dsa toy_crypto)" "gcm_law (cr_gcm toy_crypto)" "written_at ex_writer (coords (Position [])) = None"
    using toy_dsa_law toy_gcm_law by (simp_all add: toy_crypto_def written_at_def ex_writer_def writer_new_def)
  from written_node_authorised [OF this(1,2) toy_keys_agree this(3) r] r show ?thesis
    by (auto simp: ex_options_def)
qed

text \<open>
  C29 [writing_idempotent] Writing is idempotent on the position: after a successful write, every
  further write at the position, with whatever payload, options, funding and node, returns the same
  node and changes nothing. No write changes what is recorded elsewhere, and a failed one records
  nothing.
\<close>

theorem writing_idempotent:
  assumes "write_node cr node p payload options funding (w, i) = (r, (w', j))"
  shows "(\<forall>n. r = Inr n \<longrightarrow> write_node cr node' p payload' options' funding' (w', k) = (Inr n, (w', k)))
    \<and> (\<forall>e. r = Inl e \<longrightarrow> w' = w) \<and> (\<forall>c. c \<noteq> coords p \<longrightarrow> written_at w' c = written_at w c)
    \<and> (\<forall>c n. written_at w c = Some n \<longrightarrow> written_at w' c = Some n)"
proof (cases "map_of (ow_written w) (coords p)")
  case (Some n)
  with assms have "r = Inr n" "w' = w" by (simp_all add: write_existing)
  with Some show ?thesis by (simp add: write_existing)
next
  case None
  obtain s j' where new: "write_new cr node (ow_keys w) p payload options funding i = (s, j')" by fastforce
  show ?thesis
  proof (cases s)
    case (Inl e)
    with None new assms have "r = Inl e" "w' = w" by (simp_all add: write_node_def)
    then show ?thesis by simp
  next
    case (Inr n)
    with None new assms have r: "r = Inr n" "w' = w\<lparr>ow_written := AList.update (coords p) n (ow_written w)\<rparr>"
      by (simp_all add: write_node_def)
    then have "map_of (ow_written w') = (map_of (ow_written w))(coords p \<mapsto> n)" by (simp add: update_conv')
    with None r(1) show ?thesis by (simp add: written_at_def write_existing)
  qed
qed

theorem writing_idempotent_witness:
  "\<exists>n w. write_node toy_crypto (offline_node len_digest offline_new) (Position []) [5, 6] ex_options (ex_point 3) (ex_writer, 0)
       = (Inr n, (w, 1))
     \<and> write_node toy_crypto (offline_node len_digest offline_new) (Position []) [7] ex_options (ex_point 4) (w, 1) = (Inr n, (w, 1))"
proof -
  obtain n w where r: "write_node toy_crypto (offline_node len_digest offline_new) (Position []) [5, 6] ex_options (ex_point 3)
      (ex_writer, 0) = (Inr n, (w, 1))" using ex_write by blast
  from writing_idempotent [OF r, THEN conjunct1, THEN spec, THEN mp, OF refl]
  have "write_node toy_crypto (offline_node len_digest offline_new) (Position []) [7] ex_options (ex_point 4) (w, 1) = (Inr n, (w, 1))" .
  with r show ?thesis by (intro exI conjI)
qed

end
