(* ===== verification/Gf256.thy ===== *)
theory Gf256
  imports Prelude
begin

unbundle bit_operations_syntax

text \<open>
  The arithmetic of \<^verbatim>\<open>crates/kst/src/shamir256.rs\<close> on bytes, with the AES polynomial 0x11b, and the proof
  that it is the field with 256 elements. The multiplication of the code is linear over exclusive
  or in both arguments, so its laws follow from the eight basis elements; 3 generates the
  multiplicative group, so \<open>gf_inv\<close>, the power 254, inverts every nonzero byte. The type \<open>gf256\<close> of
  the bytes with these operations is an instance of the class of fields, which makes the theory
  \<open>Interpolation\<close> available for the scheme.
\<close>

section \<open>The operations of the code\<close>

definition xtime :: "byte \<Rightarrow> byte" where
  "xtime a = (let high = a AND 0x80; a = push_bit 1 a in if high \<noteq> 0 then a XOR 0x1b else a)"

fun gf_mul_loop :: "nat \<Rightarrow> byte \<Rightarrow> byte \<Rightarrow> byte \<Rightarrow> byte" where
  "gf_mul_loop 0 a b product = product"
| "gf_mul_loop (Suc n) a b product =
     (let product = (if b AND 1 \<noteq> 0 then product XOR a else product);
          a = xtime a;
          b = drop_bit 1 b
      in gf_mul_loop n a b product)"

definition gf_mul :: "byte \<Rightarrow> byte \<Rightarrow> byte" where
  "gf_mul a b = gf_mul_loop 8 a b 0"

function gf_pow_loop :: "byte \<Rightarrow> byte \<Rightarrow> byte \<Rightarrow> byte" where
  "gf_pow_loop result base e =
     (if e > 0 then
        gf_pow_loop (if e AND 1 = 1 then gf_mul result base else result) (gf_mul base base) (drop_bit 1 e)
      else result)"
  by pat_completeness auto
termination
proof (relation "measure (\<lambda>(result, base, e). unat e)")
  fix result base e :: byte
  assume "0 < e"
  then have "0 < unat e" by (simp add: unat_gt_0)
  then show "((if e AND 1 = 1 then gf_mul result base else result, gf_mul base base, drop_bit 1 e), result, base, e)
    \<in> measure (\<lambda>(result, base, e). unat e)"
    by (simp add: drop_bit_eq_div unat_div)
qed simp

definition gf_pow :: "byte \<Rightarrow> byte \<Rightarrow> byte" where
  "gf_pow a exponent = gf_pow_loop 1 a exponent"

definition gf_inv :: "byte \<Rightarrow> byte" where
  "gf_inv a = gf_pow a 254"

definition gf_eval :: "bytes \<Rightarrow> byte \<Rightarrow> byte" where
  "gf_eval coeffs x = foldl (\<lambda>acc c. gf_mul acc x XOR c) 0 (rev coeffs)"

section \<open>Linearity\<close>

lemma byte_eqI: "(\<And>i. i < 8 \<Longrightarrow> bit a i \<longleftrightarrow> bit b i) \<Longrightarrow> a = (b :: byte)"
  by (rule bit_eqI) (auto simp: possible_bit_def)

lemma high_bit: "(a :: byte) AND 0x80 \<noteq> 0 \<longleftrightarrow> bit a 7"
  using and_exp_eq_0_iff_not_bit [of a 7] by simp

lemma xtime_alt: "xtime a = push_bit 1 a XOR (if bit a 7 then 0x1b else 0)"
  using high_bit [of a] by (simp add: xtime_def Let_def)

lemma xtime_xor: "xtime (a XOR b) = xtime a XOR xtime b"
  by (rule byte_eqI) (auto simp: xtime_alt bit_xor_iff bit_push_bit_iff)

lemma xtime_zero [simp]: "xtime 0 = 0"
  by (simp add: xtime_def)

primrec gf_acc :: "nat \<Rightarrow> byte \<Rightarrow> byte \<Rightarrow> byte" where
  "gf_acc 0 a b = 0"
| "gf_acc (Suc n) a b = (if bit b 0 then a else 0) XOR gf_acc n (xtime a) (drop_bit 1 b)"

lemma low_bit: "(b :: byte) AND 1 \<noteq> 0 \<longleftrightarrow> bit b 0"
  using and_exp_eq_0_iff_not_bit [of b 0] by simp

lemma gf_mul_loop_acc: "gf_mul_loop n a b p = p XOR gf_acc n a b"
proof (induction n a b p rule: gf_mul_loop.induct)
  case (2 n a b p)
  show ?case
    using 2 [OF refl refl refl] low_bit [of b] by (simp add: Let_def xor.assoc)
qed simp

lemma gf_mul_acc: "gf_mul a b = gf_acc 8 a b"
  by (simp add: gf_mul_def gf_mul_loop_acc)

lemma gf_acc_xor_left: "gf_acc n (a XOR b) c = gf_acc n a c XOR gf_acc n b c"
  by (induction n arbitrary: a b c) (simp_all add: xtime_xor xor.assoc xor.left_commute)

lemma gf_acc_xor_right: "gf_acc n a (b XOR c) = gf_acc n a b XOR gf_acc n a c"
  by (induction n arbitrary: a b c) (auto simp: bit_xor_iff xor.assoc xor.left_commute)

lemma gf_acc_zero [simp]: "gf_acc n a 0 = 0"
  by (induction n arbitrary: a) simp_all

lemma gf_acc_exp: "i < n \<Longrightarrow> n \<le> 8 \<Longrightarrow> gf_acc n a (2 ^ i) = (xtime ^^ i) a"
proof (induction n arbitrary: i a)
  case (Suc n)
  show ?case
  proof (cases i)
    case (Suc k)
    have "drop_bit 1 (2 ^ Suc k :: byte) = 2 ^ k"
      using Suc.prems Suc by (intro byte_eqI) (auto simp: bit_drop_bit_eq bit_exp_iff possible_bit_def simp del: power_Suc)
    moreover have "\<not> bit (2 ^ Suc k :: byte) 0"
      by (simp add: bit_exp_iff del: power_Suc)
    ultimately show ?thesis
      using Suc Suc.prems Suc.IH [of k "xtime a"] by (simp add: funpow_swap1 del: power_Suc)
  qed (use Suc.prems in simp)
qed simp

lemmas gf_mul_xor_left = gf_acc_xor_left [of 8, folded gf_mul_acc]
lemmas gf_mul_xor_right = gf_acc_xor_right [of 8, folded gf_mul_acc]

lemma gf_mul_exp: "i < 8 \<Longrightarrow> gf_mul a (2 ^ i) = (xtime ^^ i) a"
  by (simp add: gf_mul_acc gf_acc_exp)

text \<open>Two additive functions that agree on the powers of two agree everywhere.\<close>

lemma linear_ext:
  fixes f g :: "byte \<Rightarrow> byte"
  assumes "\<And>a b. f (a XOR b) = f a XOR f b" "\<And>a b. g (a XOR b) = g a XOR g b"
    and "\<And>i. i < 8 \<Longrightarrow> f (2 ^ i) = g (2 ^ i)"
  shows "f a = g a"
proof -
  have zero: "h 0 = 0" if "\<And>a b. h (a XOR b) = h a XOR h b" for h :: "byte \<Rightarrow> byte"
    using that [of 0 0] by simp
  have "n \<le> 8 \<Longrightarrow> f (take_bit n a) = g (take_bit n a)" for n
  proof (induction n)
    case 0
    then show ?case using zero [of f] zero [of g] assms by simp
  next
    case (Suc n)
    have "take_bit (Suc n) a = take_bit n a XOR (if bit a n then 2 ^ n else 0)"
      by (rule byte_eqI) (auto simp: bit_take_bit_iff bit_xor_iff bit_exp_iff possible_bit_def less_Suc_eq)
    then show ?case
      using Suc assms zero [of f] zero [of g] by (simp add: Suc_le_eq)
  qed
  from this [of 8] show ?thesis
    by (simp add: take_bit_word_eq_self)
qed

section \<open>The laws of a commutative ring\<close>

lemma xtime_exp: "j < 7 \<Longrightarrow> xtime (2 ^ j) = 2 ^ Suc j"
  by (simp add: xtime_alt bit_exp_iff mult.commute)

lemma exp_xtime: "i < 8 \<Longrightarrow> (2 ^ i :: byte) = (xtime ^^ i) 1"
  by (induction i) (simp_all add: xtime_exp [symmetric] del: power_Suc)

lemma reduction_check: "list_all (\<lambda>i. gf_mul (2 ^ i) 0x1b = (xtime ^^ 8) (2 ^ i)) [0..<8]"
  by code_simp

lemma gf_mul_reduction: "gf_mul a 0x1b = (xtime ^^ 8) a"
proof (rule linear_ext [of "\<lambda>a. gf_mul a 0x1b"])
  show "(xtime ^^ 8) (a XOR b) = (xtime ^^ 8) a XOR (xtime ^^ 8) b" for a b
    by (simp add: numeral_eq_Suc xtime_xor)
  show "gf_mul (2 ^ i) 0x1b = (xtime ^^ 8) (2 ^ i)" if "i < 8" for i
    using reduction_check that by (simp add: list_all_iff)
qed (rule gf_mul_xor_left)

lemma gf_mul_xtime_left: "gf_mul (xtime a) b = xtime (gf_mul a b)"
  by (rule linear_ext [of "\<lambda>b. gf_mul (xtime a) b"]) (simp_all add: gf_mul_xor_right xtime_xor gf_mul_exp funpow_swap1)

lemma gf_mul_xtime_right: "gf_mul a (xtime b) = xtime (gf_mul a b)"
proof (rule linear_ext [of "\<lambda>b. gf_mul a (xtime b)"])
  fix i :: nat
  assume i: "i < 8"
  show "gf_mul a (xtime (2 ^ i)) = xtime (gf_mul a (2 ^ i))"
  proof (cases "i = 7")
    case True
    have "xtime (2 ^ 7) = 0x1b" by (simp add: xtime_def)
    moreover have "gf_mul a (2 ^ 7) = (xtime ^^ 7) a" by (rule gf_mul_exp) simp
    ultimately show ?thesis
      using True by (simp add: gf_mul_reduction numeral_eq_Suc)
  next
    case False
    with i show ?thesis
      by (simp add: xtime_exp gf_mul_exp del: power_Suc)
  qed
qed (simp_all add: gf_mul_xor_right xtime_xor)

lemma gf_mul_assoc: "gf_mul (gf_mul a b) c = gf_mul a (gf_mul b c)"
proof (rule linear_ext [of "\<lambda>c. gf_mul (gf_mul a b) c"])
  fix i :: nat
  assume i: "i < 8"
  have "gf_mul a ((xtime ^^ i) b) = (xtime ^^ i) (gf_mul a b)"
    by (induction i) (simp_all add: gf_mul_xtime_right)
  with i show "gf_mul (gf_mul a b) (2 ^ i) = gf_mul a (gf_mul b (2 ^ i))"
    by (simp add: gf_mul_exp)
qed (simp_all add: gf_mul_xor_right)

lemma gf_mul_one_right: "gf_mul a 1 = a"
  using gf_mul_exp [of 0 a] by simp

lemma gf_mul_comm: "gf_mul a b = gf_mul b a"
proof (rule linear_ext [of "\<lambda>b. gf_mul a b"])
  fix i :: nat
  assume i: "i < 8"
  have "gf_mul (2 ^ i) a = gf_mul ((xtime ^^ i) 1) a"
    using i by (simp add: exp_xtime)
  also have "\<dots> = (xtime ^^ i) (gf_mul 1 a)"
    by (induction i) (simp_all add: gf_mul_xtime_left)
  also have "gf_mul 1 a = a"
    by (rule linear_ext [of "\<lambda>a. gf_mul 1 a" "\<lambda>a. a"]) (simp_all add: gf_mul_xor_right gf_mul_exp exp_xtime [symmetric])
  finally show "gf_mul a (2 ^ i) = gf_mul (2 ^ i) a"
    using i by (simp add: gf_mul_exp)
qed (simp_all add: gf_mul_xor_right gf_mul_xor_left)

datatype gf256 = GF (gf_byte: byte)

instantiation gf256 :: comm_ring_1
begin

definition "0 = GF 0"
definition "1 = GF 1"
definition "a + b = GF (gf_byte a XOR gf_byte b)"
definition "a - b = GF (gf_byte a XOR gf_byte b)"
definition "- a = (a :: gf256)"
definition "a * b = GF (gf_mul (gf_byte a) (gf_byte b))"

instance
proof
  fix a b c :: gf256
  show "a * b * c = a * (b * c)" "a * b = b * a" "1 * a = a" "(a + b) * c = a * c + b * c"
    by (simp_all add: times_gf256_def plus_gf256_def one_gf256_def gf_mul_assoc gf_mul_xor_left
        gf_mul_comm [of 1] gf_mul_one_right)
      (rule gf_mul_comm)
  show "a + b + c = a + (b + c)" "a + b = b + a" "0 + a = a" "- a + a = 0" "a - b = a + - b" "(0::gf256) \<noteq> 1"
    by (simp_all add: plus_gf256_def minus_gf256_def uminus_gf256_def zero_gf256_def one_gf256_def
        xor.assoc xor.commute [of _ "gf_byte a"])
qed

end

section \<open>Powers and inverses\<close>

lemma GF_mul: "GF (gf_mul a b) = GF a * GF b"
  by (simp add: times_gf256_def)

lemma GF_xor: "GF (a XOR b) = GF a + GF b"
  by (simp add: plus_gf256_def)

lemma unat_halves: "unat (e :: byte) = 2 * unat (drop_bit 1 e) + (if e AND 1 = 1 then 1 else 0)"
proof -
  have "unat (e AND 1) = unat e mod 2"
    by (simp add: and_one_eq unat_mod)
  moreover have "unat (drop_bit 1 e) = unat e div 2"
    by (simp add: drop_bit_eq_div unat_div)
  moreover have "e AND 1 = 1 \<longleftrightarrow> unat (e AND 1) = 1"
    by (metis unat_1 word_unat_eq_iff)
  ultimately show ?thesis
    by (auto simp: mod2_eq_if)
qed

lemma gf_pow_loop_power: "GF (gf_pow_loop r b e) = GF r * GF b ^ unat e"
proof (induction r b e rule: gf_pow_loop.induct)
  case (1 r b e)
  show ?case
  proof (cases "0 < e")
    case True
    let ?r = "if e AND 1 = 1 then gf_mul r b else r"
    have "GF (gf_pow_loop r b e) = GF (gf_pow_loop ?r (gf_mul b b) (drop_bit 1 e))"
      using True by (subst gf_pow_loop.simps) simp
    also have "\<dots> = GF ?r * (GF b * GF b) ^ unat (drop_bit 1 e)"
      using 1 [OF True] by (simp add: GF_mul)
    also have "\<dots> = GF r * GF b ^ (2 * unat (drop_bit 1 e) + (if e AND 1 = 1 then 1 else 0))"
      by (simp add: GF_mul power_mult power2_eq_square power_add ac_simps)
    also have "\<dots> = GF r * GF b ^ unat e"
      using unat_halves [of e] by simp
    finally show ?thesis .
  next
    case False
    then show ?thesis by (subst gf_pow_loop.simps) (simp add: word_gt_0)
  qed
qed

lemma gf_pow_power: "GF (gf_pow a e) = GF a ^ unat e"
  using gf_pow_loop_power [of 1 a e] by (simp add: gf_pow_def one_gf256_def [symmetric])

definition gf_generator :: gf256 where
  "gf_generator = GF 3"

lemma generator_powers:
  "gf_pow 3 255 = 1" "gf_pow 3 85 \<noteq> 1" "gf_pow 3 51 \<noteq> 1" "gf_pow 3 15 \<noteq> 1"
  by code_simp+

lemma generator_order:
  "gf_generator ^ 255 = 1" "gf_generator ^ 85 \<noteq> 1" "gf_generator ^ 51 \<noteq> 1" "gf_generator ^ 15 \<noteq> 1"
proof -
  have "gf_generator ^ unat e = 1 \<longleftrightarrow> gf_pow 3 e = 1" for e
    by (simp add: gf_generator_def gf_pow_power [symmetric] one_gf256_def)
  from this [of 255] this [of 85] this [of 51] this [of 15] generator_powers
  show "gf_generator ^ 255 = 1" "gf_generator ^ 85 \<noteq> 1" "gf_generator ^ 51 \<noteq> 1" "gf_generator ^ 15 \<noteq> 1"
    by simp_all
qed

lemma divisors_255:
  fixes k :: nat
  assumes "k dvd 255" "k \<noteq> 255"
  shows "k dvd 85 \<or> k dvd 51 \<or> k dvd 15"
proof -
  have "list_all (\<lambda>k. k dvd 255 \<longrightarrow> k = 255 \<or> k dvd 85 \<or> k dvd 51 \<or> k dvd 15) [0..<256]"
    by code_simp
  moreover have "k < 256" using assms(1) by (auto dest: dvd_imp_le)
  ultimately show ?thesis using assms by (auto simp: list_all_iff)
qed

lemma generator_inj: "inj_on (\<lambda>k. gf_generator ^ k) {..<255}"
proof (rule linorder_inj_onI)
  fix i j :: nat
  assume ij: "i < j" "i \<in> {..<255}" "j \<in> {..<255}"
  show "gf_generator ^ i \<noteq> gf_generator ^ j"
  proof
    let ?g = gf_generator
    assume eq: "?g ^ i = ?g ^ j"
    define d where "d = j - i"
    have "?g ^ d = ?g ^ (255 - i) * ?g ^ j"
      using ij generator_order(1) unfolding d_def
      by (metis add.commute le_add_diff_inverse less_imp_le lessThan_iff mult.right_neutral power_add
          add_diff_assoc2 mult.commute Nat.add_diff_assoc)
    also have "\<dots> = ?g ^ (255 - i) * ?g ^ i" by (simp add: eq)
    also have "\<dots> = 1"
      using ij generator_order(1) by (simp add: power_add [symmetric])
    finally have d: "?g ^ d = 1" .
    have "d \<noteq> 0" "d < 255" using ij by (auto simp: d_def)
    then obtain x y where "d * x = 255 * y + gcd d 255"
      using bezout_nat by blast
    then have "(?g ^ d) ^ x = (?g ^ 255) ^ y * ?g ^ gcd d 255"
      by (metis power_add power_mult)
    then have one: "?g ^ gcd d 255 = 1"
      using d generator_order(1) by simp
    have "gcd d 255 dvd 255" "gcd d 255 \<noteq> 255"
      using gcd_le1_nat [OF \<open>d \<noteq> 0\<close>, of 255] \<open>d < 255\<close> by simp_all
    then obtain e where "e \<in> {85, 51, 15}" "gcd d 255 dvd e"
      using divisors_255 by blast
    with one have "?g ^ e = 1"
      by (metis dvdE power_mult power_one)
    with \<open>e \<in> {85, 51, 15}\<close> generator_order show False by auto
  qed
qed auto

lemma gf256_finite: "finite (UNIV :: gf256 set)" and gf256_card: "card (UNIV :: gf256 set) = 256"
proof -
  have "range GF = UNIV" by (metis gf256.collapse surjI)
  moreover have "inj GF" by (rule injI) simp
  ultimately show "finite (UNIV :: gf256 set)" "card (UNIV :: gf256 set) = 256"
    using card_image [of GF UNIV] finite_imageI [of UNIV GF] by (simp_all add: card_word)
qed

lemma generator_surj:
  assumes "a \<noteq> 0"
  obtains k where "a = gf_generator ^ k"
proof -
  let ?P = "(\<lambda>k. gf_generator ^ k) ` {..<255}"
  have "gf_generator ^ k \<noteq> 0" if "k < 255" for k
  proof
    assume "gf_generator ^ k = 0"
    then have "gf_generator ^ (k + (255 - k)) = 0" by (simp only: power_add mult_zero_left)
    then show False using that generator_order(1) by simp
  qed
  then have "?P \<subseteq> UNIV - {0}" by auto
  moreover have "card ?P = 255"
    using card_image [OF generator_inj] by simp
  moreover have "card (UNIV - {0 :: gf256}) = 255"
    using gf256_card gf256_finite by (simp add: card_Diff_singleton)
  ultimately have "?P = UNIV - {0}"
    using gf256_finite by (intro card_subset_eq) (auto intro: finite_subset)
  with assms that show thesis by blast
qed

lemma gf256_inverse: "a \<noteq> 0 \<Longrightarrow> a * GF (gf_inv (gf_byte a)) = (1 :: gf256)"
proof -
  assume "a \<noteq> 0"
  then obtain k where k: "a = gf_generator ^ k" by (rule generator_surj)
  have "a * GF (gf_inv (gf_byte a)) = a * a ^ 254"
    by (simp add: gf_inv_def gf_pow_power)
  also have "\<dots> = a ^ Suc 254" by (simp only: power_Suc)
  also have "\<dots> = (gf_generator ^ 255) ^ k"
    unfolding k by (simp add: power_mult [symmetric] mult.commute del: power_Suc)
  finally show ?thesis by (simp add: generator_order)
qed

instantiation gf256 :: field
begin

definition "inverse a = GF (gf_inv (gf_byte a))"
definition "a div b = a * inverse (b :: gf256)"

instance
proof
  fix a b :: gf256
  show "a \<noteq> 0 \<Longrightarrow> inverse a * a = 1"
    using gf256_inverse [of a] by (simp add: inverse_gf256_def mult.commute)
  show "a div b = a * inverse b"
    by (rule divide_gf256_def)
  show "inverse (0 :: gf256) = 0"
    by (simp add: inverse_gf256_def gf_inv_def gf_pow_power zero_gf256_def [symmetric])
qed

end

lemma GF_inv: "GF (gf_inv a) = inverse (GF a)"
  by (simp add: inverse_gf256_def)

end
