(* ===== verification/SeedBackup.thy ===== *)
theory SeedBackup
  imports Gf256 Interpolation Cipher
begin

unbundle bit_operations_syntax

text \<open>
  Splitting a seed into shares, \<^verbatim>\<open>crates/kst/src/shamir256.rs\<close>: one polynomial over \<open>GF(2^8)\<close> for every
  byte of the seed, evaluated at the indices of the shares. The generator of the operating system is
  the function \<open>rand\<close> of theory \<open>Cipher\<close>; a draw fills its buffer, so it has the length asked for.
\<close>

section \<open>Shares\<close>

datatype kst_error = Backend string | WrongKey | NotFound | KstBadParams | InsufficientShares
  | NonExportable | KstCrypto | KstRandom

type_synonym 'a kst_draw = "(nat, kst_error, 'a) op"

record seed_share =
  sh_index :: byte
  sh_body :: bytes

definition seed_share_new :: "byte \<Rightarrow> bytes \<Rightarrow> seed_share" where
  "seed_share_new index body = \<lparr>sh_index = index, sh_body = body\<rparr>"

definition kst_fill :: "rng \<Rightarrow> nat \<Rightarrow> bytes kst_draw" where
  "kst_fill rand n i = (let (r, j) = random_fill rand n i in (map_err (\<lambda>_. KstRandom) r, j))"

fun split_loop :: "rng \<Rightarrow> nat \<Rightarrow> bytes \<Rightarrow> seed_share list \<Rightarrow> seed_share list kst_draw" where
  "split_loop rand degree [] out = op_return out"
| "split_loop rand degree (byte # secret) out =
     op_bind (if degree > 0 then kst_fill rand degree else op_return []) (\<lambda>tail.
     let coeffs = byte # tail in
     split_loop rand degree secret
       (map (\<lambda>share. share\<lparr>sh_body := sh_body share @ [gf_eval coeffs (sh_index share)]\<rparr>) out))"

definition seed_split :: "rng \<Rightarrow> bytes \<Rightarrow> byte \<Rightarrow> byte \<Rightarrow> seed_share list kst_draw" where
  "seed_split rand secret threshold shares =
     (if threshold = 0 \<or> shares = 0 \<or> shares < threshold then op_fail KstBadParams
      else let out = map (\<lambda>index. seed_share_new (word_of_nat index) []) [1..<Suc (unat shares)];
               degree = unat (threshold - 1)
           in split_loop rand degree secret out)"

fun weight_loop :: "nat \<Rightarrow> byte \<Rightarrow> (nat \<times> seed_share) list \<Rightarrow> byte \<Rightarrow> byte \<Rightarrow> kst_error + byte \<times> byte" where
  "weight_loop j index_j [] numerator denominator = Inr (numerator, denominator)"
| "weight_loop j index_j ((m, share_m) # rest) numerator denominator =
     (if m = j then weight_loop j index_j rest numerator denominator
      else let numerator = gf_mul numerator (sh_index share_m);
               diff = index_j XOR sh_index share_m
           in if diff = 0 then Inl KstBadParams
              else weight_loop j index_j rest numerator (gf_mul denominator diff))"

fun interpolate_loop :: "seed_share list \<Rightarrow> nat \<Rightarrow> (nat \<times> seed_share) list \<Rightarrow> byte \<Rightarrow> kst_error + byte" where
  "interpolate_loop shares position [] acc = Inr acc"
| "interpolate_loop shares position ((j, share_j) # rest) acc =
     rbind (ok_or (get_at (sh_body share_j) position) KstBadParams) (\<lambda>y_j.
     rbind (weight_loop j (sh_index share_j) (enumerate 0 shares) 1 1) (\<lambda>(numerator, denominator).
     interpolate_loop shares position rest (acc XOR gf_mul y_j (gf_mul numerator (gf_inv denominator)))))"

definition interpolate_byte :: "seed_share list \<Rightarrow> nat \<Rightarrow> kst_error + byte" where
  "interpolate_byte shares position = interpolate_loop shares position (enumerate 0 shares) 0"

fun reconstruct_loop :: "seed_share list \<Rightarrow> nat list \<Rightarrow> kst_error + bytes" where
  "reconstruct_loop shares [] = Inr []"
| "reconstruct_loop shares (position # rest) =
     rbind (interpolate_byte shares position) (\<lambda>b.
     rbind (reconstruct_loop shares rest) (\<lambda>bs. Inr (b # bs)))"

definition seed_reconstruct :: "seed_share list \<Rightarrow> kst_error + bytes" where
  "seed_reconstruct shares =
     (case shares of
        [] \<Rightarrow> Inl InsufficientShares
      | first # _ \<Rightarrow>
          let len = length (sh_body first) in
          if list_ex (\<lambda>s. length (sh_body s) \<noteq> len) shares then Inl KstBadParams
          else reconstruct_loop shares [0..<len])"

section \<open>What a draw gives\<close>

definition rng_fills :: "rng \<Rightarrow> bool" where
  "rng_fills rand \<longleftrightarrow> (\<forall>i n bs. rand i n = Some bs \<longrightarrow> length bs = n)"

definition share_rows :: "bytes list \<Rightarrow> seed_share \<Rightarrow> seed_share" where
  "share_rows css s = s\<lparr>sh_body := sh_body s @ map (\<lambda>cs. gf_eval cs (sh_index s)) css\<rparr>"

lemma share_rows_simps [simp]:
  "share_rows [] s = s" "sh_index (share_rows css s) = sh_index s"
  "share_rows css (s\<lparr>sh_body := sh_body s @ [gf_eval cs (sh_index s)]\<rparr>) = share_rows (cs # css) s"
  by (simp_all add: share_rows_def)

lemma kst_fill_ok: "kst_fill rand n i = (Inr bs, j) \<longleftrightarrow> rand i n = Some bs \<and> j = Suc i"
  by (auto simp: kst_fill_def random_fill_def map_err_def split: option.splits)

lemma split_loop_rows:
  assumes "rng_fills rand" "split_loop rand degree secret out i = (Inr shares, j)"
  shows "\<exists>css. map hd css = secret \<and> (\<forall>cs \<in> set css. length cs = Suc degree) \<and> shares = map (share_rows css) out"
  using assms(2)
proof (induction secret arbitrary: out i)
  case Nil
  then show ?case by (intro exI [of _ "[]"]) (simp add: op_return_def)
next
  case (Cons byte secret)
  then obtain tail k where t: "(if degree > 0 then kst_fill rand degree else op_return []) i = (Inr tail, k)"
    and r: "split_loop rand degree secret
      (map (\<lambda>s. s\<lparr>sh_body := sh_body s @ [gf_eval (byte # tail) (sh_index s)]\<rparr>) out) k = (Inr shares, j)"
    by (auto simp: Let_def elim!: op_bind_okE)
  have "length tail = degree"
    using t assms(1) by (auto simp: kst_fill_ok rng_fills_def op_return_def split: if_splits)
  moreover obtain css where "map hd css = secret" "\<forall>cs \<in> set css. length cs = Suc degree"
    "shares = map (share_rows ((byte # tail) # css)) out"
    using Cons.IH [OF r] by (auto simp: comp_def)
  ultimately show ?case
    by (intro exI [of _ "(byte # tail) # css"]) simp
qed

lemma split_loop_forward:
  assumes "0 < degree" "length tails = length secret" "\<And>k. k < length secret \<Longrightarrow> rand (i + k) degree = Some (tails ! k)"
  shows "split_loop rand degree secret out i =
    (Inr (map (share_rows (map2 (#) secret tails)) out), i + length secret)"
  using assms(2,3)
proof (induction secret arbitrary: out i tails)
  case Nil
  then show ?case by (simp add: op_return_def)
next
  case (Cons byte secret)
  obtain t ts where ts: "tails = t # ts" using Cons.prems(1) by (cases tails) auto
  have "rand i degree = Some t" using Cons.prems(2) [of 0] ts by simp
  moreover have "rand (Suc i + k) degree = Some (ts ! k)" if "k < length secret" for k
    using Cons.prems(2) [of "Suc k"] that ts by simp
  ultimately show ?case
    using assms(1) Cons.prems(1) ts Cons.IH [of ts "Suc i"]
    by (simp add: op_bind_def kst_fill_def random_fill_def map_err_def Let_def comp_def)
qed

section \<open>Interpolation of a byte\<close>

lemma GF_eval: "GF (gf_eval cs x) = poly_eval (map GF cs) (GF x)"
proof -
  have "GF (foldl (\<lambda>acc c. gf_mul acc x XOR c) a l) = foldl (\<lambda>acc c. acc * GF x + c) (GF a) (map GF l)" for a l
    by (induction l arbitrary: a) (simp_all add: GF_mul GF_xor)
  then show ?thesis
    by (simp add: gf_eval_def horner_poly_eval [symmetric] rev_map zero_gf256_def)
qed

lemma GF_diff: "GF (a XOR b) = GF b - GF a"
  by (simp add: minus_gf256_def xor.commute)

lemma weight_loop_ok:
  assumes "\<forall>(m, s) \<in> set L. m \<noteq> j \<longrightarrow> sh_index s \<noteq> x"
  shows "\<exists>num' den'. weight_loop j x L num den = Inr (num', den') \<and>
    GF num' = GF num * prod_list (map (\<lambda>(m, s). GF (sh_index s)) (filter (\<lambda>(m, s). m \<noteq> j) L)) \<and>
    GF den' = GF den * prod_list (map (\<lambda>(m, s). GF (sh_index s) - GF x) (filter (\<lambda>(m, s). m \<noteq> j) L))"
  using assms
proof (induction j x L num den rule: weight_loop.induct)
  case (2 j x m s rest num den)
  show ?case
  proof (cases "m = j")
    case True
    then show ?thesis using 2 by simp
  next
    case False
    have ne: "x XOR sh_index s \<noteq> 0"
      using 2(3) False by (auto simp: xor_self_eq dest: arg_cong [of _ _ "\<lambda>y. x XOR y"] simp flip: xor.assoc)
    obtain num' den' where "weight_loop j x rest (gf_mul num (sh_index s)) (gf_mul den (x XOR sh_index s)) = Inr (num', den')"
      "GF num' = GF (gf_mul num (sh_index s)) * prod_list (map (\<lambda>(m, s). GF (sh_index s)) (filter (\<lambda>(m, s). m \<noteq> j) rest))"
      "GF den' = GF (gf_mul den (x XOR sh_index s)) *
         prod_list (map (\<lambda>(m, s). GF (sh_index s) - GF x) (filter (\<lambda>(m, s). m \<noteq> j) rest))"
      using 2(2) [OF False refl refl ne] 2(3) by auto
    then show ?thesis
      using False ne by (auto simp: GF_mul GF_diff mult.assoc)
  qed
qed simp

abbreviation gf_points :: "seed_share list \<Rightarrow> gf256 list" where
  "gf_points shares \<equiv> map (\<lambda>s. GF (sh_index s)) shares"

lemma weight_loop_shares:
  assumes "distinct (gf_points shares)" "j < length shares"
  obtains num den where "weight_loop j (sh_index (shares ! j)) (enumerate 0 shares) 1 1 = Inr (num, den)"
    "GF num * inverse (GF den) = lagrange_weight (set (gf_points shares)) (gf_points shares ! j)"
proof -
  let ?x = "sh_index (shares ! j)"
  have "\<forall>(m, s) \<in> set (enumerate 0 shares). m \<noteq> j \<longrightarrow> sh_index s \<noteq> ?x"
    using assms by (auto simp: in_set_enumerate_eq distinct_conv_nth)
  then obtain num den where w: "weight_loop j ?x (enumerate 0 shares) 1 1 = Inr (num, den)"
    "GF num = GF 1 * prod_list (map (\<lambda>(m, s). GF (sh_index s)) (filter (\<lambda>(m, s). m \<noteq> j) (enumerate 0 shares)))"
    "GF den = GF 1 * prod_list (map (\<lambda>(m, s). GF (sh_index s) - GF ?x) (filter (\<lambda>(m, s). m \<noteq> j) (enumerate 0 shares)))"
    using weight_loop_ok [of "enumerate 0 shares" j ?x 1 1] by blast
  have o: "map (\<lambda>(m, s). f s) (filter (\<lambda>(m, s). m \<noteq> j) (enumerate 0 shares)) = map f (others j shares)"
    for f :: "seed_share \<Rightarrow> gf256"
    by (simp add: others_def comp_def case_prod_unfold)
  have "GF num * inverse (GF den) = prod_list (others j (gf_points shares)) *
      inverse (prod_list (map (\<lambda>m. m - gf_points shares ! j) (others j (gf_points shares))))"
    using w(2,3) assms(2)
    unfolding o [of "\<lambda>s. GF (sh_index s)"] o [of "\<lambda>s. GF (sh_index s) - GF ?x"]
    by (simp add: map_others [symmetric] comp_def one_gf256_def [symmetric])
  then show thesis
    using that w(1) lagrange_weight_list [of j "gf_points shares"] assms by simp
qed

lemma interpolate_loop_sum:
  assumes "distinct (gf_points shares)" "\<forall>s \<in> set shares. position < length (sh_body s)"
    and "\<forall>j \<in> set js. j < length shares"
  shows "\<exists>r. interpolate_loop shares position (map (\<lambda>j. (j, shares ! j)) js) acc = Inr r \<and>
    GF r = GF acc + (\<Sum>j\<leftarrow>js. GF (sh_body (shares ! j) ! position) *
      lagrange_weight (set (gf_points shares)) (gf_points shares ! j))"
  using assms(3)
proof (induction js arbitrary: acc)
  case (Cons j js)
  have j: "j < length shares" using Cons.prems by simp
  obtain num den where w: "weight_loop j (sh_index (shares ! j)) (enumerate 0 shares) 1 1 = Inr (num, den)"
    "GF num * inverse (GF den) = lagrange_weight (set (gf_points shares)) (gf_points shares ! j)"
    using weight_loop_shares [OF assms(1) j] by blast
  have y: "get_at (sh_body (shares ! j)) position = Some (sh_body (shares ! j) ! position)"
    using assms(2) j by (simp add: get_at_def)
  let ?t = "gf_mul (sh_body (shares ! j) ! position) (gf_mul num (gf_inv den))"
  have t: "GF ?t = GF (sh_body (shares ! j) ! position) * lagrange_weight (set (gf_points shares)) (gf_points shares ! j)"
    using w(2) by (simp add: GF_mul GF_inv)
  obtain r where "interpolate_loop shares position (map (\<lambda>j. (j, shares ! j)) js) (acc XOR ?t) = Inr r"
    "GF r = GF (acc XOR ?t) + (\<Sum>j\<leftarrow>js. GF (sh_body (shares ! j) ! position) *
      lagrange_weight (set (gf_points shares)) (gf_points shares ! j))"
    using Cons by fastforce
  then show ?case
    using w(1) y t by (auto simp: ok_or_def rbind_def GF_xor add.assoc)
qed simp

lemma interpolate_byte_poly:
  assumes "distinct (gf_points shares)" "shares \<noteq> []" "length cs \<le> length shares"
    and "\<forall>s \<in> set shares. position < length (sh_body s) \<and> sh_body s ! position = gf_eval cs (sh_index s)"
    and "cs \<noteq> []"
  shows "interpolate_byte shares position = Inr (hd cs)"
proof -
  let ?xs = "gf_points shares"
  obtain r where r: "interpolate_byte shares position = Inr r"
    "GF r = GF 0 + (\<Sum>j\<leftarrow>[0..<length shares]. GF (sh_body (shares ! j) ! position) * lagrange_weight (set ?xs) (?xs ! j))"
    using interpolate_loop_sum [OF assms(1), of position "[0..<length shares]" 0] assms(4)
    by (auto simp: interpolate_byte_def enumerate_nth)
  have "(\<Sum>j\<leftarrow>[0..<length shares]. GF (sh_body (shares ! j) ! position) * lagrange_weight (set ?xs) (?xs ! j)) =
      (\<Sum>j\<leftarrow>[0..<length shares]. poly_eval (map GF cs) (?xs ! j) * lagrange_weight (set ?xs) (?xs ! j))"
    using assms(4) by (intro arg_cong [of _ _ sum_list] map_cong refl) (simp add: GF_eval)
  also have "\<dots> = (\<Sum>x\<leftarrow>?xs. poly_eval (map GF cs) x * lagrange_weight (set ?xs) x)"
    by (rule arg_cong [of _ _ sum_list], rule nth_equalityI) simp_all
  also have "\<dots> = lagrange_zero (set ?xs) (poly_eval (map GF cs))"
    unfolding lagrange_zero_def using assms(1) by (simp only: sum.distinct_set_conv_list)
  also have "\<dots> = poly_eval (map GF cs) 0"
    using assms(1-3) distinct_card [OF assms(1)] by (intro lagrange_interpolation) simp_all
  also have "\<dots> = GF (hd cs)"
    using assms(5) by (cases cs) simp_all
  finally show ?thesis
    using r by (simp add: zero_gf256_def [symmetric])
qed

lemma reconstruct_loop_map:
  assumes "\<And>k. k \<in> set ks \<Longrightarrow> interpolate_byte shares k = Inr (f k)"
  shows "reconstruct_loop shares ks = Inr (map f ks)"
  using assms by (induction ks) (simp_all add: rbind_def)

lemma reconstruct_rows:
  assumes "distinct (map sh_index shares)" "shares \<noteq> []"
    and "\<forall>cs \<in> set css. cs \<noteq> [] \<and> length cs \<le> length shares"
    and "\<forall>s \<in> set shares. sh_body s = map (\<lambda>cs. gf_eval cs (sh_index s)) css"
  shows "seed_reconstruct shares = Inr (map hd css)"
proof -
  have d: "distinct (gf_points shares)"
    using assms(1) by (simp add: distinct_map inj_on_def)
  have len: "\<forall>s \<in> set shares. length (sh_body s) = length css"
    using assms(4) by simp
  have "reconstruct_loop shares [0..<length css] = Inr (map (\<lambda>k. hd (css ! k)) [0..<length css])"
    using assms d by (intro reconstruct_loop_map interpolate_byte_poly) auto
  also have "map (\<lambda>k. hd (css ! k)) [0..<length css] = map hd css"
    by (rule nth_equalityI) simp_all
  finally show ?thesis
    using assms(2) len by (auto simp: seed_reconstruct_def Let_def list_ex_iff split: list.splits)
qed

lemma split_shares:
  assumes "rng_fills rand" "seed_split rand secret threshold n i = (Inr shares, j)"
  shows "\<exists>css. map hd css = secret \<and> (\<forall>cs \<in> set css. length cs = unat threshold) \<and> 0 < unat threshold \<and>
    shares = map (\<lambda>k. share_rows css \<lparr>sh_index = word_of_nat k, sh_body = []\<rparr>) [1..<Suc (unat n)]"
proof -
  let ?out = "map (\<lambda>k. seed_share_new (word_of_nat k) []) [1..<Suc (unat n)]"
  have t: "0 < threshold" and r: "split_loop rand (unat (threshold - 1)) secret ?out i = (Inr shares, j)"
    using assms(2) by (auto simp: seed_split_def op_fail_def Let_def word_gt_0 split: if_splits)
  have "Suc (unat (threshold - 1)) = unat threshold"
    using t by (simp add: unat_minus_one word_gt_0 unat_gt_0)
  with split_loop_rows [OF assms(1) r] t show ?thesis
    by (auto simp: comp_def seed_share_new_def unat_gt_0 word_gt_0)
qed

lemma byte_index:
  fixes n :: byte
  assumes "k \<in> {1..<Suc (unat n)}"
  shows "unat (word_of_nat k :: byte) = k" "(word_of_nat k :: byte) \<noteq> 0"
proof -
  have "unat n < 256" by (rule less_le_trans [OF unat_bound]) simp
  moreover have "k \<le> unat n" using assms by simp
  ultimately have "k < 256" by (rule le_less_trans [rotated])
  then show k: "unat (word_of_nat k :: byte) = k" by (simp add: byte_unat_of_nat)
  show "(word_of_nat k :: byte) \<noteq> 0" using assms k by (metis atLeastLessThan_iff not_one_le_zero unat_0)
qed

lemma split_index_inj:
  fixes n :: byte
  assumes "shares = map (\<lambda>k. share_rows css \<lparr>sh_index = word_of_nat k, sh_body = []\<rparr>) [1..<Suc (unat n)]"
  shows "inj_on sh_index (set shares)"
proof (rule inj_onI)
  fix s t
  assume s: "s \<in> set shares" and t: "t \<in> set shares" and eq: "sh_index s = sh_index t"
  from s obtain k where k: "s = share_rows css \<lparr>sh_index = word_of_nat k, sh_body = []\<rparr>" "k \<in> {1..<Suc (unat n)}"
    unfolding assms set_map set_upt by (rule imageE)
  from t obtain l where l: "t = share_rows css \<lparr>sh_index = word_of_nat l, sh_body = []\<rparr>" "l \<in> {1..<Suc (unat n)}"
    unfolding assms set_map set_upt by (rule imageE)
  have "unat (word_of_nat k :: byte) = unat (word_of_nat l :: byte)"
    using eq unfolding k(1) l(1) by simp
  then have "k = l" using byte_index(1) [OF k(2)] byte_index(1) [OF l(2)] by simp
  with k l show "s = t" by simp
qed

lemma split_loop_constant: "\<exists>shares. split_loop rand 0 secret out i = (Inr shares, i)"
  by (induction secret arbitrary: out) (simp_all add: op_return_def op_bind_def Let_def)

lemma poly_eval_pad: "poly_eval (cs @ replicate k 0) x = poly_eval cs x"
proof -
  have "poly_eval (replicate k 0) x = 0" by (induction k) simp_all
  then show ?thesis by (induction cs) simp_all
qed

text \<open>A row of coefficients for any first byte that agrees with a given one on fewer points than it
  has coefficients.\<close>

lemma row_exists:
  assumes "finite T" "0 \<notin> T" "card T < n"
  shows "\<exists>row. length row = n \<and> hd row = b \<and> (\<forall>x \<in> T. gf_eval row x = g x)"
proof -
  let ?P = "insert 0 (GF ` T)"
  have card: "card ?P = Suc (card T)"
    using assms(1,2) by (subst card_insert_disjoint) (auto simp: zero_gf256_def card_image inj_on_def)
  define f where "f y = (if y = 0 then GF b else GF (g (gf_byte y)))" for y
  obtain cs where cs: "length cs = Suc (card T)" "\<forall>y \<in> ?P. poly_eval cs y = f y"
    using interpolation_exists [of ?P f] assms(1) card by auto
  define row where "row = map gf_byte (cs @ replicate (n - length cs) 0)"
  have eval: "GF (gf_eval row x) = poly_eval cs (GF x)" for x
    by (simp add: GF_eval row_def comp_def poly_eval_pad)
  have "length row = n" using assms(3) cs(1) by (simp add: row_def)
  moreover have "hd row = b"
    using cs by (cases cs) (auto simp: row_def f_def)
  moreover have "gf_eval row x = g x" if "x \<in> T" for x
  proof -
    have "GF x \<noteq> 0" using that assms(2) by (auto simp: zero_gf256_def)
    then show ?thesis using eval [of x] cs(2) that by (auto simp: f_def)
  qed
  ultimately show ?thesis by blast
qed

lemma seed_reconstruct_split:
  assumes "rng_fills rand" "seed_split rand secret threshold n i = (Inr shares, j)"
    and "distinct sub" "set sub \<subseteq> set shares" "unat threshold \<le> length sub"
  shows "seed_reconstruct sub = Inr secret"
proof -
  obtain css where css: "map hd css = secret" "\<forall>cs \<in> set css. length cs = unat threshold" "0 < unat threshold"
    "shares = map (\<lambda>k. share_rows css \<lparr>sh_index = word_of_nat k, sh_body = []\<rparr>) [1..<Suc (unat n)]"
    using split_shares [OF assms(1,2)] by blast
  have "seed_reconstruct sub = Inr (map hd css)"
  proof (rule reconstruct_rows)
    show "distinct (map sh_index sub)"
      using assms(3,4) split_index_inj [OF css(4)] by (simp add: distinct_map inj_on_subset)
    show "sub \<noteq> []" using assms(5) css(3) by auto
    show "\<forall>cs \<in> set css. cs \<noteq> [] \<and> length cs \<le> length sub"
      using css(2,3) assms(5) by (auto simp: Suc_le_eq)
    show "\<forall>s \<in> set sub. sh_body s = map (\<lambda>cs. gf_eval cs (sh_index s)) css"
      using assms(4) unfolding css(4) by (auto simp: share_rows_def)
  qed
  with css(1) show ?thesis by simp
qed

section \<open>Properties\<close>

text \<open>
  C10 [seed_recovered] Any threshold many of the shares a seed was split into, in any order, give back
  the seed, whatever was drawn and however long the seed is.
\<close>

theorem seed_recovered:
  assumes "rng_fills rand" "seed_split rand secret threshold n i = (Inr shares, j)"
    and "distinct sub" "set sub \<subseteq> set shares" "unat threshold \<le> length sub"
  shows "seed_reconstruct sub = Inr secret"
  using assms by (rule seed_reconstruct_split)

lemma toy_rand_fills: "rng_fills toy_rand"
  by (simp add: rng_fills_def toy_rand_def)

definition ex_shares :: "seed_share list" where
  "ex_shares = map (share_rows [[7, 4], [9, 5]]) [\<lparr>sh_index = 1, sh_body = []\<rparr>, \<lparr>sh_index = 2, sh_body = []\<rparr>, \<lparr>sh_index = 3, sh_body = []\<rparr>]"

lemma ex_split: "seed_split toy_rand [7, 9] 2 3 4 = (Inr ex_shares, 6)"
proof -
  have "[1..<Suc 3] = [1, 2, 3 :: nat]" by (simp add: upt_rec)
  moreover have "split_loop toy_rand 1 [7, 9] out 4 =
      (Inr (map (share_rows (map2 (#) [7, 9] [[4], [5]])) out), 4 + length [7, 9 :: byte])" for out
    by (rule split_loop_forward) (auto simp: toy_rand_def less_Suc_eq)
  ultimately show ?thesis
    by (simp add: seed_split_def Let_def ex_shares_def seed_share_new_def del: split_loop.simps)
qed

theorem seed_recovered_witness:
  "seed_reconstruct [ex_shares ! 2, ex_shares ! 0] = Inr [7, 9]"
proof (rule seed_recovered [OF toy_rand_fills ex_split])
  have "sh_index (ex_shares ! 2) \<noteq> sh_index (ex_shares ! 0)" by (simp add: ex_shares_def)
  then show "distinct [ex_shares ! 2, ex_shares ! 0]" by auto
  show "set [ex_shares ! 2, ex_shares ! 0] \<subseteq> set ex_shares" by (simp add: ex_shares_def)
qed simp

text \<open>A source that draws given rows: the splitting then evaluates exactly them.\<close>

definition rows_rng :: "(nat \<Rightarrow> bytes) \<Rightarrow> nat \<Rightarrow> nat \<Rightarrow> rng" where
  "rows_rng row d i e m = Some (if m = d then tl (row (e - i)) else replicate m 0)"

lemma rows_rng_split:
  assumes "\<And>k. length (row k) = Suc d" "\<And>k. hd (row k) = other ! k" "d \<noteq> 0"
  shows "rng_fills (rows_rng row d i)"
    and "split_loop (rows_rng row d i) d other out i = (Inr (map (share_rows (map row [0..<length other])) out), i + length other)"
proof -
  let ?tails = "map (\<lambda>k. tl (row k)) [0..<length other]"
  show "rng_fills (rows_rng row d i)" using assms(1) by (simp add: rng_fills_def rows_rng_def)
  have rows: "map2 (#) other ?tails = map row [0..<length other]"
  proof (rule nth_equalityI)
    fix k assume "k < length (map2 (#) other ?tails)"
    then show "map2 (#) other ?tails ! k = map row [0..<length other] ! k"
      using assms(1) [of k] assms(2) [of k] by (cases "row k") simp_all
  qed simp
  show "split_loop (rows_rng row d i) d other out i = (Inr (map (share_rows (map row [0..<length other])) out), i + length other)"
    unfolding rows [symmetric] using assms(3) by (intro split_loop_forward) (simp_all add: rows_rng_def)
qed

lemma share_rows_agree:
  assumes "\<And>k. gf_eval (row k) (sh_index s) = gf_eval (css ! k) (sh_index s)"
  shows "share_rows css s = share_rows (map row [0..<length css]) s"
proof -
  have "map (\<lambda>cs. gf_eval cs (sh_index s)) css = map (\<lambda>cs. gf_eval cs (sh_index s)) (map row [0..<length css])"
    using assms by (intro nth_equalityI) simp_all
  then show ?thesis by (simp add: share_rows_def)
qed

text \<open>The indices of fewer shares than the threshold are fewer nonzero points than coefficients.\<close>

lemma known_indices:
  assumes "known \<subseteq> set (map (\<lambda>k. share_rows css \<lparr>sh_index = word_of_nat k, sh_body = []\<rparr>) [1..<Suc (unat (n :: byte))])"
    and "card known < Suc d"
  shows "finite (sh_index ` known)" "0 \<notin> sh_index ` known" "card (sh_index ` known) < Suc d"
proof -
  show fin: "finite (sh_index ` known)" using assms(1) by (auto intro: finite_subset)
  show "0 \<notin> sh_index ` known" using assms(1) byte_index(2) [of _ n] by fastforce
  show "card (sh_index ` known) < Suc d"
    using assms card_image_le [of known sh_index] by (meson finite_set finite_subset le_less_trans)
qed

text \<open>
  C11 [few_shares_hide_seed] Fewer shares than the threshold say nothing about the seed: for every
  other seed of the same length there are draws under which splitting it gives the same shares.
\<close>

theorem few_shares_hide_seed:
  assumes "rng_fills rand" "seed_split rand secret threshold n i = (Inr shares, j)"
    and "known \<subseteq> set shares" "card known < unat threshold" "length other = length secret"
  shows "\<exists>rand' shares' j'. rng_fills rand' \<and> seed_split rand' other threshold n i = (Inr shares', j') \<and>
    known \<subseteq> set shares'"
proof -
  obtain css where css: "map hd css = secret" "\<forall>cs \<in> set css. length cs = unat threshold" "0 < unat threshold"
    "shares = map (\<lambda>k. share_rows css \<lparr>sh_index = word_of_nat k, sh_body = []\<rparr>) [1..<Suc (unat n)]"
    using split_shares [OF assms(1,2)] by blast
  let ?out = "map (\<lambda>k. seed_share_new (word_of_nat k) []) [1..<Suc (unat n)]"
  define d where "d = unat (threshold - 1)"
  have d: "Suc d = unat threshold"
    using css(3) by (simp add: d_def unat_minus_one word_gt_0 unat_gt_0)
  have split: "seed_split r other threshold n i = split_loop r d other ?out i" for r
    using assms(2) by (auto simp: seed_split_def op_fail_def d_def Let_def split: if_splits)
  show ?thesis
  proof (cases "d = 0")
    case True
    then have "card known = 0" using assms(4) d by linarith
    then have "known = {}" using finite_subset [OF assms(3)] by simp
    then show ?thesis using split_loop_constant [of rand other ?out i] True assms(1) split by auto
  next
    case False
    have "\<forall>k. \<exists>row. length row = Suc d \<and> hd row = other ! k \<and> (\<forall>x \<in> sh_index ` known. gf_eval row x = gf_eval (css ! k) x)"
      using row_exists [OF known_indices [OF assms(3) [unfolded css(4)] assms(4) [folded d]]] by blast
    then obtain row where row: "\<And>k. length (row k) = Suc d" "\<And>k. hd (row k) = other ! k"
      "\<And>k x. x \<in> sh_index ` known \<Longrightarrow> gf_eval (row k) x = gf_eval (css ! k) x"
      by metis
    note run = rows_rng_split [OF row(1,2) False, of i]
    have "length css = length other" using css(1) assms(5) by (metis length_map)
    have "known \<subseteq> set (map (share_rows (map row [0..<length other])) ?out)"
    proof
      fix s assume s: "s \<in> known"
      then obtain k where k: "k \<in> set [1..<Suc (unat n)]" "s = share_rows css (seed_share_new (word_of_nat k) [])"
        using assms(3) unfolding css(4) by (auto simp: seed_share_new_def)
      have "sh_index s \<in> sh_index ` known" using s by (rule imageI)
      then have "gf_eval (row l) (sh_index (seed_share_new (word_of_nat k) [])) = gf_eval (css ! l) (sh_index (seed_share_new (word_of_nat k) []))" for l
        using row(3) k(2) by simp
      from share_rows_agree [of row, OF this] have "s = share_rows (map row [0..<length other]) (seed_share_new (word_of_nat k) [])"
        using k(2) \<open>length css = length other\<close> by simp
      with k(1) show "s \<in> set (map (share_rows (map row [0..<length other])) ?out)" by auto
    qed
    with run show ?thesis unfolding split by blast
  qed
qed

theorem few_shares_hide_seed_witness:
  "\<exists>rand' shares' j'. rng_fills rand' \<and> seed_split rand' [0, 0] 2 3 4 = (Inr shares', j') \<and>
    {ex_shares ! 0} \<subseteq> set shares'"
  by (rule few_shares_hide_seed [OF toy_rand_fills ex_split]) (simp_all add: ex_shares_def)

end
