(* ===== verification/KeyStore.thy ===== *)
theory KeyStore
  imports SeedBackup Ckd
begin

text \<open>
  The encrypted-file key store, \<^verbatim>\<open>crates/kst/src/file_store.rs\<close>, behind the trait of \<^verbatim>\<open>store.rs\<close>.
  Entries are encrypted under a key derived from the passphrase, with the entry's name as associated
  data. Argon2id is the function \<open>argon\<close> from passphrase and salt to the derived key, the encoding of
  a verifying key as a compressed point is \<open>enc\<close>; AES-GCM, ECDSA and the generator are the parameters
  of the earlier theories. Methods on \<open>&mut self\<close> that draw work on the store together with the number
  of draws; methods on \<open>&self\<close> take the store as an argument.
\<close>

section \<open>The store\<close>

definition SALT_LEN :: nat where "SALT_LEN = 16"
definition KEY_BYTES :: nat where "KEY_BYTES = 32"

record entry =
  en_nonce :: bytes
  en_ciphertext :: bytes
  en_exportable :: bool

record file_store =
  fs_kek :: bytes
  fs_salt :: bytes
  fs_entries :: "string \<Rightarrow> entry option"

record wrapped_share =
  ws_index :: byte
  ws_wrapped :: wrapped_key

type_synonym 'a store_op = "(file_store \<times> nat, kst_error, 'a) op"
type_synonym argon = "bytes \<Rightarrow> bytes \<Rightarrow> bytes option"

definition drawing :: "'a kst_draw \<Rightarrow> 'a store_op" where
  "drawing m = (\<lambda>(s, i). let (r, j) = m i in (r, (s, j)))"

definition kst_err :: "kst_error \<Rightarrow> 'a draw \<Rightarrow> 'a kst_draw" where
  "kst_err e m i = (let (r, j) = m i in (map_err (\<lambda>_. e) r, j))"

definition derive_kek :: "argon \<Rightarrow> bytes \<Rightarrow> bytes \<Rightarrow> kst_error + bytes" where
  "derive_kek argon passphrase salt = ok_or (argon passphrase salt) KstCrypto"

definition store_with_salt :: "argon \<Rightarrow> bytes \<Rightarrow> bytes \<Rightarrow> kst_error + file_store" where
  "store_with_salt argon passphrase salt =
     rbind (derive_kek argon passphrase salt) (\<lambda>kek.
     Inr \<lparr>fs_kek = kek, fs_salt = salt, fs_entries = (\<lambda>_. None)\<rparr>)"

definition store_new :: "rng \<Rightarrow> argon \<Rightarrow> bytes \<Rightarrow> file_store kst_draw" where
  "store_new rand argon passphrase =
     op_bind (kst_fill rand SALT_LEN) (\<lambda>salt. op_lift (store_with_salt argon passphrase salt))"

definition ciphertext_at_rest :: "file_store \<Rightarrow> string \<Rightarrow> bytes option" where
  "ciphertext_at_rest s name = map_option en_ciphertext (fs_entries s name)"

definition encrypt_seed :: "rng \<Rightarrow> gcm_ops \<Rightarrow> file_store \<Rightarrow> string \<Rightarrow> bytes \<Rightarrow> bool \<Rightarrow> entry kst_draw" where
  "encrypt_seed rand gcm s name secret exportable =
     op_bind (kst_fill rand NONCE_LEN) (\<lambda>nonce.
     op_bind (op_lift (map_err (\<lambda>_. KstCrypto) (seal gcm (fs_kek s) nonce secret (as_bytes name)))) (\<lambda>ciphertext.
     op_return \<lparr>en_nonce = nonce, en_ciphertext = ciphertext, en_exportable = exportable\<rparr>))"

definition decrypt_seed :: "gcm_ops \<Rightarrow> file_store \<Rightarrow> string \<Rightarrow> kst_error + bytes" where
  "decrypt_seed gcm s name =
     rbind (ok_or (fs_entries s name) NotFound) (\<lambda>entry.
     map_err (\<lambda>_. WrongKey) (open_ct gcm (fs_kek s) (en_nonce entry) (en_ciphertext entry) (as_bytes name)))"

section \<open>Keys\<close>

fun random_key_loop :: "rng \<Rightarrow> ('k, 'v, 's) ecdsa_ops \<Rightarrow> nat \<Rightarrow> bytes kst_draw" where
  "random_key_loop rand ds 0 = op_fail KstRandom"
| "random_key_loop rand ds (Suc tries) =
     op_bind (kst_fill rand KEY_BYTES) (\<lambda>bs.
     if sk_from_slice ds bs \<noteq> None then op_return bs else random_key_loop rand ds tries)"

definition random_private_key :: "rng \<Rightarrow> ('k, 'v, 's) ecdsa_ops \<Rightarrow> bytes kst_draw" where
  "random_private_key rand ds = random_key_loop rand ds 16"

definition key_array :: "bytes \<Rightarrow> kst_error + bytes" where
  "key_array bs = (if length bs \<noteq> KEY_BYTES then Inl KstBadParams
                   else ok_or (get_range bs 0 KEY_BYTES) KstBadParams)"

definition public_key_compressed :: "('k, 'v, 's) ecdsa_ops \<Rightarrow> ('v \<Rightarrow> bytes) \<Rightarrow> bytes \<Rightarrow> kst_error + bytes" where
  "public_key_compressed ds enc private_key =
     rbind (ok_or (sk_from_slice ds private_key) WrongKey) (\<lambda>signing.
     let bs = enc (vk_of ds signing) in
     if length bs \<noteq> 33 then Inl KstCrypto else Inr bs)"

section \<open>The operations of the trait\<close>

definition store_insert :: "string \<Rightarrow> entry \<Rightarrow> unit store_op" where
  "store_insert name entry = (\<lambda>(s, i). (Inr (), (s\<lparr>fs_entries := (fs_entries s)(name \<mapsto> entry)\<rparr>, i)))"

definition encrypting :: "rng \<Rightarrow> gcm_ops \<Rightarrow> string \<Rightarrow> bytes \<Rightarrow> bool \<Rightarrow> entry store_op" where
  "encrypting rand gcm name secret exportable =
     (\<lambda>(s, i). drawing (encrypt_seed rand gcm s name secret exportable) (s, i))"

definition store_generate :: "rng \<Rightarrow> gcm_ops \<Rightarrow> ('k, 'v, 's) ecdsa_ops \<Rightarrow> ('v \<Rightarrow> bytes) \<Rightarrow> string \<Rightarrow> bool
    \<Rightarrow> bytes store_op" where
  "store_generate rand gcm ds enc name exportable =
     op_bind (drawing (random_private_key rand ds)) (\<lambda>key.
     op_bind (op_lift (public_key_compressed ds enc key)) (\<lambda>public.
     op_bind (encrypting rand gcm name key exportable) (\<lambda>entry.
     op_bind (store_insert name entry) (\<lambda>_. op_return public))))"

definition store_import :: "rng \<Rightarrow> gcm_ops \<Rightarrow> string \<Rightarrow> bytes \<Rightarrow> bool \<Rightarrow> unit store_op" where
  "store_import rand gcm name secret exportable =
     (if length secret \<noteq> KEY_BYTES then op_fail KstBadParams
      else op_bind (encrypting rand gcm name secret exportable) (\<lambda>entry. store_insert name entry))"

definition store_public_key :: "gcm_ops \<Rightarrow> ('k, 'v, 's) ecdsa_ops \<Rightarrow> ('v \<Rightarrow> bytes) \<Rightarrow> file_store \<Rightarrow> string
    \<Rightarrow> kst_error + bytes" where
  "store_public_key gcm ds enc s name = rbind (decrypt_seed gcm s name) (public_key_compressed ds enc)"

definition store_sign_prehash :: "gcm_ops \<Rightarrow> ('k, 'v, 's) ecdsa_ops \<Rightarrow> file_store \<Rightarrow> string \<Rightarrow> bytes
    \<Rightarrow> kst_error + bytes" where
  "store_sign_prehash gcm ds s name prehash =
     rbind (decrypt_seed gcm s name) (\<lambda>seed.
     rbind (key_array seed) (\<lambda>key.
     map_err (\<lambda>_. KstCrypto) (sign_prehash_der ds key prehash)))"

definition store_wrap :: "rng \<Rightarrow> gcm_ops \<Rightarrow> file_store \<Rightarrow> bytes \<Rightarrow> wrapped_key kst_draw" where
  "store_wrap rand gcm s plaintext = kst_err KstCrypto (wrap rand gcm (fs_kek s) plaintext)"

definition store_unwrap :: "gcm_ops \<Rightarrow> file_store \<Rightarrow> wrapped_key \<Rightarrow> kst_error + bytes" where
  "store_unwrap gcm s wrapped = map_err (\<lambda>_. WrongKey) (unwrap gcm (fs_kek s) wrapped)"

definition store_delete :: "string \<Rightarrow> unit store_op" where
  "store_delete name = (\<lambda>(s, i).
     case fs_entries s name of
       None \<Rightarrow> (Inl NotFound, (s, i))
     | Some entry \<Rightarrow> (Inr (), (s\<lparr>fs_entries := (fs_entries s)(name := None)\<rparr>, i)))"

definition store_export :: "gcm_ops \<Rightarrow> file_store \<Rightarrow> string \<Rightarrow> kst_error + bytes" where
  "store_export gcm s name =
     rbind (ok_or (fs_entries s name) NotFound) (\<lambda>entry.
     if \<not> en_exportable entry then Inl NonExportable else decrypt_seed gcm s name)"

fun backup_loop :: "rng \<Rightarrow> gcm_ops \<Rightarrow> file_store \<Rightarrow> seed_share list \<Rightarrow> wrapped_share list kst_draw" where
  "backup_loop rand gcm s [] = op_return []"
| "backup_loop rand gcm s (part # parts) =
     op_bind (kst_err KstCrypto (wrap rand gcm (fs_kek s) (sh_body part))) (\<lambda>wrapped.
     op_bind (backup_loop rand gcm s parts) (\<lambda>out.
     op_return (\<lparr>ws_index = sh_index part, ws_wrapped = wrapped\<rparr> # out)))"

definition store_backup :: "rng \<Rightarrow> gcm_ops \<Rightarrow> file_store \<Rightarrow> string \<Rightarrow> byte \<Rightarrow> byte \<Rightarrow> wrapped_share list kst_draw" where
  "store_backup rand gcm s name threshold shares =
     op_bind (op_lift (decrypt_seed gcm s name)) (\<lambda>seed.
     op_bind (seed_split rand seed threshold shares) (\<lambda>parts.
     backup_loop rand gcm s parts))"

fun unwrap_loop :: "gcm_ops \<Rightarrow> file_store \<Rightarrow> wrapped_share list \<Rightarrow> kst_error + seed_share list" where
  "unwrap_loop gcm s [] = Inr []"
| "unwrap_loop gcm s (share # shares) =
     rbind (map_err (\<lambda>_. WrongKey) (unwrap gcm (fs_kek s) (ws_wrapped share))) (\<lambda>body.
     rbind (unwrap_loop gcm s shares) (\<lambda>parts.
     Inr (seed_share_new (ws_index share) body # parts)))"

definition store_restore :: "rng \<Rightarrow> gcm_ops \<Rightarrow> string \<Rightarrow> wrapped_share list \<Rightarrow> bool \<Rightarrow> unit store_op" where
  "store_restore rand gcm name shares exportable = (\<lambda>(s, i).
     (if length shares < 2 then op_fail InsufficientShares
      else op_bind (op_lift (unwrap_loop gcm s shares)) (\<lambda>parts.
           op_bind (op_lift (seed_reconstruct parts)) (\<lambda>seed.
           op_bind (encrypting rand gcm name seed exportable) (\<lambda>entry.
           store_insert name entry)))) (s, i))"

section \<open>Lemmas\<close>

lemma encrypting_ok:
  assumes "gcm_law gcm" "encrypting rand gcm name secret exportable (s, i) = (Inr entry, (t, j))"
  shows "t = s \<and> en_exportable entry = exportable \<and>
    open_ct gcm (fs_kek s) (en_nonce entry) (en_ciphertext entry) (as_bytes name) = Inr secret"
  using assms seal_open [OF assms(1)]
  by (auto simp: encrypting_def drawing_def encrypt_seed_def op_lift_def op_return_def map_err_def
      split: prod.splits sum.splits elim!: op_bind_okE)

lemma store_insert_run:
  "store_insert name entry (s, i) = (Inr (), (s\<lparr>fs_entries := (fs_entries s)(name \<mapsto> entry)\<rparr>, i))"
  by (simp add: store_insert_def)

lemma decrypt_inserted:
  "decrypt_seed gcm (s\<lparr>fs_entries := (fs_entries s)(name \<mapsto> entry)\<rparr>) other =
     (if other = name then map_err (\<lambda>_. WrongKey) (open_ct gcm (fs_kek s) (en_nonce entry) (en_ciphertext entry) (as_bytes name))
      else decrypt_seed gcm s other)"
  by (simp add: decrypt_seed_def ok_or_def rbind_def)

lemma store_import_ok:
  assumes "gcm_law gcm" "store_import rand gcm name secret exportable (s, i) = (Inr (), (t, j))"
  obtains entry where "t = s\<lparr>fs_entries := (fs_entries s)(name \<mapsto> entry)\<rparr>" "en_exportable entry = exportable"
    "open_ct gcm (fs_kek s) (en_nonce entry) (en_ciphertext entry) (as_bytes name) = Inr secret"
    "length secret = KEY_BYTES"
proof -
  obtain entry u where len: "length secret = KEY_BYTES"
    and e: "encrypting rand gcm name secret exportable (s, i) = (Inr entry, u)"
    and ins: "store_insert name entry u = (Inr (), (t, j))"
    using assms(2) by (auto simp: store_import_def op_fail_def split: if_splits elim!: op_bind_okE)
  obtain v k where "u = (v, k)" by (cases u)
  with encrypting_ok [OF assms(1), of rand name secret exportable s i entry v k] e ins len that show thesis
    by (auto simp: store_insert_run)
qed

lemma key_array_ok: "length secret = KEY_BYTES \<Longrightarrow> key_array secret = Inr secret"
  by (simp add: key_array_def get_range_def ok_or_def)

definition wrapped_part :: "gcm_ops \<Rightarrow> bytes \<Rightarrow> wrapped_share \<Rightarrow> seed_share \<Rightarrow> bool" where
  "wrapped_part gcm kek w p \<longleftrightarrow> ws_index w = sh_index p \<and> unwrap gcm kek (ws_wrapped w) = Inr (sh_body p)"

lemma backup_loop_parts:
  assumes "gcm_law gcm" "backup_loop rand gcm s parts i = (Inr ws, j)"
  shows "list_all2 (wrapped_part gcm (fs_kek s)) ws parts"
  using assms(2)
proof (induction parts arbitrary: ws i j)
  case Nil
  then show ?case by (simp add: op_return_def)
next
  case (Cons part parts)
  from Cons.prems obtain wrapped k out l where w: "kst_err KstCrypto (wrap rand gcm (fs_kek s) (sh_body part)) i = (Inr wrapped, k)"
    and r: "backup_loop rand gcm s parts k = (Inr out, l)"
    and ws: "ws = \<lparr>ws_index = sh_index part, ws_wrapped = wrapped\<rparr> # out"
    by (auto simp: op_return_def elim!: op_bind_okE)
  have "unwrap gcm (fs_kek s) wrapped = Inr (sh_body part)"
    using w wrap_unwrap [OF assms(1), of rand "fs_kek s" "sh_body part" i wrapped k]
    by (auto simp: kst_err_def map_err_def split: prod.splits sum.splits)
  with Cons.IH [OF r] ws show ?case by (simp add: wrapped_part_def)
qed

lemma unwrap_loop_parts:
  assumes "list_all2 (wrapped_part gcm (fs_kek s)) ws parts"
  shows "unwrap_loop gcm s ws = Inr parts"
  using assms
  by (induction ws arbitrary: parts)
    (auto simp: list_all2_Cons1 wrapped_part_def map_err_def rbind_def seed_share_new_def)

lemma list_all2_sub:
  assumes "list_all2 R ws ps" "set sub \<subseteq> set ws"
  obtains qs where "list_all2 R sub qs" "set qs \<subseteq> set ps"
proof -
  have "\<forall>w \<in> set sub. \<exists>q \<in> set ps. R w q"
    using assms by (metis list_all2_conv_all_nth in_set_conv_nth subsetD)
  then obtain f where "\<forall>w \<in> set sub. f w \<in> set ps \<and> R w (f w)"
    by (metis (full_types))
  then show thesis
    using that [of "map f sub"] by (auto simp: list_all2_map2 list.rel_refl_strong)
qed

lemma wrapped_index: "list_all2 (wrapped_part gcm kek) ws ps \<Longrightarrow> map ws_index ws = map sh_index ps"
  by (induction ws arbitrary: ps) (auto simp: list_all2_Cons1 wrapped_part_def)

lemma split_indices_distinct:
  assumes "rng_fills rand" "seed_split rand secret threshold n i = (Inr shares, j)"
  shows "distinct (map sh_index shares)"
proof -
  obtain css where css: "shares = map (\<lambda>k. share_rows css \<lparr>sh_index = word_of_nat k, sh_body = []\<rparr>) [1..<Suc (unat n)]"
    using split_shares [OF assms] by blast
  have "inj_on (\<lambda>k. word_of_nat k :: byte) {1..<Suc (unat n)}"
    using byte_index(1) by (rule inj_on_inverseI [where g = unat])
  then show ?thesis
    unfolding css by (simp only: map_map comp_def share_rows_simps seed_share.simps distinct_map set_upt distinct_upt)
qed

lemma backup_unwraps:
  assumes "gcm_law gcm" "rng_fills rand" "decrypt_seed gcm s name = Inr seed"
    and "store_backup rand gcm s name threshold n i = (Inr ws, j)"
    and "distinct sub" "set sub \<subseteq> set ws" "unat threshold \<le> length sub" "fs_kek u = fs_kek s"
  shows "\<exists>parts. unwrap_loop gcm u sub = Inr parts \<and> seed_reconstruct parts = Inr seed"
proof -
  obtain ps k where split: "seed_split rand seed threshold n i = (Inr ps, k)"
    and loop: "backup_loop rand gcm s ps k = (Inr ws, j)"
    using assms(3,4) by (auto simp: store_backup_def op_lift_def elim!: op_bind_okE)
  have rel: "list_all2 (wrapped_part gcm (fs_kek s)) ws ps"
    by (rule backup_loop_parts [OF assms(1) loop])
  then obtain qs where qs: "list_all2 (wrapped_part gcm (fs_kek s)) sub qs" "set qs \<subseteq> set ps"
    using assms(6) by (rule list_all2_sub)
  have "inj_on ws_index (set ws)"
    using split_indices_distinct [OF assms(2) split]
    unfolding wrapped_index [OF rel, symmetric] distinct_map by (rule conjunct2)
  then have "distinct (map ws_index sub)"
    using assms(5,6) by (simp add: distinct_map inj_on_subset)
  then have "distinct qs"
    unfolding wrapped_index [OF qs(1)] distinct_map by (rule conjunct1)
  then have "seed_reconstruct qs = Inr seed"
    using seed_reconstruct_split [OF assms(2) split _ qs(2)] assms(7) list_all2_lengthD [OF qs(1)] by simp
  with unwrap_loop_parts [of gcm u sub qs] qs(1) assms(8) show ?thesis by simp
qed

lemma restore_run:
  assumes "unwrap_loop gcm s shares = Inr parts" "seed_reconstruct parts = Inr seed" "2 \<le> length shares"
    and "encrypt_seed rand gcm s name seed exportable i = (Inr entry, j)"
  shows "store_restore rand gcm name shares exportable (s, i) =
    (Inr (), (s\<lparr>fs_entries := (fs_entries s)(name \<mapsto> entry)\<rparr>, j))"
  using assms
  by (simp add: store_restore_def op_bind_def op_lift_def encrypting_def drawing_def store_insert_def)

lemma encrypt_seed_opens:
  assumes "gcm_law gcm" "encrypt_seed rand gcm s name secret exportable i = (Inr entry, j)"
  shows "en_exportable entry = exportable \<and>
    decrypt_seed gcm (s\<lparr>fs_entries := (fs_entries s)(name \<mapsto> entry)\<rparr>) name = Inr secret"
  using encrypting_ok [OF assms(1), of rand name secret exportable s i entry s j] assms(2)
  by (simp add: encrypting_def drawing_def decrypt_inserted map_err_def)

section \<open>Properties\<close>

text \<open>
  A key imported under a name is the key the store signs and computes the
  public key with; it is exported exactly if it was marked exportable; the entries under other names
  stay as they were, and after deletion the name is unknown.
\<close>

lemma stored_key_returns:
  assumes "gcm_law gcm" "store_import rand gcm name secret exportable (s, i) = (Inr (), (t, j))"
  shows "store_export gcm t name = (if exportable then Inr secret else Inl NonExportable) \<and>
    store_sign_prehash gcm ds t name h = map_err (\<lambda>_. KstCrypto) (sign_prehash_der ds secret h) \<and>
    store_public_key gcm ds enc t name = public_key_compressed ds enc secret \<and>
    (\<forall>other. other \<noteq> name \<longrightarrow> store_export gcm t other = store_export gcm s other \<and>
       decrypt_seed gcm t other = decrypt_seed gcm s other) \<and>
    (\<exists>u. store_delete name (t, j) = (Inr (), (u, j)) \<and> store_export gcm u name = Inl NotFound)"
proof -
  obtain entry where t: "t = s\<lparr>fs_entries := (fs_entries s)(name \<mapsto> entry)\<rparr>" "en_exportable entry = exportable"
    "open_ct gcm (fs_kek s) (en_nonce entry) (en_ciphertext entry) (as_bytes name) = Inr secret"
    "length secret = KEY_BYTES"
    using store_import_ok [OF assms] by blast
  have dec: "decrypt_seed gcm t name = Inr secret"
    and other: "other \<noteq> name \<Longrightarrow> decrypt_seed gcm t other = decrypt_seed gcm s other" for other
    using t by (simp_all add: decrypt_inserted map_err_def)
  have entries: "fs_entries t name = Some entry" "other \<noteq> name \<Longrightarrow> fs_entries t other = fs_entries s other" for other
    using t(1) by simp_all
  show ?thesis
  proof (intro conjI allI impI)
    show "store_export gcm t name = (if exportable then Inr secret else Inl NonExportable)"
      using entries(1) t(2) dec by (simp add: store_export_def ok_or_def rbind_def)
    show "store_sign_prehash gcm ds t name h = map_err (\<lambda>_. KstCrypto) (sign_prehash_der ds secret h)"
      using dec t(4) by (simp add: store_sign_prehash_def rbind_def key_array_ok)
    show "store_public_key gcm ds enc t name = public_key_compressed ds enc secret"
      using dec by (simp add: store_public_key_def rbind_def)
    show "store_export gcm t other = store_export gcm s other" if "other \<noteq> name" for other
      unfolding store_export_def other [OF that] entries(2) [OF that] ..
    show "decrypt_seed gcm t other = decrypt_seed gcm s other" if "other \<noteq> name" for other
      using that by (rule other)
    show "\<exists>u. store_delete name (t, j) = (Inr (), (u, j)) \<and> store_export gcm u name = Inl NotFound"
      using entries(1) by (simp add: store_delete_def store_export_def ok_or_def rbind_def)
  qed
qed

definition ex_store :: file_store where
  "ex_store = \<lparr>fs_kek = replicate 32 1, fs_salt = [],
     fs_entries = [''seed'' \<mapsto> \<lparr>en_nonce = [], en_ciphertext = replicate 32 1 @ as_bytes ''seed'' @ [7, 9],
                                en_exportable = False\<rparr>]\<rparr>"

lemma toy_encrypt:
  "length (fs_kek s) = 32 \<Longrightarrow> \<exists>entry. encrypt_seed toy_rand toy_gcm s name secret exportable i = (Inr entry, Suc i)"
  by (simp add: encrypt_seed_def op_bind_def kst_fill_def random_fill_def toy_rand_def op_lift_def toy_seal
      op_return_def map_err_def)

lemma ex_kek: "length (fs_kek ex_store) = 32"
  by (simp add: ex_store_def)

lemma ex_seed: "decrypt_seed toy_gcm ex_store ''seed'' = Inr [7, 9]" "store_export toy_gcm ex_store ''seed'' = Inl NonExportable"
  by (simp_all add: decrypt_seed_def store_export_def ex_store_def ok_or_def rbind_def open_ct_def cipher_for_def
      KEY_LEN_def toy_gcm_def map_err_def as_bytes_def)

lemma toy_wrap_ok:
  "length k = 32 \<Longrightarrow> \<exists>w. kst_err KstCrypto (wrap toy_rand toy_gcm k m) i = (Inr w, Suc i)"
  by (simp add: kst_err_def wrap_def op_bind_def random_fill_def toy_rand_def op_lift_def toy_seal op_return_def
      map_err_def)

lemma toy_backup_loop:
  "length (fs_kek s) = 32 \<Longrightarrow> \<exists>ws j. backup_loop toy_rand toy_gcm s parts i = (Inr ws, j)"
proof (induction parts arbitrary: i)
  case (Cons p parts)
  obtain w where "kst_err KstCrypto (wrap toy_rand toy_gcm (fs_kek s) (sh_body p)) i = (Inr w, Suc i)"
    using toy_wrap_ok [OF Cons.prems] by blast
  moreover obtain ws j where "backup_loop toy_rand toy_gcm s parts (Suc i) = (Inr ws, j)"
    using Cons by blast
  ultimately show ?case by (simp add: op_bind_def op_return_def)
qed (simp add: op_return_def)

lemma ex_backup:
  obtains ws j where "store_backup toy_rand toy_gcm ex_store ''seed'' 2 3 4 = (Inr ws, j)" "distinct ws" "length ws = 3"
proof -
  obtain ws j where loop: "backup_loop toy_rand toy_gcm ex_store ex_shares 6 = (Inr ws, j)"
    using toy_backup_loop [OF ex_kek] by blast
  have rel: "list_all2 (wrapped_part toy_gcm (fs_kek ex_store)) ws ex_shares"
    by (rule backup_loop_parts [OF toy_gcm_law loop])
  have "map ws_index ws = [1, 2, 3]"
    using wrapped_index [OF rel] by (simp add: ex_shares_def)
  then have "distinct (map ws_index ws)" by simp
  then have "distinct ws" by (simp add: distinct_map)
  moreover have "length ws = 3"
    using list_all2_lengthD [OF rel] by (simp add: ex_shares_def)
  moreover have "store_backup toy_rand toy_gcm ex_store ''seed'' 2 3 4 = (Inr ws, j)"
    using loop by (simp add: store_backup_def op_bind_def op_lift_def ex_seed ex_split)
  ultimately show thesis by (intro that)
qed

text \<open>
  C34 [backup_restores] Any threshold many, and at least two, of the wrapped shares of a backup restore
  the seed under a new name in a store with the same key, unless the draw or the encryption of the
  new entry fails.
\<close>

theorem backup_restores:
  assumes "gcm_law gcm" "rng_fills rand" "decrypt_seed gcm s name = Inr seed"
    and "store_backup rand gcm s name threshold n i = (Inr ws, j)"
    and "distinct sub" "set sub \<subseteq> set ws" "unat threshold \<le> length sub" "2 \<le> length sub"
    and "fs_kek u = fs_kek s" "encrypt_seed rand gcm u new_name seed exportable k = (Inr entry, l)"
  shows "\<exists>v. store_restore rand gcm new_name sub exportable (u, k) = (Inr (), (v, l)) \<and>
    decrypt_seed gcm v new_name = Inr seed"
proof -
  obtain parts where "unwrap_loop gcm u sub = Inr parts" "seed_reconstruct parts = Inr seed"
    using backup_unwraps [OF assms(1-7) assms(9)] by blast
  from restore_run [OF this assms(8,10)] encrypt_seed_opens [OF assms(1,10)] show ?thesis by simp
qed

theorem backup_restores_witness:
  "\<exists>ws j v l. store_backup toy_rand toy_gcm ex_store ''seed'' 2 3 4 = (Inr ws, j) \<and>
     store_restore toy_rand toy_gcm ''new'' [ws ! 2, ws ! 0] False (ex_store, j) = (Inr (), (v, l)) \<and>
     decrypt_seed toy_gcm v ''new'' = Inr [7, 9]"
proof -
  obtain ws j where b: "store_backup toy_rand toy_gcm ex_store ''seed'' 2 3 4 = (Inr ws, j)" "distinct ws" "length ws = 3"
    by (rule ex_backup)
  obtain entry where e: "encrypt_seed toy_rand toy_gcm ex_store ''new'' [7, 9] False j = (Inr entry, Suc j)"
    using toy_encrypt [OF ex_kek] by blast
  have "distinct [ws ! 2, ws ! 0]" "set [ws ! 2, ws ! 0] \<subseteq> set ws"
    using b(2,3) by (simp_all add: nth_eq_iff_index_eq)
  from backup_restores [OF toy_gcm_law toy_rand_fills ex_seed(1) b(1) this _ _ refl e] b(1) show ?thesis
    by auto
qed

text \<open>
  The export flag does not keep a key in the store: the shares of the
  backup of a key that is not exportable can be restored under another name with the flag set, and
  the copy is exported.
\<close>

lemma backup_bypasses_export:
  assumes "gcm_law gcm" "rng_fills rand" "decrypt_seed gcm s name = Inr seed"
    and "store_export gcm s name = Inl NonExportable"
    and "store_backup rand gcm s name threshold n i = (Inr ws, j)" "distinct ws" "2 \<le> length ws"
    and "unat threshold \<le> length ws"
    and "encrypt_seed rand gcm s copy_name seed True j = (Inr entry, l)"
  shows "\<exists>v. store_restore rand gcm copy_name ws True (s, j) = (Inr (), (v, l)) \<and>
    store_export gcm v copy_name = Inr seed"
proof -
  obtain parts where "unwrap_loop gcm s ws = Inr parts" "seed_reconstruct parts = Inr seed"
    using backup_unwraps [OF assms(1-3,5,6) subset_refl assms(8) refl] by blast
  from restore_run [OF this assms(7,9)] encrypt_seed_opens [OF assms(1,9)] show ?thesis
    by (simp add: store_export_def ok_or_def rbind_def)
qed

end
