(* ===== verification/AuditChain.thy ===== *)
theory AuditChain
  imports Hashing
begin

text \<open>
  Hash-chained logs. The locale \<open>hash_chain\<close> states what a log of this kind needs: every record hashes
  a message that determines its content and carries the hash of its predecessor. The lemma
  \<open>head_commits\<close> then says that the hash of the last record fixes the whole log. It is interpreted for
  the audit log of the compliance crate, \<^verbatim>\<open>crates/cmp/src/audit.rs\<close>, and in theory \<open>Custody\<close> for the
  life cycle of a key. The theory also holds the guard of the on-chain write path,
  \<^verbatim>\<open>crates/cmp/src/classify.rs\<close>.
\<close>

section \<open>Chained records\<close>

primrec hash_links :: "(bytes \<Rightarrow> bytes) \<Rightarrow> ('r \<Rightarrow> bytes) \<Rightarrow> ('r \<Rightarrow> hash256) \<Rightarrow> ('r \<Rightarrow> hash256)
    \<Rightarrow> hash256 \<Rightarrow> 'r list \<Rightarrow> bool" where
  "hash_links sha message prev stored p [] \<longleftrightarrow> True"
| "hash_links sha message prev stored p (r # rs) \<longleftrightarrow>
     prev r = p \<and> double_sha256 sha (message r) = stored r \<and> hash_links sha message prev stored (stored r) rs"

definition chain_head :: "('r \<Rightarrow> hash256) \<Rightarrow> hash256 \<Rightarrow> 'r list \<Rightarrow> hash256" where
  "chain_head stored p rs = (if rs = [] then p else stored (last rs))"

lemma chain_head_simps [simp]:
  "chain_head stored p [] = p"
  "chain_head stored p (r # rs) = chain_head stored (stored r) rs"
  "chain_head stored p (rs @ [r]) = stored r"
  by (simp_all add: chain_head_def)

lemma hash_links_append:
  "hash_links sha message prev stored p (rs @ ss) \<longleftrightarrow>
     hash_links sha message prev stored p rs \<and> hash_links sha message prev stored (chain_head stored p rs) ss"
  by (induction rs arbitrary: p) simp_all

locale hash_chain =
  fixes message :: "'r \<Rightarrow> bytes"
    and prev :: "'r \<Rightarrow> hash256"
    and stored :: "'r \<Rightarrow> hash256"
    and valid :: "'r \<Rightarrow> bool"
  assumes message_inj: "valid r \<Longrightarrow> valid s \<Longrightarrow> message r = message s \<Longrightarrow> stored r = stored s \<Longrightarrow> r = s"
begin

lemma head_commits:
  assumes "hash_links sha message prev stored p rs" "hash_links sha message prev stored p ss"
    and "\<forall>r \<in> set rs \<union> set ss. valid r \<and> stored r \<noteq> p"
    and "collision_free sha (message ` (set rs \<union> set ss))"
    and "chain_head stored p rs = chain_head stored p ss"
  shows "rs = ss"
  using assms
proof (induction rs arbitrary: ss rule: rev_induct)
  case Nil
  then show ?case
    by (cases ss rule: rev_cases) auto
next
  case (snoc r rs)
  obtain s ts where ss: "ss = ts @ [s]"
    using snoc.prems by (cases ss rule: rev_cases) auto
  have "double_sha256 sha (message r) = double_sha256 sha (message s)" "stored r = stored s"
    using snoc.prems ss by (simp_all add: hash_links_append)
  then have rs: "r = s"
    using snoc.prems(3,4) ss by (auto intro!: message_inj dest: collision_freeD)
  have "rs = ts"
  proof (rule snoc.IH)
    show "collision_free sha (message ` (set rs \<union> set ts))"
      by (rule collision_free_subset [OF snoc.prems(4)]) (use ss in auto)
  qed (use snoc.prems ss rs in \<open>auto simp: hash_links_append\<close>)
  with rs ss show ?case by simp
qed

end

section \<open>Content classification\<close>

datatype content_class = Encrypted | Obfuscated | Cleartext
datatype sensitivity = Public | PersonalData
datatype cmp_error = CleartextPersonalData | PlaintextOnChain

definition guard_on_chain_write :: "content_class \<Rightarrow> sensitivity \<Rightarrow> cmp_error + unit" where
  "guard_on_chain_write class sensitivity =
     (case class of
        Cleartext \<Rightarrow> (case sensitivity of PersonalData \<Rightarrow> Inl CleartextPersonalData
                      | Public \<Rightarrow> Inl PlaintextOnChain)
      | _ \<Rightarrow> Inr ())"

lemma guard_refuses_cleartext: "guard_on_chain_write c s = Inr () \<longleftrightarrow> c \<noteq> Cleartext"
  by (cases c) (auto simp: guard_on_chain_write_def split: sensitivity.splits)

section \<open>The tamper-evident audit log\<close>

record audit_record =
  ar_timestamp :: "64 word"
  ar_actor :: string
  ar_action :: string
  ar_prev_hash :: hash256
  ar_hash :: hash256

type_synonym tamper_evident_audit = "audit_record list"

definition record_message :: "64 word \<Rightarrow> string \<Rightarrow> string \<Rightarrow> hash256 \<Rightarrow> bytes" where
  "record_message timestamp actor action prev =
     u64_to_be timestamp @ [0x1f] @ as_bytes actor @ [0x1f] @ as_bytes action @ [0x1f] @ internal prev"

definition record_hash :: "(bytes \<Rightarrow> bytes) \<Rightarrow> 64 word \<Rightarrow> string \<Rightarrow> string \<Rightarrow> hash256 \<Rightarrow> hash256" where
  "record_hash sha timestamp actor action prev =
     double_sha256 sha (record_message timestamp actor action prev)"

definition audit_new :: tamper_evident_audit where
  "audit_new = []"

definition audit_head_hash :: "tamper_evident_audit \<Rightarrow> hash256" where
  "audit_head_hash records = (if records = [] then from_internal (replicate 32 0) else ar_hash (last records))"

definition audit_append :: "(bytes \<Rightarrow> bytes) \<Rightarrow> 64 word \<Rightarrow> string \<Rightarrow> string
    \<Rightarrow> tamper_evident_audit \<Rightarrow> tamper_evident_audit" where
  "audit_append sha timestamp actor action records =
     (let prev_hash = audit_head_hash records;
          hash = record_hash sha timestamp actor action prev_hash
      in records @ [\<lparr>ar_timestamp = timestamp, ar_actor = actor, ar_action = action,
                     ar_prev_hash = prev_hash, ar_hash = hash\<rparr>])"

fun audit_verify_loop :: "(bytes \<Rightarrow> bytes) \<Rightarrow> hash256 \<Rightarrow> audit_record list \<Rightarrow> bool" where
  "audit_verify_loop sha prev [] = True"
| "audit_verify_loop sha prev (record # records) =
     (if ar_prev_hash record \<noteq> prev then False
      else let expected = record_hash sha (ar_timestamp record) (ar_actor record) (ar_action record)
                            (ar_prev_hash record)
           in if expected \<noteq> ar_hash record then False
              else audit_verify_loop sha (ar_hash record) records)"

definition verify_audit_chain :: "(bytes \<Rightarrow> bytes) \<Rightarrow> audit_record list \<Rightarrow> bool" where
  "verify_audit_chain sha records = audit_verify_loop sha (from_internal (replicate 32 0)) records"

section \<open>Lemmas\<close>

definition audit_message :: "audit_record \<Rightarrow> bytes" where
  "audit_message r = record_message (ar_timestamp r) (ar_actor r) (ar_action r) (ar_prev_hash r)"

text \<open>The separator may not occur in the name of the actor; the other fields have a fixed width or
  end where a field of fixed width begins.\<close>

definition audit_valid :: "audit_record \<Rightarrow> bool" where
  "audit_valid r \<longleftrightarrow> wf_hash (ar_prev_hash r) \<and> 0x1f \<notin> set (as_bytes (ar_actor r))"

lemma record_message_inj:
  assumes "wf_hash p" "wf_hash q" "0x1f \<notin> set (as_bytes actor)" "0x1f \<notin> set (as_bytes actor')"
    and "record_message t actor action p = record_message t' actor' action' q"
  shows "t = t' \<and> actor = actor' \<and> action = action' \<and> p = q"
proof -
  let ?m = "as_bytes actor @ 0x1f # as_bytes action"
  let ?n = "as_bytes actor' @ 0x1f # as_bytes action'"
  have "(u64_to_be t @ [0x1f]) @ (?m @ [0x1f]) @ internal p =
        (u64_to_be t' @ [0x1f]) @ (?n @ [0x1f]) @ internal q"
    using assms(5) by (simp add: record_message_def)
  then have eq: "u64_to_be t = u64_to_be t'" and tail: "(?m @ [0x1f]) @ internal p = (?n @ [0x1f]) @ internal q"
    by (simp_all add: byte_len)
  have len: "length (internal p) = length (internal q)"
    using assms(1,2) by (simp add: wf_hash_def)
  from tail have "?m @ [0x1f] = ?n @ [0x1f]" and p: "internal p = internal q"
    using append_eq_append_conv [of "?m @ [0x1f]" "?n @ [0x1f]"] len by blast+
  then have "as_bytes actor = as_bytes actor' \<and> as_bytes action = as_bytes action'"
    using separated_append_eq [OF assms(3,4)] by (simp add: append_assoc [symmetric] del: append_assoc)
  with eq p show ?thesis
    by (simp add: inj_as_bytes u64_to_be_inj hash256.expand)
qed

interpretation audit: hash_chain audit_message ar_prev_hash ar_hash audit_valid
proof unfold_locales
  fix r s :: audit_record
  assume "audit_valid r" "audit_valid s" "audit_message r = audit_message s" "ar_hash r = ar_hash s"
  then show "r = s"
    using record_message_inj by (intro audit_record.equality) (auto simp: audit_valid_def audit_message_def)
qed

lemma verify_audit_chain_links:
  "verify_audit_chain sha rs \<longleftrightarrow> hash_links sha audit_message ar_prev_hash ar_hash zero_hash rs"
proof -
  have "audit_verify_loop sha p rs \<longleftrightarrow> hash_links sha audit_message ar_prev_hash ar_hash p rs" for p
    by (induction rs arbitrary: p) (auto simp: record_hash_def audit_message_def Let_def)
  then show ?thesis by (simp add: verify_audit_chain_def zero_hash_def)
qed

lemma audit_head_hash_chain: "audit_head_hash rs = chain_head ar_hash zero_hash rs"
  by (simp add: audit_head_hash_def chain_head_def zero_hash_def)

lemma verify_audit_append: "verify_audit_chain sha rs \<Longrightarrow> verify_audit_chain sha (audit_append sha t actor action rs)"
  by (simp add: verify_audit_chain_links hash_links_append audit_append_def record_hash_def
      audit_message_def audit_head_hash_chain Let_def)

lemma audit_append_entries:
  "map (\<lambda>r. (ar_timestamp r, ar_actor r, ar_action r)) (audit_append sha t actor action rs) =
     map (\<lambda>r. (ar_timestamp r, ar_actor r, ar_action r)) rs @ [(t, actor, action)]"
  by (simp add: audit_append_def Let_def)

section \<open>Properties\<close>



text \<open>
  The restriction on the actor name is needed: the record format separates
  the two names by the byte 0x1f without excluding it from them, so the log of one actor and action
  has the same head hash, for every digest, as the log of a shorter actor name with a longer action.
  Both verify, and the hash anchored on chain does not tell them apart.
\<close>

lemma audit_field_shift:
  "let a = audit_append sha t (actor @ CHR 0x1F # mid) action audit_new;
       b = audit_append sha t actor (mid @ CHR 0x1F # action) audit_new
   in a \<noteq> b \<and> verify_audit_chain sha a \<and> verify_audit_chain sha b \<and> audit_head_hash a = audit_head_hash b"
proof -
  have "verify_audit_chain sha audit_new"
    by (simp add: audit_new_def verify_audit_chain_links)
  moreover have "char_byte (CHR 0x1F) = 0x1f"
    by (simp add: char_byte_def)
  ultimately show ?thesis
    by (simp add: Let_def verify_audit_append)
      (simp add: audit_append_def audit_new_def audit_head_hash_def record_hash_def record_message_def
        as_bytes_def Let_def)
qed

end
