(* ===== verification/Custody.thy ===== *)
theory Custody
  imports AuditChain Machines Threshold
begin

text \<open>
  The life cycle of a custody key as a hash-chained log, \<^verbatim>\<open>crates/custody/src/lifecycle.rs\<close>, and the echo
  round that finds a sender of different messages, \<^verbatim>\<open>crates/custody/src/echo.rs\<close>. The log is an
  instance of \<open>hash_chain\<close> of theory \<open>AuditChain\<close>.
\<close>

section \<open>Life cycle events\<close>

datatype event_kind = Genesis | Rotation | Revocation

primrec event_tag :: "event_kind \<Rightarrow> byte" where
  "event_tag Genesis = 0"
| "event_tag Rotation = 1"
| "event_tag Revocation = 2"

record lifecycle_event =
  le_kind :: event_kind
  le_public_key :: bytes
  le_logical_time :: "64 word"
  le_prev_hash :: hash256
  le_hash :: hash256

definition event_message :: "event_kind \<Rightarrow> bytes \<Rightarrow> 64 word \<Rightarrow> hash256 \<Rightarrow> bytes" where
  "event_message kind public_key logical_time prev =
     [event_tag kind] @ public_key @ u64_to_be logical_time @ internal prev"

definition event_hash :: "(bytes \<Rightarrow> bytes) \<Rightarrow> event_kind \<Rightarrow> bytes \<Rightarrow> 64 word \<Rightarrow> hash256 \<Rightarrow> hash256" where
  "event_hash sha kind public_key logical_time prev =
     double_sha256 sha (event_message kind public_key logical_time prev)"

record key_custodian =
  kc_public_key :: bytes
  kc_revoked :: bool
  kc_events :: "lifecycle_event list"

definition custodian_new :: "(bytes \<Rightarrow> bytes) \<Rightarrow> bytes \<Rightarrow> 64 word \<Rightarrow> key_custodian" where
  "custodian_new sha public_key logical_time =
     (let prev_hash = from_internal (replicate 32 0);
          hash = event_hash sha Genesis public_key logical_time prev_hash;
          genesis = \<lparr>le_kind = Genesis, le_public_key = public_key, le_logical_time = logical_time,
                     le_prev_hash = prev_hash, le_hash = hash\<rparr>
      in \<lparr>kc_public_key = public_key, kc_revoked = False, kc_events = [genesis]\<rparr>)"

definition custodian_head_hash :: "key_custodian \<Rightarrow> hash256" where
  "custodian_head_hash c =
     (if kc_events c = [] then from_internal (replicate 32 0) else le_hash (last (kc_events c)))"

definition custodian_rotate :: "(bytes \<Rightarrow> bytes) \<Rightarrow> bytes \<Rightarrow> 64 word \<Rightarrow> (key_custodian, custody_error, unit) op" where
  "custodian_rotate sha new_public_key logical_time c =
     (if kc_revoked c then (Inl Revoked, c)
      else let prev_hash = custodian_head_hash c;
               hash = event_hash sha Rotation new_public_key logical_time prev_hash;
               event = \<lparr>le_kind = Rotation, le_public_key = new_public_key, le_logical_time = logical_time,
                        le_prev_hash = prev_hash, le_hash = hash\<rparr>
           in (Inr (), c\<lparr>kc_events := kc_events c @ [event], kc_public_key := new_public_key\<rparr>))"

definition custodian_revoke :: "(bytes \<Rightarrow> bytes) \<Rightarrow> 64 word \<Rightarrow> (key_custodian, custody_error, unit) op" where
  "custodian_revoke sha logical_time c =
     (if kc_revoked c then (Inl Revoked, c)
      else let prev_hash = custodian_head_hash c;
               hash = event_hash sha Revocation (kc_public_key c) logical_time prev_hash;
               event = \<lparr>le_kind = Revocation, le_public_key = kc_public_key c, le_logical_time = logical_time,
                        le_prev_hash = prev_hash, le_hash = hash\<rparr>
           in (Inr (), c\<lparr>kc_events := kc_events c @ [event], kc_revoked := True\<rparr>))"

fun lifecycle_loop :: "(bytes \<Rightarrow> bytes) \<Rightarrow> lifecycle_event list \<Rightarrow> (nat \<times> lifecycle_event) list \<Rightarrow> 64 word \<Rightarrow> bool \<Rightarrow> bool" where
  "lifecycle_loop sha events [] last_time seen_revocation = True"
| "lifecycle_loop sha events ((position, event) # rest) last_time seen_revocation =
     (if seen_revocation then False
      else if (if position = 0 then le_kind event \<noteq> Genesis else le_kind event = Genesis) then False
      else let expected = event_hash sha (le_kind event) (le_public_key event) (le_logical_time event) (le_prev_hash event) in
      if expected \<noteq> le_hash event then False
      else if position > 0 \<and>
              \<not> (case get_at events (position - 1) of
                    Some previous \<Rightarrow> le_hash previous = le_prev_hash event
                  | None \<Rightarrow> False) then False
      else if le_logical_time event < last_time then False
      else lifecycle_loop sha events rest (le_logical_time event)
             (if le_kind event = Revocation then True else seen_revocation))"

definition verify_lifecycle :: "(bytes \<Rightarrow> bytes) \<Rightarrow> lifecycle_event list \<Rightarrow> bool" where
  "verify_lifecycle sha events =
     (case events of
        [] \<Rightarrow> False
      | first # _ \<Rightarrow>
          if le_kind first \<noteq> Genesis \<or> le_prev_hash first \<noteq> from_internal (replicate 32 0) then False
          else lifecycle_loop sha events (enumerate 0 events) 0 False)"

section \<open>The echo round\<close>

record party_view =
  pv_receiver :: nat
  pv_messages :: "bytes list"

datatype echo_outcome = Consistent hash256 | Equivocator nat

definition transcript_message :: "bytes list \<Rightarrow> bytes" where
  "transcript_message messages =
     concat (map (\<lambda>(sender, message). nat_to_be 8 sender @ nat_to_be 8 (length message) @ message)
                 (enumerate 0 messages))"

definition transcript_hash :: "(bytes \<Rightarrow> bytes) \<Rightarrow> bytes list \<Rightarrow> hash256" where
  "transcript_hash sha messages = double_sha256 sha (transcript_message messages)"

fun sender_differs :: "nat \<Rightarrow> party_view list \<Rightarrow> bytes option \<Rightarrow> bool" where
  "sender_differs sender [] reference = False"
| "sender_differs sender (view # views) reference =
     (case get_at (pv_messages view) sender of
        None \<Rightarrow> sender_differs sender views reference
      | Some message \<Rightarrow>
          (case reference of
             None \<Rightarrow> sender_differs sender views (Some message)
           | Some seen \<Rightarrow> if seen \<noteq> message then True else sender_differs sender views reference))"

fun find_sender :: "party_view list \<Rightarrow> nat list \<Rightarrow> nat option" where
  "find_sender views [] = None"
| "find_sender views (sender # senders) =
     (if sender_differs sender views None then Some sender else find_sender views senders)"

definition run_echo_round :: "(bytes \<Rightarrow> bytes) \<Rightarrow> party_view list \<Rightarrow> echo_outcome" where
  "run_echo_round sha views =
     (case views of
        [] \<Rightarrow> Consistent (double_sha256 sha [])
      | first # _ \<Rightarrow>
          let agreed = transcript_hash sha (pv_messages first) in
          if list_all (\<lambda>view. internal (transcript_hash sha (pv_messages view)) = internal agreed) views
          then Consistent agreed
          else let sender_count = foldl max 0 (map (\<lambda>view. length (pv_messages view)) views) in
               case find_sender views [0..<sender_count] of
                 Some sender \<Rightarrow> Equivocator sender
               | None \<Rightarrow> Equivocator (sender_count - 1))"

section \<open>The log as a hash chain\<close>

definition lifecycle_message :: "lifecycle_event \<Rightarrow> bytes" where
  "lifecycle_message e = event_message (le_kind e) (le_public_key e) (le_logical_time e) (le_prev_hash e)"

text \<open>All fields have a fixed width.\<close>

definition lifecycle_typed :: "lifecycle_event \<Rightarrow> bool" where
  "lifecycle_typed e \<longleftrightarrow> length (le_public_key e) = 33 \<and> wf_hash (le_prev_hash e)"

lemma event_tag_inj: "event_tag a = event_tag b \<longleftrightarrow> a = b"
  by (cases a; cases b) simp_all

interpretation lifecycle: hash_chain lifecycle_message le_prev_hash le_hash lifecycle_typed
proof unfold_locales
  fix r s :: lifecycle_event
  assume "lifecycle_typed r" "lifecycle_typed s" "lifecycle_message r = lifecycle_message s" "le_hash r = le_hash s"
  then show "r = s"
    by (intro lifecycle_event.equality)
      (auto simp: lifecycle_typed_def lifecycle_message_def event_message_def event_tag_inj u64_to_be_inj byte_len
        intro: hash256.expand)
qed

fun tail_ok :: "(bytes \<Rightarrow> bytes) \<Rightarrow> hash256 \<Rightarrow> 64 word \<Rightarrow> bool \<Rightarrow> lifecycle_event list \<Rightarrow> bool" where
  "tail_ok sha p lt seen [] \<longleftrightarrow> True"
| "tail_ok sha p lt seen (e # es) \<longleftrightarrow>
     \<not> seen \<and> le_kind e \<noteq> Genesis \<and> double_sha256 sha (lifecycle_message e) = le_hash e \<and> le_prev_hash e = p \<and>
     lt \<le> le_logical_time e \<and> tail_ok sha (le_hash e) (le_logical_time e) (le_kind e = Revocation) es"

lemma lifecycle_loop_tail:
  assumes "pre \<noteq> []"
  shows "lifecycle_loop sha (pre @ es) (enumerate (length pre) es) lt seen \<longleftrightarrow> tail_ok sha (le_hash (last pre)) lt seen es"
  using assms
proof (induction es arbitrary: pre lt seen)
  case (Cons e es)
  have prev: "get_at (pre @ e # es) (length pre - Suc 0) = Some (last pre)"
    using Cons.prems by (simp add: get_at_def nth_append last_conv_nth)
  have IH: "lifecycle_loop sha (pre @ e # es) (enumerate (Suc (length pre)) es) lt seen \<longleftrightarrow>
      tail_ok sha (le_hash e) lt seen es" for lt seen
    using Cons.IH [of "pre @ [e]" lt seen] by simp
  show ?case
    using Cons.prems
    by (auto simp: prev IH Let_def event_hash_def lifecycle_message_def not_less)
qed simp

lemma verify_lifecycle_Cons:
  "verify_lifecycle sha (e # es) \<longleftrightarrow> le_kind e = Genesis \<and> le_prev_hash e = zero_hash \<and>
     double_sha256 sha (lifecycle_message e) = le_hash e \<and> tail_ok sha (le_hash e) (le_logical_time e) False es"
  using lifecycle_loop_tail [of "[e]" sha es]
  by (auto simp: verify_lifecycle_def zero_hash_def event_hash_def lifecycle_message_def Let_def)

lemma verify_lifecycle_Nil [simp]: "\<not> verify_lifecycle sha []"
  by (simp add: verify_lifecycle_def)

lemma tail_ok_links:
  "tail_ok sha p lt seen es \<Longrightarrow> hash_links sha lifecycle_message le_prev_hash le_hash p es"
  by (induction sha p lt seen es rule: tail_ok.induct) simp_all

lemma verify_lifecycle_links:
  "verify_lifecycle sha es \<Longrightarrow> hash_links sha lifecycle_message le_prev_hash le_hash zero_hash es"
  by (cases es) (auto simp: verify_lifecycle_Cons dest: tail_ok_links)

lemma tail_ok_snoc:
  "tail_ok sha p lt seen (es @ [e]) \<longleftrightarrow> tail_ok sha p lt seen es \<and>
     (if es = [] then tail_ok sha p lt seen [e]
      else tail_ok sha (le_hash (last es)) (le_logical_time (last es)) (le_kind (last es) = Revocation) [e])"
  by (induction es arbitrary: p lt seen) auto

lemma verify_lifecycle_snoc:
  assumes "verify_lifecycle sha es"
  shows "verify_lifecycle sha (es @ [e]) \<longleftrightarrow>
    tail_ok sha (le_hash (last es)) (le_logical_time (last es)) (le_kind (last es) = Revocation) [e]"
  using assms by (cases es) (auto simp: verify_lifecycle_Cons tail_ok_snoc)

section \<open>Runs of a custodian\<close>

datatype custody_op = Rotate bytes "64 word" | Revoke "64 word"

primrec op_time :: "custody_op \<Rightarrow> 64 word" where
  "op_time (Rotate pk t) = t"
| "op_time (Revoke t) = t"

primrec custody_step :: "(bytes \<Rightarrow> bytes) \<Rightarrow> custody_op \<Rightarrow> key_custodian \<Rightarrow> (custody_error + unit) \<times> key_custodian" where
  "custody_step sha (Rotate pk t) c = custodian_rotate sha pk t c"
| "custody_step sha (Revoke t) c = custodian_revoke sha t c"

definition custodian_inv :: "(bytes \<Rightarrow> bytes) \<Rightarrow> 64 word \<Rightarrow> key_custodian \<Rightarrow> bool" where
  "custodian_inv sha now c \<longleftrightarrow> verify_lifecycle sha (kc_events c) \<and>
     le_logical_time (last (kc_events c)) \<le> now \<and>
     kc_revoked c = (le_kind (last (kc_events c)) = Revocation) \<and>
     kc_public_key c = le_public_key (last (kc_events c))"

lemma custodian_new_inv: "custodian_inv sha t (custodian_new sha pk t)"
  by (simp add: custodian_inv_def custodian_new_def Let_def verify_lifecycle_Cons zero_hash_def event_hash_def
      lifecycle_message_def)

lemma custody_step_inv:
  assumes "custodian_inv sha now c" "now \<le> op_time e"
  shows "custodian_inv sha (op_time e) (snd (custody_step sha e c))"
proof -
  have v: "verify_lifecycle sha (kc_events c)" "kc_events c \<noteq> []"
    and t: "le_logical_time (last (kc_events c)) \<le> op_time e"
    using assms by (auto simp: custodian_inv_def)
  show ?thesis
    using assms(1) v t
    by (cases e) (auto simp: custodian_inv_def custodian_rotate_def custodian_revoke_def Let_def
        verify_lifecycle_snoc custodian_head_hash_def event_hash_def lifecycle_message_def)
qed

lemma custody_run_inv:
  assumes "custodian_inv sha now c" "sorted (now # map op_time es)"
  shows "\<exists>now'. custodian_inv sha now' (snd (run_machine (custody_step sha) es c))"
  using assms
proof (induction es arbitrary: now c)
  case (Cons e es)
  then have "custodian_inv sha (op_time e) (snd (custody_step sha e c))"
    by (intro custody_step_inv) auto
  with Cons show ?case
    by (auto simp: run_machine_Cons simp del: run_machine.simps(2))
qed auto

lemma custodian_head_chain: "custodian_head_hash c = chain_head le_hash zero_hash (kc_events c)"
  by (simp add: custodian_head_hash_def chain_head_def zero_hash_def)

section \<open>The echo transcript\<close>

lemma transcript_from_inj:
  assumes "concat (map (\<lambda>(i, m). nat_to_be 8 i @ nat_to_be 8 (length m) @ m) (enumerate n xs)) =
      concat (map (\<lambda>(i, m). nat_to_be 8 i @ nat_to_be 8 (length m) @ m) (enumerate n ys))"
    and "\<forall>m \<in> set xs \<union> set ys. length m < 2 ^ 64"
  shows "xs = ys"
  using assms
proof (induction xs arbitrary: n ys)
  case Nil
  show ?case
  proof (cases ys)
    case (Cons y zs)
    then show ?thesis
      using Nil(1) arg_cong [of _ _ length] by (auto dest: arg_cong [of _ _ length])
  qed simp
next
  case (Cons x xs)
  obtain y zs where ys: "ys = y # zs"
    using Cons.prems(1) by (cases ys) (auto dest: arg_cong [of _ _ length])
  let ?enc = "\<lambda>k ms. concat (map (\<lambda>(i, m). nat_to_be 8 i @ nat_to_be 8 (length m) @ m) (enumerate k ms))"
  have eq: "nat_to_be 8 (length x) @ x @ ?enc (Suc n) xs = nat_to_be 8 (length y) @ y @ ?enc (Suc n) zs"
    using Cons.prems(1) ys by simp
  then have l: "nat_to_be 8 (length x) = nat_to_be 8 (length y)"
    and rest: "x @ ?enc (Suc n) xs = y @ ?enc (Suc n) zs" by simp_all
  have "length x = length y"
    using l Cons.prems(2) ys by (intro nat_to_be_inj [of 8]) auto
  with rest have "x = y" "?enc (Suc n) xs = ?enc (Suc n) zs" by simp_all
  with Cons.IH [of "Suc n" zs] Cons.prems(2) ys show ?case by simp
qed

lemma transcript_inj:
  assumes "transcript_message xs = transcript_message ys" "\<forall>m \<in> set xs \<union> set ys. length m < 2 ^ 64"
  shows "xs = ys"
  using assms transcript_from_inj [of 0 xs ys] by (simp add: transcript_message_def)

lemma sender_differs_some:
  assumes "\<forall>v \<in> set views. sender < length (pv_messages v)"
  shows "sender_differs sender views (Some m) \<longleftrightarrow> (\<exists>v \<in> set views. pv_messages v ! sender \<noteq> m)"
  using assms by (induction views) (auto simp: get_at_def)

lemma sender_differs_iff:
  assumes "\<forall>v \<in> set views. sender < length (pv_messages v)"
  shows "sender_differs sender views None \<longleftrightarrow>
    (\<exists>v \<in> set views. \<exists>w \<in> set views. pv_messages v ! sender \<noteq> pv_messages w ! sender)"
proof (cases views)
  case (Cons v vs)
  then show ?thesis
    using assms sender_differs_some [of vs sender "pv_messages v ! sender"] by (auto simp: get_at_def)
qed simp

lemma find_sender_find: "find_sender views ss = find (\<lambda>s. sender_differs s views None) ss"
  by (induction ss) simp_all

lemma find_sender_first:
  "find_sender views [0..<b] = Some s \<Longrightarrow> s < b \<and> sender_differs s views None \<and>
     (\<forall>r < s. \<not> sender_differs r views None)"
  "find_sender views [0..<b] = None \<Longrightarrow> r < b \<Longrightarrow> \<not> sender_differs r views None"
  by (auto simp: find_sender_find find_Some_iff find_None_iff)

lemma foldl_max_const: "(\<forall>x \<in> set xs. x = n) \<Longrightarrow> xs \<noteq> [] \<Longrightarrow> foldl max 0 xs = (n :: nat)"
proof (induction xs rule: rev_induct)
  case (snoc x xs)
  then show ?case by (cases xs) auto
qed simp

section \<open>Properties\<close>


definition ex_pk :: "byte \<Rightarrow> bytes" where
  "ex_pk b = replicate 33 b"


text \<open>
  The custodian does not check the time it is given: a rotation at an
  earlier time than the previous event is accepted and recorded, and the log it leaves is one that
  the verification of the same module rejects, for good.
\<close>

lemma rotation_into_the_past:
  assumes "t' < t"
  shows "\<exists>c. custodian_rotate sha pk' t' (custodian_new sha pk t) = (Inr (), c) \<and>
    \<not> verify_lifecycle sha (kc_events c)"
  using assms
  by (simp add: custodian_rotate_def custodian_new_def Let_def verify_lifecycle_Cons not_le)

lemma transcripts_tell_apart:
  assumes "collision_free sha ((\<lambda>v. transcript_message (pv_messages v)) ` set views)"
    and "\<forall>v \<in> set views. \<forall>m \<in> set (pv_messages v). length m < 2 ^ 64" and "v \<in> set views" "w \<in> set views"
  shows "transcript_hash sha (pv_messages v) = transcript_hash sha (pv_messages w) \<longleftrightarrow> pv_messages v = pv_messages w"
  using collision_freeD [OF _ assms(1), of "transcript_message (pv_messages v)" "transcript_message (pv_messages w)"]
    transcript_inj [of "pv_messages v" "pv_messages w"] assms(2-4)
  by (auto simp: transcript_hash_def)

text \<open>The sender found by the search is the first whose messages differ between two views.\<close>

lemma find_sender_exact:
  assumes "\<forall>v \<in> set views. length (pv_messages v) = n" and "v \<in> set views" "w \<in> set views" "pv_messages v \<noteq> pv_messages w"
  obtains s where "find_sender views [0..<n] = Some s" "s < n"
    and "\<exists>v \<in> set views. \<exists>w \<in> set views. pv_messages v ! s \<noteq> pv_messages w ! s"
    and "\<forall>r < s. \<forall>v \<in> set views. \<forall>w \<in> set views. pv_messages v ! r = pv_messages w ! r"
proof -
  have diff: "sender_differs s views None \<longleftrightarrow>
      (\<exists>v \<in> set views. \<exists>w \<in> set views. pv_messages v ! s \<noteq> pv_messages w ! s)" if "s < n" for s
    using sender_differs_iff [of views s] that assms(1) by simp
  obtain r where "r < n" "pv_messages v ! r \<noteq> pv_messages w ! r"
    using assms by (auto simp: list_eq_iff_nth_eq)
  then have "sender_differs r views None" using diff assms(2,3) by auto
  then obtain s where s: "find_sender views [0..<n] = Some s"
    using find_sender_first(2) \<open>r < n\<close> by (cases "find_sender views [0..<n]") auto
  have first: "s < n" "sender_differs s views None" "\<And>r. r < s \<Longrightarrow> \<not> sender_differs r views None"
    using find_sender_first(1) [OF s] by auto
  have "\<forall>r < s. \<forall>v \<in> set views. \<forall>w \<in> set views. pv_messages v ! r = pv_messages w ! r"
    using first diff by (meson order.strict_trans)
  with s first(1) diff [OF first(1)] first(2) show ?thesis by (blast intro: that)
qed

text \<open>
  C33 [echo_identifies_equivocator] Over views of the same senders, the echo round reports agreement
  exactly when all receivers hold the same messages, and otherwise blames the first sender from whom
  two receivers hold different messages, without a collision of the digest among the transcripts.
\<close>

theorem echo_identifies_equivocator:
  assumes "views \<noteq> []" "\<forall>v \<in> set views. length (pv_messages v) = n"
    and "\<forall>v \<in> set views. \<forall>m \<in> set (pv_messages v). length m < 2 ^ 64"
    and "collision_free sha ((\<lambda>v. transcript_message (pv_messages v)) ` set views)"
  shows "case run_echo_round sha views of
      Consistent h \<Rightarrow> \<forall>v \<in> set views. \<forall>w \<in> set views. pv_messages v = pv_messages w
    | Equivocator s \<Rightarrow> s < n \<and>
        (\<exists>v \<in> set views. \<exists>w \<in> set views. pv_messages v ! s \<noteq> pv_messages w ! s) \<and>
        (\<forall>r < s. \<forall>v \<in> set views. \<forall>w \<in> set views. pv_messages v ! r = pv_messages w ! r)"
proof -
  obtain first rest where views: "views = first # rest" using assms(1) by (cases views) auto
  let ?same = "list_all (\<lambda>view. internal (transcript_hash sha (pv_messages view)) = internal (transcript_hash sha (pv_messages first))) views"
  have same: "?same \<longleftrightarrow> (\<forall>v \<in> set views. pv_messages v = pv_messages first)"
    using transcripts_tell_apart [OF assms(4,3)] views by (auto simp: list_all_iff intro: hash256.expand)
  show ?thesis
  proof (cases ?same)
    case True
    then have "run_echo_round sha views = Consistent (transcript_hash sha (pv_messages first))"
      by (simp add: run_echo_round_def views)
    with True same show ?thesis by simp
  next
    case False
    then obtain v where v: "v \<in> set views" "first \<in> set views" "pv_messages v \<noteq> pv_messages first" using same views by auto
    obtain s where s: "find_sender views [0..<n] = Some s" "s < n"
      "\<exists>v \<in> set views. \<exists>w \<in> set views. pv_messages v ! s \<noteq> pv_messages w ! s"
      "\<forall>r < s. \<forall>v \<in> set views. \<forall>w \<in> set views. pv_messages v ! r = pv_messages w ! r"
      using find_sender_exact [OF assms(2) v] .
    have "foldl max 0 (map (\<lambda>view. length (pv_messages view)) views) = n"
      using assms(1,2) by (intro foldl_max_const) auto
    then have "run_echo_round sha views = Equivocator s"
      using False s(1) by (simp add: run_echo_round_def views)
    then show ?thesis using s(2-4) by (simp only: echo_outcome.case simp_thms)
  qed
qed

theorem echo_identifies_equivocator_witness:
  "case run_echo_round len_digest [\<lparr>pv_receiver = 0, pv_messages = [[1], [2]]\<rparr>, \<lparr>pv_receiver = 1, pv_messages = [[1], [2, 3]]\<rparr>] of
     Consistent h \<Rightarrow> False
   | Equivocator s \<Rightarrow> s < 2"
proof -
  define a :: party_view where "a = \<lparr>pv_receiver = 0, pv_messages = [[1], [2]]\<rparr>"
  define b :: party_view where "b = \<lparr>pv_receiver = 1, pv_messages = [[1], [2, 3]]\<rparr>"
  have len: "length (transcript_message (pv_messages a)) = 34" "length (transcript_message (pv_messages b)) = 35"
    by (simp_all add: a_def b_def transcript_message_def)
  have "collision_free len_digest ((\<lambda>v. transcript_message (pv_messages v)) ` set [a, b])"
    using len by (intro collision_free_len_digest) (auto simp: inj_on_def)
  moreover have "pv_messages a \<noteq> pv_messages b" by (simp add: a_def b_def)
  ultimately show ?thesis
    unfolding a_def [symmetric] b_def [symmetric]
    using echo_identifies_equivocator [of "[a, b]" 2 len_digest]
    by (simp add: a_def b_def split: echo_outcome.splits)
qed

end
