(* ===== verification/NumberTheory.thy ===== *)
theory NumberTheory
  imports Complex_Main
begin

text \<open>
  The facts on residues that the big-integer arithmetic of \<^verbatim>\<open>crates/custody\<close> rests on: Fermat, the
  combination of two coprime moduli, and powers modulo a square.
\<close>

section \<open>Primes\<close>

definition big_prime :: "nat \<Rightarrow> bool" where
  "big_prime p \<longleftrightarrow> 1 < p \<and> (\<forall>d. d dvd p \<longrightarrow> d = 1 \<or> d = p)"

lemma big_prime_gt: "big_prime p \<Longrightarrow> 1 < p"
  by (simp add: big_prime_def)

lemma big_prime_coprime:
  assumes "big_prime p"
  shows "coprime p a \<longleftrightarrow> \<not> p dvd a"
proof
  assume "coprime p a"
  then show "\<not> p dvd a"
    using big_prime_gt [OF assms] by (metis coprime_common_divisor dvd_refl less_irrefl nat_dvd_1_iff_1)
next
  assume "\<not> p dvd a"
  moreover have "gcd p a = 1 \<or> gcd p a = p" using assms by (simp add: big_prime_def)
  ultimately show "coprime p a" by (metis coprime_iff_gcd_eq_1 gcd_dvd2)
qed

lemma big_primes_coprime:
  assumes "big_prime p" "big_prime q" "p \<noteq> q"
  shows "coprime p q"
  using assms big_prime_coprime [OF assms(1), of q] by (auto simp: big_prime_def)

lemma big_primes_product: "big_prime p \<Longrightarrow> big_prime q \<Longrightarrow> 1 < p * q"
  using less_1_mult [of p q] by (simp add: big_prime_def)

lemma big_prime_dvd_choose:
  assumes "big_prime p" "0 < k" "k < p"
  shows "p dvd (p choose k)"
proof -
  have "p dvd k * (p choose k)"
    using times_binomial_minus1_eq [OF assms(2)] by simp
  moreover have "coprime p k"
    using assms by (simp add: big_prime_coprime nat_dvd_not_less)
  ultimately show ?thesis by (simp add: coprime_dvd_mult_right_iff)
qed

lemma mod_sum_dvd:
  fixes f :: "'a \<Rightarrow> nat"
  assumes "finite S" "\<And>x. x \<in> S \<Longrightarrow> p dvd f x"
  shows "(a + sum f S) mod p = a mod p"
proof -
  have "p dvd sum f S" using assms(2) by (rule dvd_sum)
  then obtain c where "sum f S = p * c" ..
  then show ?thesis by simp
qed

section \<open>Powers modulo a prime\<close>

lemma freshman:
  assumes "big_prime p"
  shows "(a + 1) ^ p mod p = (a ^ p + 1) mod p"
proof -
  have p: "1 < p" using assms by (rule big_prime_gt)
  have s: "{..p} = insert 0 (insert p {1..<p})" using p by auto
  have "(a + 1) ^ p = (\<Sum>k\<le>p. (p choose k) * a ^ k)"
    using binomial [of a 1 p] by simp
  also have "\<dots> = (a ^ p + 1) + (\<Sum>k\<in>{1..<p}. (p choose k) * a ^ k)"
    unfolding s using p by simp
  also have "\<dots> mod p = (a ^ p + 1) mod p"
    by (rule mod_sum_dvd) (use big_prime_dvd_choose [OF assms] in auto)
  finally show ?thesis .
qed

lemma fermat_power:
  assumes "big_prime p"
  shows "a ^ p mod p = a mod p"
proof (induction a)
  case 0
  then show ?case using big_prime_gt [OF assms] by (simp add: power_0_left)
next
  case (Suc a)
  have "Suc a ^ p mod p = (a ^ p + 1) mod p" using freshman [OF assms, of a] by simp
  also have "\<dots> = (a mod p + 1) mod p" using Suc by (metis mod_add_left_eq)
  finally show ?case by (simp add: mod_Suc_eq)
qed

lemma mult_cancel_mod:
  fixes c :: nat
  assumes "coprime c m" "c * a mod m = c * b mod m"
  shows "a mod m = b mod m"
proof -
  have *: "x mod m = y mod m" if "c * x mod m = c * y mod m" "y \<le> x" for x y
  proof -
    have "m dvd c * x - c * y" using that by (simp add: mod_eq_dvd_iff_nat)
    then have "m dvd c * (x - y)" by (simp add: diff_mult_distrib2)
    then have "m dvd x - y" using assms(1) by (simp add: coprime_dvd_mult_right_iff coprime_commute)
    then show ?thesis using that(2) by (simp add: mod_eq_dvd_iff_nat)
  qed
  show ?thesis using * [of a b] * [of b a] assms(2) by (cases "b \<le> a") auto
qed

lemma fermat:
  assumes "big_prime p" "\<not> p dvd a"
  shows "a ^ (p - 1) mod p = 1"
proof -
  have p: "1 < p" using assms(1) by (rule big_prime_gt)
  have "a * a ^ (p - 1) mod p = a * 1 mod p"
  proof -
    have "a * a ^ (p - 1) = a ^ p" using p by (cases p) simp_all
    then show ?thesis using fermat_power [OF assms(1), of a] by (simp only: mult_1_right)
  qed
  then have "a ^ (p - 1) mod p = 1 mod p"
    by (rule mult_cancel_mod [rotated]) (use assms big_prime_coprime coprime_commute in blast)
  then show ?thesis using p by simp
qed

lemma power_one_mod:
  fixes a :: nat
  assumes "a ^ k mod m = 1 mod m" "k dvd l"
  shows "a ^ l mod m = 1 mod m"
proof -
  obtain j where "l = k * j" using assms(2) ..
  then show ?thesis using assms(1) power_mod [of "a ^ k" m j] power_mod [of 1 m j] by (simp only: power_mult power_one)
qed

lemma fermat_multiple:
  assumes "big_prime p" "\<not> p dvd a" "p - 1 dvd l"
  shows "a ^ l mod p = 1 mod p"
  by (rule power_one_mod [OF _ assms(3)]) (use fermat [OF assms(1,2)] big_prime_gt [OF assms(1)] in simp)

lemma fermat_fixed:
  assumes "big_prime p" "p - 1 dvd l"
  shows "a ^ (l + 1) mod p = a mod p"
proof (cases "p dvd a")
  case False
  have "a ^ (l + 1) mod p = a * (a ^ l mod p) mod p" by (simp add: mod_mult_right_eq)
  also have "\<dots> = a mod p" using fermat_multiple [OF assms(1) False assms(2)] by (simp add: mod_mult_right_eq)
  finally show ?thesis .
qed simp

section \<open>Two moduli\<close>

lemma mod_mult_coprime:
  fixes a b p q :: nat
  assumes "coprime p q" "a mod p = b mod p" "a mod q = b mod q"
  shows "a mod (p * q) = b mod (p * q)"
proof -
  have *: "x mod (p * q) = y mod (p * q)" if "x mod p = y mod p" "x mod q = y mod q" "y \<le> x" for x y
    using that assms(1) by (simp add: mod_eq_dvd_iff_nat divides_mult)
  show ?thesis using * [of a b] * [of b a] assms by (cases "b \<le> a") auto
qed

section \<open>Powers modulo a square\<close>

lemma power_linear:
  fixes n :: nat
  shows "(1 + k * n) ^ e mod (n * n) = (1 + e * k * n) mod (n * n)"
proof (induction e)
  case (Suc e)
  have "(1 + k * n) ^ Suc e mod (n * n) = (1 + k * n) * ((1 + k * n) ^ e mod (n * n)) mod (n * n)"
    by (simp only: power_Suc mod_mult_right_eq)
  also have "\<dots> = (1 + k * n) * (1 + e * k * n) mod (n * n)"
    unfolding Suc by (simp only: mod_mult_right_eq)
  also have "(1 + k * n) * (1 + e * k * n) = 1 + Suc e * k * n + (k * e * k) * (n * n)"
    by (simp add: algebra_simps)
  finally show ?case by simp
qed simp

lemma power_lift:
  fixes n :: nat
  assumes "a mod n = b mod n"
  shows "a ^ n mod (n * n) = b ^ n mod (n * n)"
proof -
  have *: "x ^ n mod (n * n) = y ^ n mod (n * n)" if xy: "x mod n = y mod n" "y \<le> x" for x y :: nat
  proof -
    obtain t where x: "x = y + n * t" using xy by (metis mod_eq_nat1E)
    have "(y + n * t) ^ n = y ^ n + (\<Sum>k<n. (n choose k) * y ^ k * (n * t) ^ (n - k))"
      unfolding binomial by (simp add: lessThan_Suc_atMost [symmetric])
    also have "\<dots> mod (n * n) = y ^ n mod (n * n)"
    proof (rule mod_sum_dvd)
      fix k assume "k \<in> {..<n}"
      then have k: "k < n" by simp
      show "n * n dvd (n choose k) * y ^ k * (n * t) ^ (n - k)"
      proof (cases "n - k = 1")
        case True
        then have "n choose k = n" using k binomial_symmetric [of k n] by simp
        then show ?thesis using True by (simp add: ac_simps)
      next
        case False
        then have "n - k = 2 + (n - k - 2)" using k by simp
        then have "(n * t) ^ (n - k) = (n * t) ^ 2 * (n * t) ^ (n - k - 2)" by (metis power_add)
        then show ?thesis by (simp add: power2_eq_square ac_simps)
      qed
    qed simp
    finally show ?thesis using x by simp
  qed
  show ?thesis using * [of a b] * [of b a] assms by (cases "b \<le> a") auto
qed

end
