(* ===== verification/Paillier.thy ===== *)
theory Paillier
  imports NumberTheory Threshold
begin

text \<open>
  Paillier encryption, \<^verbatim>\<open>crates/custody/src/paillier.rs\<close>. A \<open>BigUint\<close> is a natural number, with the
  arithmetic of the numbers; what the big-integer crate draws at random and the inverse it computes
  are the record \<open>big_ops\<close>. Draws count up the same position as those of \<open>rng\<close>. The loop that draws
  a second prime until it differs from the first may run for ever, so key generation returns an
  option, with \<open>None\<close> for a run that does not end.
\<close>

section \<open>Parameters\<close>

record big_ops =
  bi_below :: "nat \<Rightarrow> nat \<Rightarrow> nat"
  bi_prime :: "nat \<Rightarrow> nat \<Rightarrow> nat"
  bi_inverse :: "nat \<Rightarrow> nat \<Rightarrow> nat option"

definition big_law :: "big_ops \<Rightarrow> bool" where
  "big_law b \<longleftrightarrow> (\<forall>bound i. 0 < bound \<longrightarrow> bi_below b bound i < bound) \<and>
     (\<forall>bits i. 256 \<le> bits \<longrightarrow> big_prime (bi_prime b bits i) \<and> odd (bi_prime b bits i)) \<and>
     (\<forall>a m x. bi_inverse b a m = Some x \<longrightarrow> a * x mod m = 1 mod m)"

definition powmod :: "nat \<Rightarrow> nat \<Rightarrow> nat \<Rightarrow> nat" where
  "powmod a e m = a ^ e mod m"

definition below :: "big_ops \<Rightarrow> nat \<Rightarrow> nat cus_draw" where
  "below b bound i = (Inr (bi_below b bound i), Suc i)"

type_synonym 'a cus_may = "nat \<Rightarrow> ((custody_error + 'a) \<times> nat) option"

definition may_bind :: "'a cus_may \<Rightarrow> ('a \<Rightarrow> 'b cus_may) \<Rightarrow> 'b cus_may" where
  "may_bind m f i =
     (case m i of
        None \<Rightarrow> None
      | Some (Inl e, j) \<Rightarrow> Some (Inl e, j)
      | Some (Inr x, j) \<Rightarrow> f x j)"

definition may_draw :: "'a cus_draw \<Rightarrow> 'a cus_may" where
  "may_draw m i = Some (m i)"

section \<open>Keys\<close>

record paillier_public =
  pp_n :: nat
  pp_nn :: nat

record paillier_private =
  pk_public :: paillier_public
  pk_lambda :: nat
  pk_mu :: nat

fun nonce_loop :: "big_ops \<Rightarrow> nat \<Rightarrow> nat \<Rightarrow> nat cus_draw" where
  "nonce_loop b bound 0 = op_fail CusRandom"
| "nonce_loop b bound (Suc tries) =
     op_bind (below b bound) (\<lambda>candidate.
     if candidate \<noteq> 0 then op_return candidate else nonce_loop b bound tries)"

definition random_nonce :: "big_ops \<Rightarrow> paillier_public \<Rightarrow> nat cus_draw" where
  "random_nonce b pub = nonce_loop b (pp_n pub) 16"

definition encrypt_with :: "paillier_public \<Rightarrow> nat \<Rightarrow> nat \<Rightarrow> nat" where
  "encrypt_with pub m r =
     (let gm = (1 + m * pp_n pub) mod pp_nn pub;
          rn = powmod r (pp_n pub) (pp_nn pub)
      in (gm * rn) mod pp_nn pub)"

definition paillier_encrypt :: "big_ops \<Rightarrow> paillier_public \<Rightarrow> nat \<Rightarrow> nat cus_draw" where
  "paillier_encrypt b pub m = op_bind (random_nonce b pub) (\<lambda>r. op_return (encrypt_with pub m r))"

definition paillier_add :: "paillier_public \<Rightarrow> nat \<Rightarrow> nat \<Rightarrow> nat" where
  "paillier_add pub c1 c2 = (c1 * c2) mod pp_nn pub"

definition mul_const :: "paillier_public \<Rightarrow> nat \<Rightarrow> nat \<Rightarrow> nat" where
  "mul_const pub c k = powmod c k (pp_nn pub)"

partial_function (option) distinct_prime :: "big_ops \<Rightarrow> nat \<Rightarrow> nat \<Rightarrow> nat \<Rightarrow> nat \<Rightarrow> (nat \<times> nat) option" where
  "distinct_prime b prime_bits p q i =
     (if q = p then distinct_prime b prime_bits p (bi_prime b prime_bits i) (Suc i) else Some (q, i))"

definition two_primes :: "big_ops \<Rightarrow> nat \<Rightarrow> (nat \<times> nat) cus_may" where
  "two_primes b prime_bits i =
     (let p = bi_prime b prime_bits i in
      case distinct_prime b prime_bits p (bi_prime b prime_bits (Suc i)) (Suc (Suc i)) of
        None \<Rightarrow> None
      | Some (q, j) \<Rightarrow> Some (Inr (p, q), j))"

definition paillier_generate :: "big_ops \<Rightarrow> nat \<Rightarrow> paillier_private cus_may" where
  "paillier_generate b modulus_bits =
     (if modulus_bits < 768 then may_draw (op_fail CusBadParams)
      else may_bind (two_primes b (modulus_bits div 2)) (\<lambda>(p, q).
        let n = p * q;
            lambda = lcm (p - 1) (q - 1)
        in may_draw (op_bind (op_lift (ok_or (bi_inverse b lambda n) CusBadParams)) (\<lambda>mu.
             op_return \<lparr>pk_public = \<lparr>pp_n = n, pp_nn = n * n\<rparr>, pk_lambda = lambda, pk_mu = mu\<rparr>))))"

text \<open>\<open>None\<close> stands for the panic of the subtraction \<open>u - 1\<close> when \<open>u\<close> is zero.\<close>

definition paillier_decrypt :: "paillier_private \<Rightarrow> nat \<Rightarrow> nat option" where
  "paillier_decrypt key c =
     (let u = powmod c (pk_lambda key) (pp_nn (pk_public key))
      in if u < 1 then None
         else let l = (u - 1) div pp_n (pk_public key) in Some ((l * pk_mu key) mod pp_n (pk_public key)))"

section \<open>Well-formed keys\<close>

definition paillier_wf :: "paillier_private \<Rightarrow> bool" where
  "paillier_wf key \<longleftrightarrow> (\<exists>p q. big_prime p \<and> big_prime q \<and> odd p \<and> odd q \<and> p \<noteq> q \<and>
     key = \<lparr>pk_public = \<lparr>pp_n = p * q, pp_nn = p * q * (p * q)\<rparr>, pk_lambda = lcm (p - 1) (q - 1), pk_mu = pk_mu key\<rparr> \<and>
     pk_lambda key * pk_mu key mod (p * q) = 1)"

lemma distinct_prime_Some:
  assumes "distinct_prime b bits p q i = Some (r, j)"
  shows "r \<noteq> p \<and> (r = q \<or> (\<exists>k. r = bi_prime b bits k))"
proof -
  have "fst (r, j) \<noteq> p \<and> (fst (r, j) = q \<or> (\<exists>k. fst (r, j) = bi_prime b bits k))"
    by (rule distinct_prime.raw_induct [where P = "\<lambda>b bits p q i x. fst x \<noteq> p \<and> (fst x = q \<or> (\<exists>k. fst x = bi_prime b bits k))",
          OF _ assms]) (fastforce split: if_splits)
  then show ?thesis by simp
qed

lemma distinct_prime_returns:
  "bi_prime b bits (i + k) \<noteq> p \<Longrightarrow> \<exists>r. distinct_prime b bits p q i = Some r"
proof (induction k arbitrary: q i)
  case 0
  then show ?case by (subst distinct_prime.simps, subst distinct_prime.simps) simp
next
  case (Suc k)
  then show ?case using Suc.IH [of "Suc i" "bi_prime b bits i"] by (subst distinct_prime.simps) simp
qed

lemma two_primes_ok:
  assumes "two_primes b bits i = Some (Inr (p, q), j)"
  obtains k where "p = bi_prime b bits i" "q = bi_prime b bits k" "p \<noteq> q"
proof -
  have "p = bi_prime b bits i" "p \<noteq> q" "\<exists>k. q = bi_prime b bits k"
    using assms by (auto simp: two_primes_def Let_def split: option.splits dest!: distinct_prime_Some)
  then show thesis using that by blast
qed

lemma generate_ok:
  assumes "paillier_generate b bits i = Some (Inr key, j)"
  obtains p q k mu where "768 \<le> bits" "two_primes b (bits div 2) i = Some (Inr (p, q), k)"
    "bi_inverse b (lcm (p - 1) (q - 1)) (p * q) = Some mu"
    "key = \<lparr>pk_public = \<lparr>pp_n = p * q, pp_nn = p * q * (p * q)\<rparr>, pk_lambda = lcm (p - 1) (q - 1), pk_mu = mu\<rparr>"
  using assms
  by (auto simp: paillier_generate_def may_bind_def may_draw_def op_fail_def op_return_def op_lift_def Let_def
      split: if_splits option.splits prod.splits sum.splits elim!: op_bind_okE)

lemma generate_wf:
  assumes "big_law b" "paillier_generate b bits i = Some (Inr key, j)"
  shows "paillier_wf key"
  using assms(2)
proof (rule generate_ok)
  fix p q k mu
  assume bits: "768 \<le> bits" and pq: "two_primes b (bits div 2) i = Some (Inr (p, q), k)"
    and mu: "bi_inverse b (lcm (p - 1) (q - 1)) (p * q) = Some mu"
    and key: "key = \<lparr>pk_public = \<lparr>pp_n = p * q, pp_nn = p * q * (p * q)\<rparr>, pk_lambda = lcm (p - 1) (q - 1), pk_mu = mu\<rparr>"
  obtain k' where k': "p = bi_prime b (bits div 2) i" "q = bi_prime b (bits div 2) k'" "p \<noteq> q"
    using two_primes_ok [OF pq] by metis
  have "big_prime (bi_prime b (bits div 2) l)" "odd (bi_prime b (bits div 2) l)" for l
    using assms(1) bits by (simp_all add: big_law_def)
  then have ps: "big_prime p" "big_prime q" "odd p" "odd q"
    unfolding k'(1,2) by simp_all
  moreover have "1 < p * q" using ps(1,2) by (rule big_primes_product)
  then have "lcm (p - 1) (q - 1) * mu mod (p * q) = 1"
    using mu assms(1) by (auto simp: big_law_def)
  ultimately show ?thesis using k'(3) unfolding paillier_wf_def key by (intro exI [of _ p] exI [of _ q]) simp
qed

lemma generate_large:
  assumes "paillier_generate b bits i = Some (Inr key, j)"
    and "\<forall>bits i. 256 \<le> bits \<longrightarrow> 2 ^ (bits - 1) \<le> bi_prime b bits i"
  shows "2 ^ 766 \<le> pp_n (pk_public key)"
  using assms(1)
proof (rule generate_ok)
  fix p q k mu
  assume bits: "768 \<le> bits" and pq: "two_primes b (bits div 2) i = Some (Inr (p, q), k)"
    and key: "key = \<lparr>pk_public = \<lparr>pp_n = p * q, pp_nn = p * q * (p * q)\<rparr>, pk_lambda = lcm (p - 1) (q - 1), pk_mu = mu\<rparr>"
  obtain k' where k': "p = bi_prime b (bits div 2) i" "q = bi_prime b (bits div 2) k'"
    using two_primes_ok [OF pq] by metis
  have "2 ^ (bits div 2 - 1) \<le> bi_prime b (bits div 2) l" for l
    using assms(2) bits by simp
  then have "2 ^ (bits div 2 - 1) * 2 ^ (bits div 2 - 1) \<le> p * q"
    unfolding k' by (intro mult_le_mono) simp_all
  moreover have "(2 :: nat) ^ (383 + 383) \<le> 2 ^ (bits div 2 - 1 + (bits div 2 - 1))"
  proof -
    have "383 \<le> bits div 2 - 1" using bits by presburger
    then show ?thesis by (intro power_increasing add_mono) simp_all
  qed
  ultimately show ?thesis unfolding key by (simp add: power_add)
qed

lemma generate_returns:
  assumes "bi_prime b (bits div 2) i \<noteq> bi_prime b (bits div 2) (i + 2 + k)"
  shows "\<exists>r. paillier_generate b bits i = Some r"
proof -
  obtain r where "distinct_prime b (bits div 2) (bi_prime b (bits div 2) i) (bi_prime b (bits div 2) (Suc i)) (Suc (Suc i)) = Some r"
    using distinct_prime_returns [of b "bits div 2" "i + 2" k "bi_prime b (bits div 2) i"] assms by fastforce
  then show ?thesis
    by (auto simp: paillier_generate_def may_bind_def may_draw_def two_primes_def Let_def split: prod.splits)
qed

section \<open>Decryption\<close>

text \<open>\<open>affine pub base x y s c\<close>: modulo the square, \<open>c\<close> is \<open>base\<close> to the \<open>x\<close> times an encryption of \<open>y\<close> with
  nonce \<open>s\<close>. With \<open>base = 1\<close> this is a ciphertext, reduced or not.\<close>

definition public_wf :: "paillier_public \<Rightarrow> bool" where
  "public_wf pub \<longleftrightarrow> pp_nn pub = pp_n pub * pp_n pub"

definition affine :: "paillier_public \<Rightarrow> nat \<Rightarrow> nat \<Rightarrow> nat \<Rightarrow> nat \<Rightarrow> nat \<Rightarrow> bool" where
  "affine pub base x y s c \<longleftrightarrow> c mod pp_nn pub = base ^ x * (1 + y * pp_n pub) * s ^ pp_n pub mod pp_nn pub"

abbreviation encodes :: "paillier_public \<Rightarrow> nat \<Rightarrow> nat \<Rightarrow> nat \<Rightarrow> bool" where
  "encodes pub \<equiv> affine pub 1 0"

lemma affine_mod [simp]: "affine pub base x y s (c mod pp_nn pub) \<longleftrightarrow> affine pub base x y s c"
  by (simp add: affine_def)

lemma affine_mult:
  assumes "public_wf pub" "affine pub base x y s c" "affine pub base x' y' s' c'"
  shows "affine pub base (x + x') (y + y') (s * s') (c * c')"
proof -
  define n where "n = pp_n pub"
  have "c * c' mod (n * n) = (base ^ x * (1 + y * n) * s ^ n) * (base ^ x' * (1 + y' * n) * s' ^ n) mod (n * n)"
    using assms unfolding affine_def public_wf_def n_def by (metis mod_mult_cong)
  also have "(base ^ x * (1 + y * n) * s ^ n) * (base ^ x' * (1 + y' * n) * s' ^ n) =
      base ^ (x + x') * (1 + (y + y') * n) * (s * s') ^ n + (base ^ (x + x') * y * y' * (s * s') ^ n) * (n * n)"
    by (simp add: algebra_simps power_mult_distrib power_add)
  finally show ?thesis using assms(1) by (simp add: affine_def public_wf_def n_def)
qed

lemma affine_power:
  assumes "public_wf pub" "affine pub base x y s c"
  shows "affine pub base (k * x) (k * y) (s ^ k) (c ^ k)"
proof (induction k)
  case (Suc k)
  from affine_mult [OF assms(1) this assms(2)] show ?case by (simp add: mult.commute add.commute)
qed (simp add: affine_def)

lemma affine_unique:
  assumes "public_wf pub" "affine pub base x y s c" "affine pub base x y s' c'" "s mod pp_n pub = s' mod pp_n pub"
  shows "c mod pp_nn pub = c' mod pp_nn pub"
  using assms power_lift [OF assms(4)] unfolding affine_def public_wf_def by (metis mod_mult_right_eq)

lemma affine_encrypt_with: "encodes pub m r (encrypt_with pub m r)"
  by (simp add: affine_def encrypt_with_def powmod_def Let_def mod_mult_eq)

lemma nonce_power_one:
  assumes "big_prime p" "big_prime q" "p \<noteq> q" "coprime r (p * q)"
  shows "(r ^ (p * q)) ^ lcm (p - 1) (q - 1) mod (p * q * (p * q)) = 1 mod (p * q * (p * q))"
proof -
  let ?l = "lcm (p - 1) (q - 1)"
  have *: "(r ^ (s * t)) ^ l mod (s * s) = 1 mod (s * s)"
    if "big_prime s" "coprime r s" "s - 1 dvd l" for s t l
  proof -
    have "r ^ l mod s = 1 mod s"
      using that by (intro fermat_multiple) (auto simp: big_prime_coprime [symmetric] coprime_commute)
    then have "(r ^ l) ^ s mod (s * s) = 1 ^ s mod (s * s)" by (rule power_lift)
    then have "(r ^ l) ^ s mod (s * s) = 1 mod (s * s)" by simp
    then have "((r ^ l) ^ s) ^ t mod (s * s) = 1 mod (s * s)"
      using power_one_mod [of "(r ^ l) ^ s" 1 "s * s" t] by simp
    then show ?thesis by (simp only: power_mult [symmetric] ac_simps)
  qed
  have "coprime (p * p) (q * q)" using big_primes_coprime [OF assms(1-3)] by simp
  moreover have "(r ^ (p * q)) ^ ?l mod (p * p) = 1 mod (p * p)"
    by (rule *) (use assms in simp_all)
  moreover have "(r ^ (p * q)) ^ ?l mod (q * q) = 1 mod (q * q)"
    using * [of q ?l p] assms by (simp add: mult.commute)
  ultimately have "(r ^ (p * q)) ^ ?l mod (p * p * (q * q)) = 1 mod (p * p * (q * q))"
    by (rule mod_mult_coprime)
  then show ?thesis by (simp only: ac_simps)
qed

lemma linear_mod_square:
  fixes n :: nat
  assumes "1 < n"
  shows "(1 + x * n) mod (n * n) = 1 + (x mod n) * n"
proof -
  have "1 + x * n = 1 + (x mod n) * n + (x div n) * (n * n)"
    by (metis add.assoc add_mult_distrib mult.assoc mod_div_mult_eq)
  then have "(1 + x * n) mod (n * n) = (1 + (x mod n) * n) mod (n * n)" by (metis mod_mult_self1)
  moreover have "1 + (x mod n) * n < n * n"
  proof -
    have "Suc (x mod n) * n \<le> n * n" using assms by (intro mult_le_mono1) (simp add: Suc_le_eq)
    then show ?thesis using assms by simp
  qed
  ultimately show ?thesis by simp
qed

lemma decrypt_encodes:
  assumes "paillier_wf key" "encodes (pk_public key) m r c" "coprime r (pp_n (pk_public key))"
  shows "paillier_decrypt key c = Some (m mod pp_n (pk_public key))"
proof -
  obtain p q where pq: "big_prime p" "big_prime q" "p \<noteq> q" and mu: "lcm (p - 1) (q - 1) * pk_mu key mod (p * q) = 1"
    and key: "pp_n (pk_public key) = p * q" "pp_nn (pk_public key) = p * q * (p * q)" "pk_lambda key = lcm (p - 1) (q - 1)"
    using assms(1) unfolding paillier_wf_def by (metis paillier_private.select_convs(1,2) paillier_public.select_convs)
  define n l where "n = p * q" and "l = lcm (p - 1) (q - 1)"
  have n: "1 < n" unfolding n_def using pq(1,2) by (rule big_primes_product)
  have "powmod c l (n * n) = (c mod (n * n)) ^ l mod (n * n)" by (simp add: powmod_def power_mod)
  also have "\<dots> = ((1 + m * n) * r ^ n) ^ l mod (n * n)"
    using assms(2) by (simp add: affine_def key n_def power_mod)
  also have "\<dots> = ((1 + m * n) ^ l mod (n * n)) * ((r ^ n) ^ l mod (n * n)) mod (n * n)"
    by (simp only: power_mult_distrib mod_mult_eq)
  also have "\<dots> = (1 + l * m * n) mod (n * n)"
    using nonce_power_one [OF pq, of r] assms(3) unfolding power_linear key(1) n_def [symmetric] l_def [symmetric]
    by (simp only: mod_mult_eq mult_1_right)
  also have "\<dots> = 1 + (l * m mod n) * n" by (rule linear_mod_square [OF n])
  finally have u: "powmod c l (n * n) = 1 + (l * m mod n) * n" .
  have "(l * m mod n) * pk_mu key mod n = l * pk_mu key * m mod n"
    by (simp only: mod_mult_left_eq) (simp only: ac_simps)
  also have "\<dots> = m mod n"
    using mu unfolding l_def [symmetric] n_def [symmetric] by (metis mod_mult_left_eq mult_1)
  finally show ?thesis
    using u n unfolding paillier_decrypt_def key n_def [symmetric] l_def [symmetric] by (simp add: Let_def)
qed

section \<open>Additive encryption\<close>

text \<open>What the share conversion relies on. \<open>holds key m c\<close> says that \<open>c\<close> encrypts \<open>m\<close> under \<open>key\<close>.\<close>

locale additive_encryption =
  fixes holds :: "'k \<Rightarrow> nat \<Rightarrow> 'c \<Rightarrow> bool" and modulus :: "'k \<Rightarrow> nat"
    and add_c :: "'k \<Rightarrow> 'c \<Rightarrow> 'c \<Rightarrow> 'c" and scale :: "'k \<Rightarrow> 'c \<Rightarrow> nat \<Rightarrow> 'c" and dec :: "'k \<Rightarrow> 'c \<Rightarrow> nat option"
  assumes holds_add: "holds key a c \<Longrightarrow> holds key b d \<Longrightarrow> holds key (a + b) (add_c key c d)"
    and holds_scale: "holds key a c \<Longrightarrow> holds key (k * a) (scale key c k)"
    and holds_dec: "holds key a c \<Longrightarrow> dec key c = Some (a mod modulus key)"
begin

lemma linear_response:
  assumes "holds key a c" "holds key s d" "a * b + s < modulus key"
  shows "dec key (add_c key (scale key c b) d) = Some (a * b + s)"
  using holds_dec [OF holds_add [OF holds_scale [OF assms(1), of b] assms(2)]] assms(3) by (simp add: mult.commute)

lemma shares_of_product:
  assumes "holds key a c" "holds key s d" "a * b + s < modulus key" "of_nat q = (0 :: 'f::comm_ring_1)"
  obtains v where "dec key (add_c key (scale key c b) d) = Some v"
    "of_nat (v mod q) + - of_nat s = (of_nat a * of_nat b :: 'f)"
proof
  show "dec key (add_c key (scale key c b) d) = Some (a * b + s)"
    using assms(1-3) by (rule linear_response)
  have "of_nat (v mod q) = (of_nat v :: 'f)" for v
  proof -
    have "(of_nat v :: 'f) = of_nat (v div q * q + v mod q)" by simp
    also have "\<dots> = of_nat (v mod q)" unfolding of_nat_add of_nat_mult assms(4) by simp
    finally show ?thesis ..
  qed
  then show "of_nat ((a * b + s) mod q) + - of_nat s = (of_nat a * of_nat b :: 'f)" by simp
qed

end

definition paillier_holds :: "paillier_private \<Rightarrow> nat \<Rightarrow> nat \<Rightarrow> bool" where
  "paillier_holds key m c \<longleftrightarrow> paillier_wf key \<and> (\<exists>r. coprime r (pp_n (pk_public key)) \<and> encodes (pk_public key) m r c)"

lemma paillier_wf_public: "paillier_wf key \<Longrightarrow> public_wf (pk_public key)"
  unfolding paillier_wf_def public_wf_def by (metis paillier_private.select_convs(1) paillier_public.select_convs)

lemma encrypt_with_holds:
  assumes "paillier_wf key" "coprime r (pp_n (pk_public key))"
  shows "paillier_holds key m (encrypt_with (pk_public key) m r)"
  unfolding paillier_holds_def using assms affine_encrypt_with by blast

interpretation paillier: additive_encryption paillier_holds "\<lambda>key. pp_n (pk_public key)"
  "\<lambda>key. paillier_add (pk_public key)" "\<lambda>key. mul_const (pk_public key)" paillier_decrypt
proof
  fix key a c b d k
  show "paillier_holds key (a + b) (paillier_add (pk_public key) c d)"
    if c: "paillier_holds key a c" and d: "paillier_holds key b d"
  proof -
    obtain r s where "coprime r (pp_n (pk_public key))" "encodes (pk_public key) a r c"
      "coprime s (pp_n (pk_public key))" "encodes (pk_public key) b s d" and wf: "paillier_wf key"
      using c d unfolding paillier_holds_def by blast
    moreover from this have "encodes (pk_public key) (a + b) (r * s) (c * d)"
      using affine_mult [OF paillier_wf_public [OF wf], of 1 0 a r c 0 b s d] by simp
    ultimately show ?thesis
      unfolding paillier_holds_def paillier_add_def by (intro conjI exI [of _ "r * s"]) simp_all
  qed
  show "paillier_holds key (k * a) (mul_const (pk_public key) c k)" if c: "paillier_holds key a c"
  proof -
    obtain r where "coprime r (pp_n (pk_public key))" "encodes (pk_public key) a r c" and wf: "paillier_wf key"
      using c unfolding paillier_holds_def by blast
    moreover from this have "encodes (pk_public key) (k * a) (r ^ k) (c ^ k)"
      using affine_power [OF paillier_wf_public [OF wf], of 1 0 a r c k] by simp
    ultimately show ?thesis
      unfolding paillier_holds_def mul_const_def powmod_def by (intro conjI exI [of _ "r ^ k"]) simp_all
  qed
  show "paillier_decrypt key c = Some (a mod pp_n (pk_public key))" if "paillier_holds key a c"
    using that decrypt_encodes unfolding paillier_holds_def by blast
qed

end
