(* ===== verification/MtaProofs.thy ===== *)
theory MtaProofs
  imports Paillier Machines
begin

text \<open>
  The proofs that accompany the share conversion, \<^verbatim>\<open>crates/custody/src/rangeproof.rs\<close> and
  \<^verbatim>\<open>modulusproof.rs\<close>: the range proof of the initiator, the consistency proof of the responder and the
  proof that a Paillier modulus is well formed. SHA-256 is the argument \<open>sha\<close>.
\<close>

section \<open>Numbers as bytes\<close>

fun big_byte_len :: "nat \<Rightarrow> nat" where
  "big_byte_len n = (if n < 256 then 1 else Suc (big_byte_len (n div 256)))"

declare big_byte_len.simps [simp del]

fun bit_len :: "nat \<Rightarrow> nat" where
  "bit_len n = (if n = 0 then 0 else Suc (bit_len (n div 2)))"

declare bit_len.simps [simp del]

definition to_bytes_be :: "nat \<Rightarrow> bytes" where
  "to_bytes_be n = nat_to_be (big_byte_len n) n"

definition hash_frames :: "(bytes \<Rightarrow> bytes) \<Rightarrow> nat list \<Rightarrow> bytes" where
  "hash_frames sha vals =
     sha (concat (map (\<lambda>v. let bs = to_bytes_be v in u32_to_be (unwrap_or (try_u32 (length bs)) 0) @ bs) vals))"

section \<open>Parameters of the commitments\<close>

record ring_pedersen =
  rp_n_tilde :: nat
  rp_h1 :: nat
  rp_h2 :: nat

definition nonzero_below :: "big_ops \<Rightarrow> nat \<Rightarrow> nat cus_draw" where
  "nonzero_below b bound = nonce_loop b bound 16"

fun coprime_loop :: "big_ops \<Rightarrow> nat \<Rightarrow> nat \<Rightarrow> nat cus_draw" where
  "coprime_loop b modulus 0 = op_fail CusRandom"
| "coprime_loop b modulus (Suc tries) =
     op_bind (below b modulus) (\<lambda>candidate.
     if candidate \<noteq> 0 \<and> gcd candidate modulus = 1 then op_return candidate else coprime_loop b modulus tries)"

definition coprime_below :: "big_ops \<Rightarrow> nat \<Rightarrow> nat cus_draw" where
  "coprime_below b modulus = coprime_loop b modulus 32"

definition ring_pedersen_generate :: "big_ops \<Rightarrow> nat \<Rightarrow> ring_pedersen cus_may" where
  "ring_pedersen_generate b modulus_bits =
     (if modulus_bits < 512 then may_draw (op_fail CusBadParams)
      else may_bind (two_primes b (modulus_bits div 2)) (\<lambda>(p, q).
        let n_tilde = p * q in
        may_draw (op_bind (nonzero_below b n_tilde) (\<lambda>base.
          let h1 = powmod base 2 n_tilde in
          op_bind (nonzero_below b n_tilde) (\<lambda>lambda.
          op_return \<lparr>rp_n_tilde = n_tilde, rp_h1 = h1, rp_h2 = powmod h1 lambda n_tilde\<rparr>)))))"

definition commitment :: "ring_pedersen \<Rightarrow> nat \<Rightarrow> nat \<Rightarrow> nat" where
  "commitment ped x blind =
     (powmod (rp_h1 ped) x (rp_n_tilde ped) * powmod (rp_h2 ped) blind (rp_n_tilde ped)) mod rp_n_tilde ped"

fun retry :: "nat \<Rightarrow> 'a option cus_draw \<Rightarrow> 'a cus_draw" where
  "retry 0 attempt = op_fail CusSigning"
| "retry (Suc tries) attempt =
     op_bind attempt (\<lambda>found. case found of Some x \<Rightarrow> op_return x | None \<Rightarrow> retry tries attempt)"

section \<open>The range proof of the initiator\<close>

record range_proof =
  rg_z :: nat
  rg_u :: nat
  rg_w :: nat
  rg_s :: nat
  rg_s1 :: nat
  rg_s2 :: nat

definition range_challenge :: "(bytes \<Rightarrow> bytes) \<Rightarrow> nat \<Rightarrow> nat \<Rightarrow> nat \<Rightarrow> nat \<Rightarrow> nat \<Rightarrow> nat \<Rightarrow> nat \<Rightarrow> nat" where
  "range_challenge sha c z u w n n_tilde q = be_to_nat (hash_frames sha [c, z, u, w, n, n_tilde]) mod q"

definition range_response :: "(bytes \<Rightarrow> bytes) \<Rightarrow> paillier_public \<Rightarrow> ring_pedersen \<Rightarrow> nat \<Rightarrow> nat \<Rightarrow> nat \<Rightarrow> nat
    \<Rightarrow> nat \<Rightarrow> nat \<Rightarrow> nat \<Rightarrow> nat \<Rightarrow> range_proof option" where
  "range_response sha pub ped c a r q alpha rho gamma beta =
     (let n = pp_n pub;
          nn = pp_nn pub;
          z = commitment ped a rho;
          u = (((1 + alpha * n) mod nn) * powmod beta n nn) mod nn;
          w = commitment ped alpha gamma;
          e = range_challenge sha c z u w n (rp_n_tilde ped) q;
          s1 = e * a + alpha
      in if q * q * q < s1 then None
         else Some \<lparr>rg_z = z, rg_u = u, rg_w = w, rg_s = (powmod r e n * beta) mod n,
                    rg_s1 = s1, rg_s2 = e * rho + gamma\<rparr>)"

definition range_attempt :: "(bytes \<Rightarrow> bytes) \<Rightarrow> big_ops \<Rightarrow> paillier_public \<Rightarrow> ring_pedersen \<Rightarrow> nat \<Rightarrow> nat \<Rightarrow> nat \<Rightarrow> nat
    \<Rightarrow> range_proof option cus_draw" where
  "range_attempt sha b pub ped c a r q =
     (let q3 = q * q * q
      in op_bind (below b q3) (\<lambda>alpha.
         op_bind (below b (q * rp_n_tilde ped)) (\<lambda>rho.
         op_bind (below b (q3 * rp_n_tilde ped)) (\<lambda>gamma.
         op_bind (coprime_below b (pp_n pub)) (\<lambda>beta.
         op_return (range_response sha pub ped c a r q alpha rho gamma beta))))))"

definition range_prove :: "(bytes \<Rightarrow> bytes) \<Rightarrow> big_ops \<Rightarrow> paillier_public \<Rightarrow> ring_pedersen \<Rightarrow> nat \<Rightarrow> nat \<Rightarrow> nat \<Rightarrow> nat
    \<Rightarrow> range_proof cus_draw" where
  "range_prove sha b pub ped c a r q = retry 32 (range_attempt sha b pub ped c a r q)"

definition range_verify :: "(bytes \<Rightarrow> bytes) \<Rightarrow> paillier_public \<Rightarrow> ring_pedersen \<Rightarrow> nat \<Rightarrow> range_proof \<Rightarrow> nat \<Rightarrow> bool" where
  "range_verify sha pub ped c pf q =
     (let n = pp_n pub;
          nn = pp_nn pub;
          q3 = q * q * q
      in if q3 < rg_s1 pf then False
         else let e = range_challenge sha c (rg_z pf) (rg_u pf) (rg_w pf) n (rp_n_tilde ped) q;
                  lhs_paillier = (((1 + rg_s1 pf * n) mod nn) * powmod (rg_s pf) n nn) mod nn;
                  rhs_paillier = (rg_u pf * powmod c e nn) mod nn
              in if lhs_paillier \<noteq> rhs_paillier then False
                 else commitment ped (rg_s1 pf) (rg_s2 pf) =
                        (rg_w pf * powmod (rg_z pf) e (rp_n_tilde ped)) mod rp_n_tilde ped)"

section \<open>The consistency proof of the responder\<close>

record responder_proof =
  rs_z :: nat
  rs_z_prime :: nat
  rs_t :: nat
  rs_v :: nat
  rs_u :: nat
  rs_s1 :: nat
  rs_s2 :: nat
  rs_t1 :: nat
  rs_t2 :: nat
  rs_s_r :: nat

definition responder_challenge :: "(bytes \<Rightarrow> bytes) \<Rightarrow> nat \<Rightarrow> nat \<Rightarrow> nat \<Rightarrow> nat \<Rightarrow> nat \<Rightarrow> nat \<Rightarrow> nat \<Rightarrow> nat \<Rightarrow> nat \<Rightarrow> nat \<Rightarrow> nat" where
  "responder_challenge sha c_a c_b z z_prime t v u n n_tilde q =
     be_to_nat (hash_frames sha [c_a, c_b, z, z_prime, t, v, u, n, n_tilde]) mod q"

definition responder_response :: "(bytes \<Rightarrow> bytes) \<Rightarrow> paillier_public \<Rightarrow> ring_pedersen \<Rightarrow> nat \<Rightarrow> nat \<Rightarrow> nat \<Rightarrow> nat \<Rightarrow> nat \<Rightarrow> nat
    \<Rightarrow> nat \<Rightarrow> nat \<Rightarrow> nat \<Rightarrow> nat \<Rightarrow> nat \<Rightarrow> nat \<Rightarrow> nat \<Rightarrow> responder_proof option" where
  "responder_response sha pub ped c_a c_b x y s q alpha rho rho_prime sigma tau gamma beta =
     (let n = pp_n pub;
          nn = pp_nn pub;
          u = (((powmod c_a alpha nn * ((1 + gamma * n) mod nn)) mod nn) * powmod beta n nn) mod nn;
          z = commitment ped x rho;
          z_prime = commitment ped alpha rho_prime;
          t = commitment ped y sigma;
          v = commitment ped gamma tau;
          e = responder_challenge sha c_a c_b z z_prime t v u n (rp_n_tilde ped) q;
          s1 = e * x + alpha
      in if q * q * q < s1 then None
         else Some \<lparr>rs_z = z, rs_z_prime = z_prime, rs_t = t, rs_v = v, rs_u = u, rs_s1 = s1,
                    rs_s2 = e * rho + rho_prime, rs_t1 = e * y + gamma, rs_t2 = e * sigma + tau,
                    rs_s_r = (powmod s e n * beta) mod n\<rparr>)"

definition responder_attempt :: "(bytes \<Rightarrow> bytes) \<Rightarrow> big_ops \<Rightarrow> paillier_public \<Rightarrow> ring_pedersen \<Rightarrow> nat \<Rightarrow> nat \<Rightarrow> nat \<Rightarrow> nat
    \<Rightarrow> nat \<Rightarrow> nat \<Rightarrow> responder_proof option cus_draw" where
  "responder_attempt sha b pub ped c_a c_b x y s q =
     (let q3 = q * q * q;
          q7 = q3 * q3 * q;
          nt = rp_n_tilde ped
      in op_bind (below b q3) (\<lambda>alpha.
         op_bind (below b (q * nt)) (\<lambda>rho.
         op_bind (below b (q3 * nt)) (\<lambda>rho_prime.
         op_bind (below b (q * nt)) (\<lambda>sigma.
         op_bind (below b (q3 * nt)) (\<lambda>tau.
         op_bind (below b q7) (\<lambda>gamma.
         op_bind (coprime_below b (pp_n pub)) (\<lambda>beta.
         op_return (responder_response sha pub ped c_a c_b x y s q alpha rho rho_prime sigma tau gamma beta)))))))))"

definition prove_responder :: "(bytes \<Rightarrow> bytes) \<Rightarrow> big_ops \<Rightarrow> paillier_public \<Rightarrow> ring_pedersen \<Rightarrow> nat \<Rightarrow> nat \<Rightarrow> nat \<Rightarrow> nat
    \<Rightarrow> nat \<Rightarrow> nat \<Rightarrow> responder_proof cus_draw" where
  "prove_responder sha b pub ped c_a c_b x y s q = retry 32 (responder_attempt sha b pub ped c_a c_b x y s q)"

definition verify_responder :: "(bytes \<Rightarrow> bytes) \<Rightarrow> paillier_public \<Rightarrow> ring_pedersen \<Rightarrow> nat \<Rightarrow> nat \<Rightarrow> responder_proof \<Rightarrow> nat
    \<Rightarrow> bool" where
  "verify_responder sha pub ped c_a c_b pf q =
     (let n = pp_n pub;
          nn = pp_nn pub;
          q3 = q * q * q;
          nt = rp_n_tilde ped
      in if q3 < rs_s1 pf then False
         else let e = responder_challenge sha c_a c_b (rs_z pf) (rs_z_prime pf) (rs_t pf) (rs_v pf) (rs_u pf) n nt q;
                  lhs_paillier = (((powmod c_a (rs_s1 pf) nn * ((1 + rs_t1 pf * n) mod nn)) mod nn)
                                   * powmod (rs_s_r pf) n nn) mod nn;
                  rhs_paillier = (rs_u pf * powmod c_b e nn) mod nn
              in if lhs_paillier \<noteq> rhs_paillier then False
                 else if commitment ped (rs_s1 pf) (rs_s2 pf) \<noteq> (rs_z_prime pf * powmod (rs_z pf) e nt) mod nt then False
                 else commitment ped (rs_t1 pf) (rs_t2 pf) = (rs_v pf * powmod (rs_t pf) e nt) mod nt)"

section \<open>The modulus proof\<close>

definition CHALLENGES :: nat where
  "CHALLENGES = 12"

record modulus_proof =
  mp_responses :: "nat list"

text \<open>The loop appends a digest per round until the buffer is long enough; \<open>target_len\<close> rounds are enough as
  soon as digests are not empty.\<close>

fun challenge_buffer :: "(bytes \<Rightarrow> bytes) \<Rightarrow> bytes \<Rightarrow> nat \<Rightarrow> nat \<Rightarrow> 32 word \<Rightarrow> bytes \<Rightarrow> bytes" where
  "challenge_buffer sha stem target_len 0 counter buffer = buffer"
| "challenge_buffer sha stem target_len (Suc fuel) counter buffer =
     (if length buffer < target_len
      then challenge_buffer sha stem target_len fuel (word_saturating_add counter 1)
             (buffer @ sha (stem @ u32_to_be counter))
      else buffer)"

definition challenge_element :: "(bytes \<Rightarrow> bytes) \<Rightarrow> nat \<Rightarrow> nat \<Rightarrow> nat" where
  "challenge_element sha n index =
     (let target_len = bit_len n div 8 + 2;
          index_bytes = u64_to_be (unwrap_or (try_u64 index) 0);
          stem = as_bytes ''custody/paillier-modulus/v1'' @ to_bytes_be n @ index_bytes;
          buffer = challenge_buffer sha stem target_len target_len 0 [];
          v = be_to_nat buffer mod n
      in if v = 0 then 1 else v)"

definition modulus_prove :: "(bytes \<Rightarrow> bytes) \<Rightarrow> big_ops \<Rightarrow> nat \<Rightarrow> nat \<Rightarrow> custody_error + modulus_proof" where
  "modulus_prove sha b n lambda =
     rbind (ok_or (bi_inverse b n lambda) CusBadParams) (\<lambda>d.
     Inr \<lparr>mp_responses = map (\<lambda>index. powmod (challenge_element sha n index) d n) [0..<CHALLENGES]\<rparr>)"

definition modulus_verify :: "(bytes \<Rightarrow> bytes) \<Rightarrow> nat \<Rightarrow> modulus_proof \<Rightarrow> bool" where
  "modulus_verify sha n pf =
     (let is_even = (to_bytes_be n = [] \<or> last (to_bytes_be n) AND 1 = 0)
      in if n \<le> 1 \<or> is_even \<or> length (mp_responses pf) \<noteq> CHALLENGES then False
         else list_all (\<lambda>(index, sigma). powmod sigma n n = challenge_element sha n index)
                (enumerate 0 (mp_responses pf)))"

definition prove_modulus :: "(bytes \<Rightarrow> bytes) \<Rightarrow> big_ops \<Rightarrow> paillier_private \<Rightarrow> custody_error + modulus_proof" where
  "prove_modulus sha b key = modulus_prove sha b (pp_n (pk_public key)) (pk_lambda key)"

section \<open>Proofs that are retried\<close>

text \<open>Both provers repeat an attempt until its response is in range. The locale carries what holds of one
  attempt over to the prover.\<close>

locale retried_proof =
  fixes attempt :: "'st \<Rightarrow> 'p option cus_draw" and accepts :: "'st \<Rightarrow> 'p \<Rightarrow> bool" and honest :: "'st \<Rightarrow> bool"
  assumes attempt_accepts: "honest st \<Longrightarrow> attempt st i = (Inr (Some pf), j) \<Longrightarrow> accepts st pf"
    and attempt_error: "attempt st i = (Inl e, j) \<Longrightarrow> e = CusRandom"
begin

lemma retry_accepts: "honest st \<Longrightarrow> retry k (attempt st) i = (Inr pf, j) \<Longrightarrow> accepts st pf"
  by (induction k arbitrary: i)
    (auto simp: op_fail_def op_return_def split: option.splits elim!: op_bind_okE dest: attempt_accepts)

lemma retry_error: "retry k (attempt st) i = (Inl e, j) \<Longrightarrow> e \<in> {CusRandom, CusSigning}"
proof (induction k arbitrary: i)
  case (Suc k)
  show ?case
  proof (cases "attempt st i")
    case (Pair r l)
    then show ?thesis
      using Suc attempt_error [of st i _ l] by (cases r) (auto simp: op_bind_def op_return_def split: option.splits)
  qed
qed (auto simp: op_fail_def)

end

lemma coprime_below_ok:
  assumes "coprime_below b m i = (Inr x, j)"
  shows "coprime x m"
proof -
  have "coprime_loop b m k i = (Inr x, j) \<Longrightarrow> coprime x m" for k
    by (induction k arbitrary: i)
      (auto simp: op_fail_def op_return_def below_def coprime_iff_gcd_eq_1 split: if_splits elim!: op_bind_okE)
  with assms show ?thesis by (simp add: coprime_below_def)
qed

lemma coprime_below_error: "coprime_below b m i = (Inl e, j) \<Longrightarrow> e = CusRandom"
proof -
  have "coprime_loop b m k i = (Inl e, j) \<Longrightarrow> e = CusRandom" for k
    by (induction k arbitrary: i)
      (auto simp: op_fail_def op_bind_def op_return_def below_def split: if_splits)
  then show "coprime_below b m i = (Inl e, j) \<Longrightarrow> e = CusRandom" by (simp add: coprime_below_def)
qed

lemma op_bind_errE:
  assumes "op_bind m f s = (Inl e, t)"
  obtains "m s = (Inl e, t)" | x u where "m s = (Inr x, u)" "f x u = (Inl e, t)"
  using assms by (auto simp: op_bind_def split: prod.splits sum.splits)

lemma below_bind [simp]: "op_bind (below b bound) f i = f (bi_below b bound i) (Suc i)"
  by (simp add: op_bind_def below_def)

section \<open>Honest proofs are accepted\<close>

lemma commitment_combine:
  "commitment ped (e * a + x) (e * rho + y) =
     (commitment ped x y * powmod (commitment ped a rho) e (rp_n_tilde ped)) mod rp_n_tilde ped"
proof -
  let ?m = "rp_n_tilde ped" and ?g = "rp_h1 ped" and ?h = "rp_h2 ped"
  have "(commitment ped x y * powmod (commitment ped a rho) e ?m) mod ?m =
      (?g ^ x * ?h ^ y) * (?g ^ a * ?h ^ rho) ^ e mod ?m"
    by (simp only: commitment_def powmod_def mod_mult_eq mod_mod_trivial power_mod)
  also have "(?g ^ x * ?h ^ y) * (?g ^ a * ?h ^ rho) ^ e = ?g ^ (e * a + x) * ?h ^ (e * rho + y)"
    by (simp only: power_add power_mult_distrib power_mult [symmetric] ac_simps)
  finally show ?thesis by (simp only: commitment_def powmod_def mod_mult_eq)
qed

lemma affine_combine:
  assumes wf: "public_wf pub"
    and u: "affine pub base alpha gamma beta u" and c: "affine pub base x y r c"
    and s: "s mod pp_n pub = (powmod r e (pp_n pub) * beta) mod pp_n pub"
    and l: "affine pub base (e * x + alpha) (e * y + gamma) s lhs"
  shows "lhs mod pp_nn pub = (u * powmod c e (pp_nn pub)) mod pp_nn pub"
proof -
  have "affine pub base (alpha + e * x) (gamma + e * y) (beta * r ^ e) (u * c ^ e)"
    using affine_mult [OF wf u affine_power [OF wf c]] .
  moreover have "s mod pp_n pub = (beta * r ^ e) mod pp_n pub"
    using s by (simp only: powmod_def mod_mult_left_eq) (simp only: mult.commute)
  ultimately have "lhs mod pp_nn pub = (u * c ^ e) mod pp_nn pub"
    using affine_unique [OF wf l] by (metis add.commute)
  then show ?thesis by (simp only: powmod_def mod_mult_right_eq)
qed

lemma affine_response:
  "affine pub base x y s
     (((powmod base x (pp_nn pub) * ((1 + y * pp_n pub) mod pp_nn pub)) mod pp_nn pub) * powmod s (pp_n pub) (pp_nn pub) mod pp_nn pub)"
  unfolding affine_def powmod_def mod_mod_trivial by (intro mod_mult_cong) (simp_all add: mod_mult_eq)

lemma encodes_response:
  "encodes pub y s (((1 + y * pp_n pub) mod pp_nn pub) * powmod s (pp_n pub) (pp_nn pub) mod pp_nn pub)"
  by (simp add: affine_def powmod_def mod_mult_eq)

lemma range_response_accepted:
  assumes wf: "public_wf pub" and c: "encodes pub a r c"
    and pf: "range_response sha pub ped c a r q alpha rho gamma beta = Some pf"
  shows "range_verify sha pub ped c pf q"
proof -
  let ?n = "pp_n pub" and ?nn = "pp_nn pub"
  define e where "e = range_challenge sha c (rg_z pf) (rg_u pf) (rg_w pf) ?n (rp_n_tilde ped) q"
  have eqs: "rg_z pf = commitment ped a rho" "rg_w pf = commitment ped alpha gamma" "rg_s1 pf = e * a + alpha"
      "rg_s2 pf = e * rho + gamma" "rg_s pf = (powmod r e ?n * beta) mod ?n"
      "rg_u pf = (((1 + alpha * ?n) mod ?nn) * powmod beta ?n ?nn) mod ?nn" "\<not> q * q * q < rg_s1 pf"
    using pf unfolding range_response_def Let_def e_def by (auto split: if_splits)
  have "(((1 + rg_s1 pf * ?n) mod ?nn) * powmod (rg_s pf) ?n ?nn) mod ?nn mod ?nn = (rg_u pf * powmod c e ?nn) mod ?nn"
    by (rule affine_combine [OF wf _ c, where alpha = 0 and gamma = alpha and beta = beta and s = "rg_s pf"])
      (use eqs encodes_response in simp_all)
  moreover have "commitment ped (rg_s1 pf) (rg_s2 pf) =
      (rg_w pf * powmod (rg_z pf) e (rp_n_tilde ped)) mod rp_n_tilde ped"
    using eqs commitment_combine by simp
  ultimately show ?thesis using eqs(7) by (simp add: range_verify_def Let_def e_def)
qed

lemma responder_response_accepted:
  assumes wf: "public_wf pub" and c: "affine pub c_a x y s c_b"
    and pf: "responder_response sha pub ped c_a c_b x y s q alpha rho rho' sigma tau gamma beta = Some pf"
  shows "verify_responder sha pub ped c_a c_b pf q"
proof -
  let ?n = "pp_n pub" and ?nn = "pp_nn pub" and ?nt = "rp_n_tilde ped"
  define e where "e = responder_challenge sha c_a c_b (rs_z pf) (rs_z_prime pf) (rs_t pf) (rs_v pf) (rs_u pf) ?n ?nt q"
  have eqs: "rs_z pf = commitment ped x rho" "rs_z_prime pf = commitment ped alpha rho'" "rs_t pf = commitment ped y sigma"
      "rs_v pf = commitment ped gamma tau" "rs_s1 pf = e * x + alpha" "rs_s2 pf = e * rho + rho'"
      "rs_t1 pf = e * y + gamma" "rs_t2 pf = e * sigma + tau"
      "rs_s_r pf = (powmod s e ?n * beta) mod ?n"
      "rs_u pf = ((powmod c_a alpha ?nn * ((1 + gamma * ?n) mod ?nn)) mod ?nn * powmod beta ?n ?nn) mod ?nn"
      "\<not> q * q * q < rs_s1 pf"
    using pf unfolding responder_response_def Let_def e_def by (auto split: if_splits)
  have "((powmod c_a (rs_s1 pf) ?nn * ((1 + rs_t1 pf * ?n) mod ?nn)) mod ?nn * powmod (rs_s_r pf) ?n ?nn) mod ?nn mod ?nn =
      (rs_u pf * powmod c_b e ?nn) mod ?nn"
    by (rule affine_combine [OF wf _ c, where alpha = alpha and gamma = gamma and beta = beta and s = "rs_s_r pf"])
      (use eqs affine_response in simp_all)
  moreover have "commitment ped (rs_s1 pf) (rs_s2 pf) = (rs_z_prime pf * powmod (rs_z pf) e ?nt) mod ?nt"
    "commitment ped (rs_t1 pf) (rs_t2 pf) = (rs_v pf * powmod (rs_t pf) e ?nt) mod ?nt"
    using eqs commitment_combine by simp_all
  ultimately show ?thesis using eqs(11) by (simp add: verify_responder_def Let_def e_def)
qed

interpretation initiator: retried_proof
  "\<lambda>(sha, b, pub, ped, c, a, r, q). range_attempt sha b pub ped c a r q"
  "\<lambda>(sha, b, pub, ped, c, a, r, q) pf. range_verify sha pub ped c pf q"
  "\<lambda>(sha, b, pub, ped, c, a, r, q). public_wf pub \<and> encodes pub a r c"
proof (standard, goal_cases)
  case (1 st i pf j)
  then show ?case
    by (cases st) (auto simp: range_attempt_def op_return_def Let_def intro: range_response_accepted elim!: op_bind_okE)
next
  case (2 st i e j)
  then show ?case
    by (cases st) (auto simp: range_attempt_def Let_def op_return_def below_def elim!: op_bind_errE dest: coprime_below_error)
qed

interpretation responder: retried_proof
  "\<lambda>(sha, b, pub, ped, c_a, c_b, x, y, s, q). responder_attempt sha b pub ped c_a c_b x y s q"
  "\<lambda>(sha, b, pub, ped, c_a, c_b, x, y, s, q) pf. verify_responder sha pub ped c_a c_b pf q"
  "\<lambda>(sha, b, pub, ped, c_a, c_b, x, y, s, q). public_wf pub \<and> affine pub c_a x y s c_b"
proof (standard, goal_cases)
  case (1 st i pf j)
  then show ?case
    by (cases st) (auto simp: responder_attempt_def op_return_def Let_def intro: responder_response_accepted elim!: op_bind_okE)
next
  case (2 st i e j)
  then show ?case
    by (cases st) (auto simp: responder_attempt_def Let_def op_return_def below_def elim!: op_bind_errE dest: coprime_below_error)
qed

lemmas range_prove_accepted = initiator.retry_accepts [where st = "(sha, b, pub, ped, c, a, r, q)" and k = 32 for sha b pub ped c a r q,
    simplified, folded range_prove_def]
lemmas range_prove_error = initiator.retry_error [where st = "(sha, b, pub, ped, c, a, r, q)" and k = 32 for sha b pub ped c a r q,
    simplified, folded range_prove_def]
lemmas prove_responder_accepted = responder.retry_accepts [where st = "(sha, b, pub, ped, c_a, c_b, x, y, s, q)" and k = 32
    for sha b pub ped c_a c_b x y s q, simplified, folded prove_responder_def]
lemmas prove_responder_error = responder.retry_error [where st = "(sha, b, pub, ped, c_a, c_b, x, y, s, q)" and k = 32
    for sha b pub ped c_a c_b x y s q, simplified, folded prove_responder_def]

section \<open>The modulus proof of a generated key is accepted\<close>

lemma big_byte_len_bound: "n < 256 ^ big_byte_len n"
  by (induction n rule: big_byte_len.induct) (subst big_byte_len.simps, auto)

lemma last_be_bytes:
  assumes "0 < k"
  shows "last (nat_to_be k n) AND 1 = (if even n then 0 else 1)"
proof -
  obtain j where k: "k = Suc j" using assms gr0_implies_Suc by blast
  have "word_of_nat (n mod 256) = (word_of_nat n :: byte)" by (simp add: word_of_nat_eq_iff take_bit_eq_mod)
  then have "last (nat_to_be k n) = (word_of_nat n :: byte)" by (simp add: nat_to_be_def k)
  moreover have "even (word_of_nat n :: byte) \<longleftrightarrow> even n"
    by simp
  ultimately show ?thesis by (simp add: and_one_eq mod_2_eq_odd)
qed

lemma buffer_filled:
  assumes "digest_len 32 sha" "target_len \<le> length buffer + fuel"
  shows "target_len \<le> length (challenge_buffer sha stem target_len fuel counter buffer)"
  using assms(2)
proof (induction fuel arbitrary: counter buffer)
  case (Suc fuel)
  have "length (sha x) = 32" for x using assms(1) by (simp add: digest_len_def)
  then show ?case using Suc by simp
qed simp

lemma inverse_exponent:
  assumes "big_prime p" "big_prime q" "p \<noteq> q" "p * q * d mod lcm (p - 1) (q - 1) = 1 mod lcm (p - 1) (q - 1)" "0 < d"
  shows "a ^ (d * (p * q)) mod (p * q) = a mod (p * q)"
proof -
  let ?l = "lcm (p - 1) (q - 1)"
  have "1 \<le> p * q * d" using assms(1,2,5) by (simp add: big_prime_def Suc_le_eq)
  then have "?l dvd p * q * d - 1" using assms(4) mod_eq_dvd_iff_nat [of 1 "p * q * d" ?l] by metis
  then obtain l where l: "d * (p * q) = l + 1" "?l dvd l"
    using \<open>1 \<le> p * q * d\<close> by (metis le_add_diff_inverse2 mult.commute)
  have "p - 1 dvd l" "q - 1 dvd l"
    using l(2) by (meson dvd_trans dvd_lcm1 dvd_lcm2)+
  then show ?thesis
    unfolding l(1) using assms fermat_fixed big_primes_coprime by (intro mod_mult_coprime) blast+
qed

lemma challenge_element_range: "1 < n \<Longrightarrow> challenge_element sha n i < n"
  by (simp add: challenge_element_def Let_def)

lemma modulus_proof_accepted:
  assumes "big_law b" "paillier_wf key" "prove_modulus sha b key = Inr pf"
  shows "modulus_verify sha (pp_n (pk_public key)) pf"
proof -
  obtain p q where pq: "big_prime p" "big_prime q" "p \<noteq> q" "odd p" "odd q"
    and key: "pp_n (pk_public key) = p * q" "pk_lambda key = lcm (p - 1) (q - 1)"
    using assms(2) unfolding paillier_wf_def by (metis paillier_private.select_convs(1,2) paillier_public.select_convs(1))
  define n where "n = p * q"
  have n: "1 < n" "odd n" using big_primes_product [OF pq(1,2)] pq(4,5) by (simp_all add: n_def)
  obtain d where d: "bi_inverse b n (lcm (p - 1) (q - 1)) = Some d"
    "mp_responses pf = map (\<lambda>i. powmod (challenge_element sha n i) d n) [0..<CHALLENGES]"
    using assms(3) by (auto simp: prove_modulus_def modulus_prove_def rbind_eq_Inr key n_def)
  have inv: "n * d mod lcm (p - 1) (q - 1) = 1 mod lcm (p - 1) (q - 1)"
    using d(1) assms(1) by (simp add: big_law_def)
  have l: "1 < lcm (p - 1) (q - 1)"
  proof -
    have "2 \<le> p - 1" using pq(1,4) by (cases "p = 2") (auto simp: big_prime_def)
    moreover have "p - 1 \<le> lcm (p - 1) (q - 1)"
      using pq(1,2) by (intro dvd_imp_le) (auto simp: big_prime_def lcm_pos_nat)
    ultimately show ?thesis by linarith
  qed
  then have "0 < d" using inv by (cases d) auto
  then have "powmod (powmod (challenge_element sha n i) d n) n n = challenge_element sha n i" for i
    using inverse_exponent [OF pq(1-3), of d "challenge_element sha n i"] inv challenge_element_range [OF n(1), of sha i]
    by (simp add: powmod_def power_mod power_mult [symmetric] n_def)
  moreover have "to_bytes_be n \<noteq> []" "last (to_bytes_be n) AND 1 \<noteq> 0"
  proof -
    have "0 < big_byte_len n" by (subst big_byte_len.simps) simp
    then show "to_bytes_be n \<noteq> []" "last (to_bytes_be n) AND 1 \<noteq> 0"
      using last_be_bytes [of "big_byte_len n" n] n(2) length_nat_to_be [of "big_byte_len n" n]
      by (auto simp: to_bytes_be_def simp del: length_nat_to_be)
  qed
  ultimately show ?thesis
    using n by (simp add: modulus_verify_def key n_def [symmetric] d(2) Let_def list_all_iff enumerate_nth case_prod_unfold)
qed

end
