(* ===== verification/Field5.thy ===== *)
theory Field5
  imports Complex_Main
begin

text \<open>The field with five elements, an instance of the scalars of \<^verbatim>\<open>crates/custody\<close> small enough to compute with.\<close>

typedef f5 = "{..<5 :: nat}"
  by (rule exI [of _ 0]) simp

setup_lifting type_definition_f5

instantiation f5 :: field
begin

lift_definition zero_f5 :: f5 is 0 by simp
lift_definition one_f5 :: f5 is 1 by simp
lift_definition plus_f5 :: "f5 \<Rightarrow> f5 \<Rightarrow> f5" is "\<lambda>x y. (x + y) mod 5" by simp
lift_definition times_f5 :: "f5 \<Rightarrow> f5 \<Rightarrow> f5" is "\<lambda>x y. (x * y) mod 5" by simp
lift_definition uminus_f5 :: "f5 \<Rightarrow> f5" is "\<lambda>x. (5 - x) mod 5" by simp
lift_definition minus_f5 :: "f5 \<Rightarrow> f5 \<Rightarrow> f5" is "\<lambda>x y. (x + (5 - y)) mod 5" by simp
lift_definition inverse_f5 :: "f5 \<Rightarrow> f5" is "\<lambda>x. (x * x * x) mod 5" by simp
definition divide_f5 :: "f5 \<Rightarrow> f5 \<Rightarrow> f5" where "divide_f5 x y = x * inverse y"

instance
proof
  fix a b c :: f5
  show "a + b + c = a + (b + c)" by transfer (simp add: mod_simps add.assoc)
  show "a + b = b + a" by transfer (simp add: add.commute)
  show "0 + a = a" by transfer simp
  show "a * b * c = a * (b * c)" by transfer (simp add: mod_simps mult.assoc)
  show "a * b = b * a" by transfer (simp add: mult.commute)
  show "1 * a = a" by transfer simp
  show "(a + b) * c = a * c + b * c" by transfer (simp add: mod_simps distrib_right)
  show "(0 :: f5) \<noteq> 1" by transfer simp
  show "inverse (0 :: f5) = 0" by transfer simp
  show "- a + a = 0" by transfer (simp add: mod_simps)
  show "a - b = a + - b" by transfer (simp add: mod_simps)
  show "inverse a * a = 1" if "a \<noteq> 0"
    using that
  proof transfer
    fix x :: nat
    assume "x \<in> {..<5}" "x \<noteq> 0"
    then have "x = 1 \<or> x = 2 \<or> x = 3 \<or> x = 4" by auto
    then show "x * x * x mod 5 * x mod 5 = 1" by auto
  qed
  show "a div b = a * inverse b" by (simp add: divide_f5_def)
qed

end

lemma f5_of_nat: "Rep_f5 (of_nat n) = n mod 5"
  by (induction n) (simp_all add: zero_f5.rep_eq one_f5.rep_eq plus_f5.rep_eq mod_simps)

lemma f5_eq_iff: "of_nat m = (of_nat n :: f5) \<longleftrightarrow> m mod 5 = n mod 5"
  by (simp add: Rep_f5_inject [symmetric] f5_of_nat)

lemma f5_rep: "of_nat (Rep_f5 x) = x"
  using Rep_f5 [of x] by (simp add: Rep_f5_inject [symmetric] f5_of_nat)

lemma f5_less: "Rep_f5 x < 5"
  using Rep_f5 [of x] by simp

lemma f5_rep_numeral [simp]: "Rep_f5 0 = 0" "Rep_f5 1 = 1" "Rep_f5 (numeral k) = numeral k mod 5"
  using f5_of_nat [of "numeral k"] by (simp_all add: zero_f5.rep_eq one_f5.rep_eq)

lemma f5_five: "(of_nat 5 :: f5) = 0"
  using f5_eq_iff [of 5 0] by simp

lemma f5_cases: "x = 0 \<or> x = 1 \<or> x = 2 \<or> x = 3 \<or> x = (4 :: f5)"
proof -
  have "Rep_f5 x = 0 \<or> Rep_f5 x = 1 \<or> Rep_f5 x = 2 \<or> Rep_f5 x = 3 \<or> Rep_f5 x = 4"
    using f5_less [of x] by auto
  then show ?thesis by (simp add: Rep_f5_inject [symmetric])
qed

lemma f5_numeral_eq [simp]:
  "(numeral k = (0 :: f5)) = (numeral k mod 5 = (0 :: nat))" "(numeral k = (1 :: f5)) = (numeral k mod 5 = (1 :: nat))"
  "(numeral k = (numeral l :: f5)) = (numeral k mod 5 = (numeral l mod 5 :: nat))"
  by (simp_all add: Rep_f5_inject [symmetric])

end
