(* ===== verification/Gg20.thy ===== *)
theory Gg20
  imports MtaProofs Field5
begin

text \<open>
  Threshold ECDSA without reconstruction of the key, \<^verbatim>\<open>crates/custody/src/gg20.rs\<close>: the conversion of a
  product into additive shares, the accumulation over all ordered pairs of parties, the assembly of the
  signature and the attribution of a failed proof to a party.

  \<open>Signature::from_scalars\<close> of the \<open>k256\<close> crate is the argument \<open>from_sc\<close>; its other operations are those
  of \<open>ecdsa_ops\<close>. The order of the group is a parameter \<open>q\<close> of the rounds, as in the code; the entry
  points pass \<open>curve_order\<close>.
\<close>

section \<open>Parties and faults\<close>

definition ORDER_BE :: bytes where
  "ORDER_BE =
     [0xFF, 0xFF, 0xFF, 0xFF, 0xFF, 0xFF, 0xFF, 0xFF, 0xFF, 0xFF, 0xFF, 0xFF, 0xFF, 0xFF, 0xFF, 0xFE,
      0xBA, 0xAE, 0xDC, 0xE6, 0xAF, 0x48, 0xA0, 0x3B, 0xBF, 0xD2, 0x5E, 0x8C, 0xD0, 0x36, 0x41, 0x41]"

definition curve_order :: nat where
  "curve_order = be_to_nat ORDER_BE"

datatype fault_kind = ModulusFault | InitiatorRangeFault | ResponderFault | Equivocation

record abort_error =
  ab_party :: nat
  ab_fault :: fault_kind

text \<open>\<open>SignPanic\<close> is not an error of the code: it stands for the panic inside \<open>paillier_decrypt\<close>.\<close>

datatype sign_error = SignFault abort_error | SignInternal custody_error | SignPanic

type_synonym 'a sign_op = "(nat, sign_error, 'a) op"

definition sign_internal :: "'a cus_draw \<Rightarrow> 'a sign_op" where
  "sign_internal m i = (let (r, j) = m i in (map_err SignInternal r, j))"

definition lift_internal :: "custody_error + 'a \<Rightarrow> 'a sign_op" where
  "lift_internal r = op_lift (map_err SignInternal r)"

definition blame :: "nat \<Rightarrow> fault_kind \<Rightarrow> sign_error" where
  "blame party fault = SignFault \<lparr>ab_party = party, ab_fault = fault\<rparr>"

record 'f gg20_party =
  gp_share :: "'f share"
  gp_paillier :: paillier_private
  gp_ring_pedersen :: ring_pedersen
  gp_modulus_proof :: modulus_proof

definition gg20_party_new :: "(bytes \<Rightarrow> bytes) \<Rightarrow> big_ops \<Rightarrow> 'f share \<Rightarrow> nat \<Rightarrow> 'f gg20_party cus_may" where
  "gg20_party_new sha b share modulus_bits =
     may_bind (paillier_generate b modulus_bits) (\<lambda>paillier.
     may_bind (may_draw (op_lift (prove_modulus sha b paillier))) (\<lambda>modulus_proof.
     may_bind (ring_pedersen_generate b modulus_bits) (\<lambda>ring_pedersen.
     may_draw (op_return \<lparr>gp_share = share, gp_paillier = paillier, gp_ring_pedersen = ring_pedersen,
                          gp_modulus_proof = modulus_proof\<rparr>))))"

definition gp_index :: "'f gg20_party \<Rightarrow> 'f" where
  "gp_index p = sh_x (gp_share p)"

fun dealer_parties :: "(bytes \<Rightarrow> bytes) \<Rightarrow> big_ops \<Rightarrow> nat \<Rightarrow> 'f share list \<Rightarrow> 'f gg20_party list cus_may" where
  "dealer_parties sha b modulus_bits [] = may_draw (op_return [])"
| "dealer_parties sha b modulus_bits (share # rest) =
     may_bind (gg20_party_new sha b share modulus_bits) (\<lambda>p.
     may_bind (dealer_parties sha b modulus_bits rest) (\<lambda>ps. may_draw (op_return (p # ps))))"

definition dealer_keygen :: "rng \<Rightarrow> (bytes \<Rightarrow> bytes) \<Rightarrow> big_ops \<Rightarrow> ('f::field, 'p) group_ops \<Rightarrow> nat \<Rightarrow> nat \<Rightarrow> nat
    \<Rightarrow> ('p group_key \<times> 'f gg20_party list) cus_may" where
  "dealer_keygen rand sha b g threshold shares modulus_bits =
     may_bind (may_draw (keygen rand g threshold shares)) (\<lambda>(gkey, share_vec).
     may_bind (dealer_parties sha b modulus_bits share_vec) (\<lambda>parties. may_draw (op_return (gkey, parties))))"

section \<open>Scalars as numbers\<close>

definition scalar_to_biguint :: "('f, 'p) group_ops \<Rightarrow> 'f \<Rightarrow> nat" where
  "scalar_to_biguint g s = be_to_nat (sc_encode g s)"

definition scalar_from_biguint_mod_q :: "('f, 'p) group_ops \<Rightarrow> nat \<Rightarrow> nat \<Rightarrow> custody_error + 'f" where
  "scalar_from_biguint_mod_q g v q =
     (let bs = to_bytes_be (v mod q);
          len = length bs
      in if 32 < len then Inl BadShare
         else ok_or (sc_decode g (replicate (32 - len) 0 @ bs)) BadShare)"

definition scalar_from_hash :: "('f, 'p) group_ops \<Rightarrow> bytes \<Rightarrow> 'f" where
  "scalar_from_hash g hash = sc_reduce g hash"

text \<open>The x coordinate of a compressed point is what follows its first byte; the identity has a single byte.\<close>

definition point_x_as_scalar :: "('f, 'p) group_ops \<Rightarrow> 'p \<Rightarrow> custody_error + 'f" where
  "point_x_as_scalar g point =
     (let encoded = gr_encode g point
      in rbind (ok_or (if length encoded = 33 then Some (drop 1 encoded) else None) CusSigning) (\<lambda>x.
         Inr (sc_reduce g x)))"

definition assemble_der :: "('k, 'v, 's) ecdsa_ops \<Rightarrow> (bytes \<Rightarrow> bytes \<Rightarrow> 's option) \<Rightarrow> ('f, 'p) group_ops \<Rightarrow> 'f \<Rightarrow> 'f
    \<Rightarrow> custody_error + bytes" where
  "assemble_der ds from_sc g r s =
     rbind (ok_or (from_sc (sc_encode g r) (sc_encode g s)) CusSigning) (\<lambda>signature.
     let low_s = unwrap_or (sig_normalize_s ds signature) signature
     in Inr (sig_to_der ds low_s))"

section \<open>Share conversion\<close>

definition mta :: "rng \<Rightarrow> (bytes \<Rightarrow> bytes) \<Rightarrow> big_ops \<Rightarrow> ('f::field, 'p) group_ops \<Rightarrow> nat \<Rightarrow> nat \<Rightarrow> paillier_private
    \<Rightarrow> ring_pedersen \<Rightarrow> ring_pedersen \<Rightarrow> 'f \<Rightarrow> 'f \<Rightarrow> nat \<Rightarrow> ('f \<times> 'f) sign_op" where
  "mta rand sha b g initiator_index responder_index holder initiator_pedersen responder_pedersen x y q =
     (let public = pk_public holder;
          a_big = scalar_to_biguint g x
      in op_bind (sign_internal (random_nonce b public)) (\<lambda>nonce.
         let c_a = encrypt_with public a_big nonce
         in op_bind (sign_internal (range_prove sha b public responder_pedersen c_a a_big nonce q)) (\<lambda>range_proof.
         op_bind (op_guard (range_verify sha public responder_pedersen c_a range_proof q)
                    (blame initiator_index InitiatorRangeFault)) (\<lambda>_.
         op_bind (sign_internal (random_scalar rand g)) (\<lambda>beta_prime.
         let beta_big = scalar_to_biguint g beta_prime;
             b_big = scalar_to_biguint g y
         in op_bind (sign_internal (random_nonce b public)) (\<lambda>response_nonce.
         let c_mul = mul_const public c_a b_big;
             c_beta = encrypt_with public beta_big response_nonce;
             c_b = paillier_add public c_mul c_beta
         in op_bind (sign_internal (prove_responder sha b public initiator_pedersen c_a c_b b_big beta_big response_nonce q))
              (\<lambda>responder_proof.
         op_bind (op_guard (verify_responder sha public initiator_pedersen c_a c_b responder_proof q)
                    (blame responder_index ResponderFault)) (\<lambda>_.
         op_bind (op_lift (ok_or (paillier_decrypt holder c_b) SignPanic)) (\<lambda>v.
         op_bind (lift_internal (scalar_from_biguint_mod_q g v q)) (\<lambda>alpha.
         op_return (alpha, - beta_prime)))))))))))"

definition add_at :: "'f::field list \<Rightarrow> nat \<Rightarrow> 'f \<Rightarrow> custody_error + 'f list" where
  "add_at xs i v = rbind (ok_or (get_at xs i) CusSigning) (\<lambda>old. Inr (xs[i := old + v]))"

text \<open>The two nested loops over the indices, as one loop over the pairs in the same order.\<close>

fun mta_loop :: "rng \<Rightarrow> (bytes \<Rightarrow> bytes) \<Rightarrow> big_ops \<Rightarrow> ('f::field, 'p) group_ops \<Rightarrow> 'f gg20_party list \<Rightarrow> 'f list
    \<Rightarrow> 'f list \<Rightarrow> 'f list \<Rightarrow> nat \<Rightarrow> (nat \<times> nat) list \<Rightarrow> 'f list \<Rightarrow> 'f list \<Rightarrow> ('f list \<times> 'f list) sign_op" where
  "mta_loop rand sha b g parties k gamma w q [] delta sigma = op_return (delta, sigma)"
| "mta_loop rand sha b g parties k gamma w q ((i, j) # rest) delta sigma =
     (if i = j then mta_loop rand sha b g parties k gamma w q rest delta sigma
      else op_bind (lift_internal (ok_or (get_at k i) CusSigning)) (\<lambda>ki.
           op_bind (lift_internal (ok_or (get_at gamma j) CusSigning)) (\<lambda>gj.
           op_bind (lift_internal (ok_or (get_at w j) CusSigning)) (\<lambda>wj.
           op_bind (lift_internal (ok_or (get_at parties i) CusSigning)) (\<lambda>initiator.
           op_bind (lift_internal (ok_or (map_option gp_ring_pedersen (get_at parties j)) CusSigning)) (\<lambda>responder_pedersen.
           op_bind (mta rand sha b g i j (gp_paillier initiator) (gp_ring_pedersen initiator) responder_pedersen ki gj q)
             (\<lambda>(alpha, beta).
           op_bind (mta rand sha b g i j (gp_paillier initiator) (gp_ring_pedersen initiator) responder_pedersen ki wj q)
             (\<lambda>(mu, nu).
           op_bind (lift_internal (add_at delta i alpha)) (\<lambda>delta.
           op_bind (lift_internal (add_at delta j beta)) (\<lambda>delta.
           op_bind (lift_internal (add_at sigma i mu)) (\<lambda>sigma.
           op_bind (lift_internal (add_at sigma j nu)) (\<lambda>sigma.
           mta_loop rand sha b g parties k gamma w q rest delta sigma))))))))))))"

definition mta_accumulate :: "rng \<Rightarrow> (bytes \<Rightarrow> bytes) \<Rightarrow> big_ops \<Rightarrow> ('f::field, 'p) group_ops \<Rightarrow> 'f gg20_party list
    \<Rightarrow> 'f list \<Rightarrow> 'f list \<Rightarrow> 'f list \<Rightarrow> nat \<Rightarrow> ('f list \<times> 'f list) sign_op" where
  "mta_accumulate rand sha b g parties k gamma w q =
     (let count = length parties
      in mta_loop rand sha b g parties k gamma w q (List.product [0..<count] [0..<count])
           (map2 (*) k gamma) (map2 (*) k w))"

section \<open>Signing\<close>

fun modulus_checks :: "(bytes \<Rightarrow> bytes) \<Rightarrow> (nat \<times> 'f gg20_party) list \<Rightarrow> sign_error + unit" where
  "modulus_checks sha [] = Inr ()"
| "modulus_checks sha ((index, party) # rest) =
     (if \<not> modulus_verify sha (pp_n (pk_public (gp_paillier party))) (gp_modulus_proof party)
      then Inl (blame index ModulusFault) else modulus_checks sha rest)"

fun draw_nonces :: "rng \<Rightarrow> ('f::field, 'p) group_ops \<Rightarrow> nat \<Rightarrow> ('f list \<times> 'f list) cus_draw" where
  "draw_nonces rand g 0 = op_return ([], [])"
| "draw_nonces rand g (Suc count) =
     op_bind (random_scalar rand g) (\<lambda>k.
     op_bind (random_scalar rand g) (\<lambda>gamma.
     op_bind (draw_nonces rand g count) (\<lambda>(ks, gammas). op_return (k # ks, gamma # gammas))))"

definition sign_over :: "nat \<Rightarrow> rng \<Rightarrow> (bytes \<Rightarrow> bytes) \<Rightarrow> big_ops \<Rightarrow> ('f::field, 'p) group_ops \<Rightarrow> ('k, 'v, 's) ecdsa_ops
    \<Rightarrow> (bytes \<Rightarrow> bytes \<Rightarrow> 's option) \<Rightarrow> 'f gg20_party list \<Rightarrow> bytes \<Rightarrow> bytes sign_op" where
  "sign_over q rand sha b g ds from_sc parties message_hash =
     (let count = length parties
      in if count < 2 then op_fail (SignInternal CusInsufficientShares)
         else op_bind (op_lift (modulus_checks sha (enumerate 0 parties))) (\<lambda>_.
         let indices = map gp_index parties;
             w = map (\<lambda>p. lagrange_coefficient indices (gp_index p) * sh_y (gp_share p)) parties
         in op_bind (sign_internal (draw_nonces rand g count)) (\<lambda>(k, gamma).
         op_bind (mta_accumulate rand sha b g parties k gamma w q) (\<lambda>(delta, sigma).
         let delta_sum = foldl (+) 0 delta
         in op_bind (lift_internal (ok_or (scalar_invert delta_sum) CusSigning)) (\<lambda>delta_inv.
         let gamma_point = foldl (\<lambda>acc y. gr_add g acc (gr_mul g (gr_base g) y)) (gr_identity g) gamma
         in op_bind (lift_internal (point_x_as_scalar g (gr_mul g gamma_point delta_inv))) (\<lambda>r.
         if r = 0 then op_fail (SignInternal CusSigning)
         else let m = scalar_from_hash g message_hash;
                  s = foldl (\<lambda>acc (ki, si). acc + m * ki + r * si) 0 (zip k sigma)
              in if s = 0 then op_fail (SignInternal CusSigning)
                 else lift_internal (assemble_der ds from_sc g r s)))))))"

definition sign_identifiable :: "rng \<Rightarrow> (bytes \<Rightarrow> bytes) \<Rightarrow> big_ops \<Rightarrow> ('f::field, 'p) group_ops \<Rightarrow> ('k, 'v, 's) ecdsa_ops
    \<Rightarrow> (bytes \<Rightarrow> bytes \<Rightarrow> 's option) \<Rightarrow> 'f gg20_party list \<Rightarrow> bytes \<Rightarrow> bytes sign_op" where
  "sign_identifiable = sign_over curve_order"

text \<open>\<open>None\<close>: the program panics.\<close>

definition gg20_sign :: "rng \<Rightarrow> (bytes \<Rightarrow> bytes) \<Rightarrow> big_ops \<Rightarrow> ('f::field, 'p) group_ops \<Rightarrow> ('k, 'v, 's) ecdsa_ops
    \<Rightarrow> (bytes \<Rightarrow> bytes \<Rightarrow> 's option) \<Rightarrow> 'f gg20_party list \<Rightarrow> bytes \<Rightarrow> bytes cus_may" where
  "gg20_sign rand sha b g ds from_sc parties message_hash i =
     (case sign_identifiable rand sha b g ds from_sc parties message_hash i of
        (Inl SignPanic, j) \<Rightarrow> None
      | (Inl (SignInternal inner), j) \<Rightarrow> Some (Inl inner, j)
      | (Inl (SignFault _), j) \<Rightarrow> Some (Inl BadShare, j)
      | (Inr der, j) \<Rightarrow> Some (Inr der, j))"

section \<open>What the rounds rely on\<close>

text \<open>Scalars are the residues modulo the group order, in 32 big-endian bytes.\<close>

definition scalar_nat_law :: "('f::field, 'p) group_ops \<Rightarrow> nat \<Rightarrow> bool" where
  "scalar_nat_law g q \<longleftrightarrow> 0 < q \<and> q \<le> 256 ^ 32 \<and> of_nat q = (0 :: 'f) \<and>
     (\<forall>s. length (sc_encode g s) = 32 \<and> be_to_nat (sc_encode g s) < q \<and> of_nat (be_to_nat (sc_encode g s)) = s) \<and>
     (\<forall>bs. length bs = 32 \<longrightarrow> be_to_nat bs < q \<longrightarrow> sc_decode g bs = Some (of_nat (be_to_nat bs)))"

text \<open>The verification equation of ECDSA for the digest \<open>m\<close> under the public point.\<close>

definition ecdsa_equation :: "('f::field, 'p) group_ops \<Rightarrow> 'p \<Rightarrow> 'f \<Rightarrow> 'f \<Rightarrow> 'f \<Rightarrow> bool" where
  "ecdsa_equation g public m r s \<longleftrightarrow> r \<noteq> 0 \<and> s \<noteq> 0 \<and>
     point_x_as_scalar g (gr_add g (gr_mul g (gr_base g) (m * inverse s)) (gr_mul g public (r * inverse s))) = Inr r"

text \<open>
  The signatures of the crate: \<open>normalize_s\<close> negates the second scalar of a high signature, DER
  decoding inverts encoding, and a signature is accepted if its scalars satisfy the equation. A point
  and its negation share their x coordinate; nonzero multiples of the generator have 33 bytes and are
  keys.
\<close>

definition dsa_law :: "('k, 'v, 's) ecdsa_ops \<Rightarrow> (bytes \<Rightarrow> bytes \<Rightarrow> 's option) \<Rightarrow> ('f::field, 'p) group_ops \<Rightarrow> bool" where
  "dsa_law ds from_sc g \<longleftrightarrow>
     (\<forall>r s sig t. from_sc (sc_encode g r) (sc_encode g s) = Some sig \<longrightarrow> sig_normalize_s ds sig = Some t \<longrightarrow>
        from_sc (sc_encode g r) (sc_encode g (- s)) = Some t \<and> sig_normalize_s ds t = None) \<and>
     (\<forall>sig. sig_from_der ds (sig_to_der ds sig) = Some sig) \<and>
     (\<forall>public key h r s sig. vk_from_sec1 ds (gr_encode g public) = Some key \<longrightarrow>
        from_sc (sc_encode g r) (sc_encode g s) = Some sig \<longrightarrow>
        ecdsa_equation g public (scalar_from_hash g h) r s \<longrightarrow> vk_verify_prehash ds key h sig) \<and>
     (\<forall>point. length (gr_encode g (gr_mul g point (- 1))) = length (gr_encode g point) \<and>
        drop 1 (gr_encode g (gr_mul g point (- 1))) = drop 1 (gr_encode g point)) \<and>
     (\<forall>a. a \<noteq> 0 \<longrightarrow> length (gr_encode g (gr_mul g (gr_base g) a)) = 33 \<and>
        vk_from_sec1 ds (gr_encode g (gr_mul g (gr_base g) a)) \<noteq> None)"

section \<open>Outcomes of an operation\<close>

text \<open>\<open>ends_in m P E\<close>: from every position of the generator, \<open>m\<close> returns a value with \<open>P\<close> or fails with an error in \<open>E\<close>.\<close>

definition ends_in :: "('s, 'e, 'a) op \<Rightarrow> ('a \<Rightarrow> bool) \<Rightarrow> ('e \<Rightarrow> bool) \<Rightarrow> bool" where
  "ends_in m P E \<longleftrightarrow> (\<forall>i r j. m i = (r, j) \<longrightarrow> (case r of Inl e \<Rightarrow> E e | Inr x \<Rightarrow> P x))"

lemma ends_in_ok: "ends_in m P E \<Longrightarrow> m i = (Inr x, j) \<Longrightarrow> P x"
  by (fastforce simp: ends_in_def)

lemma ends_in_run: "ends_in m P E \<Longrightarrow> case m i of (Inl e, _) \<Rightarrow> E e | (Inr x, _) \<Rightarrow> P x"
  by (fastforce simp: ends_in_def split: prod.splits sum.splits)

lemma ends_in_bind:
  assumes "ends_in m P E" "\<And>x. P x \<Longrightarrow> ends_in (f x) Q E"
  shows "ends_in (op_bind m f) Q E"
  using assms unfolding ends_in_def op_bind_def by (fastforce split: prod.splits sum.splits)

lemma ends_in_return: "P x \<Longrightarrow> ends_in (op_return x) P E"
  by (simp add: ends_in_def op_return_def)

lemma ends_in_fail: "E e \<Longrightarrow> ends_in (op_fail e) P E"
  by (simp add: ends_in_def op_fail_def)

lemma ends_in_lift: "(case r of Inl e \<Rightarrow> E e | Inr x \<Rightarrow> P x) \<Longrightarrow> ends_in (op_lift r) P E"
  by (simp add: ends_in_def op_lift_def)

lemma op_bind_lift_Inr [simp]: "op_bind (op_lift (Inr x)) f = f x"
  by (simp add: op_bind_def op_lift_def fun_eq_iff)

lemma op_bind_lift_internal_Inr [simp]: "op_bind (lift_internal (Inr x)) f = f x"
  by (simp add: lift_internal_def)

lemma ends_in_guard: "(\<not> c \<Longrightarrow> E e) \<Longrightarrow> ends_in (op_guard c e) (\<lambda>_. c) E"
  by (simp add: ends_in_def op_guard_def op_lift_def split: if_splits)

lemma ends_in_internal: "ends_in m P (\<lambda>e. E (SignInternal e)) \<Longrightarrow> ends_in (sign_internal m) P E"
  unfolding ends_in_def sign_internal_def by (fastforce simp: map_err_def split: prod.splits sum.splits)

lemma ends_in_lift_internal: "(case r of Inl e \<Rightarrow> E (SignInternal e) | Inr x \<Rightarrow> P x) \<Longrightarrow> ends_in (lift_internal r) P E"
  by (cases r) (auto simp: lift_internal_def intro: ends_in_lift)

lemma ends_in_weaken: "ends_in m P E \<Longrightarrow> (\<And>x. P x \<Longrightarrow> Q x) \<Longrightarrow> (\<And>e. E e \<Longrightarrow> F e) \<Longrightarrow> ends_in m Q F"
  unfolding ends_in_def by (fastforce split: sum.splits)

lemma ends_in_draw:
  assumes "ends_in m P F" "\<And>e. F e \<Longrightarrow> E (SignInternal e)" "\<And>x. P x \<Longrightarrow> ends_in (f x) Q E"
  shows "ends_in (op_bind (sign_internal m) f) Q E"
  by (rule ends_in_bind [OF ends_in_internal [OF ends_in_weaken [OF assms(1)]]]) (use assms in auto)

definition degenerate :: "sign_error \<Rightarrow> bool" where
  "degenerate e \<longleftrightarrow> e \<in> {SignInternal CusRandom, SignInternal CusSigning}"

lemma degenerate_simps [simp]: "degenerate (SignInternal CusRandom)" "degenerate (SignInternal CusSigning)"
  by (simp_all add: degenerate_def)

section \<open>The draws\<close>

lemma random_scalar_yields: "ends_in (random_scalar rand g) (\<lambda>s. s \<noteq> 0) (\<lambda>e. e = CusRandom)"
proof -
  have "scalar_loop rand g k i = (r, j) \<Longrightarrow> (case r of Inl e \<Rightarrow> e = CusRandom | Inr s \<Rightarrow> s \<noteq> 0)" for k i r j
  proof (induction k arbitrary: i)
    case (Suc k)
    then show ?case
      by (auto simp: op_bind_def op_return_def cus_fill_def random_fill_def map_err_def Let_def
          split: option.splits if_splits prod.splits sum.splits)
  qed (auto simp: op_fail_def)
  then show ?thesis by (simp add: ends_in_def random_scalar_def)
qed

lemma random_nonce_yields:
  assumes "\<forall>i. coprime (bi_below b (pp_n pub) i) (pp_n pub)"
  shows "ends_in (random_nonce b pub) (\<lambda>r. coprime r (pp_n pub)) (\<lambda>e. e = CusRandom)"
proof -
  have "nonce_loop b (pp_n pub) k i = (r, j) \<Longrightarrow>
      (case r of Inl e \<Rightarrow> e = CusRandom | Inr r \<Rightarrow> coprime r (pp_n pub))" for k i r j
    using assms by (induction k arbitrary: i) (auto simp: op_fail_def op_return_def split: if_splits)
  then show ?thesis by (simp add: ends_in_def random_nonce_def)
qed

lemma draw_nonces_yields:
  "ends_in (draw_nonces rand g n) (\<lambda>(ks, gammas). length ks = n \<and> length gammas = n) (\<lambda>e. e = CusRandom)"
proof (induction n)
  case (Suc n)
  show ?case
    unfolding draw_nonces.simps
    by (rule ends_in_bind [OF random_scalar_yields], rule ends_in_bind [OF random_scalar_yields], rule ends_in_bind [OF Suc])
      (auto intro: ends_in_return)
qed (auto intro: ends_in_return)

lemma range_prove_yields:
  assumes "public_wf pub" "encodes pub a r c"
  shows "ends_in (range_prove sha b pub ped c a r q) (\<lambda>pf. range_verify sha pub ped c pf q) (\<lambda>e. e = CusRandom \<or> e = CusSigning)"
  unfolding ends_in_def using range_prove_accepted range_prove_error assms by (fastforce split: sum.splits)

lemma prove_responder_yields:
  assumes "public_wf pub" "affine pub c_a x y s c_b"
  shows "ends_in (prove_responder sha b pub ped c_a c_b x y s q) (\<lambda>pf. verify_responder sha pub ped c_a c_b pf q)
    (\<lambda>e. e = CusRandom \<or> e = CusSigning)"
  unfolding ends_in_def using prove_responder_accepted prove_responder_error assms by (fastforce split: sum.splits)

section \<open>Scalars and numbers\<close>

lemma big_byte_len_le: "n < 256 ^ k \<Longrightarrow> 0 < k \<Longrightarrow> big_byte_len n \<le> k"
proof (induction n arbitrary: k rule: big_byte_len.induct)
  case (1 n)
  show ?case
  proof (cases "n < 256")
    case False
    then obtain j where k: "k = Suc j" "0 < j"
      using 1(2,3) by (cases k; cases "k - 1") auto
    have "big_byte_len (n div 256) \<le> j"
      using 1(1) [OF False, of j] 1(2) k by (simp add: less_mult_imp_div_less mult.commute)
    then show ?thesis using False k by (subst big_byte_len.simps) simp
  qed (use 1 in \<open>subst big_byte_len.simps, simp\<close>)
qed

lemma be_to_nat_padded: "be_to_nat (replicate z 0 @ nat_to_be k n) = n mod 256 ^ k"
proof -
  have "le_to_nat (replicate z 0) = 0" by (induction z) simp_all
  then show ?thesis by (simp add: be_to_nat_def nat_to_be_def le_to_nat_append le_to_nat_nat_to_le)
qed

lemma scalar_from_biguint:
  assumes "scalar_nat_law g q"
  shows "scalar_from_biguint_mod_q g v q = Inr (of_nat (v mod q))"
proof -
  have q: "0 < q" "q \<le> 256 ^ 32" using assms by (simp_all add: scalar_nat_law_def)
  let ?m = "v mod q"
  have m: "?m < q" "?m < 256 ^ 32" using q mod_less_divisor [of q v] by linarith+
  have len: "big_byte_len ?m \<le> 32" using m(2) by (rule big_byte_len_le) simp
  have "be_to_nat (replicate (32 - big_byte_len ?m) 0 @ to_bytes_be ?m) = ?m"
    using big_byte_len_bound [of ?m] by (simp add: to_bytes_be_def be_to_nat_padded)
  then have "sc_decode g (replicate (32 - big_byte_len ?m) 0 @ to_bytes_be ?m) = Some (of_nat ?m)"
    using assms m(1) len by (simp add: scalar_nat_law_def to_bytes_be_def)
  then show ?thesis using len by (simp add: scalar_from_biguint_mod_q_def to_bytes_be_def Let_def)
qed

lemma scalar_to_biguint_law:
  assumes "scalar_nat_law g q"
  shows "scalar_to_biguint g s < q" "of_nat (scalar_to_biguint g s) = s"
  using assms by (simp_all add: scalar_nat_law_def scalar_to_biguint_def)

section \<open>The rounds\<close>

text \<open>A key that is well formed, large enough for the conversion and whose nonces have inverses.\<close>

definition mta_key :: "big_ops \<Rightarrow> nat \<Rightarrow> paillier_private \<Rightarrow> bool" where
  "mta_key b q key \<longleftrightarrow> paillier_wf key \<and> q * q \<le> pp_n (pk_public key) \<and>
     (\<forall>i. coprime (bi_below b (pp_n (pk_public key)) i) (pp_n (pk_public key)))"

lemma product_fits:
  fixes q :: nat
  assumes "x < q" "y < q" "z < q"
  shows "x * y + z < q * q"
proof -
  have "x * y \<le> (q - 1) * (q - 1)" using assms by (intro mult_le_mono) simp_all
  then have "x * y + z \<le> (q - 1) * (q - 1) + (q - 1)" using assms(3) by linarith
  also have "\<dots> = (q - 1) * q" using assms(1) by (cases q) simp_all
  also have "\<dots> < q * q" using assms(1) by simp
  finally show ?thesis .
qed

lemma affine_mta: "affine pub c x y s (paillier_add pub (mul_const pub c x) (encrypt_with pub y s))"
  unfolding affine_def paillier_add_def mul_const_def encrypt_with_def powmod_def Let_def
  by (simp only: mod_mult_eq mod_mod_trivial mult.assoc)

lemma mta_shares:
  fixes g :: "('f::field, 'p) group_ops"
  assumes law: "scalar_nat_law g q" and key: "mta_key b q holder"
  shows "ends_in (mta rand sha b g i j holder ped_i ped_j x y q) (\<lambda>(alpha, beta). alpha + beta = x * y) degenerate"
proof -
  let ?pub = "pk_public holder" and ?a = "scalar_to_biguint g x" and ?b = "scalar_to_biguint g y"
  have wf: "paillier_wf holder" "public_wf ?pub" and nonces: "\<forall>i. coprime (bi_below b (pp_n ?pub) i) (pp_n ?pub)"
    using key paillier_wf_public by (auto simp: mta_key_def)
  have q0: "of_nat q = (0 :: 'f)" using law by (simp add: scalar_nat_law_def)
  show ?thesis
    unfolding mta_def Let_def
  proof (rule ends_in_draw [OF random_nonce_yields [OF nonces]], goal_cases)
    case (2 r)
    note r = 2
    let ?c = "encrypt_with ?pub ?a r"
    show ?case
    proof (rule ends_in_draw [OF range_prove_yields [OF wf(2) affine_encrypt_with]], goal_cases)
      case (2 pf)
      show ?case
      proof (rule ends_in_bind [OF ends_in_guard], goal_cases)
        case 2
        show ?case
        proof (rule ends_in_draw [OF random_scalar_yields], goal_cases)
          case (2 beta)
          show ?case
          proof (rule ends_in_draw [OF random_nonce_yields [OF nonces]], goal_cases)
            case (2 s)
            let ?s = "scalar_to_biguint g beta"
            let ?d = "encrypt_with ?pub ?s s"
            let ?cb = "paillier_add ?pub (mul_const ?pub ?c ?b) ?d"
            have form: "affine ?pub ?c ?b ?s s ?cb"
              by (rule affine_mta)
            have fits: "?a * ?b + ?s < pp_n ?pub"
              using product_fits [of ?a q ?b ?s] scalar_to_biguint_law(1) [OF law] key
              by (meson mta_key_def order_less_le_trans)
            obtain v where v: "paillier_decrypt holder ?cb = Some v"
              "of_nat (v mod q) + - of_nat ?s = (of_nat ?a * of_nat ?b :: 'f)"
              using paillier.shares_of_product [OF encrypt_with_holds [OF wf(1) r] encrypt_with_holds [OF wf(1) 2] fits q0]
              by blast
            show ?case
            proof (rule ends_in_draw [OF prove_responder_yields [OF wf(2) form]], goal_cases)
              case (2 pf')
              then show ?case
                using v(2) unfolding v(1) scalar_to_biguint_law(2) [OF law]
                by (intro ends_in_bind [OF ends_in_guard] ends_in_bind [OF ends_in_lift [where P = "\<lambda>w. w = v"]]
                    ends_in_bind [OF ends_in_lift_internal [where P = "\<lambda>alpha. alpha = of_nat (v mod q)"]] ends_in_return)
                  (auto simp: scalar_from_biguint [OF law])
            qed auto
          qed auto
        qed auto
      qed (use 2 in auto)
    qed auto
  qed auto
qed

lemma add_at_ok: "i < length xs \<Longrightarrow> add_at xs i v = Inr (xs[i := xs ! i + v])"
  by (simp add: add_at_def get_at_def)

lemma sum_list_add_at:
  fixes xs :: "'f::field list"
  assumes "i < length xs"
  shows "sum_list (xs[i := xs ! i + v]) = sum_list xs + v"
  using assms by (induction xs arbitrary: i) (auto simp: algebra_simps split: nat.splits)

definition cross_sum :: "'f::field list \<Rightarrow> 'f list \<Rightarrow> (nat \<times> nat) list \<Rightarrow> 'f" where
  "cross_sum k v pairs = (\<Sum>(i, j)\<leftarrow>pairs. if i = j then 0 else k ! i * v ! j)"

lemma cross_sum_Cons: "cross_sum k v ((i, j) # pairs) = (if i = j then 0 else k ! i * v ! j) + cross_sum k v pairs"
  by (simp add: cross_sum_def)

lemma mta_loop_sums:
  fixes g :: "('f::field, 'p) group_ops"
  assumes law: "scalar_nat_law g q" and keys: "\<forall>p \<in> set parties. mta_key b q (gp_paillier p)"
    and len: "length k = length parties" "length gamma = length parties" "length w = length parties"
  shows "\<forall>(i, j) \<in> set pairs. i < length parties \<and> j < length parties \<Longrightarrow>
    length delta = length parties \<Longrightarrow> length sigma = length parties \<Longrightarrow>
    ends_in (mta_loop rand sha b g parties k gamma w q pairs delta sigma)
      (\<lambda>(d, s). length s = length parties \<and> sum_list d = sum_list delta + cross_sum k gamma pairs \<and>
         sum_list s = sum_list sigma + cross_sum k w pairs) degenerate"
proof (induction pairs arbitrary: delta sigma)
  case Nil
  then show ?case by (auto simp: cross_sum_def intro: ends_in_return)
next
  case (Cons pair pairs)
  obtain i j where pair: "pair = (i, j)" by (cases pair)
  then have ij: "i < length parties" "j < length parties" using Cons.prems by auto
  show ?case
  proof (cases "i = j")
    case True
    then show ?thesis using Cons by (simp add: pair cross_sum_Cons)
  next
    case False
    let ?p = "parties ! i"
    have key: "mta_key b q (gp_paillier ?p)" using keys ij by simp
    note step = ends_in_bind [OF mta_shares [OF law key]]
    have cont: "ends_in (mta_loop rand sha b g parties k gamma w q pairs
          (delta[i := delta ! i + alpha, j := delta ! j + beta]) (sigma[i := sigma ! i + mu, j := sigma ! j + nu]))
        (\<lambda>(d, s). length s = length parties \<and> sum_list d = sum_list delta + cross_sum k gamma (pair # pairs) \<and>
           sum_list s = sum_list sigma + cross_sum k w (pair # pairs)) degenerate"
      if "alpha + beta = k ! i * gamma ! j" "mu + nu = k ! i * w ! j" for alpha beta mu nu
    proof -
      have sums: "sum_list (xs[i := xs ! i + y, j := xs ! j + z]) = sum_list xs + (y + z)"
        if "length xs = length parties" for xs :: "'f list" and y z
      proof -
        have "xs[i := xs ! i + y] ! j = xs ! j" using False by simp
        then show ?thesis
          using sum_list_add_at [of j "xs[i := xs ! i + y]" z] sum_list_add_at [of i xs y] that ij by (simp add: add.assoc)
      qed
      show ?thesis
        by (rule ends_in_weaken [OF Cons.IH])
          (use Cons.prems that False in \<open>auto simp: pair cross_sum_Cons sums add.assoc\<close>)
    qed
    have chain: "ends_in (op_bind (lift_internal (add_at delta i alpha)) (\<lambda>delta.
          op_bind (lift_internal (add_at delta j beta)) (\<lambda>delta.
          op_bind (lift_internal (add_at sigma i mu)) (\<lambda>sigma.
          op_bind (lift_internal (add_at sigma j nu)) (\<lambda>sigma.
          mta_loop rand sha b g parties k gamma w q pairs delta sigma)))))
        (\<lambda>(d, s). length s = length parties \<and> sum_list d = sum_list delta + cross_sum k gamma (pair # pairs) \<and>
           sum_list s = sum_list sigma + cross_sum k w (pair # pairs)) degenerate"
      if "alpha + beta = k ! i * gamma ! j" "mu + nu = k ! i * w ! j" for alpha beta mu nu
      using cont [OF that] Cons.prems ij False by (simp add: add_at_ok)
    show ?thesis
      unfolding pair mta_loop.simps if_not_P [OF False]
      using ij len
      by (simp add: get_at_def) (rule step, clarify, rule step, clarify, rule chain [unfolded pair])
  qed
qed

lemma sum_list_product:
  "(\<Sum>p\<leftarrow>List.product xs ys. f p) = (\<Sum>x\<leftarrow>xs. \<Sum>y\<leftarrow>ys. f (x, y) :: 'f::field)"
  by (induction xs) (simp_all add: comp_def)

lemma cross_sum_all:
  fixes k v :: "'f::field list"
  assumes "length k = n" "length v = n"
  shows "sum_list (map2 (*) k v) + cross_sum k v (List.product [0..<n] [0..<n]) = sum_list k * sum_list v"
proof -
  have "cross_sum k v (List.product [0..<n] [0..<n]) = (\<Sum>i<n. \<Sum>j<n. if i = j then 0 else k ! i * v ! j)"
    by (simp add: cross_sum_def sum_list_product interv_sum_list_conv_sum_set_nat atLeast0LessThan)
  moreover have "sum_list (map2 (*) k v) = (\<Sum>i<n. k ! i * v ! i)"
    using assms by (simp add: sum_list_sum_nth atLeast0LessThan)
  moreover have "(\<Sum>j<n. if i = j then 0 else k ! i * v ! j) + k ! i * v ! i = (\<Sum>j<n. k ! i * v ! j)" if "i < n" for i
    using that sum.remove [of "{..<n}" i "\<lambda>j. if i = j then 0 else k ! i * v ! j"] sum.remove [of "{..<n}" i "\<lambda>j. k ! i * v ! j"]
    by (simp add: add.commute)
  ultimately have "sum_list (map2 (*) k v) + cross_sum k v (List.product [0..<n] [0..<n]) = (\<Sum>i<n. \<Sum>j<n. k ! i * v ! j)"
    by (simp add: sum.distrib [symmetric] add.commute)
  also have "\<dots> = sum_list k * sum_list v"
    using assms by (simp add: sum_list_sum_nth atLeast0LessThan sum_product)
  finally show ?thesis .
qed

lemma mta_accumulate_sums:
  fixes g :: "('f::field, 'p) group_ops"
  assumes "scalar_nat_law g q" "\<forall>p \<in> set parties. mta_key b q (gp_paillier p)"
    and "length k = length parties" "length gamma = length parties" "length w = length parties"
  shows "ends_in (mta_accumulate rand sha b g parties k gamma w q)
    (\<lambda>(delta, sigma). length sigma = length k \<and> sum_list delta = sum_list k * sum_list gamma \<and>
       sum_list sigma = sum_list k * sum_list w) degenerate"
proof -
  let ?pairs = "List.product [0..<length parties] [0..<length parties]"
  have "ends_in (mta_loop rand sha b g parties k gamma w q ?pairs (map2 (*) k gamma) (map2 (*) k w))
      (\<lambda>(d, s). length s = length parties \<and> sum_list d = sum_list (map2 (*) k gamma) + cross_sum k gamma ?pairs \<and>
         sum_list s = sum_list (map2 (*) k w) + cross_sum k w ?pairs) degenerate"
    by (rule mta_loop_sums) (use assms in auto)
  then show ?thesis
    unfolding mta_accumulate_def Let_def
    by (rule ends_in_weaken) (use assms cross_sum_all [of k "length parties"] in auto)
qed

section \<open>The signature\<close>

lemma nonce_points_sum:
  assumes "group_law g"
  shows "foldl (\<lambda>acc y. gr_add g acc (gr_mul g (gr_base g) y)) (gr_mul g (gr_base g) a) gamma =
    gr_mul g (gr_base g) (a + sum_list gamma)"
proof (induction gamma arbitrary: a)
  case (Cons y gamma)
  have "gr_add g (gr_mul g (gr_base g) a) (gr_mul g (gr_base g) y) = gr_mul g (gr_base g) (a + y)"
    using assms by (simp add: group_law_def)
  then show ?case using Cons [of "a + y"] by (simp add: add.assoc)
qed simp

lemma foldl_shares:
  fixes m r :: "'f::field"
  assumes "length k = length sigma"
  shows "foldl (\<lambda>acc (ki, si). acc + m * ki + r * si) a (zip k sigma) = a + m * sum_list k + r * sum_list sigma"
  using assms by (induction k sigma arbitrary: a rule: list_induct2) (simp_all add: algebra_simps)

lemma equation_iff:
  fixes g :: "('f::field, 'p) group_ops"
  assumes "group_law g"
  shows "ecdsa_equation g (gr_mul g (gr_base g) x) m r s \<longleftrightarrow> r \<noteq> 0 \<and> s \<noteq> 0 \<and>
    point_x_as_scalar g (gr_mul g (gr_base g) ((m + r * x) * inverse s)) = Inr r"
proof -
  have "gr_add g (gr_mul g (gr_base g) (m * inverse s)) (gr_mul g (gr_mul g (gr_base g) x) (r * inverse s)) =
      gr_mul g (gr_base g) (m * inverse s + x * (r * inverse s))"
    using assms by (simp add: group_law_def)
  moreover have "m * inverse s + x * (r * inverse s) = (m + r * x) * inverse s" by (simp add: algebra_simps)
  ultimately show ?thesis by (simp only: ecdsa_equation_def)
qed

lemma equation_holds:
  fixes g :: "('f::field, 'p) group_ops"
  assumes "group_law g" "r \<noteq> 0" "s \<noteq> 0" "s = k * (m + r * x)"
    and "point_x_as_scalar g (gr_mul g (gr_base g) (inverse k)) = Inr r"
  shows "ecdsa_equation g (gr_mul g (gr_base g) x) m r s"
proof -
  have "(m + r * x) * inverse s = inverse k" using assms(3) unfolding assms(4) by simp
  then show ?thesis using assms(2,3,5) unfolding equation_iff [OF assms(1)] by simp
qed

lemma equation_negated:
  fixes g :: "('f::field, 'p) group_ops"
  assumes "group_law g" "dsa_law ds from_sc g" "ecdsa_equation g (gr_mul g (gr_base g) x) m r s"
  shows "ecdsa_equation g (gr_mul g (gr_base g) x) m r (- s)"
proof -
  let ?a = "(m + r * x) * inverse s"
  have "gr_mul g (gr_base g) (?a * - 1) = gr_mul g (gr_mul g (gr_base g) ?a) (- 1)"
    using assms(1) unfolding group_law_def by blast
  then have "gr_mul g (gr_base g) ((m + r * x) * inverse (- s)) = gr_mul g (gr_mul g (gr_base g) ?a) (- 1)"
    by simp
  moreover have "point_x_as_scalar g (gr_mul g pt (- 1)) = point_x_as_scalar g pt" for pt
    using assms(2) by (simp add: dsa_law_def point_x_as_scalar_def)
  ultimately show ?thesis using assms(3) unfolding equation_iff [OF assms(1)] by simp
qed

lemma assemble_der_verifies:
  fixes g :: "('f::field, 'p) group_ops"
  assumes "group_law g" "dsa_law ds from_sc g" "x \<noteq> 0"
    and eq: "ecdsa_equation g (gr_mul g (gr_base g) x) (scalar_from_hash g h) r s"
    and "assemble_der ds from_sc g r s = Inr der"
  shows "verify_der_prehash ds (gr_encode g (gr_mul g (gr_base g) x)) h der"
proof -
  obtain sig where sig: "from_sc (sc_encode g r) (sc_encode g s) = Some sig"
    and der: "der = sig_to_der ds (unwrap_or (sig_normalize_s ds sig) sig)"
    using assms(5) by (auto simp: assemble_der_def rbind_eq_Inr)
  obtain key where key: "vk_from_sec1 ds (gr_encode g (gr_mul g (gr_base g) x)) = Some key"
    using assms(2,3) by (auto simp: dsa_law_def)
  define low where "low = unwrap_or (sig_normalize_s ds sig) sig"
  have "is_low_s ds low \<and> vk_verify_prehash ds key h low"
  proof (cases "sig_normalize_s ds sig")
    case None
    then show ?thesis using assms(2) key sig eq unfolding dsa_law_def low_def is_low_s_def by simp
  next
    case (Some t)
    then have "from_sc (sc_encode g r) (sc_encode g (- s)) = Some t" "sig_normalize_s ds t = None"
      using assms(2) sig by (simp_all add: dsa_law_def)
    then show ?thesis
      using assms(2) key equation_negated [OF assms(1,2) eq] Some unfolding dsa_law_def low_def is_low_s_def by simp
  qed
  then show ?thesis using assms(2) key by (simp add: verify_der_prehash_def dsa_law_def der low_def)
qed

text \<open>Honest parties: their keys fit, and their modulus proofs were made for their own keys.\<close>

definition honest_party :: "(bytes \<Rightarrow> bytes) \<Rightarrow> big_ops \<Rightarrow> nat \<Rightarrow> 'f gg20_party \<Rightarrow> bool" where
  "honest_party sha b q p \<longleftrightarrow> mta_key b q (gp_paillier p) \<and> prove_modulus sha b (gp_paillier p) = Inr (gp_modulus_proof p)"

lemma modulus_checks_honest:
  assumes "big_law b" "\<forall>p \<in> set parties. honest_party sha b q p"
  shows "modulus_checks sha (enumerate n parties) = Inr ()"
  using assms(2)
  by (induction parties arbitrary: n)
    (auto simp: honest_party_def mta_key_def intro: modulus_proof_accepted [OF assms(1)])

text \<open>The signature is assembled from the nonce point and the shared product.\<close>

lemma assembled_verifies:
  fixes g :: "('f::field, 'p) group_ops"
  assumes "group_law g" "dsa_law ds from_sc g" "x \<noteq> 0"
    and r: "point_x_as_scalar g (gr_mul g (gr_base g) (inverse k)) = Inr r"
  shows "ends_in (if r = 0 then op_fail (SignInternal CusSigning)
      else if k * (scalar_from_hash g h + r * x) = 0 then op_fail (SignInternal CusSigning)
      else lift_internal (assemble_der ds from_sc g r (k * (scalar_from_hash g h + r * x))))
    (verify_der_prehash ds (gr_encode g (gr_mul g (gr_base g) x)) h) degenerate"
proof -
  let ?s = "k * (scalar_from_hash g h + r * x)"
  have "verify_der_prehash ds (gr_encode g (gr_mul g (gr_base g) x)) h der"
    if "r \<noteq> 0" "?s \<noteq> 0" "assemble_der ds from_sc g r ?s = Inr der" for der
    by (rule assemble_der_verifies [OF assms(1-3) equation_holds [OF assms(1) that(1,2) refl r] that(3)])
  moreover have "e = CusSigning" if "assemble_der ds from_sc g r ?s = Inl e" for e
    using that by (auto simp: assemble_der_def rbind_def ok_or_def Let_def split: option.splits)
  ultimately show ?thesis by (auto intro!: ends_in_fail ends_in_lift_internal split: sum.splits)
qed

lemma point_x_degenerate: "point_x_as_scalar g p = Inl e \<Longrightarrow> e = CusSigning"
  by (auto simp: point_x_as_scalar_def rbind_def ok_or_def Let_def split: if_splits option.splits)

lemma last_round_verifies:
  fixes g :: "('f::field, 'p) group_ops" and h :: bytes
  assumes laws: "group_law g" "dsa_law ds from_sc g" "x \<noteq> 0"
    and sums: "length sigma = length k" "sum_list delta = sum_list k * sum_list gamma" "sum_list sigma = sum_list k * x"
  defines "s \<equiv> (\<lambda>r. foldl (\<lambda>acc (ki, si). acc + scalar_from_hash g h * ki + r * si) 0 (zip k sigma))"
  shows "ends_in (op_bind (lift_internal (ok_or (scalar_invert (foldl (+) 0 delta)) CusSigning)) (\<lambda>delta_inv.
         op_bind (lift_internal (point_x_as_scalar g (gr_mul g
           (foldl (\<lambda>acc y. gr_add g acc (gr_mul g (gr_base g) y)) (gr_identity g) gamma) delta_inv))) (\<lambda>r.
         if r = 0 then op_fail (SignInternal CusSigning)
         else if s r = 0 then op_fail (SignInternal CusSigning)
              else lift_internal (assemble_der ds from_sc g r (s r)))))
       (verify_der_prehash ds (gr_encode g (gr_mul g (gr_base g) x)) h) degenerate"
proof -
  have delta: "foldl (+) 0 delta = sum_list k * sum_list gamma"
    using sums(2) foldl_add_sum [of "\<lambda>y. y" 0 delta] by simp
  have "gr_identity g = gr_mul g (gr_base g) 0" using laws(1) by (simp add: group_law_def)
  then have points: "foldl (\<lambda>acc y. gr_add g acc (gr_mul g (gr_base g) y)) (gr_identity g) gamma =
      gr_mul g (gr_base g) (sum_list gamma)"
    using nonce_points_sum [OF laws(1), of 0 gamma] by simp
  have s: "s r = sum_list k * (scalar_from_hash g h + r * x)" for r
    using foldl_shares [of k sigma "scalar_from_hash g h" r 0] sums by (simp add: s_def algebra_simps)
  show ?thesis
  proof (rule ends_in_bind [OF ends_in_lift_internal [where P = "\<lambda>d. foldl (+) 0 delta \<noteq> 0 \<and> d = inverse (foldl (+) 0 delta)"]], goal_cases)
    case (2 d)
    then have nz: "sum_list k \<noteq> 0" "sum_list gamma \<noteq> 0" and d: "d = inverse (sum_list k * sum_list gamma)"
      unfolding delta by auto
    have "sum_list gamma * d = inverse (sum_list k)" using nz unfolding d by simp
    then have pt: "gr_mul g (gr_mul g (gr_base g) (sum_list gamma)) d = gr_mul g (gr_base g) (inverse (sum_list k))"
      using laws(1) unfolding group_law_def by metis
    show ?case
      unfolding points pt s
    proof (rule ends_in_bind [OF ends_in_lift_internal [where P = "\<lambda>r. point_x_as_scalar g (gr_mul g (gr_base g) (inverse (sum_list k))) = Inr r"]], goal_cases)
      case (2 r)
      then show ?case by (rule assembled_verifies [OF laws])
    qed (auto dest: point_x_degenerate split: sum.splits)
  qed (auto simp: scalar_invert_def ok_or_def)
qed

lemma sign_over_verifies:
  fixes g :: "('f::field, 'p) group_ops"
  assumes laws: "big_law b" "group_law g" "scalar_nat_law g q" "dsa_law ds from_sc g"
    and honest: "\<forall>p \<in> set parties. honest_party sha b q p" and two: "2 \<le> length parties"
    and x: "(\<Sum>p\<leftarrow>parties. lagrange_coefficient (map gp_index parties) (gp_index p) * sh_y (gp_share p)) = x" "x \<noteq> 0"
  shows "ends_in (sign_over q rand sha b g ds from_sc parties h)
    (verify_der_prehash ds (gr_encode g (gr_mul g (gr_base g) x)) h) degenerate"
  unfolding sign_over_def Let_def using two
proof (simp add: modulus_checks_honest [OF laws(1) honest], intro ends_in_draw [OF draw_nonces_yields], goal_cases)
  case (2 kg)
  have keys: "\<forall>p \<in> set parties. mta_key b q (gp_paillier p)" using honest by (simp add: honest_party_def)
  obtain k gamma where kg: "kg = (k, gamma)" "length k = length parties" "length gamma = length parties"
    using 2 by (cases kg) auto
  show ?case
    unfolding kg(1) prod.case
    by (rule ends_in_bind [OF mta_accumulate_sums [OF laws(3) keys kg(2,3)]])
      (auto simp: x(1) intro!: last_round_verifies [OF laws(2,4) x(2)])
qed simp

section \<open>Blame\<close>

definition no_fault :: "sign_error \<Rightarrow> bool" where
  "no_fault e \<longleftrightarrow> (\<forall>a. e \<noteq> SignFault a)"

lemma no_fault_simps [simp]: "no_fault (SignInternal e)" "no_fault SignPanic"
  by (simp_all add: no_fault_def)

lemma ends_in_true_lift: "(\<And>e. r = Inl e \<Longrightarrow> E e) \<Longrightarrow> ends_in (op_lift r) (\<lambda>_. True) E"
  by (auto intro!: ends_in_lift split: sum.splits)

lemma ends_in_no_fault_internal: "ends_in (sign_internal m) (\<lambda>_. True) no_fault"
  by (rule ends_in_internal) (simp add: ends_in_def split: sum.splits)

lemma ends_in_no_fault_lift: "ends_in (lift_internal r) (\<lambda>_. True) no_fault"
  by (rule ends_in_lift_internal) (simp split: sum.splits)

lemma mta_no_fault:
  assumes "public_wf (pk_public holder)"
  shows "ends_in (mta rand sha b g i j holder ped_i ped_j x y q) (\<lambda>_. True) no_fault"
proof -
  note range = ends_in_draw [OF range_prove_yields [OF assms affine_encrypt_with]]
  note resp = ends_in_draw [OF prove_responder_yields [OF assms affine_mta]]
  note any = ends_in_bind [OF ends_in_no_fault_internal] ends_in_bind [OF ends_in_no_fault_lift]
  have ending: "ends_in (op_bind (op_lift (ok_or v SignPanic)) (\<lambda>v.
      op_bind (lift_internal (scalar_from_biguint_mod_q g v q)) (\<lambda>alpha. op_return (alpha, - beta)))) (\<lambda>_. True) no_fault" for v beta
    by (intro ends_in_bind [OF ends_in_true_lift] any ends_in_return) (auto simp: ok_or_def split: option.splits)
  show ?thesis
    unfolding mta_def Let_def
    by (rule any, rule range, simp, rule ends_in_bind [OF ends_in_guard], simp, rule any, rule any, rule resp, simp,
        rule ends_in_bind [OF ends_in_guard], simp, rule ending)
qed

lemma mta_loop_no_fault:
  assumes "\<forall>p \<in> set parties. public_wf (pk_public (gp_paillier p))"
  shows "ends_in (mta_loop rand sha b g parties k gamma w q pairs delta sigma) (\<lambda>_. True) no_fault"
proof (induction pairs arbitrary: delta sigma)
  case (Cons pair pairs)
  obtain i j where pair: "pair = (i, j)" by (cases pair)
  note any = ends_in_bind [OF ends_in_no_fault_lift]
  have party: "ends_in (lift_internal (ok_or (get_at parties i) CusSigning)) (\<lambda>p. public_wf (pk_public (gp_paillier p))) no_fault"
    using assms by (intro ends_in_lift_internal) (auto simp: get_at_def ok_or_def)
  show ?case
  proof (cases "i = j")
    case True
    then show ?thesis using Cons.IH by (simp add: pair)
  next
    case False
    show ?thesis
      unfolding pair mta_loop.simps if_not_P [OF False]
      by (rule any, rule any, rule any, rule ends_in_bind [OF party], rule any,
          rule ends_in_bind [OF mta_no_fault], assumption, clarify, rule ends_in_bind [OF mta_no_fault], assumption, clarify,
          rule any, rule any, rule any, rule any, rule Cons.IH)
  qed
qed (auto intro: ends_in_return)

lemma modulus_checks_first:
  "modulus_checks sha (enumerate n parties) =
     (case find (\<lambda>i. \<not> modulus_verify sha (pp_n (pk_public (gp_paillier (parties ! i)))) (gp_modulus_proof (parties ! i)))
             [0..<length parties] of
        None \<Rightarrow> Inr ()
      | Some i \<Rightarrow> Inl (blame (n + i) ModulusFault))"
proof (induction parties arbitrary: n)
  case (Cons p parties)
  have "find P [0..<length (p # parties)] = (if P 0 then Some 0 else map_option Suc (find (\<lambda>i. P (Suc i)) [0..<length parties]))" for P
  proof -
    have "[0..<length (p # parties)] = 0 # map Suc [0..<length parties]" by (simp add: upt_conv_Cons map_Suc_upt del: upt_Suc)
    moreover have "find P (map Suc xs) = map_option Suc (find (\<lambda>i. P (Suc i)) xs)" for xs by (induction xs) simp_all
    ultimately show ?thesis by simp
  qed
  then show ?case using Cons [of "Suc n"] by (simp del: upt_Suc split: option.splits)
qed simp

section \<open>Dealt keys\<close>

lemma may_bind_okE:
  assumes "may_bind m f i = Some (Inr y, l)"
  obtains x j where "m i = Some (Inr x, j)" "f x j = Some (Inr y, l)"
  using assms by (auto simp: may_bind_def split: option.splits prod.splits sum.splits)

lemma party_new_ok:
  assumes "gg20_party_new sha b share bits i = Some (Inr p, l)"
  shows "gp_share p = share" "prove_modulus sha b (gp_paillier p) = Inr (gp_modulus_proof p)"
    "\<exists>i j. paillier_generate b bits i = Some (Inr (gp_paillier p), j)"
  using assms
  by (auto simp: gg20_party_new_def may_draw_def op_return_def op_lift_def elim!: may_bind_okE) blast

lemma dealer_parties_ok:
  assumes "dealer_parties sha b bits shares i = Some (Inr ps, l)"
  shows "map gp_share ps = shares \<and> (\<forall>p \<in> set ps. prove_modulus sha b (gp_paillier p) = Inr (gp_modulus_proof p) \<and>
    (\<exists>i j. paillier_generate b bits i = Some (Inr (gp_paillier p), j)))"
  using assms
proof (induction shares arbitrary: i ps l)
  case (Cons share shares)
  then obtain p j qs k where p: "gg20_party_new sha b share bits i = Some (Inr p, j)"
    "dealer_parties sha b bits shares j = Some (Inr qs, k)" "ps = p # qs"
    by (auto simp: may_draw_def op_return_def elim!: may_bind_okE)
  with Cons.IH [OF p(2)] party_new_ok [OF p(1)] show ?case by simp
qed (simp add: may_draw_def op_return_def)

lemma dealer_keygen_ok:
  assumes "dealer_keygen rand sha b g t n bits i = Some (Inr (gkey, parties), l)"
  obtains secret k j where "secret \<noteq> 0" "gk_public gkey = gr_mul g (gr_base g) secret"
    "shamir_split rand g secret t n k = (Inr (map gp_share parties), j)"
    "\<forall>p \<in> set parties. prove_modulus sha b (gp_paillier p) = Inr (gp_modulus_proof p) \<and>
       (\<exists>i j. paillier_generate b bits i = Some (Inr (gp_paillier p), j))"
proof -
  obtain shares j where kg: "keygen rand g t n i = (Inr (gkey, shares), j)"
    and ps: "dealer_parties sha b bits shares j = Some (Inr parties, l)"
    using assms by (auto simp: dealer_keygen_def may_draw_def op_return_def elim!: may_bind_okE)
  obtain secret k where "random_scalar rand g i = (Inr secret, k)" "gk_public gkey = gr_mul g (gr_base g) secret"
    "shamir_split rand g secret t n k = (Inr shares, j)"
    using kg by (auto simp: keygen_def op_return_def Let_def elim!: op_bind_okE)
  moreover from this have "secret \<noteq> 0" using ends_in_ok [OF random_scalar_yields] by blast
  ultimately show thesis using that dealer_parties_ok [OF ps] by blast
qed

lemma dealt_quorum:
  fixes g :: "('f::field, 'p) group_ops"
  assumes split: "shamir_split rand g secret t n k = (Inr (map gp_share parties), j)"
    and "distinct (map gp_share sub)" "set sub \<subseteq> set parties" "t \<le> length sub"
  shows "(\<Sum>p\<leftarrow>sub. lagrange_coefficient (map gp_index sub) (gp_index p) * sh_y (gp_share p)) = secret"
proof -
  note interp = split_interpolates [OF split assms(2)]
  have xs: "map gp_index sub = map sh_x (map gp_share sub)" by (simp add: gp_index_def)
  have d: "distinct (map sh_x (map gp_share sub))"
    by (rule interp(1)) (use assms in auto)
  have "(\<Sum>p\<leftarrow>sub. lagrange_coefficient (map gp_index sub) (gp_index p) * sh_y (gp_share p)) =
      (\<Sum>s\<leftarrow>map gp_share sub. sh_y s * lagrange_weight (set (map sh_x (map gp_share sub))) (sh_x s))"
    unfolding xs lagrange_coefficient_weight [OF d] by (simp add: comp_def gp_index_def mult.commute)
  also have "\<dots> = secret" by (rule interp(2)) (use assms in auto)
  finally show ?thesis .
qed

section \<open>An instance of the parameters\<close>

text \<open>The field with five elements acting on itself: a point is encoded by a sign and its square.\<close>

definition be32 :: "nat \<Rightarrow> bytes" where
  "be32 n = replicate 31 0 @ [word_of_nat n]"

definition five_group :: "(f5, f5) group_ops" where
  "five_group = \<lparr>gr_identity = 0, gr_base = 1, gr_add = (+), gr_mul = (*),
     gr_encode = (\<lambda>p. if p = 0 then [0] else (if Rep_f5 p < 3 then 2 else 3) # be32 (Rep_f5 (p * p))),
     sc_decode = (\<lambda>bs. if length bs = 32 \<and> be_to_nat bs < 5 then Some (of_nat (be_to_nat bs)) else None),
     sc_encode = (\<lambda>s. be32 (Rep_f5 s)), sc_reduce = (\<lambda>bs. of_nat (be_to_nat bs))\<rparr>"

definition five_scalars :: "bytes \<Rightarrow> bytes \<Rightarrow> (f5 \<times> f5) option" where
  "five_scalars rb sb = Some (of_nat (be_to_nat rb), of_nat (be_to_nat sb))"

definition five_dsa :: "(f5, f5, f5 \<times> f5) ecdsa_ops" where
  "five_dsa = \<lparr>sk_from_slice = (\<lambda>_. None), sk_sign = (\<lambda>_ _. (1, 1)), sk_sign_prehash = (\<lambda>_ _. None), vk_of = (\<lambda>k. k),
     vk_from_sec1 = (\<lambda>bs. find (\<lambda>p. gr_encode five_group p = bs) [1, 2, 3, 4]),
     vk_verify = (\<lambda>_ _ _. False),
     vk_verify_prehash = (\<lambda>public h (r, s). ecdsa_equation five_group public (scalar_from_hash five_group h) r s),
     sig_normalize_s = (\<lambda>(r, s). if Rep_f5 s < 3 then None else Some (r, - s)),
     sig_to_der = (\<lambda>(r, s). [word_of_nat (Rep_f5 r), word_of_nat (Rep_f5 s)]),
     sig_from_der = (\<lambda>bs. case bs of [r, s] \<Rightarrow> Some (of_nat (unat r), of_nat (unat s)) | _ \<Rightarrow> None)\<rparr>"

definition five_rand :: rng where
  "five_rand i n = Some (replicate (n - 1) 0 @ [word_of_nat (Suc (i mod 4))])"

definition five_big :: big_ops where
  "five_big = \<lparr>bi_below = (\<lambda>bound _. 1 mod bound), bi_prime = (\<lambda>_ i. if even i then 5 else 7),
     bi_inverse = (\<lambda>a m. find (\<lambda>x. a * x mod m = 1 mod m) [0..<m])\<rparr>"

lemma be_to_nat_be32: "n < 256 \<Longrightarrow> be_to_nat (be32 n) = n"
proof -
  assume "n < 256"
  moreover have "le_to_nat (replicate z 0) = 0" for z by (induction z) simp_all
  ultimately show ?thesis by (simp add: be_to_nat_def be32_def byte_unat_of_nat)
qed

lemma f5_rep_byte [simp]: "be_to_nat (be32 (Rep_f5 x)) = Rep_f5 x" "unat (word_of_nat (Rep_f5 x) :: byte) = Rep_f5 x"
  using f5_less [of x] by (simp_all add: be_to_nat_be32 byte_unat_of_nat)

lemma f5_unsigned [simp]: "unsigned (word_of_nat (Rep_f5 x) :: byte) = x"
  by (metis f5_rep f5_rep_byte(2) of_nat_unat)

lemma five_group_law: "group_law five_group"
  by (simp add: group_law_def five_group_def algebra_simps)

lemma five_scalar_law: "scalar_nat_law five_group 5"
  using f5_less f5_five by (simp add: scalar_nat_law_def five_group_def f5_rep) (simp add: be32_def)

lemma five_key: "vk_from_sec1 five_dsa (gr_encode five_group p) = (if p = 0 then None else Some p)"
  using f5_cases [of p] by (auto simp: five_dsa_def five_group_def be32_def)

lemma five_dsa_law: "dsa_law five_dsa five_scalars five_group"
  unfolding dsa_law_def
proof (intro conjI allI impI)
  fix r s sig t
  assume "five_scalars (sc_encode five_group r) (sc_encode five_group s) = Some sig" "sig_normalize_s five_dsa sig = Some t"
  then have "\<not> Rep_f5 s < 3" "t = (r, - s)"
    by (auto simp: five_scalars_def five_group_def five_dsa_def f5_rep split: if_splits)
  then show "five_scalars (sc_encode five_group r) (sc_encode five_group (- s)) = Some t"
    by (simp add: five_scalars_def five_group_def f5_rep)
  show "sig_normalize_s five_dsa t = None"
    using \<open>\<not> Rep_f5 s < 3\<close> \<open>t = (r, - s)\<close> f5_less [of s] by (auto simp: five_dsa_def uminus_f5.rep_eq)
next
  fix sig show "sig_from_der five_dsa (sig_to_der five_dsa sig) = Some sig"
    by (cases sig) (simp add: five_dsa_def f5_rep)
next
  fix public key h r s sig
  assume "vk_from_sec1 five_dsa (gr_encode five_group public) = Some key"
    "five_scalars (sc_encode five_group r) (sc_encode five_group s) = Some sig"
    "ecdsa_equation five_group public (scalar_from_hash five_group h) r s"
  moreover have "five_scalars (sc_encode five_group r) (sc_encode five_group s) = Some (r, s)"
    by (simp add: five_scalars_def five_group_def f5_rep)
  ultimately have "key = public" "sig = (r, s)" by (simp_all add: five_key split: if_splits)
  then show "vk_verify_prehash five_dsa key h sig"
    using \<open>ecdsa_equation _ _ _ _ _\<close> by (simp add: five_dsa_def)
next
  fix p
  show "length (gr_encode five_group (gr_mul five_group p (- 1))) = length (gr_encode five_group p)"
    "drop 1 (gr_encode five_group (gr_mul five_group p (- 1))) = drop 1 (gr_encode five_group p)"
    by (simp_all add: five_group_def be32_def)
next
  fix a :: f5 assume "a \<noteq> 0"
  moreover have "gr_mul five_group (gr_base five_group) a = a" by (simp add: five_group_def)
  ultimately show "length (gr_encode five_group (gr_mul five_group (gr_base five_group) a)) = 33"
    "vk_from_sec1 five_dsa (gr_encode five_group (gr_mul five_group (gr_base five_group) a)) \<noteq> None"
    by (simp_all add: five_key) (simp add: five_group_def be32_def)
qed

lemma five_primes: "big_prime 5" "big_prime 7"
proof -
  have "d = 1 \<or> d = 5" if "d dvd 5" for d :: nat
  proof -
    have "d \<le> 5" using that by (simp add: dvd_imp_le)
    then have "d \<in> {0, 1, 2, 3, 4, 5}" by auto
    with that show ?thesis by auto
  qed
  then show "big_prime 5" by (simp add: big_prime_def)
  have "d = 1 \<or> d = 7" if "d dvd 7" for d :: nat
  proof -
    have "d \<le> 7" using that by (simp add: dvd_imp_le)
    then have "d \<in> {0, 1, 2, 3, 4, 5, 6, 7}" by auto
    with that show ?thesis by auto
  qed
  then show "big_prime 7" by (simp add: big_prime_def)
qed

lemma five_big_law: "big_law five_big"
proof -
  have "bi_inverse five_big a m = Some x \<Longrightarrow> a * x mod m = 1 mod m" for a m x
    by (simp only: five_big_def big_ops.select_convs find_Some_iff) blast
  moreover have "bi_below five_big bound i < bound" if "0 < bound" for bound i
    using that by (simp add: five_big_def)
  moreover have "big_prime (bi_prime five_big bits i)" "odd (bi_prime five_big bits i)" for bits i
    using five_primes by (simp_all add: five_big_def)
  ultimately show ?thesis unfolding big_law_def by blast
qed

definition five_paillier :: paillier_private where
  "five_paillier = \<lparr>pk_public = \<lparr>pp_n = 35, pp_nn = 1225\<rparr>, pk_lambda = 12, pk_mu = 3\<rparr>"

definition five_proof :: "(bytes \<Rightarrow> bytes) \<Rightarrow> modulus_proof" where
  "five_proof sha = \<lparr>mp_responses = map (\<lambda>index. powmod (challenge_element sha 35 index) 11 35) [0..<CHALLENGES]\<rparr>"

definition five_party :: "(bytes \<Rightarrow> bytes) \<Rightarrow> f5 share \<Rightarrow> f5 gg20_party" where
  "five_party sha share = \<lparr>gp_share = share, gp_paillier = five_paillier,
     gp_ring_pedersen = \<lparr>rp_n_tilde = 35, rp_h1 = 1, rp_h2 = 1\<rparr>, gp_modulus_proof = five_proof sha\<rparr>"

lemma five_inverse: "bi_inverse five_big 12 35 = Some 3" "bi_inverse five_big 35 12 = Some 11"
  by (simp_all add: five_big_def upt_conv_Cons)

lemma five_two_primes: "even i \<Longrightarrow> two_primes five_big bits i = Some (Inr (5, 7), Suc (Suc i))"
  by (simp add: two_primes_def five_big_def distinct_prime.simps)

lemma five_generate: "even i \<Longrightarrow> paillier_generate five_big 768 i = Some (Inr five_paillier, Suc (Suc i))"
proof -
  have "lcm (4 :: nat) 6 = 12" by code_simp
  then show "even i \<Longrightarrow> ?thesis"
    by (simp add: paillier_generate_def may_bind_def may_draw_def five_two_primes five_inverse op_return_def Let_def five_paillier_def)
qed

lemma five_nonzero: "nonzero_below five_big 35 i = (Inr 1, Suc i)"
proof -
  have "nonce_loop five_big 35 (Suc 15) i = (Inr 1, Suc i)"
    unfolding nonce_loop.simps(2) by (simp add: five_big_def op_return_def)
  moreover have "Suc 15 = 16" by simp
  ultimately show ?thesis unfolding nonzero_below_def by (simp only:)
qed

lemma five_party_new: "even i \<Longrightarrow> gg20_party_new sha five_big share 768 i = Some (Inr (five_party sha share), i + 6)"
  by (simp add: gg20_party_new_def may_bind_def may_draw_def five_generate op_lift_def prove_modulus_def modulus_prove_def
      five_paillier_def five_inverse ring_pedersen_generate_def five_two_primes five_nonzero op_bind_def op_return_def Let_def
      powmod_def five_party_def five_proof_def)

lemma five_scalar: "random_scalar five_rand five_group i = (Inr (of_nat (Suc (i mod 4))), Suc i)"
proof -
  have small: "Suc (i mod 4) < 5" by simp
  have "five_rand i 32 = Some (be32 (Suc (i mod 4)))" by (simp add: five_rand_def be32_def)
  moreover have "be_to_nat (be32 (Suc (i mod 4))) = Suc (i mod 4)" using small by (simp add: be_to_nat_be32)
  moreover have "(of_nat (Suc (i mod 4)) :: f5) \<noteq> 0" using f5_eq_iff [of "Suc (i mod 4)" 0] small by simp
  ultimately have "scalar_loop five_rand five_group (Suc 15) i = (Inr (of_nat (Suc (i mod 4))), Suc i)"
    unfolding scalar_loop.simps(2)
    by (simp add: op_bind_def cus_fill_def random_fill_def five_group_def be32_def [of "Suc (i mod 4)"] op_return_def small
        del: scalar_loop.simps of_nat_Suc)
  moreover have "Suc 15 = 16" by simp
  ultimately show ?thesis unfolding random_scalar_def by (simp only:)
qed

definition five_shares :: "f5 share list" where
  "five_shares = [\<lparr>sh_x = 1, sh_y = 3\<rparr>, \<lparr>sh_x = 2, sh_y = 0\<rparr>, \<lparr>sh_x = 3, sh_y = 2\<rparr>]"

lemma five_keygen: "keygen five_rand five_group 2 3 0 = (Inr (\<lparr>gk_public = 1\<rparr>, five_shares), 2)"
proof -
  have "[1..<Suc 3] = [1, 2, 3 :: nat]" by (simp add: upt_rec)
  moreover have "draw_coeffs five_rand five_group 1 1 = (Inr [2], 2)"
    by (simp add: op_bind_def op_return_def five_scalar)
  ultimately have "shamir_split five_rand five_group 1 2 3 1 = (Inr five_shares, 2)"
    by (simp add: shamir_split_def op_bind_def op_return_def scalar_eval_def five_shares_def Let_def)
  then show ?thesis
    by (simp add: keygen_def five_scalar op_bind_def op_return_def Let_def) (simp add: five_group_def)
qed

lemma five_dealer: "dealer_keygen five_rand sha five_big five_group 2 3 768 0 =
    Some (Inr (\<lparr>gk_public = 1\<rparr>, map (five_party sha) five_shares), 20)"
  by (simp add: dealer_keygen_def may_bind_def may_draw_def five_keygen op_return_def five_shares_def five_party_new)

section \<open>Properties\<close>



text \<open>
  C12 [faults_attributed] Attribution of faults, for parties that need not be honest: if the modulus
  proof of some party fails, the run stops and blames the first such party; otherwise nobody is
  blamed, whatever primes, shares and commitment parameters the parties use, as long as their keys
  carry the square of their modulus.
\<close>

theorem faults_attributed:
  assumes "2 \<le> length parties" "\<forall>p \<in> set parties. public_wf (pk_public (gp_paillier p))"
  shows "case find (\<lambda>i. \<not> modulus_verify sha (pp_n (pk_public (gp_paillier (parties ! i)))) (gp_modulus_proof (parties ! i)))
           [0..<length parties] of
      Some i \<Rightarrow> fst (sign_over q rand sha b g ds from_sc parties h k) = Inl (SignFault \<lparr>ab_party = i, ab_fault = ModulusFault\<rparr>)
    | None \<Rightarrow> \<forall>a. fst (sign_over q rand sha b g ds from_sc parties h k) \<noteq> Inl (SignFault a)"
proof (cases "find (\<lambda>i. \<not> modulus_verify sha (pp_n (pk_public (gp_paillier (parties ! i)))) (gp_modulus_proof (parties ! i)))
    [0..<length parties]")
  case None
  then have ok: "modulus_checks sha (enumerate 0 parties) = Inr ()" by (simp add: modulus_checks_first)
  note any = ends_in_bind [OF ends_in_no_fault_internal] ends_in_bind [OF ends_in_no_fault_lift]
  have "ends_in (sign_over q rand sha b g ds from_sc parties h) (\<lambda>_. True) no_fault"
    using assms(1) unfolding sign_over_def Let_def ok op_bind_lift_Inr mta_accumulate_def
    by (auto intro!: any ends_in_bind [OF mta_loop_no_fault [OF assms(2)]] ends_in_fail ends_in_no_fault_lift split: prod.splits)
  from ends_in_run [OF this, of k] None show ?thesis by (auto simp: no_fault_def split: prod.splits sum.splits)
next
  case (Some i)
  then have "modulus_checks sha (enumerate 0 parties) = Inl (blame i ModulusFault)" by (simp add: modulus_checks_first)
  with Some assms(1) show ?thesis by (simp add: sign_over_def op_bind_def op_lift_def blame_def)
qed

theorem faults_attributed_witness:
  "fst (sign_over 5 five_rand len_digest five_big five_group five_dsa five_scalars
      [(five_party len_digest \<lparr>sh_x = 1, sh_y = 3\<rparr>)\<lparr>gp_modulus_proof := \<lparr>mp_responses = []\<rparr>\<rparr>,
       five_party len_digest \<lparr>sh_x = 2, sh_y = 0\<rparr>] [9] 20) =
   Inl (SignFault \<lparr>ab_party = 0, ab_fault = ModulusFault\<rparr>)"
proof -
  let ?ps = "[(five_party len_digest \<lparr>sh_x = 1, sh_y = 3\<rparr>)\<lparr>gp_modulus_proof := \<lparr>mp_responses = []\<rparr>\<rparr>,
       five_party len_digest \<lparr>sh_x = 2, sh_y = 0\<rparr>]"
  have "find (\<lambda>i. \<not> modulus_verify len_digest (pp_n (pk_public (gp_paillier (?ps ! i)))) (gp_modulus_proof (?ps ! i)))
      [0..<length ?ps] = Some 0"
    by (simp add: upt_conv_Cons modulus_verify_def CHALLENGES_def Let_def)
  with faults_attributed [where parties = ?ps and sha = len_digest and q = 5 and rand = five_rand and b = five_big and g = five_group and ds = five_dsa
      and from_sc = five_scalars and h = "[9]" and k = 20] show ?thesis
    by (simp add: public_wf_def five_party_def five_paillier_def)
qed

text \<open>
  A nonce is drawn among all nonzero residues; one that shares a factor with the modulus gives a
  ciphertext that does not decrypt to its plaintext.
\<close>

lemma nonce_without_inverse:
  "paillier_wf five_paillier \<and> paillier_decrypt five_paillier (encrypt_with (pk_public five_paillier) 1 5) \<noteq> Some 1"
proof
  show "paillier_wf five_paillier"
    using generate_wf [OF five_big_law five_generate [of 0]] by simp
  show "paillier_decrypt five_paillier (encrypt_with (pk_public five_paillier) 1 5) \<noteq> Some 1"
    by (simp add: paillier_decrypt_def encrypt_with_def powmod_def five_paillier_def Let_def)
qed

end
