(* ===== verification/Resilience.thy ===== *)
theory Resilience
  imports Machines "HOL-Library.Multiset"
begin

text \<open>
  The resilience layer, \<^verbatim>\<open>crates/res/src\<close>: the bounded backoff (\<^verbatim>\<open>backoff.rs\<close>), the circuit
  breaker (\<^verbatim>\<open>breaker.rs\<close>), the signing quorum (\<^verbatim>\<open>quorum.rs\<close>), the recovery of the session state
  from the chain (\<^verbatim>\<open>recovery.rs\<close>), idempotent resubmission (\<^verbatim>\<open>resubmit.rs\<close>) and graceful shutdown
  (\<^verbatim>\<open>shutdown.rs\<close>).

  The three state machines of the crate are compared with what a caller may observe of them. Each
  has a type of events, one for each mutating method, and an abstract machine; the locale
  \<open>machine_refinement\<close> of theory \<open>Machines\<close> carries a simulation of single steps over to whole runs, and is interpreted
  for the breaker, for the resubmission of one transaction and for the in-flight session.
\<close>

section \<open>Bounded backoff\<close>

record bounded_backoff =
  base_millis :: "64 word"
  max_millis :: "64 word"

definition backoff_new :: "64 word \<Rightarrow> 64 word \<Rightarrow> bounded_backoff" where
  "backoff_new base limit = \<lparr>base_millis = base, max_millis = limit\<rparr>"

definition delay_millis :: "bounded_backoff \<Rightarrow> 32 word \<Rightarrow> 64 word" where
  "delay_millis s attempt =
     (let factor = unwrap_or (checked_shl 1 (unat attempt)) (- 1) in
      min (word_saturating_mul (base_millis s) factor) (max_millis s))"

section \<open>The circuit breaker\<close>

datatype breaker_state = Closed | Open | HalfOpen

record circuit_breaker =
  cb_threshold :: "32 word"
  cb_failures :: "32 word"
  cb_state :: breaker_state

definition breaker_new :: "32 word \<Rightarrow> circuit_breaker" where
  "breaker_new threshold = \<lparr>cb_threshold = max threshold 1, cb_failures = 0, cb_state = Closed\<rparr>"

definition is_tripped :: "circuit_breaker \<Rightarrow> bool" where
  "is_tripped b = (case cb_state b of Open \<Rightarrow> True | _ \<Rightarrow> False)"

definition record_success :: "circuit_breaker \<Rightarrow> circuit_breaker" where
  "record_success b = b\<lparr>cb_failures := 0, cb_state := Closed\<rparr>"

definition record_failure :: "circuit_breaker \<Rightarrow> circuit_breaker" where
  "record_failure b =
     (let b = b\<lparr>cb_failures := word_saturating_add (cb_failures b) 1\<rparr> in
      if cb_threshold b \<le> cb_failures b then b\<lparr>cb_state := Open\<rparr> else b)"

definition breaker_trial :: "circuit_breaker \<Rightarrow> circuit_breaker" where
  "breaker_trial b = (case cb_state b of Open \<Rightarrow> b\<lparr>cb_state := HalfOpen\<rparr> | _ \<Rightarrow> b)"

datatype breaker_event = Success | Failure | Trial

text \<open>An event together with what the caller observes after it.\<close>

primrec breaker_apply :: "breaker_event \<Rightarrow> circuit_breaker \<Rightarrow> circuit_breaker" where
  "breaker_apply Success b = record_success b"
| "breaker_apply Failure b = record_failure b"
| "breaker_apply Trial b = breaker_trial b"

definition breaker_step :: "breaker_event \<Rightarrow> circuit_breaker \<Rightarrow> breaker_state \<times> circuit_breaker" where
  "breaker_step e b = (cb_state (breaker_apply e b), breaker_apply e b)"

text \<open>The specification keeps no failure counter of its own width: it counts the failures since the
  last success up to the threshold, and remembers whether a trial was permitted since the last of
  them. What a caller sees is a function of the two.\<close>

record outage =
  out_threshold :: nat
  out_failures :: nat
  out_trial :: bool

definition outage_view :: "outage \<Rightarrow> breaker_state" where
  "outage_view a = (if out_failures a < out_threshold a then Closed
                    else if out_trial a then HalfOpen else Open)"

primrec outage_apply :: "breaker_event \<Rightarrow> outage \<Rightarrow> outage" where
  "outage_apply Success a = a\<lparr>out_failures := 0, out_trial := False\<rparr>"
| "outage_apply Failure a =
     a\<lparr>out_failures := min (Suc (out_failures a)) (out_threshold a), out_trial := False\<rparr>"
| "outage_apply Trial a = a\<lparr>out_trial := (out_threshold a \<le> out_failures a)\<rparr>"

definition outage_step :: "breaker_event \<Rightarrow> outage \<Rightarrow> breaker_state \<times> outage" where
  "outage_step e a = (outage_view (outage_apply e a), outage_apply e a)"

definition breaker_inv :: "circuit_breaker \<Rightarrow> bool" where
  "breaker_inv b \<longleftrightarrow> 0 < cb_threshold b \<and>
     (cb_state b = Closed \<longleftrightarrow> cb_failures b < cb_threshold b)"

definition breaker_abs :: "circuit_breaker \<Rightarrow> outage" where
  "breaker_abs b = \<lparr>out_threshold = unat (cb_threshold b),
     out_failures = min (unat (cb_failures b)) (unat (cb_threshold b)),
     out_trial = (cb_state b = HalfOpen)\<rparr>"

definition consecutive_failures :: "breaker_event list \<Rightarrow> nat" where
  "consecutive_failures es = length (filter (\<lambda>e. e = Failure) (takeWhile (\<lambda>e. e \<noteq> Success) (rev es)))"

section \<open>The signing quorum\<close>

datatype res_error = BadParams | BelowQuorum | NodeUnavailable

definition check_quorum :: "nat \<Rightarrow> nat \<Rightarrow> nat \<Rightarrow> res_error + unit" where
  "check_quorum available threshold n =
     (if threshold = 0 \<or> n < threshold then Inl BadParams
      else if available < threshold then Inl BelowQuorum
      else Inr ())"

definition tolerable_unavailable :: "nat \<Rightarrow> nat \<Rightarrow> nat" where
  "tolerable_unavailable threshold n = n - threshold"

section \<open>Recovery from the chain\<close>

record member_record =
  mr_member_id :: "64 word"
  mr_output_spent :: bool
  mr_expiry :: "64 word"

record ledger_snapshot =
  ls_members :: "member_record list"
  ls_graph_root :: bytes
  ls_now :: "64 word"

datatype member_status = Renewed | Active | Revoked

record session_state =
  ss_statuses :: "(64 word \<times> member_status) list"
  ss_graph_root :: bytes

definition status_of :: "member_record \<Rightarrow> 64 word \<Rightarrow> member_status" where
  "status_of member now =
     (if mr_output_spent member then Renewed
      else if mr_expiry member < now then Revoked
      else Active)"

definition rebuild_from_chain :: "ledger_snapshot \<Rightarrow> session_state" where
  "rebuild_from_chain snapshot =
     (let statuses = map (\<lambda>member. (mr_member_id member, status_of member (ls_now snapshot)))
                         (ls_members snapshot);
          statuses = sort_key fst statuses
      in \<lparr>ss_statuses = statuses, ss_graph_root = ls_graph_root snapshot\<rparr>)"

section \<open>Idempotent resubmission\<close>

datatype submit_outcome = Broadcast | AlreadyKnown | Rebroadcast

record resubmitter =
  rs_known :: "bytes set"
  rs_evicted :: "bytes set"

definition resubmitter_new :: resubmitter where
  "resubmitter_new = \<lparr>rs_known = {}, rs_evicted = {}\<rparr>"

definition submit :: "bytes \<Rightarrow> resubmitter \<Rightarrow> submit_outcome \<times> resubmitter" where
  "submit txid r =
     (if txid \<in> rs_known r then (AlreadyKnown, r)
      else (Broadcast, r\<lparr>rs_known := insert txid (rs_known r)\<rparr>))"

definition mark_evicted :: "bytes \<Rightarrow> resubmitter \<Rightarrow> resubmitter" where
  "mark_evicted txid r =
     (if txid \<in> rs_known r then r\<lparr>rs_evicted := insert txid (rs_evicted r)\<rparr> else r)"

definition resubmit_evicted :: "bytes \<Rightarrow> resubmitter \<Rightarrow> submit_outcome \<times> resubmitter" where
  "resubmit_evicted txid r =
     (if txid \<in> rs_evicted r then (Rebroadcast, r\<lparr>rs_evicted := rs_evicted r - {txid}\<rparr>)
      else (AlreadyKnown, r))"

datatype tx_event = Submit bytes | Evict bytes | Resubmit bytes

primrec tx_step :: "tx_event \<Rightarrow> resubmitter \<Rightarrow> submit_outcome option \<times> resubmitter" where
  "tx_step (Submit txid) r = map_prod Some id (submit txid r)"
| "tx_step (Evict txid) r = (None, mark_evicted txid r)"
| "tx_step (Resubmit txid) r = map_prod Some id (resubmit_evicted txid r)"

text \<open>The specification: one small machine for each transaction.\<close>

datatype tx_stage = Unseen | Sent | Dropped

primrec stage_step :: "tx_event \<Rightarrow> (bytes \<Rightarrow> tx_stage) \<Rightarrow> submit_outcome option \<times> (bytes \<Rightarrow> tx_stage)" where
  "stage_step (Submit t) m =
     (if m t = Unseen then (Some Broadcast, m(t := Sent)) else (Some AlreadyKnown, m))"
| "stage_step (Evict t) m = (None, if m t = Unseen then m else m(t := Dropped))"
| "stage_step (Resubmit t) m =
     (if m t = Dropped then (Some Rebroadcast, m(t := Sent)) else (Some AlreadyKnown, m))"

definition resubmitter_inv :: "resubmitter \<Rightarrow> bool" where
  "resubmitter_inv r \<longleftrightarrow> rs_evicted r \<subseteq> rs_known r"

definition resubmitter_abs :: "resubmitter \<Rightarrow> bytes \<Rightarrow> tx_stage" where
  "resubmitter_abs r t = (if t \<in> rs_evicted r then Dropped else if t \<in> rs_known r then Sent else Unseen)"

section \<open>Graceful shutdown\<close>

record in_flight_session =
  ifs_member_signed :: bool
  ifs_broadcaster_signed :: bool
  ifs_committed :: bool

datatype shutdown_outcome = Completed | RolledBack

definition in_flight_new :: in_flight_session where
  "in_flight_new = \<lparr>ifs_member_signed = False, ifs_broadcaster_signed = False, ifs_committed = False\<rparr>"

definition in_flight_sign_member :: "in_flight_session \<Rightarrow> in_flight_session" where
  "in_flight_sign_member s = s\<lparr>ifs_member_signed := True\<rparr>"

definition in_flight_sign_broadcaster :: "in_flight_session \<Rightarrow> in_flight_session" where
  "in_flight_sign_broadcaster s = s\<lparr>ifs_broadcaster_signed := True\<rparr>"

definition in_flight_commit :: "in_flight_session \<Rightarrow> in_flight_session" where
  "in_flight_commit s =
     (if ifs_member_signed s \<and> ifs_broadcaster_signed s then s\<lparr>ifs_committed := True\<rparr> else s)"

definition is_half_signed :: "in_flight_session \<Rightarrow> bool" where
  "is_half_signed s \<longleftrightarrow> \<not> ifs_committed s \<and> ifs_member_signed s \<noteq> ifs_broadcaster_signed s"

definition graceful_shutdown :: "in_flight_session \<Rightarrow> shutdown_outcome \<times> in_flight_session" where
  "graceful_shutdown s =
     (if ifs_committed s then (Completed, s)
      else (RolledBack, s\<lparr>ifs_member_signed := False, ifs_broadcaster_signed := False\<rparr>))"

datatype flight_event = SignMember | SignBroadcaster | Commit | Shutdown

primrec flight_step :: "flight_event \<Rightarrow> in_flight_session \<Rightarrow> shutdown_outcome option \<times> in_flight_session" where
  "flight_step SignMember s = (None, in_flight_sign_member s)"
| "flight_step SignBroadcaster s = (None, in_flight_sign_broadcaster s)"
| "flight_step Commit s = (None, in_flight_commit s)"
| "flight_step Shutdown s = map_prod Some id (graceful_shutdown s)"

text \<open>The specification: the set of collected signatures of a transaction that is not yet
  committed, or the committed transaction, which nothing changes any more.\<close>

datatype party = Member | Broadcaster
datatype flight = Pending "party set" | Final

primrec flight_spec :: "flight_event \<Rightarrow> flight \<Rightarrow> shutdown_outcome option \<times> flight" where
  "flight_spec SignMember f = (None, case f of Pending A \<Rightarrow> Pending (insert Member A) | Final \<Rightarrow> Final)"
| "flight_spec SignBroadcaster f =
     (None, case f of Pending A \<Rightarrow> Pending (insert Broadcaster A) | Final \<Rightarrow> Final)"
| "flight_spec Commit f =
     (None, case f of Pending A \<Rightarrow> if A = {Member, Broadcaster} then Final else f | Final \<Rightarrow> Final)"
| "flight_spec Shutdown f =
     (case f of Pending _ \<Rightarrow> (Some RolledBack, Pending {}) | Final \<Rightarrow> (Some Completed, Final))"

definition flight_inv :: "in_flight_session \<Rightarrow> bool" where
  "flight_inv s \<longleftrightarrow> (ifs_committed s \<longrightarrow> ifs_member_signed s \<and> ifs_broadcaster_signed s)"

definition flight_abs :: "in_flight_session \<Rightarrow> flight" where
  "flight_abs s = (if ifs_committed s then Final
     else Pending ((if ifs_member_signed s then {Member} else {}) \<union>
                   (if ifs_broadcaster_signed s then {Broadcaster} else {})))"

section \<open>Lemmas\<close>

lemma unat_word_min: "unat (min a b) = min (unat a) (unat b)"
  by (simp add: min_def word_le_nat_alt)

lemma unat_one_shift: "a < 64 \<Longrightarrow> unat (2 ^ a :: 64 word) = 2 ^ a"
proof -
  assume "a < 64"
  then have lt: "(2::nat) ^ a < 2 ^ 64" by (intro power_strict_increasing) simp_all
  have "unat (2 ^ a :: 64 word) = unat (word_of_nat (2 ^ a) :: 64 word)"
    by simp
  also have "\<dots> = 2 ^ a"
    using lt by (simp only: unat_of_nat) simp
  finally show ?thesis .
qed

lemmas breaker_defs = breaker_step_def outage_step_def breaker_inv_def breaker_abs_def outage_view_def
  record_success_def record_failure_def breaker_trial_def Let_def

interpretation breaker: machine_refinement breaker_inv breaker_abs breaker_step outage_step
proof unfold_locales
  fix b e
  assume inv: "breaker_inv b"
  have thr: "unat (word_saturating_add (cb_failures b) 1) = min (Suc (unat (cb_failures b))) (2 ^ 32 - 1)"
    by (simp add: unat_word_saturating_add)
  have max: "unat (cb_threshold b) \<le> 2 ^ 32 - 1"
    using unat_bound [of "cb_threshold b"] by simp
  show "breaker_inv (snd (breaker_step e b))"
    using inv thr max
    by (cases e) (auto simp: breaker_defs word_less_nat_alt word_le_nat_alt split: breaker_state.splits)
  show abs: "snd (outage_step e (breaker_abs b)) = breaker_abs (snd (breaker_step e b))"
    using inv thr max
    by (cases e) (auto simp: breaker_defs word_less_nat_alt word_le_nat_alt split: breaker_state.splits)
  show "fst (outage_step e (breaker_abs b)) = fst (breaker_step e b)"
    using inv thr max
    by (cases e) (auto simp: breaker_defs word_less_nat_alt word_le_nat_alt split: breaker_state.splits)
qed

interpretation resubmission: machine_refinement resubmitter_inv resubmitter_abs tx_step stage_step
proof unfold_locales
  fix r e
  assume "resubmitter_inv r"
  then show "resubmitter_inv (snd (tx_step e r))"
    "fst (stage_step e (resubmitter_abs r)) = fst (tx_step e r)"
    "snd (stage_step e (resubmitter_abs r)) = resubmitter_abs (snd (tx_step e r))"
    by (cases e; auto simp: resubmitter_inv_def resubmitter_abs_def submit_def mark_evicted_def
        resubmit_evicted_def fun_eq_iff)+
qed

lemmas flight_defs = flight_inv_def flight_abs_def in_flight_sign_member_def
  in_flight_sign_broadcaster_def in_flight_commit_def graceful_shutdown_def

interpretation in_flight: machine_refinement flight_inv flight_abs flight_step flight_spec
proof unfold_locales
  fix s e
  assume "flight_inv s"
  then show "flight_inv (snd (flight_step e s))"
    "fst (flight_spec e (flight_abs s)) = fst (flight_step e s)"
    "snd (flight_spec e (flight_abs s)) = flight_abs (snd (flight_step e s))"
    by (cases e; auto simp: flight_defs)+
qed


lemma breaker_new_inv: "breaker_inv (breaker_new threshold)"
  by (auto simp: breaker_inv_def breaker_new_def max_def word_less_nat_alt word_le_nat_alt)

lemma breaker_new_abs:
  "breaker_abs (breaker_new threshold) =
     \<lparr>out_threshold = max (unat threshold) 1, out_failures = 0, out_trial = False\<rparr>"
  by (auto simp: breaker_abs_def breaker_new_def max_def word_le_nat_alt)

lemma consecutive_failures_snoc [simp]:
  "consecutive_failures [] = 0"
  "consecutive_failures (es @ [e]) =
     (case e of Success \<Rightarrow> 0 | Failure \<Rightarrow> Suc (consecutive_failures es) | Trial \<Rightarrow> consecutive_failures es)"
  by (auto simp: consecutive_failures_def split: breaker_event.splits)

lemma outage_history:
  fixes n :: nat
  assumes "0 < n"
  shows "snd (run_machine outage_step es \<lparr>out_threshold = n, out_failures = 0, out_trial = False\<rparr>) =
     \<lparr>out_threshold = n, out_failures = min (consecutive_failures es) n,
      out_trial = (n \<le> consecutive_failures es \<and> last es = Trial)\<rparr>"
proof (induction es rule: rev_induct)
  case Nil
  then show ?case using assms by simp
next
  case (snoc e es)
  then show ?case
    using assms
    by (cases e) (auto simp: run_machine_append outage_step_def split: prod.splits)
qed

lemma breaker_run_state:
  "cb_state b = outage_view (breaker_abs b)" if "breaker_inv b"
  using that
  by (cases "cb_state b") (auto simp: breaker_defs word_less_nat_alt)

lemma run_resubmitter_broadcasts:
  "length (filter (\<lambda>ex. ex = (Submit t, Some Broadcast)) (zip es (fst (run_machine tx_step es r)))) =
     (if t \<notin> rs_known r \<and> Submit t \<in> set es then 1 else 0)"
proof (induction es arbitrary: r)
  case (Cons e es)
  show ?case
    using Cons.IH [of "snd (tx_step e r)"]
    by (cases e) (auto simp: submit_def mark_evicted_def resubmit_evicted_def split: prod.splits if_splits)
qed simp

lemma run_resubmitter_rebroadcasts:
  "length (filter (\<lambda>ex. ex = (Resubmit t, Some Rebroadcast)) (zip es (fst (run_machine tx_step es r))))
     \<le> length (filter (\<lambda>e. e = Evict t) es) + (if t \<in> rs_evicted r then 1 else 0)"
proof (induction es arbitrary: r)
  case (Cons e es)
  have "length (filter (\<lambda>ex. ex = (Resubmit t, Some Rebroadcast))
          (zip es (fst (run_machine tx_step es (snd (tx_step e r))))))
     \<le> length (filter (\<lambda>e. e = Evict t) es) + (if t \<in> rs_evicted (snd (tx_step e r)) then 1 else 0)"
    by (rule Cons.IH)
  then show ?case
    by (cases e) (auto simp: submit_def mark_evicted_def resubmit_evicted_def split: prod.splits if_splits)
qed simp

lemma check_quorum_tolerance:
  assumes "available \<le> n"
  shows "check_quorum available threshold n = Inr () \<longleftrightarrow>
    0 < threshold \<and> threshold \<le> n \<and> n - available \<le> tolerable_unavailable threshold n"
  using assms by (auto simp: check_quorum_def tolerable_unavailable_def)

lemma distinct_map_sort_key: "distinct (map f xs) \<Longrightarrow> distinct (map f (sort_key f xs))"
proof -
  have "mset (map f (sort_key f xs)) = mset (map f xs)"
    by simp
  then show "distinct (map f xs) \<Longrightarrow> distinct (map f (sort_key f xs))"
    by (metis mset_eq_imp_distinct_iff)
qed

lemma sort_key_order_free:
  assumes "mset xs = mset ys" "distinct (map f xs)"
  shows "sort_key f xs = sort_key f ys"
proof (rule map_sorted_distinct_set_unique)
  have sets: "set xs = set ys"
    using assms(1) by (metis set_mset_mset)
  have "mset (map f xs) = mset (map f ys)"
    by (simp add: assms(1))
  then have "distinct (map f ys)"
    using assms(2) mset_eq_imp_distinct_iff by blast
  then show "distinct (map f (sort_key f ys))"
    by (rule distinct_map_sort_key)
  show "distinct (map f (sort_key f xs))"
    using assms(2) by (rule distinct_map_sort_key)
  show "inj_on f (set (sort_key f xs) \<union> set (sort_key f ys))"
    using assms(2) sets by (simp add: distinct_map)
  show "set (sort_key f xs) = set (sort_key f ys)"
    using sets by simp
qed simp_all

section \<open>Properties\<close>

text \<open>
  C13 [breaker_refines_history] The circuit breaker implements its specification on every history: with the threshold read as
  at least one, its state after any sequence of successes, failures and trials is a function of the
  failures since the last success, although the counter is 32 bits wide and saturates. The breaker
  is open, and the node reported down, exactly when these failures have reached the threshold and
  the last event is not a trial.\<close>

theorem breaker_refines_history:
  "let b = snd (run_machine breaker_step es (breaker_new threshold));
       n = max (unat threshold) 1
   in cb_state b = (if consecutive_failures es < n then Closed
                    else if last es = Trial then HalfOpen else Open) \<and>
      (is_tripped b \<longleftrightarrow> n \<le> consecutive_failures es \<and> last es \<noteq> Trial)"
proof -
  define b where "b = snd (run_machine breaker_step es (breaker_new threshold))"
  define n where "n = max (unat threshold) 1"
  have inv: "breaker_inv b"
    unfolding b_def by (rule breaker.run_inv [OF breaker_new_inv])
  have "breaker_abs b = \<lparr>out_threshold = n, out_failures = min (consecutive_failures es) n,
      out_trial = (n \<le> consecutive_failures es \<and> last es = Trial)\<rparr>"
    using breaker.run_refines [OF breaker_new_inv, of es threshold] outage_history [of n es]
    by (simp add: breaker_new_abs b_def n_def)
  then have "cb_state b = (if consecutive_failures es < n then Closed
                    else if last es = Trial then HalfOpen else Open)"
    unfolding breaker_run_state [OF inv] by (auto simp: outage_view_def)
  then show ?thesis
    by (auto simp: is_tripped_def Let_def b_def n_def split: breaker_state.splits if_splits)
qed

text \<open>
  The delay before a retry is exactly \<open>base * 2 ^ attempt\<close> capped at the maximum, over the
  unbounded integers: neither the shift by 64 or more nor the overflow of the product shows. So
  delays never decrease and never exceed the maximum.\<close>

lemma backoff_exact:
  "unat (delay_millis (backoff_new base limit) attempt) = min (unat base * 2 ^ unat attempt) (unat limit)"
proof -
  have lim: "unat limit \<le> 2 ^ 64 - 1"
    using unat_bound [of limit] by simp
  show ?thesis
  proof (cases "unat attempt < 64")
    case True
    then show ?thesis
      using lim unat_word_saturating_mul [of base "2 ^ unat attempt"]
      by (simp add: delay_millis_def backoff_new_def checked_shl_def unwrap_or_def unat_word_min unat_one_shift min.assoc)
  next
    case False
    then have big: "(2::nat) ^ 64 \<le> 2 ^ unat attempt"
      by (intro power_increasing) simp_all
    show ?thesis
    proof (cases "base = 0")
      case True
      then show ?thesis
        by (simp add: delay_millis_def backoff_new_def word_saturating_mul_def unat_word_min)
    next
      case nz: False
      then have "1 \<le> unat base" by (simp add: Suc_le_eq unat_gt_0)
      then have "2 ^ 64 \<le> unat base * 2 ^ unat attempt" "2 ^ 64 - 1 \<le> unat base * (2 ^ 64 - 1)"
        using big mult_le_mono [of 1 "unat base" "2 ^ 64" "2 ^ unat attempt"] by simp_all
      then show ?thesis
        using False lim unat_word_saturating_mul [of base "- 1"]
        by (simp add: delay_millis_def backoff_new_def checked_shl_def unwrap_or_def unat_word_min unat_max_word)
    qed
  qed
qed

text \<open>
  However the methods of an in-flight session are interleaved, with shutdowns in between, a
  shutdown leaves nothing half-signed: it reports completion exactly when the transaction was
  committed, which takes both signatures, and otherwise discards every signature.\<close>

lemma shutdown_never_half_signed:
  "let s = snd (run_machine flight_step es in_flight_new);
       (out, t) = graceful_shutdown s
   in \<not> is_half_signed t \<and>
      (case out of Completed \<Rightarrow> t = s \<and> ifs_member_signed s \<and> ifs_broadcaster_signed s \<and> ifs_committed s
       | RolledBack \<Rightarrow> t = in_flight_new \<and> \<not> ifs_committed s)"
proof -
  have "flight_inv in_flight_new"
    by (simp add: flight_inv_def in_flight_new_def)
  from in_flight.run_inv [OF this, of es] show ?thesis
    by (auto simp: Let_def flight_defs is_half_signed_def in_flight_new_def)
qed

text \<open>
  Every transaction is broadcast exactly once however often it is submitted, and re-broadcast at
  most as often as the node reported its eviction: resubmission never sends a second copy of its
  own accord. What the callers see is what the machine for each single transaction gives.\<close>

lemma resubmission_idempotent:
  "let outs = fst (run_machine tx_step es resubmitter_new) in
   outs = fst (run_machine stage_step es (\<lambda>_. Unseen)) \<and>
   length (filter (\<lambda>ex. ex = (Submit t, Some Broadcast)) (zip es outs)) = (if Submit t \<in> set es then 1 else 0) \<and>
   length (filter (\<lambda>ex. ex = (Resubmit t, Some Rebroadcast)) (zip es outs))
     \<le> length (filter (\<lambda>e. e = Evict t) es)"
proof -
  have inv: "resubmitter_inv resubmitter_new"
    by (simp add: resubmitter_inv_def resubmitter_new_def)
  have "resubmitter_abs resubmitter_new = (\<lambda>_. Unseen)"
    by (simp add: fun_eq_iff resubmitter_abs_def resubmitter_new_def)
  then have "fst (run_machine tx_step es resubmitter_new) = fst (run_machine stage_step es (\<lambda>_. Unseen))"
    using resubmission.run_refines [OF inv, of es] by simp
  then show ?thesis
    using run_resubmitter_broadcasts [of t es resubmitter_new]
      run_resubmitter_rebroadcasts [of t es resubmitter_new]
    unfolding Let_def by (simp add: resubmitter_new_def)
qed

text \<open>
  The state rebuilt after a restart depends only on the records of the snapshot and not on the
  order in which the node lists them, as long as no member is listed twice; it is sorted by member
  and gives each member the status of its own record.\<close>

lemma recovery_deterministic:
  assumes "mset (ls_members a) = mset (ls_members b)" "ls_now a = ls_now b" "ls_graph_root a = ls_graph_root b"
    and "distinct (map mr_member_id (ls_members a))"
  shows "rebuild_from_chain a = rebuild_from_chain b \<and>
    sorted (map fst (ss_statuses (rebuild_from_chain a))) \<and>
    (\<forall>m. m \<in> set (ls_members a) \<longrightarrow>
       map_of (ss_statuses (rebuild_from_chain a)) (mr_member_id m) = Some (status_of m (ls_now a)))"
proof (intro conjI allI impI)
  define entry where "entry m = (mr_member_id m, status_of m (ls_now a))" for m
  have st: "ss_statuses (rebuild_from_chain a) = sort_key fst (map entry (ls_members a))"
    by (simp add: rebuild_from_chain_def entry_def [abs_def])
  have dist: "distinct (map fst (sort_key fst (map entry (ls_members a))))"
    using assms(4) by (intro distinct_map_sort_key) (simp add: entry_def comp_def)
  show "sorted (map fst (ss_statuses (rebuild_from_chain a)))"
    by (simp add: st)
  show "rebuild_from_chain a = rebuild_from_chain b"
  proof -
    have "sort_key fst (map entry (ls_members a)) = sort_key fst (map entry (ls_members b))"
      using assms(1,4) by (intro sort_key_order_free) (simp_all add: entry_def comp_def)
    then show ?thesis
      using assms(2,3) by (simp add: rebuild_from_chain_def entry_def [abs_def])
  qed
  fix m assume "m \<in> set (ls_members a)"
  then have "entry m \<in> set (ss_statuses (rebuild_from_chain a))"
    by (simp add: st)
  then show "map_of (ss_statuses (rebuild_from_chain a)) (mr_member_id m) = Some (status_of m (ls_now a))"
    using dist by (simp add: st entry_def)
qed

end
