(* ===== verification/SecretMemory.thy ===== *)
theory SecretMemory
  imports NodeClient "HOL-Library.Multiset"
begin

text \<open>
  Secret containers, \<^verbatim>\<open>crates/secmem/src\<close>: \<^verbatim>\<open>bytes.rs\<close>, \<^verbatim>\<open>lock.rs\<close>, \<^verbatim>\<open>random.rs\<close> and \<^verbatim>\<open>secret.rs\<close>.

  The containers are about memory and not about values, so they are modelled on an explicit one: the
  bytes at each address, the pages that are pinned, the buffers that are allocated and whether the
  warning about locking was given. The allocator, \<open>mlock\<close>, \<open>munlock\<close>, the zeroising write and the
  constant-time comparison are code of others: they are the fields of \<open>host\<close>, and \<open>host_law\<close> is what
  is documented of them. A vector is the address and the length of its buffer.

  The theory shows that in every run of imports, generations and drops the live secrets hold what
  was put in them and no byte of a dropped one is left in memory, that debug output tells nothing
  but the length, and that the deterministic source is a stream that tells any two seeds apart.
\<close>

unbundle bit_operations_syntax

section \<open>Memory and host\<close>

datatype lock_error = Lock | Unlock

datatype rand_error = Os

record memory =
  mem_byte :: "nat \<Rightarrow> byte"
  mem_pinned :: "nat set"
  mem_allocs :: "(nat \<times> nat) list"
  LOCK_WARN :: bool

record host =
  page_size :: nat
  heap_place :: "memory \<Rightarrow> nat \<Rightarrow> nat"
  mlock :: "nat \<Rightarrow> nat \<Rightarrow> memory \<Rightarrow> int \<times> memory"
  munlock :: "nat \<Rightarrow> nat \<Rightarrow> memory \<Rightarrow> int \<times> memory"
  zeroize :: "nat \<Rightarrow> nat \<Rightarrow> memory \<Rightarrow> memory"
  slice_ct_eq :: "bytes \<Rightarrow> bytes \<Rightarrow> bool"

definition span :: "nat \<Rightarrow> nat \<Rightarrow> nat set" where
  "span ptr len = {ptr..<ptr + len}"

definition pages :: "host \<Rightarrow> nat \<Rightarrow> nat \<Rightarrow> nat set" where
  "pages h ptr len = (\<lambda>a. a div page_size h) ` span ptr len"

definition read_bytes :: "memory \<Rightarrow> nat \<Rightarrow> nat \<Rightarrow> bytes" where
  "read_bytes m ptr len = map (mem_byte m) [ptr..<ptr + len]"

definition write_bytes :: "nat \<Rightarrow> bytes \<Rightarrow> memory \<Rightarrow> memory" where
  "write_bytes ptr bs m =
     m\<lparr>mem_byte := (\<lambda>a. if ptr \<le> a \<and> a < ptr + length bs then bs ! (a - ptr) else mem_byte m a)\<rparr>"

text \<open>A buffer with given content is allocated; a buffer is freed.\<close>

definition vec_of :: "host \<Rightarrow> bytes \<Rightarrow> memory \<Rightarrow> nat \<times> memory" where
  "vec_of h bs m =
     (let ptr = heap_place h m (length bs)
      in (ptr, write_bytes ptr bs (m\<lparr>mem_allocs := (ptr, length bs) # mem_allocs m\<rparr>)))"

definition free_vec :: "nat \<Rightarrow> nat \<Rightarrow> memory \<Rightarrow> memory" where
  "free_vec ptr len m = m\<lparr>mem_allocs := remove1 (ptr, len) (mem_allocs m)\<rparr>"

text \<open>What is documented: a new buffer overlaps none that is allocated; locking pins the pages of the
  range and unlocking unpins them, whoever pinned them, or they fail without effect; zeroising writes
  zeros to the range; and the comparison tells equal slices of one length from different ones.\<close>

definition host_law :: "host \<Rightarrow> bool" where
  "host_law h \<longleftrightarrow>
     (\<forall>m n. \<forall>(p, k) \<in> set (mem_allocs m). span (heap_place h m n) n \<inter> span p k = {})
     \<and> (\<forall>ptr len m. mlock h ptr len m = (0, m\<lparr>mem_pinned := mem_pinned m \<union> pages h ptr len\<rparr>)
                    \<or> fst (mlock h ptr len m) \<noteq> 0 \<and> snd (mlock h ptr len m) = m)
     \<and> (\<forall>ptr len m. munlock h ptr len m = (0, m\<lparr>mem_pinned := mem_pinned m - pages h ptr len\<rparr>)
                    \<or> fst (munlock h ptr len m) \<noteq> 0 \<and> snd (munlock h ptr len m) = m)
     \<and> (\<forall>ptr len m. zeroize h ptr len m = write_bytes ptr (replicate len 0) m)
     \<and> (\<forall>a b. length a = length b \<longrightarrow> slice_ct_eq h a b = (a = b))"

section \<open>Locking\<close>

definition platform_lock :: "host \<Rightarrow> nat \<Rightarrow> nat \<Rightarrow> (memory, lock_error, unit) op" where
  "platform_lock h ptr len m = (let (rc, m) = mlock h ptr len m in (if rc = 0 then Inr () else Inl Lock, m))"

definition platform_unlock :: "host \<Rightarrow> nat \<Rightarrow> nat \<Rightarrow> (memory, lock_error, unit) op" where
  "platform_unlock h ptr len m = (let (rc, m) = munlock h ptr len m in (if rc = 0 then Inr () else Inl Unlock, m))"

definition lock_region :: "host \<Rightarrow> nat \<Rightarrow> nat \<Rightarrow> (memory, lock_error, unit) op" where
  "lock_region h ptr len m = (if len = 0 then (Inr (), m) else platform_lock h ptr len m)"

definition unlock_region :: "host \<Rightarrow> nat \<Rightarrow> nat \<Rightarrow> (memory, lock_error, unit) op" where
  "unlock_region h ptr len m = (if len = 0 then (Inr (), m) else platform_unlock h ptr len m)"

section \<open>Random sources\<close>

text \<open>A source fills a slice in place: it returns the outcome, the content of the slice and its own state.\<close>

type_synonym 's fill = "bytes \<Rightarrow> 's \<Rightarrow> (rand_error + unit) \<times> bytes \<times> 's"

definition os_fill :: "(bytes \<Rightarrow> 's \<Rightarrow> bool \<times> bytes \<times> 's) \<Rightarrow> 's fill" where
  "os_fill getrandom dst s = (let (ok, bs, s) = getrandom dst s in (if ok then Inr () else Inl Os, bs, s))"

type_synonym deterministic_rng = "64 word"

definition det_new :: "64 word \<Rightarrow> deterministic_rng" where
  "det_new seed = seed"

definition splitmix :: "64 word \<Rightarrow> 64 word" where
  "splitmix z0 =
     (let z = (z0 XOR drop_bit 30 z0) * 0xBF58476D1CE4E5B9;
          z = (z XOR drop_bit 27 z) * 0x94D049BB133111EB
      in z XOR drop_bit 31 z)"

fun det_chunks :: "bytes \<Rightarrow> 64 word \<Rightarrow> bytes \<times> 64 word" where
  "det_chunks [] st = ([], st)"
| "det_chunks (d # ds) st =
     (let st = st + 0x9E3779B97F4A7C15;
          chunk = take 8 (d # ds);
          (rest, st') = det_chunks (drop 8 (d # ds)) st
      in (take (length chunk) (u64_to_le (splitmix st)) @ rest, st'))"

definition det_fill :: "deterministic_rng fill" where
  "det_fill dst st = (let (bs, st) = det_chunks dst st in (Inr (), bs, st))"

section \<open>Secret bytes\<close>

record secret_bytes =
  sb_ptr :: nat
  sb_len :: nat
  sb_locked :: bool

definition from_vec :: "host \<Rightarrow> nat \<Rightarrow> nat \<Rightarrow> memory \<Rightarrow> secret_bytes \<times> memory" where
  "from_vec h ptr len m =
     (let (r, m) = lock_region h ptr len m in
      case r of
        Inr _ \<Rightarrow> (\<lparr>sb_ptr = ptr, sb_len = len, sb_locked = True\<rparr>, m)
      | Inl _ \<Rightarrow> (\<lparr>sb_ptr = ptr, sb_len = len, sb_locked = False\<rparr>, m\<lparr>LOCK_WARN := True\<rparr>))"

definition from_slice :: "host \<Rightarrow> bytes \<Rightarrow> memory \<Rightarrow> secret_bytes \<times> memory" where
  "from_slice h data m = (let (ptr, m) = vec_of h data m in from_vec h ptr (length data) m)"

definition secret_random :: "host \<Rightarrow> 's fill \<Rightarrow> nat \<Rightarrow> (memory \<times> 's, rand_error, secret_bytes) op" where
  "secret_random h fill len ms =
     (let (m, s) = ms;
          (ptr, m) = vec_of h (replicate len 0) m;
          (r, bs, s) = fill (read_bytes m ptr len) s;
          m = write_bytes ptr bs m
      in case r of
           Inl e \<Rightarrow> (Inl e, (free_vec ptr len m, s))
         | Inr _ \<Rightarrow> let (sb, m) = from_vec h ptr len m in (Inr sb, (m, s)))"

definition expose :: "memory \<Rightarrow> secret_bytes \<Rightarrow> bytes" where
  "expose m sb = read_bytes m (sb_ptr sb) (sb_len sb)"

definition secret_len :: "secret_bytes \<Rightarrow> nat" where
  "secret_len sb = sb_len sb"

definition secret_is_empty :: "secret_bytes \<Rightarrow> bool" where
  "secret_is_empty sb = (sb_len sb = 0)"

definition ct_eq :: "host \<Rightarrow> memory \<Rightarrow> secret_bytes \<Rightarrow> secret_bytes \<Rightarrow> bool" where
  "ct_eq h m a b = (if sb_len a \<noteq> sb_len b then False else slice_ct_eq h (expose m a) (expose m b))"

text \<open>Dropping: the body of \<open>drop\<close>, then the drop of the zeroising buffer.\<close>

definition drop_secret :: "host \<Rightarrow> secret_bytes \<Rightarrow> memory \<Rightarrow> memory" where
  "drop_secret h sb m =
     (let m = (if sb_locked sb then snd (unlock_region h (sb_ptr sb) (sb_len sb) m) else m)
      in free_vec (sb_ptr sb) (sb_len sb) (zeroize h (sb_ptr sb) (sb_len sb) m))"

definition secret_debug :: "secret_bytes \<Rightarrow> string" where
  "secret_debug sb = ''SecretBytes(<redacted; '' @ show_u64 (sb_len sb) @ '' bytes>)''"

section \<open>The generic container\<close>

text \<open>\<open>Secret<T>\<close> holds a value inline; its type says how it is zeroised.\<close>

record 'a secret =
  inner :: 'a

definition secret_new :: "'a \<Rightarrow> 'a secret" where
  "secret_new v = \<lparr>inner = v\<rparr>"

definition secret_expose :: "'a secret \<Rightarrow> 'a" where
  "secret_expose s = inner s"

definition secret_expose_mut :: "('a \<Rightarrow> 'a) \<Rightarrow> 'a secret \<Rightarrow> 'a secret" where
  "secret_expose_mut f s = s\<lparr>inner := f (inner s)\<rparr>"

definition secret_drop :: "('a \<Rightarrow> 'a) \<Rightarrow> 'a secret \<Rightarrow> 'a secret" where
  "secret_drop zero s = s\<lparr>inner := zero (inner s)\<rparr>"

definition secret_show :: "'a secret \<Rightarrow> string" where
  "secret_show s = ''Secret(<redacted>)''"

section \<open>Reading and writing\<close>

lemma span_iff [simp]: "a \<in> span ptr len \<longleftrightarrow> ptr \<le> a \<and> a < ptr + len"
  by (auto simp: span_def)

lemma write_bytes_simps [simp]:
  "mem_allocs (write_bytes ptr bs m) = mem_allocs m" "mem_pinned (write_bytes ptr bs m) = mem_pinned m"
  by (simp_all add: write_bytes_def)

lemma read_bytes_length [simp]: "length (read_bytes m ptr len) = len"
  by (simp add: read_bytes_def)

lemma read_bytes_cong: "mem_byte m = mem_byte m' \<Longrightarrow> read_bytes m ptr len = read_bytes m' ptr len"
  by (simp add: read_bytes_def)

lemma read_after_write [simp]: "read_bytes (write_bytes ptr bs m) ptr (length bs) = bs"
  by (rule nth_equalityI) (auto simp: read_bytes_def write_bytes_def)

lemma read_elsewhere: "span ptr (length bs) \<inter> span q n = {} \<Longrightarrow> read_bytes (write_bytes ptr bs m) q n = read_bytes m q n"
  by (auto simp: read_bytes_def write_bytes_def set_eq_iff)

lemma host_lawD:
  assumes "host_law h"
  shows "(p, k) \<in> set (mem_allocs m) \<Longrightarrow> span (heap_place h m n) n \<inter> span p k = {}"
    and "mlock h ptr len m = (0, m\<lparr>mem_pinned := mem_pinned m \<union> pages h ptr len\<rparr>)
      \<or> fst (mlock h ptr len m) \<noteq> 0 \<and> snd (mlock h ptr len m) = m"
    and "munlock h ptr len m = (0, m\<lparr>mem_pinned := mem_pinned m - pages h ptr len\<rparr>)
      \<or> fst (munlock h ptr len m) \<noteq> 0 \<and> snd (munlock h ptr len m) = m"
    and "zeroize h ptr len m = write_bytes ptr (replicate len 0) m"
    and "length a = length b \<Longrightarrow> slice_ct_eq h a b = (a = b)"
  using assms unfolding host_law_def by blast+

lemma lock_region_cases:
  assumes "host_law h"
  obtains "lock_region h ptr len m = (Inr (), m\<lparr>mem_pinned := mem_pinned m \<union> pages h ptr len\<rparr>)"
    | "lock_region h ptr len m = (Inl Lock, m)"
proof (cases "len = 0")
  case True
  then have "lock_region h ptr len m = (Inr (), m\<lparr>mem_pinned := mem_pinned m \<union> pages h ptr len\<rparr>)"
    by (simp add: lock_region_def pages_def span_def)
  then show ?thesis by (rule that(1))
next
  case False
  then show ?thesis
    using host_lawD(2) [OF assms, of ptr len m] that by (auto simp: lock_region_def platform_lock_def split_def)
qed

lemma unlock_region_cases:
  assumes "host_law h"
  obtains "unlock_region h ptr len m = (Inr (), m\<lparr>mem_pinned := mem_pinned m - pages h ptr len\<rparr>)"
    | "unlock_region h ptr len m = (Inl Unlock, m)"
proof (cases "len = 0")
  case True
  then have "unlock_region h ptr len m = (Inr (), m\<lparr>mem_pinned := mem_pinned m - pages h ptr len\<rparr>)"
    by (simp add: unlock_region_def pages_def span_def)
  then show ?thesis by (rule that(1))
next
  case False
  then show ?thesis
    using host_lawD(3) [OF assms, of ptr len m] that by (auto simp: unlock_region_def platform_unlock_def split_def)
qed

section \<open>The operations on a lawful host\<close>

text \<open>A secret is pinned when it says so, at the moment it is made.\<close>

lemma from_vec_effect:
  assumes "host_law h" and "from_vec h ptr len m = (sb, m')"
  shows "sb_ptr sb = ptr" "sb_len sb = len" "mem_byte m' = mem_byte m" "mem_allocs m' = mem_allocs m"
    "sb_locked sb \<longleftrightarrow> pages h ptr len \<subseteq> mem_pinned m' \<and> lock_region h ptr len m = (Inr (), m')"
    "mem_pinned m \<subseteq> mem_pinned m'"
  by (rule lock_region_cases [OF assms(1), of ptr len m]; use assms(2) in \<open>auto simp: from_vec_def\<close>)+

lemma vec_of_effect:
  assumes "vec_of h bs m = (ptr, m')"
  shows "ptr = heap_place h m (length bs)" "mem_byte m' = mem_byte (write_bytes ptr bs m)" "mem_allocs m' = (ptr, length bs) # mem_allocs m"
    "read_bytes m' ptr (length bs) = bs"
  using assms by (auto simp: vec_of_def Let_def) (simp_all add: write_bytes_def fun_eq_iff)

lemma from_slice_effect:
  assumes "host_law h" and "from_slice h data m = (sb, m')"
  shows "sb_ptr sb = heap_place h m (length data)" "sb_len sb = length data"
    "mem_byte m' = mem_byte (write_bytes (sb_ptr sb) data m)"
    "mem_allocs m' = (sb_ptr sb, sb_len sb) # mem_allocs m"
proof -
  obtain ptr m1 where v: "vec_of h data m = (ptr, m1)" by fastforce
  then have f: "from_vec h ptr (length data) m1 = (sb, m')" using assms(2) by (simp add: from_slice_def)
  show "sb_ptr sb = heap_place h m (length data)" "sb_len sb = length data"
    "mem_byte m' = mem_byte (write_bytes (sb_ptr sb) data m)"
    "mem_allocs m' = (sb_ptr sb, sb_len sb) # mem_allocs m"
    using vec_of_effect [OF v] from_vec_effect [OF assms(1) f] by simp_all
qed

lemma from_slice_exposes: "host_law h \<Longrightarrow> from_slice h data m = (sb, m') \<Longrightarrow> expose m' sb = data"
  using from_slice_effect [of h data m sb m'] read_bytes_cong [of m' "write_bytes (sb_ptr sb) data m"]
  by (simp add: expose_def)

lemma drop_secret_effect:
  assumes "host_law h"
  shows "mem_byte (drop_secret h sb m) = mem_byte (write_bytes (sb_ptr sb) (replicate (sb_len sb) 0) m)"
    "mem_allocs (drop_secret h sb m) = remove1 (sb_ptr sb, sb_len sb) (mem_allocs m)"
    "mem_pinned m - pages h (sb_ptr sb) (sb_len sb) \<subseteq> mem_pinned (drop_secret h sb m)"
proof -
  have z: "\<And>m. zeroize h (sb_ptr sb) (sb_len sb) m = write_bytes (sb_ptr sb) (replicate (sb_len sb) 0) m"
    by (rule host_lawD(4) [OF assms])
  show "mem_byte (drop_secret h sb m) = mem_byte (write_bytes (sb_ptr sb) (replicate (sb_len sb) 0) m)"
    "mem_allocs (drop_secret h sb m) = remove1 (sb_ptr sb, sb_len sb) (mem_allocs m)"
    "mem_pinned m - pages h (sb_ptr sb) (sb_len sb) \<subseteq> mem_pinned (drop_secret h sb m)"
    by (rule unlock_region_cases [OF assms, of "sb_ptr sb" "sb_len sb" m];
        force simp: drop_secret_def free_vec_def z write_bytes_def Let_def)+
qed

section \<open>Sources\<close>

text \<open>What a container relies on: a source fills the slice it is given, no more and no less.\<close>

locale secure_random =
  fixes fill :: "'s fill"
  assumes fill_length: "length (fst (snd (fill dst s))) = length dst"
begin

text \<open>Generating a secret: on success the container holds the drawn bytes, on failure nothing is allocated
  and only the abandoned buffer was written.\<close>

lemma secret_random_effect:
  assumes "host_law h" and "secret_random h fill len (m, s) = (r, (m', s'))"
    and "fill (replicate len 0) s = (out, bs, t)"
  shows "mem_byte m' = mem_byte (write_bytes (heap_place h m len) bs m)" "length bs = len"
    "case r of Inl e \<Rightarrow> mem_allocs m' = mem_allocs m
     | Inr sb \<Rightarrow> sb_ptr sb = heap_place h m len \<and> sb_len sb = len \<and> mem_allocs m' = (heap_place h m len, len) # mem_allocs m"
proof -
  obtain ptr m1 where v: "vec_of h (replicate len 0) m = (ptr, m1)" by fastforce
  note v_effect = vec_of_effect [OF v]
  have l: "length bs = len" using fill_length [of "replicate len 0" s] assms(3) by simp
  then have w: "mem_byte (write_bytes ptr bs m1) = mem_byte (write_bytes ptr bs m)"
    using v_effect by (auto simp: write_bytes_def fun_eq_iff)
  obtain sb m2 where f: "from_vec h ptr len (write_bytes ptr bs m1) = (sb, m2)" by fastforce
  have "case out of Inl e \<Rightarrow> r = Inl e \<and> m' = free_vec ptr len (write_bytes ptr bs m1) | Inr _ \<Rightarrow> r = Inr sb \<and> m' = m2"
    using assms(2,3) v v_effect f by (auto simp: secret_random_def split: sum.splits)
  with v_effect l w from_vec_effect [OF assms(1) f]
  show "mem_byte m' = mem_byte (write_bytes (heap_place h m len) bs m)" "length bs = len"
    "case r of Inl e \<Rightarrow> mem_allocs m' = mem_allocs m
     | Inr sb \<Rightarrow> sb_ptr sb = heap_place h m len \<and> sb_len sb = len \<and> mem_allocs m' = (heap_place h m len, len) # mem_allocs m"
    by (auto simp: free_vec_def split: sum.splits)
qed

end

lemma det_chunks_length: "length (fst (det_chunks dst st)) = length dst"
  by (induction dst st rule: det_chunks.induct) (auto simp: u64_to_le_def split_def Let_def)

interpretation det: secure_random det_fill
  by unfold_locales (simp add: det_fill_def det_chunks_length split_def Let_def)

section \<open>Runs\<close>

text \<open>A run of a program that imports, generates and drops secrets, starting with an empty memory: the live
  secrets with what was put into them, and the addresses of buffers a failing source left behind.\<close>

inductive secret_run :: "host \<Rightarrow> 's fill \<Rightarrow> memory \<Rightarrow> 's \<Rightarrow> (secret_bytes \<times> bytes) list \<Rightarrow> nat set \<Rightarrow> bool"
  for h :: host and fill :: "'s fill" where
  start: "mem_byte m = (\<lambda>_. 0) \<Longrightarrow> mem_allocs m = [] \<Longrightarrow> secret_run h fill m s [] {}"
| imported: "secret_run h fill m s live left \<Longrightarrow> from_slice h data m = (sb, m')
    \<Longrightarrow> secret_run h fill m' s ((sb, data) # live) left"
| generated: "secret_run h fill m s live left \<Longrightarrow> secret_random h fill len (m, s) = (Inr sb, (m', s'))
    \<Longrightarrow> secret_run h fill m' s' ((sb, fst (snd (fill (replicate len 0) s))) # live) left"
| failed: "secret_run h fill m s live left \<Longrightarrow> secret_random h fill len (m, s) = (Inl e, (m', s'))
    \<Longrightarrow> secret_run h fill m' s' live (left \<union> span (heap_place h m len) len)"
| dropped: "secret_run h fill m s (xs @ (sb, bs) # ys) left \<Longrightarrow> secret_run h fill (drop_secret h sb m) s (xs @ ys) left"

definition region :: "secret_bytes \<times> bytes \<Rightarrow> nat set" where
  "region x = span (sb_ptr (fst x)) (sb_len (fst x))"

definition apart :: "secret_bytes \<times> bytes \<Rightarrow> secret_bytes \<times> bytes \<Rightarrow> bool" where
  "apart x y \<longleftrightarrow> region x \<inter> region y = {}"

definition holds :: "memory \<Rightarrow> secret_bytes \<times> bytes \<Rightarrow> bool" where
  "holds m x \<longleftrightarrow> sb_len (fst x) = length (snd x) \<and> expose m (fst x) = snd x"

definition secrets_inv :: "memory \<Rightarrow> (secret_bytes \<times> bytes) list \<Rightarrow> nat set \<Rightarrow> bool" where
  "secrets_inv m live left \<longleftrightarrow>
     list_all (holds m) live \<and> sorted_wrt apart live
     \<and> mset (mem_allocs m) = mset (map (\<lambda>(sb, _). (sb_ptr sb, sb_len sb)) live)
     \<and> {a. mem_byte m a \<noteq> 0} \<subseteq> left \<union> \<Union> (region ` set live)"

text \<open>A write to fresh or to owned addresses keeps what the other secrets hold.\<close>

lemma holds_elsewhere:
  assumes "holds m x" and "span ptr (length bs) \<inter> region x = {}" and "mem_byte m' = mem_byte (write_bytes ptr bs m)"
  shows "holds m' x"
  using assms read_elsewhere [of ptr bs "sb_ptr (fst x)" "sb_len (fst x)" m] read_bytes_cong [OF assms(3)]
  by (auto simp: holds_def expose_def region_def)

lemma nonzero_after_write:
  "mem_byte m' = mem_byte (write_bytes ptr bs m)
   \<Longrightarrow> {a. mem_byte m' a \<noteq> 0} \<subseteq> {a. mem_byte m a \<noteq> 0} \<union> span ptr (length bs)"
  by (auto simp: write_bytes_def)

lemma nonzero_after_zeroing:
  "{a. mem_byte (write_bytes ptr (replicate n 0) m) a \<noteq> 0} = {a. mem_byte m a \<noteq> 0} - span ptr n"
  by (auto simp: write_bytes_def split: if_splits)

lemma placed_apart:
  assumes "host_law h" and "secrets_inv m live left" and "x \<in> set live"
  shows "span (heap_place h m n) n \<inter> region x = {}"
proof -
  have "mset (mem_allocs m) = mset (map (\<lambda>(sb, _). (sb_ptr sb, sb_len sb)) live)"
    using assms(2) by (simp add: secrets_inv_def)
  then have "set (mem_allocs m) = set (map (\<lambda>(sb, _). (sb_ptr sb, sb_len sb)) live)" by (rule mset_eq_setD)
  then have "(sb_ptr (fst x), sb_len (fst x)) \<in> set (mem_allocs m)"
    using assms(3) by (cases x) (auto simp: image_iff intro!: bexI [of _ x])
  then show ?thesis using host_lawD(1) [OF assms(1)] by (simp add: region_def)
qed

lemma secrets_inv_written:
  assumes "host_law h" and "secrets_inv m live left" and "mem_byte m' = mem_byte (write_bytes (heap_place h m (length bs)) bs m)"
  shows "list_all (holds m') live"
    and "{a. mem_byte m' a \<noteq> 0} \<subseteq> left \<union> \<Union> (region ` set live) \<union> span (heap_place h m (length bs)) (length bs)"
proof -
  show "list_all (holds m') live"
    using assms(2) holds_elsewhere [OF _ placed_apart [OF assms(1,2)] assms(3)] by (auto simp: secrets_inv_def list_all_iff)
  show "{a. mem_byte m' a \<noteq> 0} \<subseteq> left \<union> \<Union> (region ` set live) \<union> span (heap_place h m (length bs)) (length bs)"
    using assms(2) nonzero_after_write [OF assms(3)] by (auto simp: secrets_inv_def)
qed

lemma secrets_inv_new:
  assumes "host_law h" and "secrets_inv m live left"
    and "sb_ptr sb = heap_place h m (length bs)" "sb_len sb = length bs"
    and "mem_byte m' = mem_byte (write_bytes (sb_ptr sb) bs m)" "mem_allocs m' = (sb_ptr sb, sb_len sb) # mem_allocs m"
  shows "secrets_inv m' ((sb, bs) # live) left"
proof -
  have "holds m' (sb, bs)"
    using assms(4) read_bytes_cong [OF assms(5)] by (simp add: holds_def expose_def)
  moreover have "region (sb, bs) = span (heap_place h m (length bs)) (length bs)"
    using assms(3,4) by (simp add: region_def)
  moreover have "\<forall>x \<in> set live. apart (sb, bs) x"
    using placed_apart [OF assms(1,2)] calculation(2) by (simp add: apart_def)
  ultimately show ?thesis
    using secrets_inv_written [OF assms(1,2), of m' bs] assms by (auto simp: secrets_inv_def)
qed

lemma secrets_inv_dropped:
  assumes "host_law h" and "secrets_inv m (xs @ (sb, bs) # ys) left"
  shows "secrets_inv (drop_secret h sb m) (xs @ ys) left"
proof -
  let ?z = "replicate (sb_len sb) (0 :: byte)"
  note effect = drop_secret_effect [OF assms(1), where sb = sb and m = m]
  have others: "\<forall>x \<in> set (xs @ ys). span (sb_ptr sb) (length ?z) \<inter> region x = {}"
    using assms(2) by (auto simp: secrets_inv_def sorted_wrt_append apart_def region_def)
  have "list_all (holds (drop_secret h sb m)) (xs @ ys)"
    using assms(2) others holds_elsewhere [OF _ _ effect(1)] by (auto simp: secrets_inv_def list_all_iff)
  moreover have "{a. mem_byte (drop_secret h sb m) a \<noteq> 0} \<subseteq> left \<union> \<Union> (region ` set (xs @ ys))"
    using assms(2) unfolding effect(1) nonzero_after_zeroing secrets_inv_def by (auto simp: region_def)
  ultimately show ?thesis using assms(2) effect(2) by (auto simp: secrets_inv_def sorted_wrt_append)
qed

context secure_random
begin

lemma secret_run_inv: "secret_run h fill m s live left \<Longrightarrow> host_law h \<Longrightarrow> secrets_inv m live left"
proof (induction rule: secret_run.induct)
  case (start m s)
  then show ?case by (simp add: secrets_inv_def)
next
  case (imported m s live left data sb m')
  then show ?case using secrets_inv_new from_slice_effect by metis
next
  case (generated m s live left len sb m' s')
  obtain out bs t where f: "fill (replicate len 0) s = (out, bs, t)" by (rule prod_cases3)
  show ?case
    using secrets_inv_new [of h m live left sb bs m'] secret_random_effect [OF _ generated.hyps(2) f] generated f by simp
next
  case (failed m s live left len e m' s')
  obtain out bs t where f: "fill (replicate len 0) s = (out, bs, t)" by (rule prod_cases3)
  note effect = secret_random_effect [OF failed.prems failed.hyps(2) f]
  then show ?case
    using secrets_inv_written [OF failed.prems failed.IH [OF failed.prems], of m' bs] failed.IH [OF failed.prems]
    by (auto simp: secrets_inv_def)
next
  case (dropped m s xs sb bs ys left)
  then show ?case using secrets_inv_dropped by blast
qed

end

text \<open>C38 [no_secret_residue]. In every run of imports, generations and drops on a lawful host, every live secret
  exposes exactly the bytes that were imported or drawn for it, live secrets do not overlap, and every
  byte outside the live secrets is zero: nothing of a dropped secret is left, except in buffers that a
  source abandoned with a failure.\<close>

theorem no_secret_residue:
  assumes "host_law h" and "\<And>dst s. length (fst (snd (fill dst s))) = length dst" and "secret_run h fill m s live left"
  shows "list_all (\<lambda>(sb, bs). expose m sb = bs) live \<and> sorted_wrt apart live
    \<and> {a. mem_byte m a \<noteq> 0} \<subseteq> left \<union> \<Union> (region ` set live)"
proof -
  have "secure_random fill" using assms(2) by unfold_locales
  then have "secrets_inv m live left" by (rule secure_random.secret_run_inv [OF _ assms(3,1)])
  then show ?thesis by (auto simp: secrets_inv_def holds_def list_all_iff)
qed

definition ex_host :: host where
  "ex_host = \<lparr>page_size = 4096,
     heap_place = (\<lambda>m n. foldr (\<lambda>(p, k) top_address. max (p + k) top_address) (mem_allocs m) 0),
     mlock = (\<lambda>ptr len m. (0, m\<lparr>mem_pinned := mem_pinned m \<union> (\<lambda>a. a div 4096) ` span ptr len\<rparr>)),
     munlock = (\<lambda>ptr len m. (0, m\<lparr>mem_pinned := mem_pinned m - (\<lambda>a. a div 4096) ` span ptr len\<rparr>)),
     zeroize = (\<lambda>ptr len. write_bytes ptr (replicate len 0)), slice_ct_eq = (=)\<rparr>"

lemma foldr_max_above: "(p, k) \<in> set xs \<Longrightarrow> p + k \<le> foldr (\<lambda>(p, k) top_address. max (p + k) top_address) xs (0 :: nat)"
  by (induction xs) auto

lemma ex_host_law: "host_law ex_host"
  using foldr_max_above by (fastforce simp: host_law_def ex_host_def pages_def)

text \<open>Two secrets are imported and the first is dropped.\<close>

definition ex_memory :: memory where
  "ex_memory = \<lparr>mem_byte = (\<lambda>_. 0), mem_pinned = {}, mem_allocs = [], LOCK_WARN = False\<rparr>"

definition ex_first :: "secret_bytes \<times> memory" where
  "ex_first = from_slice ex_host [1, 2] ex_memory"

definition ex_second :: "secret_bytes \<times> memory" where
  "ex_second = from_slice ex_host [3] (snd ex_first)"

definition ex_dropped :: memory where
  "ex_dropped = drop_secret ex_host (fst ex_first) (snd ex_second)"

lemma ex_run: "secret_run ex_host det_fill ex_dropped 7 [(fst ex_second, [3])] {}"
proof -
  have "secret_run ex_host det_fill ex_memory 7 [] {}" by (rule secret_run.start) (simp_all add: ex_memory_def)
  then have "secret_run ex_host det_fill (snd ex_first) 7 [(fst ex_first, [1, 2])] {}"
    by (rule secret_run.imported) (simp add: ex_first_def)
  then have "secret_run ex_host det_fill (snd ex_second) 7 [(fst ex_second, [3]), (fst ex_first, [1, 2])] {}"
    by (rule secret_run.imported) (simp add: ex_second_def)
  then show ?thesis
    using secret_run.dropped [of ex_host det_fill "snd ex_second" 7 "[(fst ex_second, [3])]" "fst ex_first" "[1, 2]" "[]" "{}"]
    by (simp add: ex_dropped_def)
qed

theorem no_secret_residue_witness:
  "expose ex_dropped (fst ex_second) = [3] \<and> {a. mem_byte ex_dropped a \<noteq> 0} \<subseteq> region (fst ex_second, [3])"
  using no_secret_residue [OF ex_host_law _ ex_run] det.fill_length by simp

section \<open>Pinning\<close>

text \<open>A drop keeps pinned the pages it shares with no live secret. Locks do not nest: a secret on the same page
  as a dropped one still says that it is locked, but its page is not pinned any more.\<close>

lemma drop_keeps_pinned:
  assumes "host_law h" and "pages h (sb_ptr x) (sb_len x) \<subseteq> mem_pinned m"
    and "pages h (sb_ptr sb) (sb_len sb) \<inter> pages h (sb_ptr x) (sb_len x) = {}"
  shows "pages h (sb_ptr x) (sb_len x) \<subseteq> mem_pinned (drop_secret h sb m)"
  using drop_secret_effect(3) [OF assms(1)] assms(2,3) by fastforce

lemma dropped_neighbour_unpinned:
  "sb_locked (fst ex_second) \<and> sb_len (fst ex_second) = 1 \<and> mem_pinned ex_dropped = {}"
  by (auto simp: ex_second_def ex_first_def ex_dropped_def ex_memory_def from_slice_def vec_of_def from_vec_def lock_region_def
      platform_lock_def drop_secret_def unlock_region_def platform_unlock_def free_vec_def write_bytes_def ex_host_def Let_def)

section \<open>What is shown and compared\<close>

lemma debug_tells_length_only: "sb_len a = sb_len b \<Longrightarrow> secret_debug a = secret_debug b"
  by (simp add: secret_debug_def)

lemma ct_eq_contents: "host_law h \<Longrightarrow> ct_eq h m a b \<longleftrightarrow> expose m a = expose m b"
proof (cases "sb_len a = sb_len b")
  case True
  then show "host_law h \<Longrightarrow> ?thesis" using host_lawD(5) [of h "expose m a" "expose m b"] by (simp add: ct_eq_def expose_def)
next
  case False
  then have "length (expose m a) \<noteq> length (expose m b)" by (simp add: expose_def)
  with False show "host_law h \<Longrightarrow> ?thesis" by (auto simp: ct_eq_def)
qed

section \<open>The deterministic source\<close>

lemma xorshift_bit: "bit (x XOR drop_bit k x) n \<longleftrightarrow> bit x n \<noteq> bit x (k + n)" for x :: "'a::len word"
  by (simp add: bit_xor_iff bit_drop_bit_eq)

lemma xorshift_inj:
  fixes x y :: "'a::len word"
  assumes "0 < k" and "x XOR drop_bit k x = y XOR drop_bit k y"
  shows "x = y"
proof (rule bit_eqI)
  fix n
  show "bit x n \<longleftrightarrow> bit y n"
  proof (induction "LENGTH('a) - n" arbitrary: n rule: less_induct)
    case less
    show ?case
    proof (cases "n < LENGTH('a)")
      case True
      then have "bit x (k + n) \<longleftrightarrow> bit y (k + n)" using less assms(1) by simp
      then show ?thesis using assms(2) xorshift_bit by metis
    next
      case False
      then show ?thesis using bit_imp_le_length by blast
    qed
  qed
qed

lemma mult_unit_inj: "(c :: 'a::comm_ring_1) * d = 1 \<Longrightarrow> x * c = y * c \<Longrightarrow> x = y"
  by (metis mult.assoc mult.right_neutral)

lemma mix_step_inj:
  fixes x y :: "'a::len word"
  assumes "0 < k" and "c * d = 1" and "(x XOR drop_bit k x) * c = (y XOR drop_bit k y) * c"
  shows "x = y"
  using xorshift_inj [OF assms(1) mult_unit_inj [OF assms(2,3)]] .

lemma mix_constants_units:
  "(0xBF58476D1CE4E5B9 :: 64 word) * 10871156337175269513 = 1" "(0x94D049BB133111EB :: 64 word) * 3573116690164977347 = 1"
  by simp_all

lemma splitmix_inj: "splitmix x = splitmix y \<Longrightarrow> x = y"
  unfolding splitmix_def Let_def
  by (drule xorshift_inj [rotated], simp, drule mix_step_inj [OF _ mix_constants_units(2), rotated], simp,
      drule mix_step_inj [OF _ mix_constants_units(1), rotated], simp, assumption)

text \<open>Two seeds give different bytes as soon as eight are drawn, and drawing in multiples of eight is
  drawing from one stream.\<close>

lemma det_fill_seeds:
  assumes "8 \<le> length dst"
  shows "fst (snd (det_fill dst a)) = fst (snd (det_fill dst b)) \<longleftrightarrow> a = b"
proof
  assume eq: "fst (snd (det_fill dst a)) = fst (snd (det_fill dst b))"
  have first: "take 8 (fst (snd (det_fill dst st))) = u64_to_le (splitmix (st + 0x9E3779B97F4A7C15))" for st
    using assms by (cases dst) (simp_all add: det_fill_def split_def Let_def byte_len)
  have "u64_to_le (splitmix (a + 0x9E3779B97F4A7C15)) = u64_to_le (splitmix (b + 0x9E3779B97F4A7C15))"
    using eq first by metis
  then have "splitmix (a + 0x9E3779B97F4A7C15) = splitmix (b + 0x9E3779B97F4A7C15)"
    using u64_from_to_le by metis
  from splitmix_inj [OF this] show "a = b" by simp
qed simp

lemma det_chunks_stream:
  "8 dvd length xs \<Longrightarrow> det_chunks (xs @ ys) st
     = (let (u, st1) = det_chunks xs st; (v, st2) = det_chunks ys st1 in (u @ v, st2))"
proof (induction xs st rule: det_chunks.induct)
  case (2 d ds st)
  have "8 dvd length (drop 8 (d # ds))"
    unfolding length_drop by (rule dvd_diff_nat [OF 2(2)]) simp
  moreover have "8 \<le> length (d # ds)" using dvd_imp_le [OF 2(2)] by simp
  moreover from calculation have "det_chunks ((d # ds) @ ys) st =
      (let (u, st1) = det_chunks (drop 8 (d # ds) @ ys) (st + 0x9E3779B97F4A7C15)
       in (u64_to_le (splitmix (st + 0x9E3779B97F4A7C15)) @ u, st1))"
    by (simp add: byte_len split_def Let_def)
  ultimately show ?case using 2 by (simp add: byte_len split_def Let_def)
qed simp

end
