(* ===== verification/Cli.thy ===== *)
theory Cli
  imports Broadcast Overlay Session KeyStore Custody Gg20 Resilience Api Observability SecretMemory
begin

text \<open>
  The command line, \<^verbatim>\<open>crates/cli/src\<close>: the commands (\<^verbatim>\<open>commands.rs\<close>), their execution (\<^verbatim>\<open>lib.rs\<close>), the
  self-test of every layer (\<^verbatim>\<open>selftest.rs\<close>) and the deterministic vectors (\<^verbatim>\<open>reproduce.rs\<close>). The
  arguments are what the argument parser hands over; text arguments are \<open>utext\<close>, like every text
  that is trimmed and split. The primitives of other crates are collected in the record
  \<open>primitives\<close>, and the position in the random numbers is the state.
\<close>

section \<open>Commands and errors\<close>

datatype overlay_action = CliWrite utext | CliSignal utext | CliResolve utext utext
  | CliObfuscate utext utext utext | CliDeobfuscate utext utext utext

datatype broadcast_action = CliOpen utext | CliRekey utext | CliMessage utext | CliDecrypt utext

datatype session_action = CliSubscribe bool nat nat | CliRenew | CliSessionRevoke

datatype custody_action = CliKeygen nat nat | CliRotate | CliRevoke | CliSign nat nat utext

datatype command = CmdOverlay overlay_action | CmdBroadcast broadcast_action | CmdSession session_action
  | CmdCustody custody_action | CmdSelftest | CmdReproduce | CmdBench

datatype cli_error = BadInput string | CliOperation string | CliSelftest nat | CliReproduce string

record ('p, 'k, 'v, 's, 'f, 'q, 'r, 'x) primitives =
  pv_rand :: rng
  pv_sha :: "bytes \<Rightarrow> bytes"
  pv_rip :: "bytes \<Rightarrow> bytes"
  pv_hmac :: hmac
  pv_scalars :: scalar_ops
  pv_curve :: "'p curve_ops"
  pv_hkdf :: hkdf
  pv_gcm :: gcm_ops
  pv_ecdsa :: "('k, 'v, 's) ecdsa_ops"
  pv_encode_key :: "'v \<Rightarrow> bytes"
  pv_group :: "('f, 'q) group_ops"
  pv_big :: big_ops
  pv_from_scalars :: "bytes \<Rightarrow> bytes \<Rightarrow> 's option"
  pv_argon :: argon
  pv_prometheus :: "('r, 'x) prometheus"
  pv_host :: host
  pv_memory :: memory

type_synonym 'a cli_op = "(nat, cli_error, 'a) op"

definition cli_err :: "cli_error \<Rightarrow> (nat, 'e, 'a) op \<Rightarrow> 'a cli_op" where
  "cli_err e m i = (let (r, j) = m i in (map_err (\<lambda>_. e) r, j))"

section \<open>Arguments\<close>

text \<open>\<open>str::split\<close> by one character and the collection of results up to the first error.\<close>

fun split_on :: "bytes \<Rightarrow> utext \<Rightarrow> utext list" where
  "split_on sep [] = [[]]"
| "split_on sep (c # cs) =
     (if c = sep then [] # split_on sep cs
      else case split_on sep cs of part # parts \<Rightarrow> (c # part) # parts)"

fun collect_results :: "('a \<Rightarrow> 'e + 'b) \<Rightarrow> 'a list \<Rightarrow> 'e + 'b list" where
  "collect_results f [] = Inr []"
| "collect_results f (x # xs) = rbind (f x) (\<lambda>y. rbind (collect_results f xs) (\<lambda>ys. Inr (y # ys)))"

definition cli_decode_hex :: "utext \<Rightarrow> cli_error + bytes" where
  "cli_decode_hex s = map_err (\<lambda>_. BadInput ''hex'') (hex_to_bytes (to_string s))"

definition parse_coords :: "utext \<Rightarrow> cli_error + 32 word list" where
  "parse_coords s =
     collect_results (\<lambda>part. ok_or (Option.bind (parse_u64 (trim part)) try_u32) (BadInput ''coords'')) (split_on [0x2C] s)"

definition parse_u64_list :: "utext \<Rightarrow> cli_error + nat list" where
  "parse_u64_list s =
     collect_results (\<lambda>part. ok_or (parse_u64 (trim part)) (BadInput ''user ids'')) (split_on [0x2C] s)"

definition parse_strategy :: "utext \<Rightarrow> cli_error + strategy" where
  "parse_strategy s =
     (if s = utext_of ''user'' then Inr UserOriented
      else if s = utext_of ''key'' then Inr KeyOriented
      else if s = utext_of ''group'' then Inr GroupOriented
      else Inl (BadInput ''strategy (user|key|group)''))"

fun strategy_debug :: "strategy \<Rightarrow> string" where
  "strategy_debug UserOriented = ''UserOriented''"
| "strategy_debug KeyOriented = ''KeyOriented''"
| "strategy_debug GroupOriented = ''GroupOriented''"

fun join_u32 :: "32 word list \<Rightarrow> string" where
  "join_u32 [] = []"
| "join_u32 [v] = show_u64 (unat v)"
| "join_u32 (v # vs) = show_u64 (unat v) @ '','' @ join_u32 vs"

section \<open>Running the commands\<close>

definition cli_resolve :: "('p, 'k, 'v, 's, 'f, 'q, 'r, 'x) primitives \<Rightarrow> utext \<Rightarrow> utext \<Rightarrow> cli_error + xpriv" where
  "cli_resolve V path seed =
     rbind (parse_coords path) (\<lambda>path. rbind (cli_decode_hex seed) (\<lambda>seed.
     map_err (\<lambda>_. CliOperation ''resolve'') (resolve_key (pv_hmac V) (pv_scalars V) (pv_curve V) path seed)))"

fun run_overlay :: "('p, 'k, 'v, 's, 'f, 'q, 'r, 'x) primitives \<Rightarrow> overlay_action \<Rightarrow> string cli_op" where
  "run_overlay V (CliWrite data) =
     op_bind (op_lift (cli_decode_hex data)) (\<lambda>payload.
     let carrier = build_data_carrier payload in op_return (bytes_to_hex (to_locking_script carrier)))"
| "run_overlay V (CliSignal path) =
     op_bind (op_lift (parse_coords path)) (\<lambda>cs. op_return (join_u32 (signal_position (Position cs))))"
| "run_overlay V (CliResolve path seed) =
     op_bind (op_lift (cli_resolve V path seed)) (\<lambda>_. op_return ''resolved'')"
| "run_overlay V (CliObfuscate path seed data) =
     op_bind (op_lift (cli_resolve V path seed)) (\<lambda>key.
     op_bind (op_lift (cli_decode_hex data)) (\<lambda>payload.
     op_bind (cli_err (CliOperation ''obfuscate'') (obfuscate (pv_rand V) (pv_hkdf V) (pv_gcm V) key payload)) (\<lambda>ct.
     op_return (bytes_to_hex (ct_bytes ct)))))"
| "run_overlay V (CliDeobfuscate path seed data) =
     op_bind (op_lift (cli_resolve V path seed)) (\<lambda>key.
     op_bind (op_lift (cli_decode_hex data)) (\<lambda>payload.
     op_bind (cli_err (CliOperation ''obfuscate'') (obfuscate (pv_rand V) (pv_hkdf V) (pv_gcm V) key payload)) (\<lambda>ct.
     op_bind (cli_err (CliOperation ''deobfuscate'') (op_lift (deobfuscate (pv_hkdf V) (pv_gcm V) key ct))) (\<lambda>recovered.
     if recovered = payload then op_return (bytes_to_hex recovered)
     else op_fail (CliOperation ''deobfuscate mismatch'')))))"

fun run_broadcast :: "('p, 'k, 'v, 's, 'f, 'q, 'r, 'x) primitives \<Rightarrow> broadcast_action \<Rightarrow> string cli_op" where
  "run_broadcast V (CliOpen users) =
     op_bind (op_lift (parse_u64_list users)) (\<lambda>ids.
     op_bind (cli_err (CliOperation ''broadcast open'') (bcs_build (pv_rand V) ids)) (\<lambda>_.
     op_return (''session opened over '' @ show_u64 (length ids) @ '' members'')))"
| "run_broadcast V (CliRekey s) =
     op_bind (op_lift (parse_strategy s)) (\<lambda>strategy. op_return (''rekey strategy: '' @ strategy_debug strategy))"
| "run_broadcast V (CliMessage data) =
     op_bind (cli_err (CliOperation ''broadcast graph'') (bcs_build (pv_rand V) [1, 2, 3, 4])) (\<lambda>graph.
     op_bind (op_lift (cli_decode_hex data)) (\<lambda>payload.
     op_bind (cli_err (CliOperation ''encrypt'') (encrypt_message (pv_rand V) (pv_curve V) (pv_hkdf V) (pv_gcm V) graph payload)) (\<lambda>_.
     op_return ''message encrypted to the group'')))"
| "run_broadcast V (CliDecrypt data) =
     op_bind (cli_err (CliOperation ''broadcast graph'') (bcs_build (pv_rand V) [1, 2, 3, 4])) (\<lambda>graph.
     op_bind (op_lift (cli_decode_hex data)) (\<lambda>payload.
     op_bind (cli_err (CliOperation ''encrypt'') (encrypt_message (pv_rand V) (pv_curve V) (pv_hkdf V) (pv_gcm V) graph payload)) (\<lambda>sealed.
     op_bind (cli_err (CliOperation ''data items'') (encrypted_data_items (pv_rand V) (pv_gcm V) graph)) (\<lambda>items.
     op_bind (op_lift (ok_or (user_leaf_key graph 1) (CliOperation ''leaf key''))) (\<lambda>leaf.
     op_bind (cli_err (CliOperation ''decrypt'') (op_lift (user_decrypt (pv_curve V) (pv_hkdf V) (pv_gcm V) graph 1 leaf items sealed))) (\<lambda>recovered.
     if recovered = payload then op_return ''round-trip decrypt ok''
     else op_fail (CliOperation ''decrypt mismatch'')))))))"

fun show_bool :: "bool \<Rightarrow> string" where
  "show_bool True = ''true''"
| "show_bool False = ''false''"

fun run_session :: "session_action \<Rightarrow> cli_error + string" where
  "run_session (CliSubscribe on_block contribution mem_fee) =
     (let mode = (if on_block then OnBlock else OffChain) in
      rbind (map_err (\<lambda>_. CliOperation ''subscribe'') (subscription_new mode contribution mem_fee)) (\<lambda>subscription.
      Inr (''subscribed; funds '' @ show_u64 (sessions_funded subscription) @ '' sessions'')))"
| "run_session CliRenew =
     rbind (map_err (\<lambda>_. CliOperation ''subscribe'') (subscription_new OffChain 1000 100)) (\<lambda>subscription.
     case renew subscription of
       (Inl _, _) \<Rightarrow> Inl (CliOperation ''renew'')
     | (Inr _, subscription) \<Rightarrow> Inr (''renewed; renewals '' @ show_u64 (renewed_count subscription)))"
| "run_session CliSessionRevoke =
     rbind (map_err (\<lambda>_. CliOperation ''subscribe'') (subscription_new OffChain 1000 100)) (\<lambda>subscription.
     Inr (''revoked-after-elapse: '' @ show_bool (is_revoked subscription 1000)))"

text \<open>\<open>None\<close>: the program does not return a result (a panic, or primes that are never distinct).\<close>

definition run_sign :: "('p, 'k, 'v, 's, 'f::field, 'q, 'r, 'x) primitives \<Rightarrow> nat \<Rightarrow> nat \<Rightarrow> utext
    \<Rightarrow> nat \<Rightarrow> ((cli_error + string) \<times> nat) option" where
  "run_sign V threshold shares message i =
     (case cli_decode_hex message of
        Inl e \<Rightarrow> Some (Inl e, i)
      | Inr hash \<Rightarrow>
          if length hash \<noteq> 32 then Some (Inl (BadInput ''message must be 32 bytes''), i)
          else case dealer_keygen (pv_rand V) (pv_sha V) (pv_big V) (pv_group V) threshold shares 2048 i of
            None \<Rightarrow> None
          | Some (Inl _, j) \<Rightarrow> Some (Inl (BadInput ''threshold/shares''), j)
          | Some (Inr (group_key, parties), j) \<Rightarrow>
              if length parties < threshold then None
              else let quorum = take threshold parties in
              (case gg20_sign (pv_rand V) (pv_sha V) (pv_big V) (pv_group V) (pv_ecdsa V) (pv_from_scalars V) quorum hash j of
                 None \<Rightarrow> None
               | Some (Inl _, k) \<Rightarrow> Some (Inl (CliOperation ''threshold sign''), k)
               | Some (Inr sig, k) \<Rightarrow>
                   Some (Inr (''pubkey='' @ bytes_to_hex (public_compressed (pv_group V) group_key)
                              @ '' sig='' @ bytes_to_hex sig), k)))"

fun run_custody :: "('p, 'k, 'v, 's, 'f::field, 'q, 'r, 'x) primitives \<Rightarrow> custody_action
    \<Rightarrow> nat \<Rightarrow> ((cli_error + string) \<times> nat) option" where
  "run_custody V (CliKeygen threshold shares) i =
     Some (op_bind (cli_err (BadInput ''threshold/shares'') (keygen (pv_rand V) (pv_group V) threshold shares)) (\<lambda>(group_key, _).
           op_return (bytes_to_hex (public_compressed (pv_group V) group_key))) i)"
| "run_custody V CliRotate i =
     Some (case custodian_rotate (pv_sha V) (replicate 33 0x03) 2 (custodian_new (pv_sha V) (replicate 33 0x02) 1) of
             (Inl _, _) \<Rightarrow> (Inl (CliOperation ''rotate''), i)
           | (Inr _, custodian) \<Rightarrow> (Inr (''rotated; head='' @ hash_to_display_hex (custodian_head_hash custodian)), i))"
| "run_custody V CliRevoke i =
     Some (case custodian_revoke (pv_sha V) 2 (custodian_new (pv_sha V) (replicate 33 0x02) 1) of
             (Inl _, _) \<Rightarrow> (Inl (CliOperation ''revoke''), i)
           | (Inr _, custodian) \<Rightarrow> (Inr (''revoked='' @ show_bool (kc_revoked custodian)), i))"
| "run_custody V (CliSign threshold shares message) i = run_sign V threshold shares message i"

section \<open>Deterministic vectors\<close>

definition generate_vectors :: "(bytes \<Rightarrow> bytes) \<Rightarrow> (bytes \<Rightarrow> bytes) \<Rightarrow> (string \<times> string) list" where
  "generate_vectors sha rip =
     (let merkle = (case merkle_root sha [double_sha256 sha (as_bytes ''a''), double_sha256 sha (as_bytes ''b'')] of
            Inr h \<Rightarrow> bytes_to_hex (internal h)
          | Inl _ \<Rightarrow> [])
      in [(''sha256d/overlay-broadcast'', bytes_to_hex (internal (double_sha256 sha (as_bytes ''overlay-broadcast'')))),
          (''sha256/abc'', bytes_to_hex (sha256 sha (as_bytes ''abc''))),
          (''hash160/abc'', bytes_to_hex (hash160 sha rip (as_bytes ''abc''))),
          (''merkle/a-b'', merkle)])"

fun diff_vectors :: "(string \<times> string) list \<Rightarrow> (string \<times> string) list \<Rightarrow> cli_error + unit" where
  "diff_vectors expected [] = Inr ()"
| "diff_vectors expected ((name, val) # rest) =
     (case List.find (\<lambda>(entry_name, _). entry_name = name) expected of
        Some (_, entry_val) \<Rightarrow>
          if entry_val = val then diff_vectors expected rest else Inl (CliReproduce name)
      | None \<Rightarrow> Inl (CliReproduce name))"

definition reproduce :: "(bytes \<Rightarrow> bytes) \<Rightarrow> (bytes \<Rightarrow> bytes) \<Rightarrow> (string \<times> string) list \<Rightarrow> cli_error + unit" where
  "reproduce sha rip expected = (let regenerated = generate_vectors sha rip in diff_vectors expected regenerated)"

definition newline :: string where
  "newline = [char_of (10 :: nat)]"

definition run_reproduce_command :: "('p, 'k, 'v, 's, 'f, 'q, 'r, 'x) primitives \<Rightarrow> cli_error + string" where
  "run_reproduce_command V =
     (let vectors = generate_vectors (pv_sha V) (pv_rip V) in
      rbind (reproduce (pv_sha V) (pv_rip V) vectors) (\<lambda>_.
      Inr (concat (map (\<lambda>(name, val). name @ '' '' @ val @ newline) vectors))))"

section \<open>The self-test\<close>

record layer_result =
  lr_layer :: string
  lr_passed :: bool

text \<open>A check that draws random numbers: its verdict and the position it leaves.\<close>

definition verdict :: "(nat, 'e, bool) op \<Rightarrow> nat \<Rightarrow> bool \<times> nat" where
  "verdict m i = (case m i of (Inl _, j) \<Rightarrow> (False, j) | (Inr b, j) \<Rightarrow> (b, j))"

definition check_secmem :: "('p, 'k, 'v, 's, 'f, 'q, 'r, 'x) primitives \<Rightarrow> bool" where
  "check_secmem V = (let (sb, m) = from_slice (pv_host V) [1, 2, 3] (pv_memory V) in expose m sb = [1, 2, 3])"

definition check_bsv :: "('p, 'k, 'v, 's, 'f, 'q, 'r, 'x) primitives \<Rightarrow> bool" where
  "check_bsv V = list_ex (\<lambda>b. b \<noteq> 0) (internal (double_sha256 (pv_sha V) (as_bytes ''overlay-broadcast'')))"

definition check_cipher :: "('p, 'k, 'v, 's, 'f, 'q, 'r, 'x) primitives \<Rightarrow> bool" where
  "check_cipher V =
     (let key = replicate 32 7; nonce = replicate 12 0 in
      case seal (pv_gcm V) key nonce (as_bytes ''plain'') (as_bytes ''aad'') of
        Inl _ \<Rightarrow> False
      | Inr ciphertext \<Rightarrow>
          (case open_ct (pv_gcm V) key nonce ciphertext (as_bytes ''aad'') of
             Inr plain_text \<Rightarrow> plain_text = as_bytes ''plain''
           | Inl _ \<Rightarrow> False))"

definition store_session :: "('p, 'k, 'v, 's, 'f, 'q, 'r, 'x) primitives \<Rightarrow> string \<Rightarrow> bool
    \<Rightarrow> (nat, kst_error, bytes \<times> file_store) op" where
  "store_session V name exportable i =
     (case store_new (pv_rand V) (pv_argon V) (as_bytes ''selftest'') i of
        (Inl e, j) \<Rightarrow> (Inl e, j)
      | (Inr s, j) \<Rightarrow>
          (case store_generate (pv_rand V) (pv_gcm V) (pv_ecdsa V) (pv_encode_key V) name exportable (s, j) of
             (Inl e, (_, k)) \<Rightarrow> (Inl e, k)
           | (Inr public, (s, k)) \<Rightarrow> (Inr (public, s), k)))"

definition check_ckd :: "('p, 'k, 'v, 's, 'f, 'q, 'r, 'x) primitives \<Rightarrow> nat \<Rightarrow> bool \<times> nat" where
  "check_ckd V = verdict (op_bind (store_session V ''ckd'' True) (\<lambda>(public, s).
     op_bind (op_lift (store_export (pv_gcm V) s ''ckd'')) (\<lambda>key.
     if length key \<noteq> 32 then op_return False
     else let prehash = replicate 32 0x21 in
          op_return (case sign_prehash_der (pv_ecdsa V) key prehash of
            Inr der \<Rightarrow> verify_der_prehash (pv_ecdsa V) public prehash der
          | Inl _ \<Rightarrow> False))))"

definition check_broadcast :: "('p, 'k, 'v, 's, 'f, 'q, 'r, 'x) primitives \<Rightarrow> nat \<Rightarrow> bool \<times> nat" where
  "check_broadcast V = verdict (op_bind (bcs_build (pv_rand V) [1, 2, 3, 4]) (\<lambda>graph.
     op_bind (encrypt_message (pv_rand V) (pv_curve V) (pv_hkdf V) (pv_gcm V) graph (as_bytes ''hello'')) (\<lambda>_.
     op_return True)))"

definition check_overlay :: "('p, 'k, 'v, 's, 'f, 'q, 'r, 'x) primitives \<Rightarrow> bool" where
  "check_overlay V =
     (let position = Position [1, 2, 3]; cs = signal_position position
      in is_ok (resolve_key (pv_hmac V) (pv_scalars V) (pv_curve V) cs (replicate 32 9)))"

definition check_session :: bool where
  "check_session = (case subscription_new OffChain 1000 100 of
     Inr subscription \<Rightarrow> sessions_funded subscription = 10 | Inl _ \<Rightarrow> False)"

definition check_custody :: "('p, 'k, 'v, 's, 'f::field, 'q, 'r, 'x) primitives \<Rightarrow> nat \<Rightarrow> bool \<times> nat" where
  "check_custody V = verdict (op_bind (keygen (pv_rand V) (pv_group V) 2 3) (\<lambda>(group_key, shares).
     case (get_at shares 0, get_at shares 1) of
       (Some a, Some b) \<Rightarrow>
         let parts = [a, b]; prehash = replicate 32 0x42 in
         op_return (case recon_sign_prehash (pv_ecdsa V) (pv_group V) parts 2 prehash of
           Inr der \<Rightarrow> verify_der_prehash (pv_ecdsa V) (public_compressed (pv_group V) group_key) prehash der
         | Inl _ \<Rightarrow> False)
     | _ \<Rightarrow> op_return False))"

definition check_kst :: "('p, 'k, 'v, 's, 'f, 'q, 'r, 'x) primitives \<Rightarrow> nat \<Rightarrow> bool \<times> nat" where
  "check_kst V = verdict (op_bind (store_session V ''kst'' False) (\<lambda>(public, s).
     let prehash = replicate 32 0x11 in
     op_return (case store_sign_prehash (pv_gcm V) (pv_ecdsa V) s ''kst'' prehash of
       Inr der \<Rightarrow> verify_der_prehash (pv_ecdsa V) public prehash der
     | Inl _ \<Rightarrow> False)))"

definition check_obs :: "('p, 'k, 'v, 's, 'f, 'q, 'r, 'x) primitives \<Rightarrow> bool" where
  "check_obs V = (case metrics_new (pv_prometheus V) of
     Inr metrics \<Rightarrow> (case metrics_render (pv_prometheus V) metrics of Inr txt \<Rightarrow> txt \<noteq> [] | Inl _ \<Rightarrow> False)
   | Inl _ \<Rightarrow> False)"

definition check_res :: bool where
  "check_res \<longleftrightarrow> is_ok (check_quorum 2 2 3) \<and> \<not> is_ok (check_quorum 1 2 3)"

definition check_api :: bool where
  "check_api =
     (let config = \<lparr>max_payload_bytes = 1024, rate_limit_per_window = 2, rate_window_secs = 60, op_timeout_millis = 1000\<rparr> in
      if \<not> is_ok (config_validate config) then False
      else let limiter = limiter_new 2 60;
               (first, limiter) = limiter_allow ''svc'' 0 limiter;
               (second, limiter) = limiter_allow ''svc'' 0 limiter;
               (third, limiter) = limiter_allow ''svc'' 0 limiter
           in first \<and> second \<and> \<not> third)"

definition run_selftest :: "('p, 'k, 'v, 's, 'f::field, 'q, 'r, 'x) primitives \<Rightarrow> nat \<Rightarrow> layer_result list \<times> nat" where
  "run_selftest V i0 =
     (let (ckd, i1) = check_ckd V i0;
          (broadcast, i2) = check_broadcast V i1;
          (custody, i3) = check_custody V i2;
          (kst, i4) = check_kst V i3
      in ([\<lparr>lr_layer = ''secmem'', lr_passed = check_secmem V\<rparr>,
           \<lparr>lr_layer = ''bsv'', lr_passed = check_bsv V\<rparr>,
           \<lparr>lr_layer = ''cipher'', lr_passed = check_cipher V\<rparr>,
           \<lparr>lr_layer = ''ckd'', lr_passed = ckd\<rparr>,
           \<lparr>lr_layer = ''keygraph+broadcast'', lr_passed = broadcast\<rparr>,
           \<lparr>lr_layer = ''overlay'', lr_passed = check_overlay V\<rparr>,
           \<lparr>lr_layer = ''session'', lr_passed = check_session\<rparr>,
           \<lparr>lr_layer = ''custody'', lr_passed = custody\<rparr>,
           \<lparr>lr_layer = ''kst'', lr_passed = kst\<rparr>,
           \<lparr>lr_layer = ''obs'', lr_passed = check_obs V\<rparr>,
           \<lparr>lr_layer = ''res'', lr_passed = check_res\<rparr>,
           \<lparr>lr_layer = ''api'', lr_passed = check_api\<rparr>], i4))"

definition all_passed :: "layer_result list \<Rightarrow> bool" where
  "all_passed results = list_all lr_passed results"

definition run_selftest_command :: "('p, 'k, 'v, 's, 'f::field, 'q, 'r, 'x) primitives \<Rightarrow> string cli_op" where
  "run_selftest_command V i =
     (let (results, j) = run_selftest V i;
          failed = length (filter (\<lambda>r. \<not> lr_passed r) results);
          summary = concat (map (\<lambda>r. lr_layer r @ '': '' @ (if lr_passed r then ''pass'' else ''fail'') @ newline) results)
      in (if failed = 0 then Inr summary else Inl (CliSelftest failed), j))"

section \<open>Dispatch\<close>

definition run_bench :: "('p, 'k, 'v, 's, 'f::field, 'q, 'r, 'x) primitives \<Rightarrow> nat \<Rightarrow> string cli_op" where
  "run_bench V micros =
     op_bind (cli_err (CliOperation ''bench keygen'') (keygen (pv_rand V) (pv_group V) 2 3)) (\<lambda>_.
     op_return (''custody.keygen latency: '' @ show_u64 micros @ '' us''))"

fun cli_run :: "('p, 'k, 'v, 's, 'f::field, 'q, 'r, 'x) primitives \<Rightarrow> nat \<Rightarrow> command \<Rightarrow> nat
    \<Rightarrow> ((cli_error + string) \<times> nat) option" where
  "cli_run V micros (CmdOverlay action) i = Some (run_overlay V action i)"
| "cli_run V micros (CmdBroadcast action) i = Some (run_broadcast V action i)"
| "cli_run V micros (CmdSession action) i = Some (run_session action, i)"
| "cli_run V micros (CmdCustody action) i = run_custody V action i"
| "cli_run V micros CmdSelftest i = Some (run_selftest_command V i)"
| "cli_run V micros CmdReproduce i = Some (run_reproduce_command V, i)"
| "cli_run V micros CmdBench i = Some (run_bench V micros i)"

section \<open>Arguments that were printed are read back\<close>

lemma split_on_nonempty: "split_on sep cs \<noteq> []"
  by (induction cs) (auto split: list.splits)

lemma split_on_plain: "sep \<notin> set cs \<Longrightarrow> split_on sep cs = [cs]"
  by (induction cs) auto

lemma split_on_append: "sep \<notin> set cs \<Longrightarrow> split_on sep (cs @ sep # ds) = cs # split_on sep ds"
  by (induction cs) auto

lemma comma_not_shown: "[0x2C] \<notin> set (utext_of (show_u64 n))"
proof -
  have digit: "char_byte (digit d) \<noteq> 0x2C" if "d < 10" for d
    using digit_range [OF that] by (auto simp: word_le_nat_alt)
  have "\<forall>c \<in> set (show_u64 n). char_byte c \<noteq> 0x2C"
  proof (induction n rule: less_induct)
    case (less n)
    show ?case
    proof (cases "n < 10")
      case True
      then show ?thesis using digit [of n] by (subst show_u64_step) simp
    next
      case False
      then show ?thesis using less [of "n div 10"] digit [of "n mod 10"] by (subst show_u64_step) auto
    qed
  qed
  then show ?thesis by (auto simp: utext_of_def)
qed

lemma parse_coords_joined:
  assumes "cs \<noteq> []"
  shows "parse_coords (utext_of (join_u32 cs)) = Inr cs"
proof -
  have one: "Option.bind (parse_u64 (trim (utext_of (show_u64 (unat (v :: 32 word)))))) try_u32 = Some v" for v
    using unat_bound [of v] by (simp add: trim_plain plain_show parse_u64_show usize_bound_def try_u32_def)
  have comma: "utext_of (CHR '','' # s) = [0x2C] # utext_of s" for s
    by (simp add: utext_of_def char_byte_def)
  show ?thesis
    using assms unfolding parse_coords_def
    by (induction cs rule: join_u32.induct)
      (simp_all add: split_on_plain split_on_append comma_not_shown one comma utext_of_append ok_or_def rbind_def)
qed

lemma signal_command:
  "cs \<noteq> [] \<Longrightarrow> run_overlay V (CliSignal (utext_of (join_u32 cs))) i = (Inr (join_u32 cs), i)"
  by (simp add: parse_coords_joined op_bind_def op_lift_def op_return_def signal_position_def)

section \<open>The quorum that signs\<close>

lemma dealt_parties:
  assumes "dealer_keygen rand sha b g t n bits i = Some (Inr (gkey, parties), j)"
  shows "length parties = n \<and> t \<le> n"
proof -
  obtain secret k l where "shamir_split rand g secret t n k = (Inr (map gp_share parties), l)"
    using dealer_keygen_ok [OF assms] by metis
  then obtain tail where "map gp_share parties = map (\<lambda>k. \<lparr>sh_x = of_nat k, sh_y = poly_eval (secret # tail) (of_nat k)\<rparr>) [1..<Suc n]"
    and bound: "t \<le> n" by (rule shamir_split_ok)
  then have "length parties = length [1..<Suc n]" by (metis length_map)
  then show ?thesis using bound by simp
qed

text \<open>The slice of the quorum never panics: no result means that the key generation or the signing gave
  none.\<close>

lemma sign_command_returns:
  assumes "run_sign V threshold shares message i = None"
  shows "dealer_keygen (pv_rand V) (pv_sha V) (pv_big V) (pv_group V) threshold shares 2048 i = None \<or>
    (\<exists>quorum hash j. gg20_sign (pv_rand V) (pv_sha V) (pv_big V) (pv_group V) (pv_ecdsa V) (pv_from_scalars V) quorum hash j = None)"
  using assms dealt_parties [of "pv_rand V" "pv_sha V" "pv_big V" "pv_group V" threshold shares 2048 i]
  by (auto simp: run_sign_def Let_def split: sum.splits if_splits option.splits prod.splits)

section \<open>Commands that check themselves\<close>

lemma obfuscation_opens:
  assumes "gcm_law gcm" "obfuscate rand hk gcm key payload i = (Inr ct, j)"
  shows "deobfuscate hk gcm key ct = Inr payload"
  using assms seal_open [OF assms(1)]
  by (auto simp: obfuscate_def deobfuscate_def op_bind_def op_lift_def op_return_def map_err_def ok_or_def rbind_def
      split: sum.splits prod.splits option.splits)

lemma built_group_decrypts:
  assumes "gcm_law gcm" "bcs_build rand us i = (Inr b, j)" "user \<in> set us"
    and "encrypted_data_items rand gcm b k = (Inr items, l)" "encrypt_message rand cv hk gcm b m k' = (Inr sealed, l')"
  shows "\<exists>leaf. user_leaf_key b user = Some leaf \<and> user_decrypt cv hk gcm b user leaf items sealed = Inr m"
proof -
  have inv: "bg_inv b" and dom: "dom (map_of (bg_user_leaves b)) = set us" and ran: "ran (map_of (bg_user_leaves b)) \<subseteq> node_set b"
    using build_inv [OF assms(2)] by blast+
  obtain leaf where leaf: "map_of (bg_user_leaves b) user = Some leaf" using assms(3) dom by blast
  then have node: "leaf \<in> node_set b" using ran by (auto simp: ran_def)
  have "user_leaf_key b user = Some (key_at b leaf)"
    using inv leaf node by (auto simp: user_leaf_key_def key_at_def bg_inv_def)
  with eligible_decrypts [OF assms(1) inv leaf node assms(4,5)] show ?thesis by blast
qed

lemma op_bind_cases:
  assumes "op_bind m f s = (res, t)"
  obtains (fail) e where "m s = (Inl e, t)" "res = Inl e" | (ok) x u where "m s = (Inr x, u)" "f x u = (res, t)"
  using assms by (auto simp: op_bind_def split: prod.splits sum.splits)

lemma cli_err_Inl: "cli_err e m i = (Inl x, j) \<longleftrightarrow> x = e \<and> (\<exists>y. m i = (Inl y, j))"
  by (auto simp: cli_err_def map_err_def split: prod.splits sum.splits)

lemma cli_err_Inr: "cli_err e m i = (Inr x, j) \<longleftrightarrow> m i = (Inr x, j)"
  by (auto simp: cli_err_def map_err_def split: prod.splits sum.splits)

lemma op_lift_iff: "op_lift r i = (r', j) \<longleftrightarrow> r = r' \<and> j = i"
  by (auto simp: op_lift_def)

lemma cli_decode_Inl: "cli_decode_hex s = Inl e \<Longrightarrow> e = BadInput ''hex''"
  by (auto simp: cli_decode_hex_def map_err_def split: sum.splits)

lemma cli_decode_Inr: "cli_decode_hex s = Inr bs \<longleftrightarrow> hex_to_bytes (to_string s) = Inr bs"
  by (auto simp: cli_decode_hex_def map_err_def split: sum.splits)

lemma collect_results_Inl: "collect_results f xs = Inl e \<Longrightarrow> \<exists>x \<in> set xs. f x = Inl e"
  by (induction xs) (auto simp: rbind_def split: sum.splits)

lemma cli_resolve_Inl: "cli_resolve V path seed = Inl e \<Longrightarrow> e \<in> {BadInput ''coords'', BadInput ''hex'', CliOperation ''resolve''}"
  by (auto simp: cli_resolve_def parse_coords_def rbind_def map_err_def ok_or_def
      dest!: collect_results_Inl cli_decode_Inl split: sum.splits option.splits)

lemmas command_simps = cli_err_Inl cli_err_Inr op_lift_iff op_return_def op_fail_def cli_decode_Inr

lemma decrypt_command:
  assumes "gcm_law (pv_gcm V)" "run_broadcast V (CliDecrypt data) i = (res, j)"
  shows "res \<in> {Inr ''round-trip decrypt ok'', Inl (CliOperation ''broadcast graph''), Inl (BadInput ''hex''),
    Inl (CliOperation ''encrypt''), Inl (CliOperation ''data items'')}"
proof -
  have opens: "\<exists>leaf. user_leaf_key b 1 = Some leaf \<and> user_decrypt (pv_curve V) (pv_hkdf V) (pv_gcm V) b 1 leaf items sealed = Inr m"
    if "bcs_build (pv_rand V) [1, 2, 3, 4] i = (Inr b, j)" "encrypted_data_items (pv_rand V) (pv_gcm V) b k = (Inr items, l)"
      "encrypt_message (pv_rand V) (pv_curve V) (pv_hkdf V) (pv_gcm V) b m k' = (Inr sealed, l')" for b i j k items l m k' sealed l'
    using built_group_decrypts [OF assms(1) that(1) _ that(2,3)] by simp
  show ?thesis
    using assms(2) unfolding run_broadcast.simps
  proof (elim op_bind_cases, goal_cases)
    case (5 b i1 payload i2 sealed i3 items i4 e)
    then show ?case using opens [of i b i1 i3 items i4 payload i2 sealed i3] by (auto simp: command_simps ok_or_def)
  next
    case (6 b i1 payload i2 sealed i3 items i4 leaf i5 e)
    then show ?case using opens [of i b i1 i3 items i4 payload i2 sealed i3] by (auto simp: command_simps ok_or_def)
  next
    case (7 b i1 payload i2 sealed i3 items i4 leaf i5 recovered i6)
    then show ?case using opens [of i b i1 i3 items i4 payload i2 sealed i3] by (auto simp: command_simps ok_or_def)
  qed (auto simp: command_simps dest: cli_decode_Inl)
qed

lemma deobfuscate_command:
  assumes "gcm_law (pv_gcm V)" "run_overlay V (CliDeobfuscate path seed data) i = (res, j)"
  shows "case res of
      Inr out \<Rightarrow> \<exists>payload. hex_to_bytes (to_string data) = Inr payload \<and> out = bytes_to_hex payload
    | Inl e \<Rightarrow> e \<in> {BadInput ''coords'', BadInput ''hex'', CliOperation ''resolve'', CliOperation ''obfuscate''}"
  using assms(2) unfolding run_overlay.simps
  by (elim op_bind_cases)
    (auto simp: command_simps dest: cli_decode_Inl cli_resolve_Inl obfuscation_opens [OF assms(1)] split: if_splits)

section \<open>Vectors\<close>

lemma find_first: "List.find (\<lambda>(n, _). n = name) xs = map_option (Pair name) (map_of xs name)"
  by (induction xs) auto

lemma diff_vectors_ok: "diff_vectors expected vs = Inr () \<longleftrightarrow> list_all (\<lambda>(n, v). map_of expected n = Some v) vs"
  by (induction vs) (auto simp: find_first split: option.splits if_splits)

lemma generated_names: "distinct (map fst (generate_vectors sha rip))"
  by (simp add: generate_vectors_def Let_def)

lemma reproduce_generated: "reproduce sha rip (generate_vectors sha rip) = Inr ()"
proof -
  have "list_all (\<lambda>(n, v). map_of (generate_vectors sha rip) n = Some v) (generate_vectors sha rip)"
    using generated_names [of sha rip] by (auto simp: list_all_iff)
  then show ?thesis by (simp add: reproduce_def diff_vectors_ok Let_def)
qed

section \<open>The layers of the self-test\<close>

text \<open>The public key that is stored is read back, and a private key of custody is a signing key whose
  public key is the encoded point.\<close>

definition key_encoding :: "('k, 'v, 's) ecdsa_ops \<Rightarrow> ('v \<Rightarrow> bytes) \<Rightarrow> bool" where
  "key_encoding ds enc \<longleftrightarrow> (\<forall>v. vk_from_sec1 ds (enc v) = Some v)"

definition key_link :: "('k, 'v, 's) ecdsa_ops \<Rightarrow> ('f::field, 'q) group_ops \<Rightarrow> bool" where
  "key_link ds g \<longleftrightarrow> (\<forall>x. x \<noteq> 0 \<longrightarrow> (\<exists>k. sk_from_slice ds (sc_encode g x) = Some k \<and>
     vk_from_sec1 ds (custody_encode_point g (gr_mul g (gr_base g) x)) = Some (vk_of ds k)))"

lemma signing_succeeds:
  assumes "ecdsa_law ds" "sk_from_slice ds key = Some k" "vk_from_sec1 ds public = Some (vk_of ds k)" "length h = 32"
  shows "\<exists>der. sign_prehash_der ds key h = Inr der \<and> verify_der_prehash ds public h der"
proof -
  have "\<exists>s. sk_sign_prehash ds k h = Some s" using assms(1,4) by (simp add: ecdsa_law_def)
  then have "\<exists>der. sign_prehash_der ds key h = Inr der" using assms(2) by (auto simp: sign_prehash_der_def rbind_def ok_or_def)
  moreover have "verifying_key ds key = Inr (vk_of ds k)" using assms(2) by (simp add: verifying_key_def rbind_def ok_or_def)
  ultimately show ?thesis using sign_prehash_verifies [OF assms(1) _ _ assms(3)] by blast
qed

lemma fresh_key_ok:
  assumes "rng_fills rand" "random_private_key rand ds i = (Inr key, j)"
  shows "length key = 32 \<and> sk_from_slice ds key \<noteq> None"
proof -
  have "random_key_loop rand ds n i = (Inr key, j) \<Longrightarrow> ?thesis" for n
    using assms(1)
    by (induction n arbitrary: i)
      (auto simp: op_fail_def op_return_def kst_fill_ok rng_fills_def KEY_BYTES_def split: if_splits elim!: op_bind_okE)
  then show ?thesis using assms(2) by (simp add: random_private_key_def)
qed

lemma store_session_ok:
  assumes "gcm_law (pv_gcm V)" "rng_fills (pv_rand V)" "store_session V name exportable i = (Inr (public, s), j)"
  shows "\<exists>key k. length key = 32 \<and> sk_from_slice (pv_ecdsa V) key = Some k \<and>
    public = pv_encode_key V (vk_of (pv_ecdsa V) k) \<and> decrypt_seed (pv_gcm V) s name = Inr key \<and>
    store_export (pv_gcm V) s name = (if exportable then Inr key else Inl NonExportable)"
proof -
  obtain s0 i0 where gen: "store_generate (pv_rand V) (pv_gcm V) (pv_ecdsa V) (pv_encode_key V) name exportable (s0, i0)
      = (Inr public, (s, j))"
    using assms(3) by (auto simp: store_session_def split: prod.splits sum.splits)
  obtain key entry i1 i2 where
    key: "random_private_key (pv_rand V) (pv_ecdsa V) i0 = (Inr key, i1)"
    and public: "public_key_compressed (pv_ecdsa V) (pv_encode_key V) key = Inr public"
    and entry: "encrypting (pv_rand V) (pv_gcm V) name key exportable (s0, i1) = (Inr entry, (s0, i2))"
    and s: "s = s0\<lparr>fs_entries := (fs_entries s0)(name \<mapsto> entry)\<rparr>"
    using gen encrypting_ok [OF assms(1)]
    by (fastforce simp: store_generate_def drawing_def op_lift_def op_return_def store_insert_run split: prod.splits elim!: op_bind_okE)
  show ?thesis
    using fresh_key_ok [OF assms(2) key] public encrypting_ok [OF assms(1) entry]
    by (auto simp: s decrypt_inserted store_export_def public_key_compressed_def rbind_def ok_or_def map_err_def Let_def
        split: if_splits option.splits)
qed

lemma verdict_bind:
  assumes "\<And>x j. m i = (Inr x, j) \<Longrightarrow> \<exists>k. f x j = (Inr True, k)"
  shows "fst (verdict (op_bind m f) i) \<longleftrightarrow> is_ok (fst (m i))"
proof (cases "m i")
  case (Pair r j)
  then show ?thesis using assms by (cases r) (auto simp: verdict_def op_bind_def is_ok_def)
qed

lemma check_ckd_verdict:
  assumes "gcm_law (pv_gcm V)" "rng_fills (pv_rand V)" "ecdsa_law (pv_ecdsa V)" "key_encoding (pv_ecdsa V) (pv_encode_key V)"
  shows "fst (check_ckd V i) \<longleftrightarrow> is_ok (fst (store_session V ''ckd'' True i))"
  unfolding check_ckd_def
proof (rule verdict_bind, clarify)
  fix public s j
  assume "store_session V ''ckd'' True i = (Inr (public, s), j)"
  from store_session_ok [OF assms(1,2) this] obtain key k where key: "length key = 32" "sk_from_slice (pv_ecdsa V) key = Some k"
    "public = pv_encode_key V (vk_of (pv_ecdsa V) k)" "store_export (pv_gcm V) s ''ckd'' = Inr key" by auto
  moreover obtain der where "sign_prehash_der (pv_ecdsa V) key (replicate 32 0x21) = Inr der"
    "verify_der_prehash (pv_ecdsa V) public (replicate 32 0x21) der"
    using signing_succeeds [OF assms(3) key(2)] assms(4) key(3) by (metis key_encoding_def length_replicate)
  ultimately show "\<exists>k. op_bind (op_lift (store_export (pv_gcm V) s ''ckd'')) (\<lambda>key.
     if length key \<noteq> 32 then op_return False
     else let prehash = replicate 32 0x21 in
          op_return (case sign_prehash_der (pv_ecdsa V) key prehash of
            Inr der \<Rightarrow> verify_der_prehash (pv_ecdsa V) public prehash der
          | Inl _ \<Rightarrow> False)) j = (Inr True, k)"
    by (simp add: op_bind_def op_lift_def op_return_def Let_def)
qed

lemma check_kst_verdict:
  assumes "gcm_law (pv_gcm V)" "rng_fills (pv_rand V)" "ecdsa_law (pv_ecdsa V)" "key_encoding (pv_ecdsa V) (pv_encode_key V)"
  shows "fst (check_kst V i) \<longleftrightarrow> is_ok (fst (store_session V ''kst'' False i))"
  unfolding check_kst_def
proof (rule verdict_bind, clarify)
  fix public s j
  assume "store_session V ''kst'' False i = (Inr (public, s), j)"
  from store_session_ok [OF assms(1,2) this] obtain key k where key: "length key = 32" "sk_from_slice (pv_ecdsa V) key = Some k"
    "public = pv_encode_key V (vk_of (pv_ecdsa V) k)" "decrypt_seed (pv_gcm V) s ''kst'' = Inr key" by auto
  moreover obtain der where "sign_prehash_der (pv_ecdsa V) key (replicate 32 0x11) = Inr der"
    "verify_der_prehash (pv_ecdsa V) public (replicate 32 0x11) der"
    using signing_succeeds [OF assms(3) key(2)] assms(4) key(3) by (metis key_encoding_def length_replicate)
  ultimately show "\<exists>k. (let prehash = replicate 32 0x11 in
     op_return (case store_sign_prehash (pv_gcm V) (pv_ecdsa V) s ''kst'' prehash of
       Inr der \<Rightarrow> verify_der_prehash (pv_ecdsa V) public prehash der
     | Inl _ \<Rightarrow> False)) j = (Inr True, k)"
    by (simp add: store_sign_prehash_def key_array_ok KEY_BYTES_def rbind_def map_err_def op_return_def Let_def)
qed

lemma random_scalar_nonzero: "random_scalar rand g i = (Inr x, j) \<Longrightarrow> x \<noteq> 0"
  using ends_in_ok [OF random_scalar_yields] by blast

lemma one_neq_two: "(1 :: 'f::field) \<noteq> 2"
  by (metis add_cancel_right_right one_add_one zero_neq_one)

lemma check_custody_verdict:
  assumes "ecdsa_law (pv_ecdsa V)" "key_link (pv_ecdsa V) (pv_group V)"
  shows "fst (check_custody V i) \<longleftrightarrow> is_ok (fst (keygen (pv_rand V) (pv_group V) 2 3 i))"
  unfolding check_custody_def
proof (rule verdict_bind, clarify, goal_cases)
  let ?g = "pv_group V" and ?ds = "pv_ecdsa V" and ?h = "replicate 32 0x42"
  case gen: (1 gkey shares j)
  obtain secret k where key: "gk_public gkey = gr_mul ?g (gr_base ?g) secret" "secret \<noteq> 0"
    and split: "shamir_split (pv_rand V) ?g secret 2 3 k = (Inr shares, j)"
    using gen random_scalar_nonzero [of "pv_rand V" ?g i]
    by (auto simp: keygen_def op_return_def Let_def elim!: op_bind_okE)
  obtain tail where "shares = map (\<lambda>k. \<lparr>sh_x = of_nat k, sh_y = poly_eval (secret # tail) (of_nat k)\<rparr>) [1..<Suc 3]"
    using shamir_split_ok [OF split] by metis
  then have "\<exists>a b. get_at shares 0 = Some a \<and> get_at shares 1 = Some b \<and> a \<noteq> b \<and> {a, b} \<subseteq> set shares"
    by (simp add: get_at_def upt_rec one_neq_two)
  then obtain a b where shares: "get_at shares 0 = Some a" "get_at shares 1 = Some b" "a \<noteq> b" "{a, b} \<subseteq> set shares" by blast
  have "shamir_reconstruct [a, b] = secret"
    using split_interpolates [OF split, of "[a, b]"] shares shamir_reconstruct_sum by fastforce
  then have sign: "recon_sign_prehash ?ds ?g [a, b] 2 ?h = map_err (\<lambda>_. CusSigning) (sign_prehash_der ?ds (sc_encode ?g secret) ?h)"
    by (simp add: recon_sign_prehash_def)
  obtain s where s: "sk_from_slice ?ds (sc_encode ?g secret) = Some s"
    "vk_from_sec1 ?ds (public_compressed ?g gkey) = Some (vk_of ?ds s)"
    using assms(2) key by (auto simp: key_link_def public_compressed_def)
  obtain der where "sign_prehash_der ?ds (sc_encode ?g secret) ?h = Inr der"
    "verify_der_prehash ?ds (public_compressed ?g gkey) ?h der"
    using signing_succeeds [OF assms(1) s] by (metis length_replicate)
  then show ?case using shares sign by (simp add: map_err_def op_return_def Let_def)
qed

lemma check_secmem_verdict:
  assumes "host_law (pv_host V)"
  shows "check_secmem V"
proof -
  obtain sb m where f: "from_slice (pv_host V) [1, 2, 3] (pv_memory V) = (sb, m)" by fastforce
  then have "expose m sb = [1, 2, 3]" by (rule from_slice_exposes [OF assms])
  with f show ?thesis by (simp add: check_secmem_def)
qed

lemma fixed_layers: "check_session" "check_res" "check_api"
  by (simp_all add: check_session_def subscription_new_def sessions_funded_def check_res_def check_quorum_def
      is_ok_def check_api_def config_validate_def limiter_new_def limiter_allow_def word_saturating_add_def Let_def word_le_nat_alt)

lemma check_cipher_verdict:
  assumes "gcm_law (pv_gcm V)"
  shows "check_cipher V \<longleftrightarrow> is_ok (seal (pv_gcm V) (replicate 32 7) (replicate 12 0) (as_bytes ''plain'') (as_bytes ''aad''))"
proof (cases "seal (pv_gcm V) (replicate 32 7) (replicate 12 0) (as_bytes ''plain'') (as_bytes ''aad'')")
  case (Inr c)
  moreover from this have "open_ct (pv_gcm V) (replicate 32 7) (replicate 12 0) c (as_bytes ''aad'') = Inr (as_bytes ''plain'')"
    by (simp only: seal_open [OF assms])
  ultimately show ?thesis by (simp add: check_cipher_def is_ok_def)
qed (simp add: check_cipher_def is_ok_def)

lemma selftest_command_ok: "is_ok (fst (run_selftest_command V i)) \<longleftrightarrow> all_passed (fst (run_selftest V i))"
  by (auto simp: run_selftest_command_def all_passed_def is_ok_def list_all_iff filter_empty_conv Let_def split: prod.splits)

section \<open>Properties\<close>

definition ex_meters :: "(nat, unit) prometheus" where
  "ex_meters = \<lparr>pm_empty = 0, pm_valid = (\<lambda>_. True), pm_register = (\<lambda>_. Some), pm_inc = (\<lambda>_ _. Suc),
     pm_observe = (\<lambda>_ _ _ r. r), pm_set = (\<lambda>_ _ r. r), pm_encode = (\<lambda>_. Some [65]), pm_zero = ()\<rparr>"

definition ex_primitives :: "(byte, byte, byte, byte \<times> bool, rat, rat, nat, unit) primitives" where
  "ex_primitives = \<lparr>pv_rand = toy_rand, pv_sha = len_digest, pv_rip = ex_rip, pv_hmac = toy_hmac, pv_scalars = toy_scalars,
     pv_curve = toy_group, pv_hkdf = toy_hkdf, pv_gcm = toy_gcm, pv_ecdsa = toy_dsa, pv_encode_key = replicate 33,
     pv_group = toy_points\<lparr>gr_encode := (\<lambda>_. replicate 33 7)\<rparr>, pv_big = five_big, pv_from_scalars = (\<lambda>_ _. None),
     pv_argon = (\<lambda>_ _. Some (replicate 32 3)), pv_prometheus = ex_meters,
     pv_host = ex_host, pv_memory = ex_memory\<rparr>"

text \<open>The encoding of points plays no part in generating a key.\<close>

lemma draw_encode:
  "scalar_loop rand (g\<lparr>gr_encode := f\<rparr>) n = scalar_loop rand g n"
  "draw_coeffs rand (g\<lparr>gr_encode := f\<rparr>) n = draw_coeffs rand g n"
proof -
  show loop: "scalar_loop rand (g\<lparr>gr_encode := f\<rparr>) n = scalar_loop rand g n" for n
    by (induction n) (simp_all cong: option.case_cong if_cong)
  show "draw_coeffs rand (g\<lparr>gr_encode := f\<rparr>) n = draw_coeffs rand g n"
    by (induction n) (simp_all add: random_scalar_def loop del: scalar_loop.simps)
qed

lemma keygen_encode: "keygen rand (g\<lparr>gr_encode := f\<rparr>) t n = keygen rand g t n"
  by (simp add: keygen_def shamir_split_def random_scalar_def draw_encode del: scalar_loop.simps cong: if_cong)



text \<open>
  The self-test only reports what the host lacks. The layers without
  random numbers pass; the layers that encrypt or sign pass exactly when sealing or the generation of
  the key succeeds, since what is sealed opens and a signature by a stored or a reconstructed key
  verifies under its public key. The command succeeds exactly when every layer passed.
\<close>

lemma selftest_no_false_alarm:
  assumes "gcm_law (pv_gcm V)" "rng_fills (pv_rand V)" "ecdsa_law (pv_ecdsa V)"
    and "key_encoding (pv_ecdsa V) (pv_encode_key V)" "key_link (pv_ecdsa V) (pv_group V)"
    and "host_law (pv_host V)"
  shows "check_secmem V \<and> check_session \<and> check_res \<and> check_api \<and>
    (check_cipher V \<longleftrightarrow> is_ok (seal (pv_gcm V) (replicate 32 7) (replicate 12 0) (as_bytes ''plain'') (as_bytes ''aad''))) \<and>
    (fst (check_ckd V i) \<longleftrightarrow> is_ok (fst (store_session V ''ckd'' True i))) \<and>
    (fst (check_kst V i) \<longleftrightarrow> is_ok (fst (store_session V ''kst'' False i))) \<and>
    (fst (check_custody V i) \<longleftrightarrow> is_ok (fst (keygen (pv_rand V) (pv_group V) 2 3 i))) \<and>
    (is_ok (fst (run_selftest_command V i)) \<longleftrightarrow> all_passed (fst (run_selftest V i)))"
  using fixed_layers check_secmem_verdict [OF assms(6)] check_cipher_verdict [OF assms(1)] check_ckd_verdict [OF assms(1-4)] check_kst_verdict [OF assms(1-4)]
    check_custody_verdict [OF assms(3,5)] selftest_command_ok by blast

text \<open>
  Reproduction accepts a set of vectors exactly when it has every regenerated
  value under its name. The command passes the vectors it has just generated, so it always succeeds
  and prints them, whatever the digests compute.
\<close>

lemma reproduce_compares:
  "(reproduce sha rip expected = Inr () \<longleftrightarrow>
      list_all (\<lambda>(name, val). map_of expected name = Some val) (generate_vectors sha rip)) \<and>
   run_reproduce_command V = Inr (concat (map (\<lambda>(name, val). name @ '' '' @ val @ newline)
     (generate_vectors (pv_sha V) (pv_rip V))))"
proof
  show "reproduce sha rip expected = Inr () \<longleftrightarrow>
      list_all (\<lambda>(name, val). map_of expected name = Some val) (generate_vectors sha rip)"
    by (simp add: reproduce_def diff_vectors_ok)
qed (simp add: run_reproduce_command_def reproduce_generated rbind_def)

end
