(* ===== verification/Gates.thy ===== *)
theory Gates
  imports Cli "HOL-Library.Sublist"
begin

text \<open>
  The gate runner of the repository, \<^verbatim>\<open>xtask/src/main.rs\<close>: the walk over the source tree, the gates on
  banned tokens, on the size of public functions and on the traceability matrix, and the bill of
  materials that is generated from the lock file.

  The file system is a tree, \<open>fs_node\<close>: a directory that cannot be read is \<open>FsDir None\<close>, an entry that
  cannot be read \<open>EntryError\<close>, and a file that cannot be read \<open>FsFile None\<close>. Names and contents are
  bytes, a path is the list of its names below the root of the workspace; messages carry the bytes of
  a name as they are. Creating a directory and writing a file are the fields of \<open>fs_ops\<close>.
\<close>

section \<open>Files and errors\<close>

datatype fs_node = FsFile "bytes option" | FsDir "dir_entry list option"
  and dir_entry = EntryError | Entry bytes fs_node

record fs_ops =
  fs_create_dir_all :: "bytes list \<Rightarrow> fs_node \<Rightarrow> fs_node option"
  fs_write :: "bytes list \<Rightarrow> bytes \<Rightarrow> fs_node \<Rightarrow> fs_node option"

datatype xerror = XIo | XGate string "string list" | XUsage | XNoRoot

definition MAX_FN_LINES :: nat where
  "MAX_FN_LINES = 60"

definition TEXT_EXTS :: "utext list" where
  "TEXT_EXTS = map utext_of [''rs'', ''toml'', ''md'', ''csv'', ''yml'', ''yaml'', ''json'', ''lock'', ''txt'', ''sh'', ''ps1'', ''cfg'']"

definition SKIP_DIRS :: "utext list" where
  "SKIP_DIRS = map utext_of [''target'', ''.git'', ''node_modules'', ''legacy'']"

fun xerror_text :: "xerror \<Rightarrow> string" where
  "xerror_text XIo = ''io error''"
| "xerror_text (XGate name findings) =
     ''gate '' @ [CHR 0x27] @ name @ [CHR 0x27] @ '' FAILED with '' @ show_u64 (length findings) @ '' finding(s):'' @ newline
     @ concat (map (\<lambda>item. ''  - '' @ item @ newline) findings)"
| "xerror_text XUsage = ''usage: xtask <banned-tokens|fn-size|rtm|sbom|all>''"
| "xerror_text XNoRoot = ''cannot determine workspace root''"

definition finish :: "string \<Rightarrow> string list \<Rightarrow> xerror + unit" where
  "finish name findings = (if findings = [] then Inr () else Inl (XGate name findings))"

section \<open>Text\<close>

text \<open>\<open>to_ascii_lowercase\<close>, \<open>eq_ignore_ascii_case\<close>, \<open>contains\<close> and \<open>trim_start\<close> on texts.\<close>

definition lower_char :: "bytes \<Rightarrow> bytes" where
  "lower_char c = (case c of [b] \<Rightarrow> if 0x41 \<le> b \<and> b \<le> 0x5A then [b + 0x20] else [b] | _ \<Rightarrow> c)"

definition lowercase :: "utext \<Rightarrow> utext" where
  "lowercase cs = map lower_char cs"

definition eq_ignore_case :: "utext \<Rightarrow> utext \<Rightarrow> bool" where
  "eq_ignore_case a b \<longleftrightarrow> lowercase a = lowercase b"

fun contains_text :: "utext \<Rightarrow> utext \<Rightarrow> bool" where
  "contains_text [] needle = (needle = [])"
| "contains_text (c # cs) needle = (prefix needle (c # cs) \<or> contains_text cs needle)"

definition trim_start :: "utext \<Rightarrow> utext" where
  "trim_start cs = dropWhile is_whitespace cs"

text \<open>\<open>Path::extension\<close> of a file name: what follows the last dot, unless the dot is the first byte.\<close>

definition extension :: "bytes \<Rightarrow> bytes option" where
  "extension name =
     (let after = rev (takeWhile (\<lambda>b. b \<noteq> 0x2E) (rev name));
          before = rev (drop 1 (dropWhile (\<lambda>b. b \<noteq> 0x2E) (rev name)))
      in if name = [0x2E, 0x2E] \<or> 0x2E \<notin> set name \<or> before = [] then None else Some after)"

section \<open>Walking the tree\<close>

definition skip_dir :: "bytes \<Rightarrow> bool" where
  "skip_dir name = (case from_utf8 name of Some n \<Rightarrow> n \<in> set SKIP_DIRS | None \<Rightarrow> False)"

definition is_text_file :: "bytes \<Rightarrow> bool" where
  "is_text_file name =
     (if (case from_utf8 name of
            Some n \<Rightarrow> eq_ignore_case n (utext_of ''Dockerfile'') \<or> n = utext_of ''.gitignore''
          | None \<Rightarrow> False) then True
      else (case Option.bind (extension name) from_utf8 of
              Some e \<Rightarrow> lowercase e \<in> set TEXT_EXTS
            | None \<Rightarrow> False))"

type_synonym tree_file = "bytes list \<times> bytes option"

fun walk :: "bytes list \<Rightarrow> fs_node \<Rightarrow> tree_file list \<Rightarrow> xerror + tree_file list"
  and walk_entries :: "bytes list \<Rightarrow> dir_entry list \<Rightarrow> tree_file list \<Rightarrow> xerror + tree_file list" where
  "walk path (FsDir (Some entries)) out = walk_entries path entries out"
| "walk path (FsDir None) out = Inl XIo"
| "walk path (FsFile _) out = Inl XIo"
| "walk_entries path [] out = Inr out"
| "walk_entries path (EntryError # entries) out = Inl XIo"
| "walk_entries path (Entry name (FsDir d) # entries) out =
     (if skip_dir name then walk_entries path entries out
      else rbind (walk (path @ [name]) (FsDir d) out) (walk_entries path entries))"
| "walk_entries path (Entry name (FsFile c) # entries) out =
     walk_entries path entries (if is_text_file name then out @ [(path @ [name], c)] else out)"

definition collect_text_files :: "fs_node \<Rightarrow> xerror + tree_file list" where
  "collect_text_files tree = walk [] tree []"

definition bytes_text :: "bytes \<Rightarrow> string" where
  "bytes_text bs = map (\<lambda>b. char_of (unat b)) bs"

fun display_path :: "bytes list \<Rightarrow> string" where
  "display_path [] = []"
| "display_path [name] = bytes_text name"
| "display_path (name # rest) = bytes_text name @ ''/'' @ display_path rest"

text \<open>\<open>fs::read_to_string\<close>: the content has to be readable and valid UTF-8.\<close>

definition read_text :: "bytes option \<Rightarrow> utext option" where
  "read_text content = Option.bind content from_utf8"

section \<open>Banned tokens\<close>

definition banned_tokens :: "utext list" where
  "banned_tokens = map (\<lambda>(a, b). lowercase (utext_of (a @ b)))
     [(''BT'', ''C''), (''ethe'', ''reum''), (''lite'', ''coin''), (''doge'', ''coin''), (''sol'', ''ana''), (''mon'', ''ero''),
      (''rip'', ''ple''), (''car'', ''dano''), (''seg'', ''wit''), (''light'', ''ning''), (''tap'', ''root''), (''cla'', ''ude''),
      (''cop'', ''ilot''), (''chat'', ''gpt''), (''open'', ''ai''), (''anthro'', ''pic'')]"

definition any_banned :: "utext \<Rightarrow> utext list \<Rightarrow> bool" where
  "any_banned haystack_lower tokens = list_ex (contains_text haystack_lower) tokens"

definition scan_file_for_banned :: "utext list \<Rightarrow> tree_file \<Rightarrow> string list" where
  "scan_file_for_banned tokens file =
     (let (path, content) = file in
      (case read_text content of
         Some txt \<Rightarrow> if any_banned (lowercase txt) tokens then [display_path path @ '': contains a banned token''] else []
       | None \<Rightarrow> []) @
      (case (if path = [] then None else from_utf8 (last path)) of
         Some name \<Rightarrow> if any_banned (lowercase name) tokens then [display_path path @ '': banned token in filename''] else []
       | None \<Rightarrow> []))"

definition cmd_banned_tokens :: "fs_node \<Rightarrow> xerror + unit" where
  "cmd_banned_tokens tree =
     (let tokens = banned_tokens in
      rbind (collect_text_files tree) (\<lambda>files.
      finish ''banned-tokens'' (concat (map (scan_file_for_banned tokens) files))))"

section \<open>Sizes of public functions\<close>

text \<open>Indices of lines stay below the length of a vector, so their saturating increments are successors.\<close>

definition is_fn_signature :: "utext \<Rightarrow> bool" where
  "is_fn_signature line =
     (let t = trim_start line in
      prefix (utext_of ''pub fn '') t \<or> prefix (utext_of ''pub async fn '') t
      \<or> prefix (utext_of ''pub(crate) fn '') t \<or> prefix (utext_of ''pub(crate) async fn '') t)"

definition executable_line :: "utext \<Rightarrow> bool" where
  "executable_line line = (let t = trim line in t \<noteq> [] \<and> \<not> prefix (utext_of ''//'') t)"

fun measure_loop :: "nat \<Rightarrow> nat \<Rightarrow> bool \<Rightarrow> nat \<Rightarrow> utext list \<Rightarrow> nat \<times> nat" where
  "measure_loop i braces started exec [] = (exec, i)"
| "measure_loop i braces started exec (line # rest) =
     (let opens = count_list line [0x7B];
          closes = count_list line [0x7D];
          braces = saturating_add usize_bound braces opens - closes;
          started = (if 0 < opens then True else started);
          exec = (if started \<and> executable_line line then saturating_add usize_bound exec 1 else exec)
      in if started \<and> braces = 0 then (exec, i)
         else measure_loop (Suc i) braces started exec rest)"

definition measure_fn :: "utext list \<Rightarrow> nat \<Rightarrow> nat \<times> nat" where
  "measure_fn lines start = measure_loop start 0 False 0 (drop start lines)"

function check_fn_loop :: "string \<Rightarrow> utext list \<Rightarrow> nat \<Rightarrow> string list" where
  "check_fn_loop path lines idx =
     (if length lines \<le> idx then []
      else let line = lines ! idx in
      if is_fn_signature line then
        let (exec, fn_end) = measure_fn lines idx;
            found = (if MAX_FN_LINES < exec
              then [path @ '': public fn near line '' @ show_u64 (Suc idx) @ '' has '' @ show_u64 exec
                    @ '' executable lines (> '' @ show_u64 MAX_FN_LINES @ '')'']
              else [])
        in found @ check_fn_loop path lines (max fn_end (Suc idx))
      else check_fn_loop path lines (Suc idx))"
  by pat_completeness auto
termination
  by (relation "measure (\<lambda>(path, lines, idx). length lines - idx)") auto

declare check_fn_loop.simps [simp del]

definition check_fn_sizes :: "utext \<Rightarrow> string \<Rightarrow> string list" where
  "check_fn_sizes content path = check_fn_loop path (text_lines content) 0"

definition cmd_fn_size :: "fs_node \<Rightarrow> xerror + unit" where
  "cmd_fn_size tree =
     rbind (collect_text_files tree) (\<lambda>files.
     finish ''fn-size'' (concat (map (\<lambda>(path, content).
       if path = [] \<or> Option.bind (extension (last path)) from_utf8 \<noteq> Some (utext_of ''rs'') then []
       else case read_text content of
              Some txt \<Rightarrow> check_fn_sizes txt (display_path path)
            | None \<Rightarrow> []) files)))"

section \<open>The traceability matrix\<close>

definition text_cells :: "utext \<Rightarrow> utext list" where
  "text_cells row = map trim (split_on [0x2C] row)"

fun first_where :: "('a \<Rightarrow> bool) \<Rightarrow> 'a list \<Rightarrow> nat option" where
  "first_where P [] = None"
| "first_where P (x # xs) = (if P x then Some 0 else map_option Suc (first_where P xs))"

definition col_index :: "utext list \<Rightarrow> string \<Rightarrow> nat option" where
  "col_index cols name = first_where (\<lambda>c. eq_ignore_case c (utext_of name)) cols"

definition validate_rtm_row :: "utext \<Rightarrow> nat \<Rightarrow> nat option \<Rightarrow> nat option \<Rightarrow> nat option \<Rightarrow> string list" where
  "validate_rtm_row row row_no ri vi ti =
     (let cells = text_cells row;
          cell = (\<lambda>i. unwrap_or (Option.bind i (get_at cells)) []);
          req = cell ri; ver = cell vi; tests = cell ti;
          at_row = ''RTM.csv row '' @ show_u64 row_no
      in (if req = [] then [at_row @ '': empty req_id''] else []) @
         (if ver \<notin> set (map utext_of [''T'', ''A'', ''I'', ''D''])
          then [at_row @ '': verification '' @ [CHR 0x27] @ to_string ver @ [CHR 0x27] @ '' not one of T/A/I/D''] else []) @
         (if ver = utext_of ''T'' \<and> tests = [] then [at_row @ '': verification=T but no test_ids''] else []))"

fun rtm_rows :: "nat \<Rightarrow> nat option \<Rightarrow> nat option \<Rightarrow> nat option \<Rightarrow> utext list \<Rightarrow> string list" where
  "rtm_rows row_no ri vi ti [] = []"
| "rtm_rows row_no ri vi ti (row # rows) =
     (let row_no = Suc row_no in
      (if trim row = [] then [] else validate_rtm_row row row_no ri vi ti) @ rtm_rows row_no ri vi ti rows)"

definition rtm_findings :: "utext \<Rightarrow> string list" where
  "rtm_findings content =
     (let rows = text_lines content;
          header = (case rows of [] \<Rightarrow> [] | first # _ \<Rightarrow> first);
          cols = text_cells header
      in concat (map (\<lambda>req. if \<not> list_ex (\<lambda>c. eq_ignore_case c (utext_of req)) cols
                            then [''RTM.csv missing required column '' @ [CHR 0x27] @ req @ [CHR 0x27]] else [])
                     [''req_id'', ''verification'', ''test_ids'']) @
         rtm_rows 1 (col_index cols ''req_id'') (col_index cols ''verification'') (col_index cols ''test_ids'') (drop 1 rows))"

text \<open>Following a path from the root of the tree.\<close>

fun find_entry :: "bytes \<Rightarrow> dir_entry list \<Rightarrow> fs_node option" where
  "find_entry name [] = None"
| "find_entry name (Entry n node # entries) = (if n = name then Some node else find_entry name entries)"
| "find_entry name (EntryError # entries) = find_entry name entries"

fun lookup_file :: "fs_node \<Rightarrow> bytes list \<Rightarrow> bytes option" where
  "lookup_file (FsFile c) [] = c"
| "lookup_file (FsDir (Some entries)) (name # rest) = Option.bind (find_entry name entries) (\<lambda>node. lookup_file node rest)"
| "lookup_file _ _ = None"

definition cmd_rtm :: "fs_node \<Rightarrow> xerror + unit" where
  "cmd_rtm tree =
     rbind (ok_or (read_text (lookup_file tree [as_bytes ''docs'', as_bytes ''RTM.csv''])) XIo) (\<lambda>content.
     finish ''rtm'' (rtm_findings content))"

section \<open>The bill of materials\<close>

definition trim_matches :: "bytes \<Rightarrow> utext \<Rightarrow> utext" where
  "trim_matches c cs = rev (dropWhile (\<lambda>x. x = c) (rev (dropWhile (\<lambda>x. x = c) cs)))"

definition unquote :: "utext \<Rightarrow> utext" where
  "unquote s = trim_matches [0x22] (trim s)"

definition json_escape :: "utext \<Rightarrow> utext" where
  "json_escape s =
     concat (map (\<lambda>c. if c = [0x22] then [[0x5C], [0x22]] else [c])
       (concat (map (\<lambda>c. if c = [0x5C] then [[0x5C], [0x5C]] else [c]) s)))"

definition strip_prefix :: "string \<Rightarrow> utext \<Rightarrow> utext option" where
  "strip_prefix p cs = (if prefix (utext_of p) cs then Some (drop (length (utext_of p)) cs) else None)"

fun lock_components :: "utext option \<Rightarrow> utext list \<Rightarrow> (utext \<times> utext) list" where
  "lock_components name [] = []"
| "lock_components name (line # rest) =
     (let trimmed = trim line in
      if trimmed = utext_of ''[[package]]'' then lock_components None rest
      else case strip_prefix ''name = '' trimmed of
        Some v \<Rightarrow> lock_components (Some (unquote v)) rest
      | None \<Rightarrow>
          (case strip_prefix ''version = '' trimmed of
             Some v \<Rightarrow> (case name of
                          Some package_name \<Rightarrow> (package_name, unquote v) # lock_components None rest
                        | None \<Rightarrow> lock_components None rest)
           | None \<Rightarrow> lock_components name rest))"

definition component_json :: "utext \<times> utext \<Rightarrow> string" where
  "component_json c = ''{\"type\":\"library\",\"name\":\"'' @ to_string (json_escape (fst c))
     @ ''\",\"version\":\"'' @ to_string (json_escape (snd c)) @ ''\"}''"

fun join_comma :: "string list \<Rightarrow> string" where
  "join_comma [] = []"
| "join_comma [s] = s"
| "join_comma (s # rest) = s @ '','' @ join_comma rest"

definition build_sbom :: "utext \<Rightarrow> string \<times> nat" where
  "build_sbom cargo_lock =
     (let components = lock_components None (text_lines cargo_lock);
          body = join_comma (map component_json components)
      in (''{\"bomFormat\":\"CycloneDX\",\"specVersion\":\"1.5\",\"version\":1,\"components\":['' @ body @ '']}'' @ newline,
          length components))"

definition cmd_sbom :: "fs_ops \<Rightarrow> (fs_node, xerror, unit) op" where
  "cmd_sbom fs tree =
     (case read_text (lookup_file tree [as_bytes ''Cargo.lock'']) of
        None \<Rightarrow> (Inl XIo, tree)
      | Some lock \<Rightarrow>
          let (json, count) = build_sbom lock in
          if count = 0 then (Inl (XGate ''sbom'' [''SBOM has no components'']), tree)
          else case fs_create_dir_all fs [as_bytes ''docs''] tree of
            None \<Rightarrow> (Inl XIo, tree)
          | Some tree \<Rightarrow>
              (case fs_write fs [as_bytes ''docs'', as_bytes ''sbom.cyclonedx.json''] (as_bytes json) tree of
                 None \<Rightarrow> (Inl XIo, tree)
               | Some tree \<Rightarrow> (Inr (), tree)))"

section \<open>Dispatch\<close>

definition cmd_all :: "fs_ops \<Rightarrow> (fs_node, xerror, unit) op" where
  "cmd_all fs tree =
     op_bind (op_lift (cmd_banned_tokens tree)) (\<lambda>_.
     op_bind (op_lift (cmd_fn_size tree)) (\<lambda>_.
     op_bind (op_lift (cmd_rtm tree)) (\<lambda>_. cmd_sbom fs))) tree"

definition xtask_main :: "fs_ops \<Rightarrow> string option \<Rightarrow> (fs_node, xerror, unit) op" where
  "xtask_main fs cmd tree =
     (if cmd = Some ''banned-tokens'' then (cmd_banned_tokens tree, tree)
      else if cmd = Some ''fn-size'' then (cmd_fn_size tree, tree)
      else if cmd = Some ''rtm'' then (cmd_rtm tree, tree)
      else if cmd = Some ''sbom'' then cmd_sbom fs tree
      else if cmd = Some ''all'' then cmd_all fs tree
      else (Inl XUsage, tree))"

section \<open>What the walk finds\<close>

text \<open>The text files that are tracked: in a directory of the tree, below no skipped one. A tree is blocked
  when the walk meets something that cannot be listed.\<close>

inductive tracked :: "fs_node \<Rightarrow> bytes list \<Rightarrow> bytes option \<Rightarrow> bool" where
  here: "Entry name (FsFile c) \<in> set es \<Longrightarrow> is_text_file name \<Longrightarrow> tracked (FsDir (Some es)) [name] c"
| below: "Entry name (FsDir d) \<in> set es \<Longrightarrow> \<not> skip_dir name \<Longrightarrow> tracked (FsDir d) path c
    \<Longrightarrow> tracked (FsDir (Some es)) (name # path) c"

inductive blocked :: "fs_node \<Rightarrow> bool" where
  unlisted: "blocked (FsDir None)"
| not_dir: "blocked (FsFile c)"
| entry: "EntryError \<in> set es \<Longrightarrow> blocked (FsDir (Some es))"
| deeper: "Entry name (FsDir d) \<in> set es \<Longrightarrow> \<not> skip_dir name \<Longrightarrow> blocked (FsDir d) \<Longrightarrow> blocked (FsDir (Some es))"

inductive_simps tracked_dir: "tracked (FsDir (Some es)) path c"
inductive_simps tracked_file: "tracked (FsFile x) path c"
inductive_simps blocked_dir: "blocked (FsDir (Some es))"

lemma tracked_nonempty: "tracked tree path c \<Longrightarrow> path \<noteq> []"
  by (cases rule: tracked.cases) auto

lemma tracked_Nil: "\<not> tracked (FsDir (Some [])) path c"
  by (simp add: tracked_dir)

lemma tracked_Cons:
  "tracked (FsDir (Some (e # es))) path c \<longleftrightarrow>
     (case e of
        EntryError \<Rightarrow> False
      | Entry name (FsFile x) \<Rightarrow> is_text_file name \<and> path = [name] \<and> c = x
      | Entry name (FsDir d) \<Rightarrow> \<not> skip_dir name \<and> (\<exists>rest. path = name # rest \<and> tracked (FsDir d) rest c))
     \<or> tracked (FsDir (Some es)) path c"
  by (auto simp: tracked_dir split: dir_entry.splits fs_node.splits)

lemma blocked_Cons:
  "blocked (FsDir (Some (e # es))) \<longleftrightarrow>
     (case e of
        EntryError \<Rightarrow> True
      | Entry name (FsFile x) \<Rightarrow> False
      | Entry name (FsDir d) \<Rightarrow> \<not> skip_dir name \<and> blocked (FsDir d))
     \<or> blocked (FsDir (Some es))"
  by (auto simp: blocked_dir split: dir_entry.splits fs_node.splits)

definition found_below :: "bytes list \<Rightarrow> fs_node \<Rightarrow> tree_file set" where
  "found_below path tree = {(path @ p, c) | p c. tracked tree p c}"

lemma walk_exact:
  "if blocked tree then walk path tree out = Inl XIo
   else \<exists>res. walk path tree out = Inr res \<and> set res = set out \<union> found_below path tree"
  "if blocked (FsDir (Some es)) then walk_entries path es out = Inl XIo
   else \<exists>res. walk_entries path es out = Inr res \<and> set res = set out \<union> found_below path (FsDir (Some es))"
proof (induction path tree out and path es out rule: walk_walk_entries.induct)
  case (4 path out)
  then show ?case by (simp add: blocked_dir found_below_def tracked_Nil)
next
  case (6 path name d entries out)
  show ?case
  proof (cases "skip_dir name \<or> blocked (FsDir d)")
    case True
    then show ?thesis using 6 by (auto simp: blocked_Cons found_below_def tracked_Cons rbind_def split: if_splits)
  next
    case False
    then obtain res where res: "walk (path @ [name]) (FsDir d) out = Inr res" "set res = set out \<union> found_below (path @ [name]) (FsDir d)"
      using 6(2) by auto
    have "found_below path (FsDir (Some (Entry name (FsDir d) # entries)))
        = found_below (path @ [name]) (FsDir d) \<union> found_below path (FsDir (Some entries))"
      using False by (auto simp: found_below_def tracked_Cons)
    then show ?thesis using False res 6(3) [of res] by (auto simp: blocked_Cons rbind_def)
  qed
next
  case (7 path name c entries out)
  have "found_below path (FsDir (Some (Entry name (FsFile c) # entries)))
      = (if is_text_file name then {(path @ [name], c)} else {}) \<union> found_below path (FsDir (Some entries))"
    by (auto simp: found_below_def tracked_Cons)
  then show ?case using 7 by (auto simp: blocked_Cons)
qed (auto simp: blocked_Cons intro: blocked.intros)

section \<open>The bill of materials covers the lock file\<close>

text \<open>A locked package: its name, its version and the lines that follow them, none of which is taken for a
  header, a name or a version. The quoted texts hold no quote and no line feed.\<close>

type_synonym locked = "utext \<times> utext \<times> utext list"

definition other_line :: "utext \<Rightarrow> bool" where
  "other_line line \<longleftrightarrow>
     trim line \<noteq> utext_of ''[[package]]'' \<and> strip_prefix ''name = '' (trim line) = None \<and> strip_prefix ''version = '' (trim line) = None"

definition field_line :: "string \<Rightarrow> utext \<Rightarrow> utext" where
  "field_line key v = utext_of key @ [0x22] # v @ [[0x22]]"

definition package_lines :: "locked \<Rightarrow> utext list" where
  "package_lines p = (case p of (n, v, extra) \<Rightarrow>
     utext_of ''[[package]]'' # field_line ''name = '' n # field_line ''version = '' v # extra)"

definition locked_ok :: "locked \<Rightarrow> bool" where
  "locked_ok p = (case p of (n, v, extra) \<Rightarrow> [0x22] \<notin> set n \<and> [0x22] \<notin> set v \<and> list_all other_line extra)"

lemma trim_framed: "\<not> is_whitespace a \<Longrightarrow> \<not> is_whitespace z \<Longrightarrow> trim (a # mid @ [z]) = a # mid @ [z]"
  by (simp add: trim_def)

lemma not_whitespace_quote [simp]: "\<not> is_whitespace [0x22]"
  by (simp add: is_whitespace_def)

lemma trim_matches_quoted: "q \<notin> set v \<Longrightarrow> trim_matches q (q # v @ [q]) = v"
proof (cases "v = []")
  case False
  assume "q \<notin> set v"
  then have "dropWhile (\<lambda>x. x = q) (v @ [q]) = v @ [q]" "dropWhile (\<lambda>x. x = q) (rev v) = rev v"
    using False by (auto simp: dropWhile_eq_self_iff hd_rev hd_append dest: hd_in_set last_in_set)
  then show ?thesis by (simp add: trim_matches_def)
qed (simp add: trim_matches_def)

lemma unquote_quoted: "[0x22] \<notin> set v \<Longrightarrow> unquote ([0x22] # v @ [[0x22]]) = v"
  by (simp add: unquote_def trim_framed trim_matches_quoted)

lemma field_line_read:
  assumes "key = ''name = '' \<or> key = ''version = ''"
  shows "trim (field_line key v) = field_line key v"
    and "strip_prefix key (field_line key v) = Some ([0x22] # v @ [[0x22]])"
proof -
  obtain a mid where "utext_of key = a # mid" "\<not> is_whitespace a"
    using assms by (auto simp: utext_of_def char_byte_def is_whitespace_def)
  then show "trim (field_line key v) = field_line key v"
    using trim_framed [of a "[0x22]" "mid @ [0x22] # v"] by (simp add: field_line_def)
  show "strip_prefix key (field_line key v) = Some ([0x22] # v @ [[0x22]])"
    by (simp add: strip_prefix_def field_line_def)
qed

lemma field_line_other:
  "field_line ''name = '' v \<noteq> utext_of ''[[package]]''" "field_line ''version = '' v \<noteq> utext_of ''[[package]]''"
  "strip_prefix ''name = '' (field_line ''version = '' v) = None" "trim (utext_of ''[[package]]'') = utext_of ''[[package]]''"
  by (auto simp: field_line_def utext_of_def char_byte_def strip_prefix_def trim_def is_whitespace_def)

lemma lock_components_others: "list_all other_line ls \<Longrightarrow> lock_components None (ls @ rest) = lock_components None rest"
  by (induction ls) (simp_all add: other_line_def)

lemma lock_components_packages:
  "list_all locked_ok ps \<Longrightarrow> lock_components None (concat (map package_lines ps)) = map (\<lambda>(n, v, extra). (n, v)) ps"
  by (induction ps)
    (auto simp: locked_ok_def package_lines_def field_line_read field_line_other unquote_quoted lock_components_others)

lemma text_lines_joined:
  "list_all (\<lambda>l. [0x0A] \<notin> set l \<and> (l = [] \<or> last l \<noteq> [0x0D])) ls
   \<Longrightarrow> text_lines (concat (map (\<lambda>l. l @ [[0x0A]]) ls)) = ls"
proof (induction ls)
  case Nil
  show ?case by (simp add: text_lines.simps)
next
  case (Cons l ls)
  then have "\<And>rest. takeWhile (\<lambda>c. c \<noteq> [0x0A]) (l @ [0x0A] # rest) = l"
    "\<And>rest. dropWhile (\<lambda>c. c \<noteq> [0x0A]) (l @ [0x0A] # rest) = [0x0A] # rest" "strip_cr l = l"
    by (auto simp: takeWhile_append dropWhile_append strip_cr_def dropWhile_eq_Nil_conv)
  then show ?case using Cons by (subst text_lines.simps) auto
qed

definition lock_text :: "utext list \<Rightarrow> locked list \<Rightarrow> utext" where
  "lock_text preamble ps = concat (map (\<lambda>l. l @ [[0x0A]]) (preamble @ concat (map package_lines ps)))"

lemma build_sbom_covers:
  assumes "list_all (\<lambda>l. [0x0A] \<notin> set l \<and> (l = [] \<or> last l \<noteq> [0x0D])) (preamble @ concat (map package_lines ps))"
    and "list_all other_line preamble" and "list_all locked_ok ps"
  shows "lock_components None (text_lines (lock_text preamble ps)) = map (\<lambda>(n, v, extra). (n, v)) ps"
    and "snd (build_sbom (lock_text preamble ps)) = length ps"
proof -
  show covers: "lock_components None (text_lines (lock_text preamble ps)) = map (\<lambda>(n, v, extra). (n, v)) ps"
    using assms unfolding lock_text_def
    by (simp only: text_lines_joined lock_components_others lock_components_packages)
  then show "snd (build_sbom (lock_text preamble ps)) = length ps"
    by (simp add: build_sbom_def Let_def)
qed

section \<open>The other gates\<close>

text \<open>A row of the matrix is traced when it names a requirement, a method of verification and, for a test,
  the tests.\<close>

definition row_traced :: "nat option \<Rightarrow> nat option \<Rightarrow> nat option \<Rightarrow> utext \<Rightarrow> bool" where
  "row_traced ri vi ti row \<longleftrightarrow>
     (let cell = (\<lambda>i. unwrap_or (Option.bind i (get_at (text_cells row))) []) in
      cell ri \<noteq> [] \<and> cell vi \<in> set (map utext_of [''T'', ''A'', ''I'', ''D'']) \<and> (cell vi = utext_of ''T'' \<longrightarrow> cell ti \<noteq> []))"

lemma validate_rtm_row_clean: "validate_rtm_row row row_no ri vi ti = [] \<longleftrightarrow> row_traced ri vi ti row"
  unfolding validate_rtm_row_def row_traced_def Let_def append_is_Nil_conv by simp

lemma rtm_rows_clean:
  "rtm_rows row_no ri vi ti rows = [] \<longleftrightarrow> list_all (\<lambda>row. trim row = [] \<or> row_traced ri vi ti row) rows"
  by (induction rows arbitrary: row_no) (simp_all add: Let_def validate_rtm_row_clean)

text \<open>A function whose braces are the first line's opening one and the last line's closing one measures the
  executable lines between and including them.\<close>

lemma measure_loop_body:
  assumes "list_all (\<lambda>l. count_list l [0x7B] = 0 \<and> count_list l [0x7D] = 0) body"
    and "count_list close [0x7B] = 0" "count_list close [0x7D] = 1" "executable_line close"
    and "n + length body + 1 < usize_bound"
  shows "measure_loop i 1 True n (body @ close # rest)
    = (n + length (filter executable_line body) + 1, i + length body)"
  using assms
proof (induction body arbitrary: i n)
  case Nil
  then show ?case by (simp add: saturating_add_def usize_bound_def)
next
  case (Cons l body)
  then have "saturating_add usize_bound n 1 = Suc n" "saturating_add usize_bound 1 0 = 1"
    by (simp_all add: saturating_add_def usize_bound_def)
  then show ?case using Cons.prems Cons.IH [of n "Suc i"] Cons.IH [of "Suc n" "Suc i"] by simp
qed

lemma measure_fn_body:
  assumes "count_list first [0x7B] = 1" "count_list first [0x7D] = 0" "executable_line first"
    and "list_all (\<lambda>l. count_list l [0x7B] = 0 \<and> count_list l [0x7D] = 0) body"
    and "count_list close [0x7B] = 0" "count_list close [0x7D] = 1" "executable_line close"
    and "length body + 2 < usize_bound"
  shows "measure_fn (pre @ first # body @ close # rest) (length pre)
    = (length (filter executable_line body) + 2, Suc (length pre + length body))"
proof -
  have "saturating_add usize_bound 0 1 = 1" by (simp add: saturating_add_def usize_bound_def)
  then show ?thesis using assms measure_loop_body [of body close 1 "Suc (length pre)" rest] by (simp add: measure_fn_def)
qed

lemma const_fn_not_measured: "\<not> is_fn_signature (utext_of ''pub const fn f() {'')"
  by (simp add: is_fn_signature_def trim_start_def utext_of_def char_byte_def is_whitespace_def)

section \<open>The banned-token gate\<close>

lemma contains_text_sublist: "contains_text hay needle \<longleftrightarrow> sublist needle hay"
  by (induction hay) (auto simp: sublist_Cons_right)

lemma any_banned_sublist: "any_banned hay tokens \<longleftrightarrow> (\<exists>t \<in> set tokens. sublist t hay)"
  by (auto simp: any_banned_def list_ex_iff contains_text_sublist)

text \<open>What the gate is for: a banned token, in whatever case, in the text of a file or in its name.\<close>

definition mentions :: "utext \<Rightarrow> utext \<Rightarrow> bool" where
  "mentions txt token \<longleftrightarrow> (\<exists>before middle behind. txt = before @ middle @ behind \<and> eq_ignore_case middle token)"

definition offends :: "bytes list \<Rightarrow> bytes option \<Rightarrow> bool" where
  "offends path content \<longleftrightarrow>
     (\<exists>token \<in> set banned_tokens.
        (\<exists>txt. read_text content = Some txt \<and> mentions txt token)
        \<or> (\<exists>name. from_utf8 (last path) = Some name \<and> mentions name token))"

lemma lower_char_idem [simp]: "lower_char (lower_char c) = lower_char c"
proof (cases "\<exists>b. c = [b] \<and> 0x41 \<le> b \<and> b \<le> 0x5A")
  case True
  then obtain b where b: "c = [b]" "0x41 \<le> b" "b \<le> 0x5A" by blast
  then have "\<not> b + 0x20 \<le> 0x5A" by (simp add: word_le_nat_alt unat_word_ariths)
  with b show ?thesis by (simp add: lower_char_def)
qed (auto simp: lower_char_def split: list.splits)

lemma lowercase_idem [simp]: "lowercase (lowercase cs) = lowercase cs"
  by (simp add: lowercase_def)

lemma banned_lowercase: "token \<in> set banned_tokens \<Longrightarrow> lowercase token = token"
  by (auto simp: banned_tokens_def)

lemma mentions_lowercase:
  assumes "lowercase token = token"
  shows "mentions txt token \<longleftrightarrow> sublist token (lowercase txt)"
proof
  assume "mentions txt token"
  then show "sublist token (lowercase txt)"
    using assms by (auto simp: mentions_def eq_ignore_case_def lowercase_def)
next
  assume "sublist token (lowercase txt)"
  then obtain before middle behind where "txt = before @ middle @ behind" "lowercase middle = token"
    by (auto simp: sublist_def lowercase_def map_eq_append_conv append_eq_map_conv)
  then show "mentions txt token" using assms by (auto simp: mentions_def eq_ignore_case_def)
qed

lemma scan_file_offends:
  "path \<noteq> [] \<Longrightarrow> scan_file_for_banned banned_tokens (path, content) = [] \<longleftrightarrow> \<not> offends path content"
  by (auto simp: scan_file_for_banned_def offends_def any_banned_sublist mentions_lowercase banned_lowercase
      split: option.splits)

lemma collect_text_files_exact:
  "if blocked tree then collect_text_files tree = Inl XIo
   else \<exists>files. collect_text_files tree = Inr files \<and> (\<forall>path c. (path, c) \<in> set files \<longleftrightarrow> tracked tree path c)"
  using walk_exact(1) [of tree "[]" "[]"] by (auto simp: collect_text_files_def found_below_def split: if_splits)

text \<open>C37 [banned_gate_exact]. The banned-token gate passes exactly when the walk of the tree meets no directory
  or entry it cannot list and no tracked text file has a banned token, in any case of its letters, in its
  readable text or in its name.\<close>

theorem banned_gate_exact:
  "cmd_banned_tokens tree = Inr () \<longleftrightarrow>
     \<not> blocked tree \<and> \<not> (\<exists>path content. tracked tree path content \<and> offends path content)"
proof (cases "blocked tree")
  case True
  then show ?thesis using collect_text_files_exact [of tree] by (simp add: cmd_banned_tokens_def rbind_def)
next
  case False
  then obtain files where files: "collect_text_files tree = Inr files"
      "\<And>path c. (path, c) \<in> set files \<longleftrightarrow> tracked tree path c"
    using collect_text_files_exact [of tree] by auto
  have "cmd_banned_tokens tree = Inr () \<longleftrightarrow> (\<forall>file \<in> set files. scan_file_for_banned banned_tokens file = [])"
    by (simp add: cmd_banned_tokens_def files(1) rbind_def finish_def Let_def)
  also have "\<dots> \<longleftrightarrow> (\<forall>path c. tracked tree path c \<longrightarrow> scan_file_for_banned banned_tokens (path, c) = [])"
    by (auto simp: files(2) [symmetric])
  also have "\<dots> \<longleftrightarrow> \<not> (\<exists>path content. tracked tree path content \<and> offends path content)"
    using scan_file_offends tracked_nonempty by blast
  finally show ?thesis using False by simp
qed

end
