(* ===== verification/Signer.thy ===== *)
theory Signer
  imports Cipher Ckd SecretMemory
begin

text \<open>
  The signing seam of the cipher crate, \<^verbatim>\<open>crates/cipher/src/sign.rs\<close>: a signer keeps its private key in
  a secret container, a verifier a public key. The signature scheme is the one of \<^theory_text>\<open>Ckd\<close>, the container
  the one of \<^theory_text>\<open>SecretMemory\<close>, so a signer reads its key from memory each time it signs.

  The theory shows that a signer, whatever other secrets come and go, signs with the key it was given,
  that its signatures are in low-S form and accepted by a verifier for its public key, and that a
  verifier accepts nothing else than low-S signatures.
\<close>

record signer =
  private_key :: secret_bytes

text \<open>A key of another length is refused, and the container that was handed over is dropped.\<close>

definition signer_new :: "host \<Rightarrow> secret_bytes \<Rightarrow> (memory, cipher_error, signer) op" where
  "signer_new h key m =
     (if secret_len key \<noteq> 32 then (Inl BadKeyLength, drop_secret h key m) else (Inr \<lparr>private_key = key\<rparr>, m))"

definition signer_key_array :: "memory \<Rightarrow> signer \<Rightarrow> cipher_error + bytes" where
  "signer_key_array m s = (let key = expose m (private_key s) in if length key = 32 then Inr key else Inl BadKeyLength)"

definition signer_sign :: "('k, 'v, 's) ecdsa_ops \<Rightarrow> memory \<Rightarrow> signer \<Rightarrow> bytes \<Rightarrow> cipher_error + 's" where
  "signer_sign ds m s msg = rbind (signer_key_array m s) (\<lambda>key. map_err (\<lambda>_. Signing) (pin_sign ds key msg))"

definition signer_verifying_key :: "('k, 'v, 's) ecdsa_ops \<Rightarrow> memory \<Rightarrow> signer \<Rightarrow> cipher_error + 'v" where
  "signer_verifying_key ds m s = rbind (signer_key_array m s) (\<lambda>key. map_err (\<lambda>_. Signing) (verifying_key ds key))"

record 'v verifier =
  verifier_key :: 'v

definition verifier_new :: "'v \<Rightarrow> 'v verifier" where
  "verifier_new key = \<lparr>verifier_key = key\<rparr>"

definition verifier_verify :: "('k, 'v, 's) ecdsa_ops \<Rightarrow> 'v verifier \<Rightarrow> bytes \<Rightarrow> 's \<Rightarrow> bool" where
  "verifier_verify ds v msg signature = verify_strict ds (verifier_key v) msg signature"

section \<open>A signer in a run\<close>

lemma signer_holds:
  assumes "host_law h" and "secure_random fill" and "secret_run h fill m s live left" and "(key, bs) \<in> set live"
    and "signer_new h key m' = (r, m'')"
  shows "(length bs = 32 \<longrightarrow> r = Inr \<lparr>private_key = key\<rparr> \<and> m'' = m' \<and> signer_key_array m \<lparr>private_key = key\<rparr> = Inr bs)
    \<and> (length bs \<noteq> 32 \<longrightarrow> r = Inl BadKeyLength)"
proof -
  have "secrets_inv m live left" by (rule secure_random.secret_run_inv [OF assms(2,3,1)])
  then have "holds m (key, bs)" using assms(4) by (auto simp: secrets_inv_def list_all_iff)
  then show ?thesis using assms(5) by (auto simp: holds_def signer_new_def signer_key_array_def secret_len_def Let_def)
qed

lemma signer_accepted:
  assumes "ecdsa_law ds" and "signer_key_array m s = Inr key"
  shows "case sk_from_slice ds key of
      None \<Rightarrow> signer_sign ds m s msg = Inl Signing \<and> signer_verifying_key ds m s = Inl Signing
    | Some k \<Rightarrow> \<exists>signature v. signer_sign ds m s msg = Inr signature \<and> signer_verifying_key ds m s = Inr v
        \<and> verifier_verify ds (verifier_new v) msg signature"
proof (cases "sk_from_slice ds key")
  case None
  then show ?thesis
    using assms(2) by (simp add: signer_sign_def signer_verifying_key_def pin_sign_def verifying_key_def rbind_def ok_or_def map_err_def)
next
  case (Some k)
  then have "\<exists>signature. pin_sign ds key msg = Inr signature \<and> verify_strict ds (vk_of ds k) msg signature"
    using message_signature_strict [OF assms(1)] by (simp add: verifying_key_def ok_or_def rbind_def)
  with Some show ?thesis
    using assms(2)
    by (auto simp: signer_sign_def signer_verifying_key_def verifier_verify_def verifier_new_def verifying_key_def rbind_def ok_or_def map_err_def)
qed

lemma verifier_low_s: "verifier_verify ds v msg signature \<Longrightarrow> is_low_s ds signature"
  by (simp add: verifier_verify_def verify_strict_def)

end
