(* ===== verification/Bench.thy ===== *)
theory Bench
  imports Broadcast Overlay Session NodeClient
begin

text \<open>
  The benchmark studies, \<^verbatim>\<open>crates/bench/src/lib.rs\<close>: key resolution over the overlay, data items and
  communiques of a leave, and the transactions of a subscription. The elapsed time of a study is the
  function \<open>clock\<close> of its name.

  A study reports structural counts that are meant to be the same on every host. The theory shows
  that they are: two executions with different random numbers, different ciphers and different clocks
  give the same results. The proof is relational. \<open>agrees S R m m'\<close> says that two operations, started in
  states related by \<open>S\<close>, both fail with the same error or both return values related by \<open>R\<close>, and it has
  one rule per way of composing operations.
\<close>

section \<open>Studies\<close>

record study_result =
  st_name :: string
  st_counts :: "nat list"

record timed_study =
  ts_result :: study_result
  ts_latency_micros :: nat

definition overlay_position :: "nat \<Rightarrow> pos" where
  "overlay_position i = Position [word_of_nat (i mod 16), word_of_nat (i div 16 mod 16), 0]"

definition study_overlay :: "hmac \<Rightarrow> scalar_ops \<Rightarrow> 'p curve_ops \<Rightarrow> (string \<Rightarrow> nat) \<Rightarrow> nat list \<Rightarrow> timed_study list" where
  "study_overlay hm sc cv clock sizes =
     (let seed = replicate 32 0x07 in
      map (\<lambda>n.
        let resolved = fold (\<lambda>i resolved.
              if is_ok (resolve_key hm sc cv (signal_position (overlay_position i)) seed)
              then saturating_add usize_bound resolved 1 else resolved) [0..<n] 0;
            name = ''overlay/resolve/N='' @ show_u64 n
        in \<lparr>ts_result = \<lparr>st_name = name, st_counts = [resolved]\<rparr>, ts_latency_micros = clock name\<rparr>) sizes)"

definition communique_count :: "rng \<Rightarrow> gcm_ops \<Rightarrow> broadcast_graph \<Rightarrow> rekey_result \<Rightarrow> strategy \<Rightarrow> nat bcs_draw" where
  "communique_count rand gcm graph result strategy i =
     (case communiques rand gcm graph result strategy i of
        (Inr cs, j) \<Rightarrow> (Inr (length cs), j)
      | (Inl _, j) \<Rightarrow> (Inr 0, j))"

text \<open>A method on a graph that was just built, as a draw that returns the graph it leaves.\<close>

definition on_built :: "'a bcs_op \<Rightarrow> broadcast_graph \<Rightarrow> ('a \<times> broadcast_graph) bcs_draw" where
  "on_built m graph i = (case m (graph, i) of (Inl e, (_, j)) \<Rightarrow> (Inl e, j) | (Inr x, (graph, j)) \<Rightarrow> (Inr (x, graph), j))"

definition broadcast_case :: "rng \<Rightarrow> gcm_ops \<Rightarrow> (string \<Rightarrow> nat) \<Rightarrow> nat \<Rightarrow> timed_study bcs_draw" where
  "broadcast_case rand gcm clock n =
     (let ids = [1..<Suc n] in
      op_bind (bcs_build rand ids) (\<lambda>graph.
      op_bind (encrypted_data_items rand gcm graph) (\<lambda>items.
      op_bind (on_built (leave rand gcm 1) graph) (\<lambda>(result, graph).
      op_bind (communique_count rand gcm graph result UserOriented) (\<lambda>user_communiques.
      op_bind (communique_count rand gcm graph result KeyOriented) (\<lambda>key_communiques.
      op_bind (communique_count rand gcm graph result GroupOriented) (\<lambda>group_communiques.
      let name = ''broadcast/leave/N='' @ show_u64 n in
      op_return \<lparr>ts_result = \<lparr>st_name = name,
          st_counts = [length items, user_communiques, key_communiques, group_communiques]\<rparr>,
        ts_latency_micros = clock name\<rparr>)))))))"

fun study_broadcast :: "rng \<Rightarrow> gcm_ops \<Rightarrow> (string \<Rightarrow> nat) \<Rightarrow> nat list \<Rightarrow> nat \<Rightarrow> timed_study list" where
  "study_broadcast rand gcm clock [] i = []"
| "study_broadcast rand gcm clock (n # ns) i =
     (case broadcast_case rand gcm clock n i of
        (Inr study, j) \<Rightarrow> study # study_broadcast rand gcm clock ns j
      | (Inl _, j) \<Rightarrow> study_broadcast rand gcm clock ns j)"

definition study_subscription :: "(string \<Rightarrow> nat) \<Rightarrow> nat \<Rightarrow> nat \<Rightarrow> timed_study list" where
  "study_subscription clock contribution mem_fee =
     (let funded = (\<lambda>mode. case subscription_new mode contribution mem_fee of Inr s \<Rightarrow> sessions_funded s | Inl _ \<Rightarrow> 0);
          off_chain = funded OffChain;
          on_block = funded OnBlock;
          name = ''subscription/offchain-vs-onblock''
      in [\<lparr>ts_result = \<lparr>st_name = name, st_counts = [off_chain, 1, on_block, on_block]\<rparr>, ts_latency_micros = clock name\<rparr>])"

definition run_all_studies ::
  "hmac \<Rightarrow> scalar_ops \<Rightarrow> 'p curve_ops \<Rightarrow> rng \<Rightarrow> gcm_ops \<Rightarrow> (string \<Rightarrow> nat) \<Rightarrow> bool \<Rightarrow> nat \<Rightarrow> timed_study list" where
  "run_all_studies hm sc cv rand gcm clock full i =
     (let overlay_sizes = (if full then [1024, 16384, 262144] else [64, 256]);
          broadcast_sizes = (if full then [64, 256, 1024] else [8, 16])
      in study_overlay hm sc cv clock overlay_sizes @ study_broadcast rand gcm clock broadcast_sizes i
         @ study_subscription clock 1000 100)"

definition deterministic_results ::
  "hmac \<Rightarrow> scalar_ops \<Rightarrow> 'p curve_ops \<Rightarrow> rng \<Rightarrow> gcm_ops \<Rightarrow> (string \<Rightarrow> nat) \<Rightarrow> bool \<Rightarrow> nat \<Rightarrow> study_result list" where
  "deterministic_results hm sc cv rand gcm clock full i = map ts_result (run_all_studies hm sc cv rand gcm clock full i)"

section \<open>Operations that agree\<close>

definition agrees :: "('s \<Rightarrow> 't \<Rightarrow> bool) \<Rightarrow> ('a \<Rightarrow> 'b \<Rightarrow> bool) \<Rightarrow> ('s, 'e, 'a) op \<Rightarrow> ('t, 'e, 'b) op \<Rightarrow> bool" where
  "agrees S R m m' \<longleftrightarrow> (\<forall>s t. S s t \<longrightarrow> rel_prod (rel_sum (=) R) S (m s) (m' t))"

named_theorems agree_rules \<open>one rule per way of composing operations\<close>

lemma agreesI: "(\<And>s t. S s t \<Longrightarrow> rel_prod (rel_sum (=) R) S (m s) (m' t)) \<Longrightarrow> agrees S R m m'"
  by (simp add: agrees_def)

lemma agreesD: "agrees S R m m' \<Longrightarrow> S s t \<Longrightarrow> rel_prod (rel_sum (=) R) S (m s) (m' t)"
  by (simp add: agrees_def)

lemma agrees_return [agree_rules]: "R x y \<Longrightarrow> agrees S R (op_return x) (op_return y)"
  by (simp add: agrees_def op_return_def)

lemma agrees_fail [agree_rules]: "agrees S R (op_fail e) (op_fail e)"
  by (simp add: agrees_def op_fail_def)

lemma agrees_lift [agree_rules]: "rel_sum (=) R r r' \<Longrightarrow> agrees S R (op_lift r) (op_lift r')"
  by (simp add: agrees_def op_lift_def)

lemma agrees_bind [agree_rules]:
  assumes "agrees S R m m'" and "\<And>x y. R x y \<Longrightarrow> agrees S Q (f x) (f' y)"
  shows "agrees S Q (op_bind m f) (op_bind m' f')"
proof (rule agreesI)
  fix s t
  assume "S s t"
  with assms(1) have "rel_prod (rel_sum (=) R) S (m s) (m' t)" by (rule agreesD)
  then show "rel_prod (rel_sum (=) Q) S (op_bind m f s) (op_bind m' f' t)"
    by (cases "m s"; cases "m' t"; cases "fst (m s)"; cases "fst (m' t)") (auto simp: op_bind_def intro: agreesD [OF assms(2)])
qed

lemma agrees_mono: "agrees S R m m' \<Longrightarrow> (\<And>x y. R x y \<Longrightarrow> Q x y) \<Longrightarrow> agrees S Q m m'"
  by (fastforce simp: agrees_def rel_prod_conv elim: sum.rel_mono_strong split: prod.splits)

section \<open>Graphs that differ in their keys only\<close>

definition key32 :: "bytes \<Rightarrow> bytes \<Rightarrow> bool" where
  "key32 k l \<longleftrightarrow> length k = KEY_LEN \<and> length l = KEY_LEN"

definition alike_keys :: "(node_id \<times> bytes) list \<Rightarrow> (node_id \<times> bytes) list \<Rightarrow> bool" where
  "alike_keys = list_all2 (rel_prod (=) key32)"

definition alike :: "broadcast_graph \<Rightarrow> broadcast_graph \<Rightarrow> bool" where
  "alike b c \<longleftrightarrow> bg_graph b = bg_graph c \<and> bg_user_leaves b = bg_user_leaves c \<and> alike_keys (bg_keys b) (bg_keys c)"

definition same_message :: "rekey_message \<Rightarrow> rekey_message \<Rightarrow> bool" where
  "same_message m n \<longleftrightarrow> rm_new_key_node m = rm_new_key_node n \<and> rm_under_node m = rm_under_node n"

definition same_result :: "rekey_result \<Rightarrow> rekey_result \<Rightarrow> bool" where
  "same_result r q \<longleftrightarrow> rr_replaced r = rr_replaced q \<and> list_all2 same_message (rr_messages r) (rr_messages q)"

definition any_state :: "nat \<Rightarrow> nat \<Rightarrow> bool" where
  "any_state i j \<longleftrightarrow> True"

definition graph_state :: "broadcast_graph \<times> nat \<Rightarrow> broadcast_graph \<times> nat \<Rightarrow> bool" where
  "graph_state s t \<longleftrightarrow> alike (fst s) (fst t)"

lemma alike_keys_update: "alike_keys ks ls \<Longrightarrow> key32 k l \<Longrightarrow> alike_keys (AList.update n k ks) (AList.update n l ls)"
  unfolding alike_keys_def by (induction rule: list_all2_induct) auto

lemma alike_keys_delete: "alike_keys ks ls \<Longrightarrow> alike_keys (AList.delete n ks) (AList.delete n ls)"
  unfolding alike_keys_def by (induction rule: list_all2_induct) (auto simp: AList.delete_eq)

lemma alike_keys_map_of: "alike_keys ks ls \<Longrightarrow> rel_option key32 (map_of ks n) (map_of ls n)"
  unfolding alike_keys_def by (induction rule: list_all2_induct) auto

lemma alike_keys_fst: "alike_keys ks ls \<Longrightarrow> map fst ks = map fst ls"
  unfolding alike_keys_def by (induction rule: list_all2_induct) auto

lemma rel_ok_or: "rel_option R x y \<Longrightarrow> rel_sum (=) R (ok_or x e) (ok_or y e)"
  by (cases x; cases y) (auto simp: ok_or_def)

lemma alike_key_at: "alike b c \<Longrightarrow> rel_sum (=) key32 (ok_or (map_of (bg_keys b) n) e) (ok_or (map_of (bg_keys c) n) e)"
  by (intro rel_ok_or alike_keys_map_of) (simp add: alike_def)

lemma rel_sum_refl: "(\<And>x. R x x) \<Longrightarrow> rel_sum (=) R r r"
  by (cases r) auto

lemma agrees_lift_same: "agrees S (=) (op_lift r) (op_lift r)"
  by (intro agree_rules rel_sum_refl) simp

lemma agrees_key_at:
  "alike b c \<Longrightarrow> agrees S key32 (op_lift (ok_or (map_of (bg_keys b) n) e)) (op_lift (ok_or (map_of (bg_keys c) n) e))"
  by (intro agree_rules alike_key_at)

lemma agrees_reading [agree_rules]:
  "(\<And>b c. alike b c \<Longrightarrow> agrees any_state R (f b) (f' c)) \<Longrightarrow> agrees graph_state R (reading f) (reading f')"
  by (fastforce simp: agrees_def any_state_def graph_state_def reading_def rel_prod_conv Let_def split: prod.splits)

lemma agrees_changing [agree_rules]:
  "(\<And>b c. alike b c \<Longrightarrow> alike (f b) (f' c)) \<Longrightarrow> agrees graph_state (=) (changing f) (changing f')"
  by (auto simp: agrees_def graph_state_def changing_def)

lemma agrees_on_graph [agree_rules]: "agrees graph_state (=) (on_graph f) (on_graph f)"
  by (auto simp: agrees_def graph_state_def on_graph_def alike_def rel_prod_conv Let_def intro: rel_sum_refl split: prod.splits)

lemma agrees_on_built [agree_rules]:
  assumes "agrees graph_state R m m'" and "alike b c"
  shows "agrees any_state (rel_prod R alike) (on_built m b) (on_built m' c)"
proof (rule agreesI)
  fix i j
  have "rel_prod (rel_sum (=) R) graph_state (m (b, i)) (m' (c, j))"
    using assms by (intro agreesD [OF assms(1)]) (simp add: graph_state_def)
  then show "rel_prod (rel_sum (=) (rel_prod R alike)) any_state (on_built m b i) (on_built m' c j)"
    by (cases "m (b, i)"; cases "m' (c, j)"; cases "fst (m (b, i))"; cases "fst (m' (c, j))")
      (auto simp: on_built_def any_state_def graph_state_def)
qed

section \<open>The components agree\<close>

text \<open>A source that does not fail and fills what it is asked for, a cipher that seals keys.\<close>

definition rng_total :: "rng \<Rightarrow> bool" where
  "rng_total rand \<longleftrightarrow> (\<forall>i n. \<exists>bs. rand i n = Some bs \<and> length bs = n)"

definition gcm_seals :: "gcm_ops \<Rightarrow> bool" where
  "gcm_seals gcm \<longleftrightarrow> (\<forall>k n a m. length k = KEY_LEN \<and> length n = NONCE_LEN \<and> length m = KEY_LEN \<longrightarrow> gcm_encrypt gcm k n a m \<noteq> None)"

lemma agrees_random_key:
  assumes "rng_total rand" "rng_total rand'"
  shows "agrees any_state key32 (random_key rand) (random_key rand')"
proof (rule agreesI)
  fix i j
  obtain bs cs where "rand i KEY_LEN = Some bs" "length bs = KEY_LEN" "rand' j KEY_LEN = Some cs" "length cs = KEY_LEN"
    using assms unfolding rng_total_def by metis
  then show "rel_prod (rel_sum (=) key32) any_state (random_key rand i) (random_key rand' j)"
    by (simp add: random_key_def key32_def any_state_def)
qed

lemma wrap_total:
  assumes "rng_total rand" "gcm_seals gcm" "length k = KEY_LEN" "length m = KEY_LEN"
  obtains w j where "from_cipher (wrap rand gcm k m) i = (Inr w, j)"
proof -
  obtain nonce where nonce: "rand i NONCE_LEN = Some nonce" "length nonce = NONCE_LEN"
    using assms(1) unfolding rng_total_def by metis
  then obtain c where "gcm_encrypt gcm k nonce KEYWRAP_AAD m = Some c"
    using assms(2-4) unfolding gcm_seals_def by blast
  with nonce assms(3) show ?thesis
    by (intro that) (simp add: from_cipher_def wrap_def op_bind_def random_fill_def op_lift_def seal_def cipher_for_def
        rbind_def ok_or_def op_return_def map_err_def)
qed

lemma agrees_wrap:
  assumes "rng_total rand" "rng_total rand'" "gcm_seals gcm" "gcm_seals gcm'" "key32 k k'" "key32 m m'"
  shows "agrees any_state (\<lambda>_ _. True) (from_cipher (wrap rand gcm k m)) (from_cipher (wrap rand' gcm' k' m'))"
proof (rule agreesI)
  fix i j
  obtain w l w' l' where "from_cipher (wrap rand gcm k m) i = (Inr w, l)" "from_cipher (wrap rand' gcm' k' m') j = (Inr w', l')"
    using wrap_total [OF assms(1,3)] wrap_total [OF assms(2,4)] assms(5,6) unfolding key32_def by metis
  then show "rel_prod (rel_sum (=) (\<lambda>_ _. True)) any_state (from_cipher (wrap rand gcm k m) i) (from_cipher (wrap rand' gcm' k' m') j)"
    by (simp add: any_state_def)
qed

definition hosts :: "rng \<Rightarrow> gcm_ops \<Rightarrow> rng \<Rightarrow> gcm_ops \<Rightarrow> bool" where
  "hosts rand gcm rand' gcm' \<longleftrightarrow> rng_total rand \<and> gcm_seals gcm \<and> rng_total rand' \<and> gcm_seals gcm'"

lemma hosts_agree [agree_rules]:
  assumes "hosts rand gcm rand' gcm'"
  shows "agrees any_state key32 (random_key rand) (random_key rand')"
    and "key32 k k' \<Longrightarrow> key32 m m' \<Longrightarrow>
      agrees any_state (\<lambda>_ _. True) (from_cipher (wrap rand gcm k m)) (from_cipher (wrap rand' gcm' k' m'))"
  using assms agrees_random_key agrees_wrap by (auto simp: hosts_def)

lemma agrees_draw_keys:
  assumes "hosts rand gcm rand' gcm'"
  shows "alike_keys ks ls \<Longrightarrow> agrees any_state alike_keys (draw_keys rand ns ks) (draw_keys rand' ns ls)"
proof (induction ns arbitrary: ks ls)
  case (Cons n ns)
  then show ?case
    by (auto intro!: agrees_bind [OF hosts_agree(1) [OF assms]] Cons.IH alike_keys_update)
qed (auto intro!: agree_rules)

lemma agrees_build:
  assumes "hosts rand gcm rand' gcm'"
  shows "agrees any_state alike (bcs_build rand us) (bcs_build rand' us)"
proof -
  have "agrees any_state alike_keys (draw_keys rand ns []) (draw_keys rand' ns [])" for ns
    by (rule agrees_draw_keys [OF assms]) (simp add: alike_keys_def)
  note draw = agrees_bind [OF this]
  show ?thesis
    unfolding bcs_build_def Let_def
    by (auto intro!: agrees_bind [OF agrees_lift_same] agrees_fail draw agrees_return simp: alike_def split: prod.splits sum.splits)
qed

lemma agrees_items:
  assumes "hosts rand gcm rand' gcm'" and "alike b c"
  shows "alike_keys ks ls \<Longrightarrow>
    agrees any_state (\<lambda>x y. length x = length y) (items_loop rand gcm b ks) (items_loop rand' gcm' c ls)"
  unfolding alike_keys_def
proof (induction rule: list_all2_induct)
  case (Cons x xs y ys)
  obtain n k l where xy: "x = (n, k)" "y = (n, l)" "key32 k l" using Cons.hyps(1) by (cases x; cases y) auto
  have "bg_graph b = bg_graph c" using assms(2) by (simp add: alike_def)
  then show ?case
    using Cons.IH xy(3)
    by (auto simp: xy(1,2) split: option.splits
        intro!: agrees_bind [OF agrees_key_at [OF assms(2)]] agrees_bind [OF hosts_agree(2) [OF assms(1)]]
          agrees_bind [OF Cons.IH] agrees_return)
qed (auto intro!: agree_rules)

lemma agrees_wrap_under:
  assumes "hosts rand gcm rand' gcm'" and "alike b c" and "key32 k l"
  shows "agrees any_state (list_all2 same_message) (wrap_under rand gcm b n k cs) (wrap_under rand' gcm' c n l cs)"
proof (induction cs)
  case (Cons m cs)
  show ?case
    using assms(3)
    by (auto simp: same_message_def intro!: agrees_bind [OF agrees_key_at [OF assms(2)]]
        agrees_bind [OF hosts_agree(2) [OF assms(1)]] agrees_bind [OF Cons.IH] agrees_return)
qed (auto intro!: agree_rules)

lemma alike_children: "alike b c \<Longrightarrow> children_of b n = children_of c n"
  using alike_keys_fst [of "bg_keys b" "bg_keys c"] by (simp add: alike_def children_of_def)

lemma agrees_rotate:
  assumes "hosts rand gcm rand' gcm'"
  shows "agrees graph_state (list_all2 same_message) (rotate_loop rand gcm ns) (rotate_loop rand' gcm' ns)"
proof (induction ns)
  case (Cons n ns)
  have draw: "agrees graph_state key32 (reading (\<lambda>b. random_key rand)) (reading (\<lambda>b. random_key rand'))"
    by (rule agrees_reading) (rule hosts_agree(1) [OF assms])
  have wrapping: "key32 k l \<Longrightarrow> agrees graph_state (list_all2 same_message)
      (reading (\<lambda>b. wrap_under rand gcm b n k (children_of b n))) (reading (\<lambda>b. wrap_under rand' gcm' b n l (children_of b n)))" for k l
    by (rule agrees_reading) (simp add: alike_children agrees_wrap_under [OF assms])
  have change: "key32 k l \<Longrightarrow> agrees graph_state (=) (changing (\<lambda>b. b\<lparr>bg_keys := AList.update n k (bg_keys b)\<rparr>))
      (changing (\<lambda>b. b\<lparr>bg_keys := AList.update n l (bg_keys b)\<rparr>))" for k l
    by (auto intro!: agrees_changing simp: alike_def alike_keys_update)
  show ?case
    by (auto intro!: agrees_bind [OF draw] agrees_bind [OF wrapping] agrees_bind [OF change] agrees_bind [OF Cons.IH]
        agrees_return list_all2_appendI)
qed (auto intro!: agree_rules)

lemma agrees_leave:
  assumes "hosts rand gcm rand' gcm'"
  shows "agrees graph_state same_result (leave rand gcm user) (leave rand' gcm' user)"
proof -
  have leaf: "agrees graph_state (=) (reading (\<lambda>b. op_lift (ok_or (map_of (bg_user_leaves b) user) NotEligible)))
      (reading (\<lambda>b. op_lift (ok_or (map_of (bg_user_leaves b) user) NotEligible)))"
    by (rule agrees_reading) (simp add: alike_def agrees_lift_same)
  have ancestors: "agrees graph_state (=) (reading (\<lambda>b. op_lift (ancestors_of b n))) (reading (\<lambda>b. op_lift (ancestors_of b n)))" for n
    by (rule agrees_reading) (simp add: alike_def ancestors_of_def agrees_lift_same)
  have unseat: "agrees graph_state (=) (changing (\<lambda>b. b\<lparr>bg_user_leaves := AList.delete user (bg_user_leaves b)\<rparr>))
      (changing (\<lambda>b. b\<lparr>bg_user_leaves := AList.delete user (bg_user_leaves b)\<rparr>))"
    by (rule agrees_changing) (simp add: alike_def)
  have forget: "agrees graph_state (=) (changing (\<lambda>b. b\<lparr>bg_keys := AList.delete n (bg_keys b)\<rparr>))
      (changing (\<lambda>b. b\<lparr>bg_keys := AList.delete n (bg_keys b)\<rparr>))" for n
    by (rule agrees_changing) (simp add: alike_def alike_keys_delete)
  show ?thesis
    unfolding leave_def rotate_and_rekey_def
    by (auto intro!: agrees_bind [OF leaf] agrees_bind [OF ancestors] agrees_bind [OF agrees_on_graph] agrees_bind [OF unseat]
        agrees_bind [OF forget] agrees_bind [OF agrees_rotate [OF assms]] agrees_return simp: same_result_def)
qed

section \<open>Counting communiques\<close>

lemma push_group_shape:
  "list_all2 same_message ms ns \<Longrightarrow> map fst gs = map fst hs \<Longrightarrow> map fst (fold push_group ms gs) = map fst (fold push_group ns hs)"
proof (induction arbitrary: gs hs rule: list_all2_induct)
  case (Cons m ms n ns)
  have "map fst (push_group m gs) = map fst (push_group n hs)"
    using Cons.hyps(1) Cons.prems by (simp add: push_group_def same_message_def AList.update_keys)
  then show ?case using Cons.IH by simp
qed simp

lemma agrees_wrap_path:
  assumes "hosts rand gcm rand' gcm'" and "alike b c" and "key32 k l"
  shows "agrees any_state (\<lambda>x y. length x = length y) (wrap_path rand gcm b rs k ns) (wrap_path rand' gcm' c rs l ns)"
proof (induction ns)
  case (Cons n ns)
  show ?case
    using assms(3) Cons.IH
    by (auto intro!: agrees_bind [OF agrees_key_at [OF assms(2)]] agrees_bind [OF hosts_agree(2) [OF assms(1)]]
        agrees_bind [OF Cons.IH] agrees_return)
qed (auto intro!: agree_rules)

lemma agrees_user_communiques:
  assumes "hosts rand gcm rand' gcm'" and "alike b c" and "same_result r q"
  shows "agrees any_state (\<lambda>x y. length x = length y) (user_communiques rand gcm b r us) (user_communiques rand' gcm' c q us)"
proof (induction us)
  case (Cons u us)
  have graph: "bg_graph b = bg_graph c" "rr_replaced r = rr_replaced q" using assms(2,3) by (simp_all add: alike_def same_result_def)
  show ?case
    by (cases u) (auto simp: graph intro!: agrees_bind [OF agrees_lift_same] agrees_bind [OF agrees_key_at [OF assms(2)]]
        agrees_bind [OF agrees_wrap_path [OF assms(1,2)]] agrees_bind [OF Cons.IH] agrees_return)
qed (auto intro!: agree_rules)

lemma agrees_communiques:
  assumes "hosts rand gcm rand' gcm'" and "alike b c" and "same_result r q"
  shows "agrees any_state (\<lambda>x y. length x = length y) (communiques rand gcm b r strategy) (communiques rand' gcm' c q strategy)"
proof (cases strategy)
  case UserOriented
  moreover have "bg_user_leaves b = bg_user_leaves c" using assms(2) by (simp add: alike_def)
  ultimately show ?thesis
    using agrees_user_communiques [OF assms] by (simp add: communiques_def communiques_user_oriented_def)
next
  case KeyOriented
  then show ?thesis
    using assms(3) by (auto intro!: agrees_return dest: list_all2_lengthD
        simp: communiques_def communiques_key_oriented_def same_result_def)
next
  case GroupOriented
  have "length (fold push_group (rr_messages r) []) = length (fold push_group (rr_messages q) [])"
    using push_group_shape [of "rr_messages r" "rr_messages q" "[]" "[]"] assms(3)
    by (metis length_map same_result_def)
  with GroupOriented show ?thesis
    by (auto intro!: agrees_return simp: communiques_def communiques_group_oriented_def)
qed

lemma agrees_count:
  assumes "hosts rand gcm rand' gcm'" and "alike b c" and "same_result r q"
  shows "agrees any_state (=) (communique_count rand gcm b r strategy) (communique_count rand' gcm' c q strategy)"
proof (rule agreesI)
  fix i j :: nat
  have "rel_prod (rel_sum (=) (\<lambda>x y. length x = length y)) any_state
      (communiques rand gcm b r strategy i) (communiques rand' gcm' c q strategy j)"
    by (rule agreesD [OF agrees_communiques [OF assms]]) (simp add: any_state_def)
  then show "rel_prod (rel_sum (=) (=)) any_state (communique_count rand gcm b r strategy i) (communique_count rand' gcm' c q strategy j)"
    by (cases "communiques rand gcm b r strategy i"; cases "communiques rand' gcm' c q strategy j";
        cases "fst (communiques rand gcm b r strategy i)"; cases "fst (communiques rand' gcm' c q strategy j)")
      (auto simp: communique_count_def)
qed

section \<open>The figures are reproducible\<close>

lemma agrees_broadcast_case:
  assumes "hosts rand gcm rand' gcm'"
  shows "agrees any_state (\<lambda>x y. ts_result x = ts_result y) (broadcast_case rand gcm clock n) (broadcast_case rand' gcm' clock' n)"
proof -
  have items: "alike b c \<Longrightarrow> agrees any_state (\<lambda>x y. length x = length y) (encrypted_data_items rand gcm b) (encrypted_data_items rand' gcm' c)" for b c
    unfolding encrypted_data_items_def by (rule agrees_items [OF assms]) (simp_all add: alike_def)
  show ?thesis
    unfolding broadcast_case_def Let_def
    by (auto intro!: agrees_bind [OF agrees_build [OF assms]] agrees_bind [OF items] agrees_bind [OF agrees_on_built [OF agrees_leave [OF assms]]]
        agrees_bind [OF agrees_count [OF assms]] agrees_return)
qed

lemma study_broadcast_results:
  assumes "hosts rand gcm rand' gcm'"
  shows "map ts_result (study_broadcast rand gcm clock ns i) = map ts_result (study_broadcast rand' gcm' clock' ns j)"
proof (induction ns arbitrary: i j)
  case (Cons n ns)
  have "rel_prod (rel_sum (=) (\<lambda>x y. ts_result x = ts_result y)) any_state
      (broadcast_case rand gcm clock n i) (broadcast_case rand' gcm' clock' n j)"
    by (rule agreesD [OF agrees_broadcast_case [OF assms]]) (simp add: any_state_def)
  then show ?case
    using Cons.IH by (cases "broadcast_case rand gcm clock n i"; cases "broadcast_case rand' gcm' clock' n j";
        cases "fst (broadcast_case rand gcm clock n i)"; cases "fst (broadcast_case rand' gcm' clock' n j)") auto
qed simp

section \<open>Every study is reported\<close>

text \<open>On a graph with a valid key at every node nothing stands in the way of a leave.\<close>

lemma alike_self: "alike b b \<longleftrightarrow> (\<forall>(n, k) \<in> set (bg_keys b). length k = KEY_LEN)"
  by (auto simp: alike_def alike_keys_def key32_def list_all2_same)

lemma alike_keyed: "alike b b \<Longrightarrow> map_of (bg_keys b) n = Some k \<Longrightarrow> length k = KEY_LEN"
  using map_of_SomeD [of "bg_keys b" n k] by (auto simp: alike_self)

lemma items_total:
  assumes "rng_total rand" "gcm_seals gcm" "bg_inv b" "alike b b"
  shows "\<forall>(n, k) \<in> set ks. length k = KEY_LEN \<Longrightarrow> \<exists>items j. items_loop rand gcm b ks i = (Inr items, j)"
proof (induction ks arbitrary: i)
  case (Cons x ks)
  obtain n k where x: "x = (n, k)" "length k = KEY_LEN" using Cons.prems by (cases x) auto
  show ?case
  proof (cases "parent (bg_graph b) n")
    case None
    then show ?thesis using Cons x by simp
  next
    case (Some p)
    then have p: "map_of (bg_keys b) p = Some (key_at b p)" using bg_parent_key [OF assms(3)] by blast
    then obtain w l where "from_cipher (wrap rand gcm k (key_at b p)) i = (Inr w, l)"
      using wrap_total [OF assms(1,2) x(2) alike_keyed [OF assms(4) p]] by metis
    moreover obtain items j where "items_loop rand gcm b ks l = (Inr items, j)" using Cons by fastforce
    ultimately show ?thesis using Some p x by (simp add: op_bind_def op_lift_def op_return_def ok_or_def)
  qed
qed (simp add: op_return_def)

lemma wrap_under_total:
  assumes "rng_total rand" "gcm_seals gcm" "alike b b" "length k = KEY_LEN"
  shows "set cs \<subseteq> dom (map_of (bg_keys b)) \<Longrightarrow> \<exists>ms j. wrap_under rand gcm b n k cs i = (Inr ms, j)"
proof (induction cs arbitrary: i)
  case (Cons c cs)
  then obtain under where u: "map_of (bg_keys b) c = Some under" by auto
  obtain w l where "from_cipher (wrap rand gcm under k) i = (Inr w, l)"
    using wrap_total [OF assms(1,2) alike_keyed [OF assms(3) u] assms(4)] by metis
  moreover obtain ms j where "wrap_under rand gcm b n k cs l = (Inr ms, j)" using Cons by fastforce
  ultimately show ?case using u by (simp add: op_bind_def op_lift_def op_return_def ok_or_def)
qed (simp add: op_return_def)

lemma rotate_total:
  assumes "rng_total rand" "gcm_seals gcm"
  shows "alike b b \<Longrightarrow> \<exists>ms s. rotate_loop rand gcm ns (b, i) = (Inr ms, s)"
proof (induction ns arbitrary: b i)
  case (Cons n ns)
  obtain k where k: "rand i KEY_LEN = Some k" "length k = KEY_LEN" using assms(1) unfolding rng_total_def by metis
  have "set (children_of b n) \<subseteq> dom (map_of (bg_keys b))" by (auto simp: children_of_def dom_map_of_conv_image_fst)
  from wrap_under_total [OF assms Cons.prems k(2) this] obtain ms j where
    ms: "wrap_under rand gcm b n k (children_of b n) (Suc i) = (Inr ms, j)" by blast
  have "alike (b\<lparr>bg_keys := AList.update n k (bg_keys b)\<rparr>) (b\<lparr>bg_keys := AList.update n k (bg_keys b)\<rparr>)"
    using Cons.prems k(2) by (simp add: alike_def alike_keys_update key32_def)
  from Cons.IH [OF this, of j] obtain more_ms s where
    "rotate_loop rand gcm ns (b\<lparr>bg_keys := AList.update n k (bg_keys b)\<rparr>, j) = (Inr more_ms, s)" by blast
  then show ?case using k ms by (simp add: op_bind_def reading_def random_key_def op_return_def)
qed (simp add: op_return_def)

lemma leave_total:
  assumes "rng_total rand" "gcm_seals gcm" "bg_inv b" "alike b b"
    and "map_of (bg_user_leaves b) user = Some leaf" "leaf \<in> node_set b" "leaf \<noteq> 0"
  shows "\<exists>r s. leave rand gcm user (b, i) = (Inr r, s)"
proof -
  have kg: "kg_inv (bg_graph b)" "bounds_ok (g_bounds (bg_graph b))" using assms(3) by (auto simp: bg_inv_def)
  obtain n where n: "map_of (g_nodes (bg_graph b)) leaf = Some n" using assms(6) by (auto simp: node_set_def)
  obtain path where "leaf_to_root (bg_graph b) leaf = Inr path"
    using leaf_to_root_spec [OF kg, of leaf] n by auto
  then obtain as where as: "ancestors_of b leaf = Inr as" by (simp add: ancestors_of_def rbind_def map_err_def)
  obtain g where g: "remove_subtree leaf (bg_graph b) = (Inr (), g)"
    using remove_subtree_run [OF kg(1) n assms(7)] kg(2) by (metis bounds_ok_def)
  let ?b = "b\<lparr>bg_graph := g, bg_user_leaves := AList.delete user (bg_user_leaves b), bg_keys := AList.delete leaf (bg_keys b)\<rparr>"
  have "alike ?b ?b" using assms(4) by (simp add: alike_def alike_keys_delete)
  from rotate_total [OF assms(1,2) this] obtain ms s where "rotate_loop rand gcm as (?b, i) = (Inr ms, s)" by blast
  then show ?thesis
    using assms(5) as g
    by (simp add: leave_def rotate_and_rekey_def op_bind_def reading_def on_graph_def op_lift_def ok_or_def map_err_def op_return_def)
qed

lemma broadcast_case_total:
  assumes "rng_total rand" "gcm_seals gcm" "is_power_of_two n" "1 < n" "n * 4 < usize_bound"
  obtains study j where "broadcast_case rand gcm clock n i = (Inr study, j)" "st_name (ts_result study) = ''broadcast/leave/N='' @ show_u64 n"
proof -
  have "\<And>d n. rand d n \<noteq> None" using assms(1) unfolding rng_total_def by (metis option.distinct(1))
  then obtain b i1 where b: "bcs_build rand [1..<Suc n] i = (Inr b, i1)"
    using broadcast_build [of rand "[1..<Suc n]" i] assms(3,5) by (auto simp del: upt_Suc)
  have inv: "bg_inv b" "1 \<in> dom (map_of (bg_user_leaves b))" "ran (map_of (bg_user_leaves b)) \<subseteq> node_set b - {0}"
    using build_inv [OF b] assms(4) by auto
  then obtain leaf where leaf: "map_of (bg_user_leaves b) 1 = Some leaf" "leaf \<in> node_set b" "leaf \<noteq> 0"
    by (auto simp: ran_def)
  have "hosts rand gcm rand gcm" using assms(1,2) by (simp add: hosts_def)
  from agreesD [OF agrees_build [OF this], of i i "[1..<Suc n]"] b have alike: "alike b b" by (simp add: any_state_def)
  then obtain items i2 where items: "encrypted_data_items rand gcm b i1 = (Inr items, i2)"
    using items_total [OF assms(1,2) inv(1) alike, of "bg_keys b" i1] by (auto simp: encrypted_data_items_def alike_self)
  obtain r c i3 where l: "leave rand gcm 1 (b, i2) = (Inr r, (c, i3))"
    using leave_total [OF assms(1,2) inv(1) alike leaf] by (metis surj_pair)
  have count: "\<exists>k j. communique_count rand gcm c r strategy i = (Inr k, j)" for strategy i
    by (auto simp: communique_count_def split: prod.splits sum.splits)
  obtain u i4 where "communique_count rand gcm c r UserOriented i3 = (Inr u, i4)" using count by blast
  moreover obtain k i5 where "communique_count rand gcm c r KeyOriented i4 = (Inr k, i5)" using count by blast
  moreover obtain g i6 where "communique_count rand gcm c r GroupOriented i5 = (Inr g, i6)" using count by blast
  ultimately have "broadcast_case rand gcm clock n i = (Inr \<lparr>ts_result = \<lparr>st_name = ''broadcast/leave/N='' @ show_u64 n,
      st_counts = [length items, u, k, g]\<rparr>, ts_latency_micros = clock (''broadcast/leave/N='' @ show_u64 n)\<rparr>, i6)"
    using b items l by (simp add: broadcast_case_def op_bind_def on_built_def op_return_def Let_def)
  then show ?thesis by (rule that) simp
qed

lemma power_of_two_sizes: "is_power_of_two 8" "is_power_of_two 16" "is_power_of_two 64" "is_power_of_two 256" "is_power_of_two 1024"
  by (simp_all add: is_power_of_two_def trailing_zeros.simps)

lemma study_broadcast_names:
  assumes "rng_total rand" "gcm_seals gcm"
  shows "\<forall>n \<in> set ns. is_power_of_two n \<and> 1 < n \<and> n * 4 < usize_bound \<Longrightarrow>
    map (st_name \<circ> ts_result) (study_broadcast rand gcm clock ns i) = map (\<lambda>n. ''broadcast/leave/N='' @ show_u64 n) ns"
proof (induction ns arbitrary: i)
  case (Cons n ns)
  have n: "is_power_of_two n" "1 < n" "n * 4 < usize_bound" using Cons.prems by auto
  obtain study j where "broadcast_case rand gcm clock n i = (Inr study, j)" "st_name (ts_result study) = ''broadcast/leave/N='' @ show_u64 n"
    by (rule broadcast_case_total [OF assms n])
  then show ?case using Cons by simp
qed simp

lemma study_overlay_names: "map (st_name \<circ> ts_result) (study_overlay hm sc cv clock ns) = map (\<lambda>n. ''overlay/resolve/N='' @ show_u64 n) ns"
  by (simp add: study_overlay_def Let_def)

text \<open>C39 [bench_counts_reproducible] The figures of the studies do not depend on the host: whatever the random
  numbers, the cipher, the clock and the position of the generator, as long as draws and sealing do
  not fail, all studies are reported, under their names in order, and with the same counts.\<close>

theorem bench_counts_reproducible:
  assumes "rng_total rand" "gcm_seals gcm" "rng_total rand'" "gcm_seals gcm'"
  shows "deterministic_results hm sc cv rand gcm clock full i = deterministic_results hm sc cv rand' gcm' clock' full j
    \<and> map st_name (deterministic_results hm sc cv rand gcm clock full i) =
        map (\<lambda>n. ''overlay/resolve/N='' @ show_u64 n) (if full then [1024, 16384, 262144] else [64, 256])
        @ map (\<lambda>n. ''broadcast/leave/N='' @ show_u64 n) (if full then [64, 256, 1024] else [8, 16])
        @ [''subscription/offchain-vs-onblock'']"
proof
  have "hosts rand gcm rand' gcm'" using assms by (simp add: hosts_def)
  from study_broadcast_results [OF this, of clock _ i clock' j]
  show "deterministic_results hm sc cv rand gcm clock full i = deterministic_results hm sc cv rand' gcm' clock' full j"
    by (simp add: deterministic_results_def run_all_studies_def study_overlay_def study_subscription_def Let_def)
  let ?sizes = "if full then [64, 256, 1024] else [8, 16 :: nat]"
  have "\<forall>n \<in> set ?sizes. is_power_of_two n \<and> 1 < n \<and> n * 4 < usize_bound"
    using power_of_two_sizes by (simp add: usize_bound_def)
  from study_broadcast_names [OF assms(1,2) this, of clock i]
  show "map st_name (deterministic_results hm sc cv rand gcm clock full i) =
        map (\<lambda>n. ''overlay/resolve/N='' @ show_u64 n) (if full then [1024, 16384, 262144] else [64, 256])
        @ map (\<lambda>n. ''broadcast/leave/N='' @ show_u64 n) ?sizes @ [''subscription/offchain-vs-onblock'']"
    unfolding deterministic_results_def run_all_studies_def Let_def map_append map_map study_overlay_names
    by (simp add: study_subscription_def Let_def)
qed

theorem bench_counts_reproducible_witness:
  "deterministic_results toy_hmac toy_scalars toy_group (\<lambda>i n. Some (replicate n 0)) toy_gcm (\<lambda>_. 3) False 0
     = deterministic_results toy_hmac toy_scalars toy_group (\<lambda>i n. Some (replicate n (word_of_nat i))) toy_gcm (\<lambda>_. 90) False 7"
  by (rule bench_counts_reproducible [THEN conjunct1]) (simp_all add: rng_total_def gcm_seals_def toy_gcm_def)

text \<open>The counts of the subscription study.\<close>

lemma subscription_counts: "map ts_result (study_subscription clock 1000 100)
    = [\<lparr>st_name = ''subscription/offchain-vs-onblock'', st_counts = [10, 1, 10, 10]\<rparr>]"
  by (simp add: study_subscription_def subscription_new_def sessions_funded_def Let_def)

end
