(* ===== verification/Spec2Isabelle.thy ===== *)
theory Spec2Isabelle
  imports Server Gates Signer Bench
begin

text \<open>
  A verification library for the overlay broadcast system (\<^verbatim>\<open>crates/\<close>).

  \<^bold>\<open>The program.\<close> The \<^verbatim>\<open>bsv\<close> crate reads and writes transactions, scripts, block headers and Merkle
  proofs and talks to a node. \<^verbatim>\<open>ckd\<close> derives keys, \<^verbatim>\<open>cipher\<close> encrypts and wraps them, \<^verbatim>\<open>keygraph\<close>
  keeps a bounded tree of key nodes. On these, \<^verbatim>\<open>broadcast\<close> runs broadcast encryption with rekeying,
  \<^verbatim>\<open>session\<close> builds and signs session transactions, and \<^verbatim>\<open>overlay\<close> writes a graph of data-storage
  transactions. \<^verbatim>\<open>custody\<close> shares keys and signs with a threshold, \<^verbatim>\<open>kst\<close> stores keys in encrypted
  files, \<^verbatim>\<open>res\<close> makes submission resilient, \<^verbatim>\<open>cmp\<close> keeps the audit log, and \<^verbatim>\<open>api\<close> is the boundary
  through which callers reach a backend. \<^verbatim>\<open>server\<close> puts the boundary behind HTTP, with \<^verbatim>\<open>node\<close> as its
  JSON-RPC client and \<^verbatim>\<open>obs\<close> for readiness and metrics; \<^verbatim>\<open>cli\<close> runs the components from a command
  line. \<^verbatim>\<open>secmem\<close> holds the secrets of all of them, \<^verbatim>\<open>bench\<close> measures and \<^verbatim>\<open>xtask\<close> gates the repository.

  \<^bold>\<open>Conventions.\<close> Machine words keep their width; \<open>usize\<close> and \<open>u64\<close> counters are numbers below
  \<open>usize_bound\<close> with the checked operations of \<^theory_text>\<open>Prelude\<close>. \<open>Result\<close> is a sum with the error on the
  left; an operation that changes its receiver maps a state to a result and the new state, also when
  it fails. Hash maps are association lists, whose order stands for the iteration order. Digests,
  ciphers, curves, signatures, random numbers and transports come from other crates: they are
  parameters, with what the code relies on as the predicates \<open>digest_len\<close>, \<open>collision_free\<close>,
  \<open>gcm_law\<close>, \<open>curve_law\<close>, \<open>scalar_law\<close>, \<open>ecdsa_law\<close>, \<open>group_law\<close>, \<open>big_law\<close> (the primes and inverses
  of the big-number crate), \<open>scalar_nat_law\<close> (scalars as numbers below the group order) and \<open>dsa_law\<close>
  (what the verifier of a signature accepts). The JSON parser is \<open>serde\<close>, the HTTP agent \<open>http_post\<close>, the
  metrics registry \<open>prometheus\<close>; \<open>libs\<close> and \<open>primitives\<close> bundle the parameters of the server and of the
  command line, \<open>key_encoding\<close> and \<open>key_link\<close> say that both crates that encode a public key agree. The
  host that allocates, pins and zeroises memory is \<open>host\<close> with \<open>host_law\<close>, writing to the file system
  \<open>fs_ops\<close>. The scalars of custody are any
  type of class \<open>field\<close>; the password hash of the key store, the backend of the service and the time
  it takes are functions without any assumption.

  \<^bold>\<open>Theories.\<close>
  \<^item> \<^theory_text>\<open>Prelude\<close>: results, operations, checked arithmetic, byte encodings and the lemma collections.
  \<^item> \<^theory_text>\<open>Bytes\<close> (\<^verbatim>\<open>bytes.rs\<close>), \<^theory_text>\<open>Hashing\<close> (\<^verbatim>\<open>hash.rs\<close>, \<^verbatim>\<open>txid.rs\<close>), \<^theory_text>\<open>Script\<close> (\<^verbatim>\<open>script.rs\<close>) and
    \<^theory_text>\<open>Transaction\<close> (\<^verbatim>\<open>transaction.rs\<close>, \<^verbatim>\<open>datacarrier.rs\<close>): the locale \<open>codec\<close> gives prefix-freeness and
    injectivity of every encoding; parsers are shown to invert serialisers and to accept only
    well-formed data.
  \<^item> \<^theory_text>\<open>Sighash\<close> (\<^verbatim>\<open>sighash.rs\<close>): the digest commits to exactly the view that its type names.
  \<^item> \<^theory_text>\<open>Header\<close>, \<^theory_text>\<open>HeaderChain\<close>, \<^theory_text>\<open>Merkle\<close> (files of the same names): proof of work, the chain as
    an append-only trust root, completeness and soundness of inclusion proofs.
  \<^item> \<^theory_text>\<open>NodeClient\<close> (\<^verbatim>\<open>nodeclient.rs\<close>): untrusted responses, with the text functions of the standard
    library that the parser uses.
  \<^item> \<^theory_text>\<open>KeyGraph\<close> (\<^verbatim>\<open>keygraph\<close>): the tree invariant of every reachable graph, exact effects of the
    operations, termination of the path and removal loops.
  \<^item> \<^theory_text>\<open>Cipher\<close> (\<^verbatim>\<open>cipher\<close>): nonces never repeat; what is sealed opens.
  \<^item> \<^theory_text>\<open>Broadcast\<close> (\<^verbatim>\<open>broadcast\<close>): eligible users decrypt, leaving and joining rekey, packagings agree.
  \<^item> \<^theory_text>\<open>Ckd\<close> (\<^verbatim>\<open>ckd\<close>): private and public derivation agree; paths of positions; strict signatures.
  \<^item> \<^theory_text>\<open>Session\<close> (\<^verbatim>\<open>session\<close>): signing a whole session, scopes of signatures, subscriptions, envelopes.
  \<^item> \<^theory_text>\<open>Overlay\<close> (\<^verbatim>\<open>overlay\<close>): written nodes are authorised and recorded once.
  \<^item> \<^theory_text>\<open>Machines\<close>: saturating counters, runs of a step function and the locale \<open>machine_refinement\<close>,
    which lifts a simulation of single steps to runs. \<^theory_text>\<open>Resilience\<close> (\<^verbatim>\<open>res\<close>) interprets it three times:
    the circuit breaker refines its history of outcomes, resubmission the set of submitted ids, the
    shutdown counter the multiset of running operations.
  \<^item> \<^theory_text>\<open>AuditChain\<close> (\<^verbatim>\<open>cmp\<close>): the locale \<open>hash_chain\<close> shows that a head hash fixes every record; it is
    interpreted for the audit log here and for the key life cycle in \<^theory_text>\<open>Custody\<close> (\<^verbatim>\<open>lifecycle.rs\<close>,
    \<^verbatim>\<open>echo.rs\<close>), which also shows that the echo round names equivocators and only them.
  \<^item> \<^theory_text>\<open>Api\<close> (\<^verbatim>\<open>api\<close>): which requests are admitted, replay, rate limit, what a signature binds.
  \<^item> \<^theory_text>\<open>Interpolation\<close>: Lagrange interpolation over a field; \<^theory_text>\<open>Gf256\<close>: the bytes of \<^verbatim>\<open>shamir256.rs\<close>
    are a field; \<^theory_text>\<open>SeedBackup\<close>: enough shares give the seed, too few are consistent with every seed;
    \<^theory_text>\<open>KeyStore\<close> (\<^verbatim>\<open>kst\<close>): the encrypted store, export, backup and restore.
  \<^item> \<^theory_text>\<open>Threshold\<close> (\<^verbatim>\<open>shamir.rs\<close>, \<^verbatim>\<open>threshold.rs\<close>, \<^verbatim>\<open>reconstruction.rs\<close>, \<^verbatim>\<open>type7.rs\<close>): a quorum of honest
    parties signs validly, a wrong partial signature is attributed.
  \<^item> \<^theory_text>\<open>NumberTheory\<close>: Fermat's theorem, coprime moduli, powers modulo a square. \<^theory_text>\<open>Paillier\<close>
    (\<^verbatim>\<open>paillier.rs\<close>) interprets the locale \<open>additive_encryption\<close>: decryption inverts encryption, also of
    sums and multiples. \<^theory_text>\<open>MtaProofs\<close> (\<^verbatim>\<open>rangeproof.rs\<close>, \<^verbatim>\<open>modulusproof.rs\<close>) interprets the locale
    \<open>retried_proof\<close> for both range proofs: what an honest prover makes is accepted. \<^theory_text>\<open>Field5\<close> is a small
    field for the witnesses. \<^theory_text>\<open>Gg20\<close> (\<^verbatim>\<open>gg20.rs\<close>): a signature that honest parties finish verifies
    under the group key, and a fault names the party whose proof failed.
  \<^item> \<^theory_text>\<open>NodeRpc\<close> (\<^verbatim>\<open>node\<close>): what a submission posts and which replies it accepts. \<^theory_text>\<open>Observability\<close>
    (\<^verbatim>\<open>obs\<close>): readiness, instruments, redaction. \<^theory_text>\<open>Server\<close> (\<^verbatim>\<open>server\<close>): the JSON form of a request, the
    router over the boundary, start-up and the request loop; a started server knows no caller.
  \<^item> \<^theory_text>\<open>Cli\<close> (\<^verbatim>\<open>cli\<close>): every command, the self-test and the vectors; the commands that check themselves
    never report a mismatch, and a layer of the self-test fails only for what the host lacks.
  \<^item> \<^theory_text>\<open>SecretMemory\<close> (\<^verbatim>\<open>secmem\<close>): containers over an explicit memory; the locale \<open>secure_random\<close> is what
    they rely on of a source, interpreted for the deterministic one. No run leaves a byte of a dropped
    secret behind. \<^theory_text>\<open>Signer\<close> (\<^verbatim>\<open>cipher/src/sign.rs\<close>): a signer over such a container.
  \<^item> \<^theory_text>\<open>Bench\<close> (\<^verbatim>\<open>bench\<close>): the figures of the studies are the same on any two hosts, by a relational
    argument with one rule per way of composing operations.
  \<^item> \<^theory_text>\<open>Gates\<close> (\<^verbatim>\<open>xtask\<close>): the walk over the tree finds exactly the tracked text files, the banned-token
    gate passes exactly when none offends, and the bill of materials lists the locked packages.

  \<^bold>\<open>Loops.\<close> The loops of the key graph carry the code's own step bound (\<open>max_nodes\<close>, \<open>max_depth\<close>);
  the theorems show that the bound is never what stops them on a reachable graph. The ephemeral key
  loop makes the code's eight attempts, the draws of nonzero scalars sixteen and the range proofs
  thirty-two. The challenge buffer of the modulus proof is given as many rounds as it has bytes, and
  is shown to be filled by then. The search for a second prime has no bound in the code: it is a
  partial function, and it is shown to return whenever the generator offers another prime. All other
  recursions terminate by structure or length.

  The scan for function sizes advances at least one line each time.

  \<^bold>\<open>Not modelled.\<close> The argument parser of the command line and the installation of a log subscriber are
  calls of third-party crates. Tests and fuzz targets only call what is modelled. Timing is
  not modelled, so the comparison of secrets is constant-time by assumption only. That a dishonest
  prover is caught is a statement about probabilities and is not made here.
\<close>

section \<open>Properties that span components\<close>

text \<open>
  C17 [answers_anchored] The service and the header chain together: if the chain of the service was built
  by submitting headers, a chain-terminating answer is returned only when a header of the chain, which
  met its proof-of-work target, commits to the root of the answer.
\<close>

theorem answers_anchored:
  assumes "(chain_step sha)\<^sup>*\<^sup>* (chain_new start) (as_header_chain s)"
    and "api_handle ds sha exec elapsed r now s = (Inr data, t)"
    and "fst (exec (rq_operation r) (rq_payload r) (as_backend s)) = Inr response" "or_chain_root response = Some claimed"
  shows "\<exists>header \<in> set (hc_headers (as_header_chain s)). bh_merkle_root header = claimed \<and> meets_target sha header \<and>
    data = or_data response"
proof -
  have terminated: "contains_merkle_root (as_header_chain s) claimed \<noteq> None" and "data = or_data response"
    using handle_answer [OF assms(2,3)] assms(4) by auto
  moreover obtain header where "header \<in> set (hc_headers (as_header_chain s))" "bh_merkle_root header = claimed"
    "meets_target sha header"
    using contained_root_header [OF assms(1) terminated] by blast
  ultimately show ?thesis by blast
qed

theorem answers_anchored_witness:
  "\<exists>header \<in> set [ex_header zero_hash zero_hash]. bh_merkle_root header = zero_hash \<and> meets_target len_digest header"
proof -
  let ?h = "ex_header zero_hash zero_hash"
  let ?c = "pushed ?h (chain_new 7)"
  let ?s = "ex_service\<lparr>as_header_chain := ?c\<rparr>"
  let ?r = "ex_request\<lparr>rq_operation := Health\<rparr>"
  let ?exec = "\<lambda>_ payload b. (Inr (response_chain_terminating payload zero_hash), b)"
  have "chain_add len_digest ?h (chain_new 7) = (Inr (), ?c)"
    by (simp add: chain_add_Inr chain_new_def usize_bound_def ex_header_target)
  then have reach: "(chain_step len_digest)\<^sup>*\<^sup>* (chain_new 7) ?c" by (blast intro: chain_step.add)
  have "contains_merkle_root ?c zero_hash \<noteq> None"
    by (simp add: contains_merkle_root_def chain_new_def ex_header_def)
  then have "fst (api_handle toy_dsa len_digest ?exec 2 ?r 30 ?s) = Inr [1, 0x1f, 2]"
    by (simp add: api_handle_def execute_audited_def op_bind_def op_return_def ex_request_def ex_service_def ex_config_def
        requires_auth_def response_chain_terminating_def audit_log_record_def is_ok_def assert_terminates_def split: option.splits)
  then have "api_handle toy_dsa len_digest ?exec 2 ?r 30 ?s
      = (Inr [1, 0x1f, 2], snd (api_handle toy_dsa len_digest ?exec 2 ?r 30 ?s))"
    by (simp add: prod_eq_iff)
  from answers_anchored [OF _ this, of 7 _ zero_hash] reach show ?thesis
    by (simp add: response_chain_terminating_def chain_new_def)
qed

end
